(* ===== verification/Prelude.thy ===== *)
theory Prelude
  imports Complex_Main "HOL-Library.Word" "HOL-Library.Multiset"
begin

text \<open>
  Shared vocabulary of the development: Go's 64-bit integers with their wrap-around written
  out, the part of \<^verbatim>\<open>strconv\<close> the program uses, error values with
  \<^verbatim>\<open>errors.Is\<close>, and generic lemmas on lists and maps. The collections below gather the
  facts that the component theories hand to the simplifier.
\<close>

named_theorems lua_defs
  \<comment> \<open>definitions of the Lua scripts and of the local functions they share\<close>

named_theorems go_defs
  \<comment> \<open>definitions of the Go methods\<close>

named_theorems view_simps
  \<comment> \<open>what each server command does to the abstract view of the data\<close>

type_synonym fields = "(string \<times> string) list"
type_synonym entry = "string \<times> fields"

section \<open>Go's 64-bit signed integers\<close>

text \<open>
  Go's \<^verbatim>\<open>int\<close> and \<^verbatim>\<open>int64\<close> are kept as \<^typ>\<open>int\<close>; every arithmetic
  operation whose overflow matters is followed by \<open>wrap64\<close>.
\<close>

definition wrap64 :: "int \<Rightarrow> int" where
  "wrap64 x = (x + 2 ^ 63) mod 2 ^ 64 - 2 ^ 63"

definition is_int64 :: "int \<Rightarrow> bool" where
  "is_int64 x \<longleftrightarrow> - (2 ^ 63) \<le> x \<and> x < 2 ^ 63"

lemma wrap64_id [simp]: "is_int64 x \<Longrightarrow> wrap64 x = x"
  by (simp add: is_int64_def wrap64_def)

lemma is_int64_wrap64 [simp]: "is_int64 (wrap64 x)"
  by (simp add: is_int64_def wrap64_def)

lemma is_int64I [intro]: "- (2 ^ 63) \<le> x \<Longrightarrow> x < 2 ^ 63 \<Longrightarrow> is_int64 x"
  by (simp add: is_int64_def)

lemma sint_word_of_int64: "is_int64 x \<Longrightarrow> sint (word_of_int x :: 64 word) = x"
  by (simp add: sint_sbintrunc' signed_take_bit_int_eq_self is_int64_def)

lemma wrap64_sint: "wrap64 x = sint (word_of_int x :: 64 word)"
  by (simp add: wrap64_def int_word_sint)

section \<open>The part of strconv the program uses\<close>

definition digit_char :: "nat \<Rightarrow> char" where
  "digit_char d = char_of (48 + d)"

definition is_digit :: "char \<Rightarrow> bool" where
  "is_digit c \<longleftrightarrow> 48 \<le> (of_char c :: nat) \<and> (of_char c :: nat) \<le> 57"

definition digit_val :: "char \<Rightarrow> nat" where
  "digit_val c = of_char c - 48"

fun nat_digits :: "nat \<Rightarrow> string" where
  "nat_digits n = (if n < 10 then [digit_char n] else nat_digits (n div 10) @ [digit_char (n mod 10)])"

declare nat_digits.simps [simp del]

text \<open>\<^verbatim>\<open>strconv.Itoa\<close> and \<^verbatim>\<open>strconv.FormatInt(x, 10)\<close>.\<close>

definition itoa :: "int \<Rightarrow> string" where
  "itoa i = (if i < 0 then CHR ''-'' # nat_digits (nat (- i)) else nat_digits (nat i))"

fun scan_digits :: "nat \<Rightarrow> string \<Rightarrow> nat option" where
  "scan_digits acc [] = Some acc"
| "scan_digits acc (c # cs) = (if is_digit c then scan_digits (10 * acc + digit_val c) cs else None)"

text \<open>
  \<^verbatim>\<open>strconv.Atoi\<close>: an optional sign, at least one decimal digit, and a value that fits
  a 64-bit \<^verbatim>\<open>int\<close>; anything else is an error (\<^term>\<open>None\<close>).
\<close>

definition unsigned_digits :: "string \<Rightarrow> int option" where
  "unsigned_digits s = (if s = [] then None else map_option int (scan_digits 0 s))"

definition atoi :: "string \<Rightarrow> int option" where
  "atoi s =
     (let r = (case s of
                 [] \<Rightarrow> None
               | c # cs \<Rightarrow>
                   if c = CHR ''-'' then map_option uminus (unsigned_digits cs)
                   else if c = CHR ''+'' then unsigned_digits cs
                   else unsigned_digits s)
      in case r of None \<Rightarrow> None | Some n \<Rightarrow> if is_int64 n then Some n else None)"

lemma of_char_digit_char [simp]: "d < 10 \<Longrightarrow> (of_char (digit_char d) :: nat) = 48 + d"
  by (simp add: digit_char_def)

lemma is_digit_digit_char [simp]: "d < 10 \<Longrightarrow> is_digit (digit_char d)"
  by (simp add: is_digit_def)

lemma digit_val_digit_char [simp]: "d < 10 \<Longrightarrow> digit_val (digit_char d) = d"
  by (simp add: digit_val_def)

lemma scan_digits_append:
  "scan_digits acc (xs @ ys) = (case scan_digits acc xs of None \<Rightarrow> None | Some n \<Rightarrow> scan_digits n ys)"
  by (induction acc xs rule: scan_digits.induct) auto

lemma nat_digits_nonempty [simp]: "nat_digits n \<noteq> []"
  by (subst nat_digits.simps) simp

lemma nat_digits_all_digits: "c \<in> set (nat_digits n) \<Longrightarrow> is_digit c"
proof (induction n rule: nat_digits.induct)
  case (1 n)
  then show ?case
    by (cases "n < 10") (auto simp: nat_digits.simps [of n])
qed

lemma scan_nat_digits: "scan_digits 0 (nat_digits n) = Some n"
proof (induction n rule: nat_digits.induct)
  case (1 n)
  then show ?case
    by (cases "n < 10") (simp_all add: nat_digits.simps [of n] scan_digits_append)
qed

lemma nat_digits_hd:
  assumes "nat_digits n = c # cs" shows "c \<noteq> CHR ''-''" and "c \<noteq> CHR ''+''"
proof -
  have "is_digit c"
    using nat_digits_all_digits [of c n] assms by simp
  then show "c \<noteq> CHR ''-''" and "c \<noteq> CHR ''+''"
    by (auto simp: is_digit_def)
qed

lemma atoi_itoa [simp]: "is_int64 i \<Longrightarrow> atoi (itoa i) = Some i"
proof (cases "i < 0")
  case True
  then show "is_int64 i \<Longrightarrow> ?thesis"
    by (simp add: atoi_def itoa_def unsigned_digits_def scan_nat_digits)
next
  case False
  obtain c cs where d: "nat_digits (nat i) = c # cs"
    by (cases "nat_digits (nat i)") simp_all
  with nat_digits_hd [OF d] False scan_nat_digits [of "nat i"] show "is_int64 i \<Longrightarrow> ?thesis"
    by (simp add: atoi_def itoa_def unsigned_digits_def)
qed

lemma nat_digits_inj: "nat_digits m = nat_digits n \<Longrightarrow> m = n"
  using scan_nat_digits by (metis option.inject)

lemma itoa_inj: "itoa a = itoa b \<longleftrightarrow> a = b"
proof
  have sign: "nat_digits m \<noteq> CHR ''-'' # xs" for m xs
    using nat_digits_hd(1) by blast
  assume "itoa a = itoa b"
  then show "a = b"
    using sign sign [symmetric] nat_digits_inj by (fastforce simp: itoa_def split: if_splits)
qed simp

lemma itoa_nonempty [simp]: "itoa i \<noteq> []"
  by (simp add: itoa_def)

section \<open>Errors\<close>

text \<open>
  The sentinel errors of \<^verbatim>\<open>queue/errors.go\<close>, the shutdown cause of
  \<^verbatim>\<open>queue/worker.go\<close>, errors that come from outside (a failed round trip, a
  marshalling failure, a cancelled context) and \<^verbatim>\<open>fmt.Errorf\<close> values that wrap
  another error with text before it or after it, or none.
\<close>

datatype err =
    ErrNotImplemented
  | ErrUnknownTask
  | ErrInvalidJob
  | ErrLeaseLost
  | ErrShutdown
  | ErrCanceled
  | ErrExternal string
  | ErrorString string
  | Wrapped string err
  | Suffixed err string

text \<open>\<^verbatim>\<open>errors.Is\<close> looks through the chain of wrapped errors.\<close>

fun errors_Is :: "err \<Rightarrow> err \<Rightarrow> bool" where
  "errors_Is (Wrapped m e) target = (Wrapped m e = target \<or> errors_Is e target)"
| "errors_Is (Suffixed e m) target = (Suffixed e m = target \<or> errors_Is e target)"
| "errors_Is e target = (e = target)"

section \<open>Lists and maps\<close>

lemma map_of_filter_fst:
  "map_of (filter (\<lambda>p. P (fst p)) xs) k = (if P k then map_of xs k else None)"
  by (induction xs) auto

lemma distinct_map_fst_filter [simp]: "distinct (map fst xs) \<Longrightarrow> distinct (map fst (filter P xs))"
  by (rule distinct_map_filter)

lemma fst_set_filter: "fst ` set (filter (\<lambda>p. P (fst p)) xs) = {k \<in> fst ` set xs. P k}"
  by auto

lemma map_of_append_fresh:
  "k \<notin> fst ` set xs \<Longrightarrow> map_of (xs @ [(k, v)]) = (map_of xs)(k \<mapsto> v)"
  by (induction xs) auto

lemma map_of_Some_fst: "map_of xs k = Some v \<Longrightarrow> k \<in> fst ` set xs"
  by (metis domI dom_map_of_conv_image_fst)

lemma restrict_map_drop: "(m(j := None)) |` (- A) = m |` (- insert j A)"
  by (auto simp: restrict_map_def fun_eq_iff)

end
