(* ===== verification/Jobs.thy ===== *)
theory Jobs
  imports Prelude
begin

unbundle bit_operations_syntax

text \<open>
  \<^verbatim>\<open>queue/job.go\<close>: the job, its lease, the result of a handler, validation, the
  attempt budget and the fencing token. Times are nanoseconds since the Unix epoch.
\<close>

section \<open>Data\<close>

record lease =
  MessageID :: string
  Owner :: string
  Token :: int
  Partition :: int

definition no_lease :: lease where
  "no_lease = \<lparr>MessageID = [], Owner = [], Token = 0, Partition = 0\<rparr>"

record job =
  ID :: string
  Task :: string
  Payload :: string
  Attempt :: int
  MaxAttempts :: int
  TraceParent :: string
  CreatedAt :: int
  AvailableAt :: int
  IdempotencyKey :: string
  Lease :: lease

record EnqueueOptions =
  oMaxAttempts :: int
  oDelay :: int
  oIdempotencyKey :: string

text \<open>A handler's result; the error is absent (Go's nil) when the run succeeded.\<close>

record JobResult =
  Retryable :: bool
  Err :: "err option"

definition NewRetryableError :: "err \<Rightarrow> JobResult" where
  "NewRetryableError e = \<lparr>Retryable = True, Err = Some e\<rparr>"

definition NewPermanentError :: "err \<Rightarrow> JobResult" where
  "NewPermanentError e = \<lparr>Retryable = False, Err = Some e\<rparr>"

section \<open>Methods of Job\<close>

definition Validate :: "job \<Rightarrow> err option" where
  "Validate j =
     (if Task j = [] \<or> length (Payload j) = 0 then Some ErrInvalidJob
      else if MaxAttempts j \<le> 0 then Some ErrInvalidJob
      else None)"

definition Exhausted :: "job \<Rightarrow> bool" where
  "Exhausted j \<longleftrightarrow> wrap64 (Attempt j + 1) \<ge> MaxAttempts j"

text \<open>
  The token is computed on 64-bit words: the attempt is shifted into the upper half and the
  delivery count is or-ed into the lower half.
\<close>

definition FencingToken :: "job \<Rightarrow> int" where
  "FencingToken j =
     sint (push_bit 32 (word_of_int (Attempt j) :: 64 word) OR (word_of_int (Token (Lease j)) :: 64 word))"

section \<open>Hexadecimal job identifiers\<close>

text \<open>
  \<^verbatim>\<open>NewJobID\<close> draws 16 random bytes and prints them in lower-case hexadecimal. The
  bytes are the argument of the model.
\<close>

definition hex_digit :: "nat \<Rightarrow> char" where
  "hex_digit d = (if d < 10 then char_of (48 + d) else char_of (87 + d))"

definition EncodeToString :: "8 word list \<Rightarrow> string" where
  "EncodeToString bs = concat (map (\<lambda>b. [hex_digit (unat b div 16), hex_digit (unat b mod 16)]) bs)"

definition NewJobID :: "8 word list \<Rightarrow> string" where
  "NewJobID rnd = EncodeToString (take 16 rnd)"

section \<open>Lemmas\<close>

lemma hex_digit_inj: "a < 16 \<Longrightarrow> b < 16 \<Longrightarrow> hex_digit a = hex_digit b \<Longrightarrow> a = b"
proof -
  assume a: "a < 16" "b < 16" "hex_digit a = hex_digit b"
  then have "(of_char (hex_digit a) :: nat) = of_char (hex_digit b)" by simp
  with a(1,2) show "a = b"
    by (auto simp: hex_digit_def split: if_splits)
qed

lemma length_EncodeToString: "length (EncodeToString bs) = 2 * length bs"
  by (induction bs) (simp_all add: EncodeToString_def)

lemma EncodeToString_inj: "EncodeToString xs = EncodeToString ys \<Longrightarrow> xs = ys"
proof (induction xs arbitrary: ys)
  case Nil
  then show ?case
    by (cases ys) (simp_all add: EncodeToString_def)
next
  case (Cons x xs)
  then obtain y ys' where ys: "ys = y # ys'"
    by (cases ys) (simp_all add: EncodeToString_def)
  have u: "unat x < 256" "unat y < 256"
    using unsigned_less [of x] unsigned_less [of y] by simp_all
  from Cons.prems ys
  have eq: "hex_digit (unat x div 16) = hex_digit (unat y div 16)"
       "hex_digit (unat x mod 16) = hex_digit (unat y mod 16)"
    and rest: "EncodeToString xs = EncodeToString ys'"
    by (simp_all add: EncodeToString_def)
  have "unat x div 16 = unat y div 16" "unat x mod 16 = unat y mod 16"
    by (rule hex_digit_inj [OF _ _ eq(1)], use u in simp_all, rule hex_digit_inj [OF _ _ eq(2)], simp_all)
  then have "unat x = unat y"
    by (metis div_mult_mod_eq)
  then have "x = y" by (rule unsigned_word_eqI)
  with Cons.IH [OF rest] ys show ?case by simp
qed

lemma NewJobID_nonempty: "length rnd \<ge> 16 \<Longrightarrow> NewJobID rnd \<noteq> []"
  by (metis NewJobID_def length_EncodeToString length_take list.size(3) min.absorb2 mult_eq_0_iff
      zero_neq_numeral)

text \<open>
  While the attempt and the delivery count fit their halves the token is the number that has
  the attempt as its upper and the count as its lower 32 bits.
\<close>

lemma FencingToken_value:
  assumes a: "0 \<le> Attempt j" "Attempt j < 2 ^ 31"
    and t: "0 \<le> Token (Lease j)" "Token (Lease j) < 2 ^ 32"
  shows "FencingToken j = Attempt j * 2 ^ 32 + Token (Lease j)"
proof -
  let ?a = "word_of_int (Attempt j) :: 64 word" and ?t = "word_of_int (Token (Lease j)) :: 64 word"
  let ?v = "Attempt j * 2 ^ 32 + Token (Lease j)"
  have disj: "push_bit 32 ?a AND ?t = 0"
  proof (rule bit_word_eqI)
    fix n assume "n < LENGTH(64)"
    have "\<not> bit (Token (Lease j)) n" if "32 \<le> n"
    proof -
      have "take_bit 32 (Token (Lease j)) = Token (Lease j)"
        using t by (simp add: take_bit_int_eq_self)
      then have "bit (Token (Lease j)) n \<longleftrightarrow> bit (take_bit 32 (Token (Lease j))) n"
        by simp
      with that show ?thesis by (simp add: bit_take_bit_iff)
    qed
    then show "bit (push_bit 32 ?a AND ?t) n = bit (0 :: 64 word) n"
      by (auto simp: bit_and_iff bit_push_bit_iff bit_word_of_int_iff)
  qed
  then have "push_bit 32 ?a OR ?t = push_bit 32 ?a + ?t"
    by (simp add: disjunctive_add_eq_or)
  also have "\<dots> = word_of_int ?v"
    by (simp add: push_bit_eq_mult)
  finally have eq: "FencingToken j = sint (word_of_int ?v :: 64 word)"
    by (simp add: FencingToken_def)
  have "Attempt j * 2 ^ 32 \<le> (2 ^ 31 - 1) * 2 ^ 32"
    using a by (intro mult_right_mono) simp_all
  with a t have "0 \<le> ?v" "?v < 2 ^ 63"
    by simp_all
  then have "sint (word_of_int ?v :: 64 word) = ?v"
    by (intro sint_word_of_int64 is_int64I) simp_all
  with eq show ?thesis by (rule trans)
qed

text \<open>
  C38. Fencing tokens order every run of a job: within the ranges of attempts and delivery
  counts, a token is smaller exactly when the run belongs to an earlier attempt, or to the
  same attempt with an earlier delivery.
\<close>

theorem FencingToken_lex:
  assumes "0 \<le> Attempt j" "Attempt j < 2 ^ 31" "0 \<le> Token (Lease j)" "Token (Lease j) < 2 ^ 32"
    and "0 \<le> Attempt k" "Attempt k < 2 ^ 31" "0 \<le> Token (Lease k)" "Token (Lease k) < 2 ^ 32"
  shows "FencingToken j < FencingToken k \<longleftrightarrow>
    Attempt j < Attempt k \<or> Attempt j = Attempt k \<and> Token (Lease j) < Token (Lease k)"
proof -
  have "a * m + t < b * m + u \<longleftrightarrow> a < b \<or> a = b \<and> t < u"
    if "0 \<le> t" "t < m" "0 \<le> u" "u < m" for a b t u m :: int
  proof (cases a b rule: linorder_cases)
    case less
    then have "a * m + m \<le> b * m"
      using that mult_right_mono [of "a + 1" b m] by (simp add: distrib_right)
    with less that show ?thesis by simp
  next
    case greater
    then have "b * m + m \<le> a * m"
      using that mult_right_mono [of "b + 1" a m] by (simp add: distrib_right)
    with greater that show ?thesis by simp
  qed simp
  then show ?thesis
    using assms by (simp add: FencingToken_value)
qed

definition run_of :: "int \<Rightarrow> int \<Rightarrow> job" where
  "run_of a t = \<lparr>ID = ''j1'', Task = ''email'', Payload = ''{}'', Attempt = a, MaxAttempts = 5, TraceParent = [],
     CreatedAt = 0, AvailableAt = 0, IdempotencyKey = [], Lease = no_lease\<lparr>Token := t\<rparr>\<rparr>"

theorem FencingToken_lex_witness: "FencingToken (run_of 1 7) < FencingToken (run_of 2 1)"
  using FencingToken_lex [of "run_of 1 7" "run_of 2 1"] by (simp add: run_of_def no_lease_def)

end
