(* ===== verification/Redis.thy ===== *)
theory Redis
  imports Prelude
begin

text \<open>
  The Redis server is not part of the repository, so it is a parameter: a record of the
  commands the program issues, over an opaque server state \<open>'r\<close>. What the program relies
  on is stated in the locale \<open>redis_server\<close>, one law per command, over an abstract view of
  the data (streams, consumer groups with their pending entries lists, sorted sets, hashes
  and expiring strings). The laws are the documented behaviour of the commands on keys of the
  right type; \<open>kt\<close> says which type a key holds, and a law speaks only of keys of the type
  its command works on. Commands that read the server's clock take the time (in
  milliseconds) as an argument.
\<close>

section \<open>The abstract view of the data\<close>

record pend =
  pOwner :: string
  pTime :: int
  pCount :: int

record grp =
  undelivered :: "string list"
  pel :: "string \<rightharpoonup> pend"
  consumers :: "string \<rightharpoonup> int"

record db =
  dLog :: "string \<Rightarrow> entry list"
  dUsed :: "string \<Rightarrow> string set"
  dGroup :: "string \<Rightarrow> string \<Rightarrow> grp"
  dZset :: "string \<Rightarrow> string \<rightharpoonup> int"
  dHash :: "string \<Rightarrow> string \<rightharpoonup> string"
  dStr :: "string \<rightharpoonup> string \<times> int"

datatype ktype = KStream | KZset | KHash | KStr

abbreviation ids_of :: "entry list \<Rightarrow> string set" where
  "ids_of es \<equiv> fst ` set es"

section \<open>The commands\<close>

record 'r redis =
  xadd :: "string \<Rightarrow> fields \<Rightarrow> 'r \<Rightarrow> 'r \<times> string"
  xdel :: "string \<Rightarrow> string \<Rightarrow> 'r \<Rightarrow> 'r"
  xlen :: "string \<Rightarrow> 'r \<Rightarrow> int"
  xack :: "string \<Rightarrow> string \<Rightarrow> string \<Rightarrow> 'r \<Rightarrow> 'r"
  xpending :: "string \<Rightarrow> string \<Rightarrow> string \<Rightarrow> int \<Rightarrow> 'r \<Rightarrow> (string \<times> string \<times> int \<times> int) list"
  xpending_consumer :: "string \<Rightarrow> string \<Rightarrow> string \<Rightarrow> int \<Rightarrow> 'r \<Rightarrow> (string \<times> string \<times> int \<times> int) list"
  xpending_count :: "string \<Rightarrow> string \<Rightarrow> 'r \<Rightarrow> int"
  xreadgroup :: "string \<Rightarrow> string \<Rightarrow> string \<Rightarrow> int \<Rightarrow> int \<Rightarrow> 'r \<Rightarrow> 'r \<times> entry list option"
  xclaim_justid :: "string \<Rightarrow> string \<Rightarrow> string \<Rightarrow> string \<Rightarrow> int \<Rightarrow> 'r \<Rightarrow> 'r"
  xautoclaim :: "string \<Rightarrow> string \<Rightarrow> string \<Rightarrow> int \<Rightarrow> string \<Rightarrow> int \<Rightarrow> int \<Rightarrow> 'r \<Rightarrow> 'r \<times> string \<times> entry list"
  xgroup_create :: "string \<Rightarrow> string \<Rightarrow> 'r \<Rightarrow> 'r \<times> string option"
  xgroup_delconsumer :: "string \<Rightarrow> string \<Rightarrow> string \<Rightarrow> 'r \<Rightarrow> 'r"
  xinfo_consumers :: "string \<Rightarrow> string \<Rightarrow> int \<Rightarrow> 'r \<Rightarrow> (string \<times> int \<times> int) list"
  zadd :: "string \<Rightarrow> int \<Rightarrow> string \<Rightarrow> 'r \<Rightarrow> 'r"
  zrem :: "string \<Rightarrow> string \<Rightarrow> 'r \<Rightarrow> 'r"
  zcard :: "string \<Rightarrow> 'r \<Rightarrow> int"
  zrangebyscore :: "string \<Rightarrow> int \<Rightarrow> int \<Rightarrow> 'r \<Rightarrow> string list"
  hset :: "string \<Rightarrow> string \<Rightarrow> string \<Rightarrow> 'r \<Rightarrow> 'r"
  hget :: "string \<Rightarrow> string \<Rightarrow> 'r \<Rightarrow> string option"
  hdel :: "string \<Rightarrow> string \<Rightarrow> 'r \<Rightarrow> 'r"
  get_str :: "string \<Rightarrow> int \<Rightarrow> 'r \<Rightarrow> string option"
  set_px :: "string \<Rightarrow> string \<Rightarrow> int \<Rightarrow> int \<Rightarrow> 'r \<Rightarrow> 'r"

section \<open>What the commands do to the view\<close>

definition upd_group :: "string \<Rightarrow> string \<Rightarrow> (grp \<Rightarrow> grp) \<Rightarrow> db \<Rightarrow> db" where
  "upd_group k g f d = d\<lparr>dGroup := (dGroup d)(k := (dGroup d k)(g := f (dGroup d k g)))\<rparr>"

text \<open>An added entry gets an identifier the stream never used and is undelivered everywhere.\<close>

definition ev_xadd :: "string \<Rightarrow> string \<Rightarrow> fields \<Rightarrow> db \<Rightarrow> db" where
  "ev_xadd k x fs d =
     d\<lparr>dLog := (dLog d)(k := dLog d k @ [(x, fs)]),
       dUsed := (dUsed d)(k := insert x (dUsed d k)),
       dGroup := (dGroup d)(k := (\<lambda>g. (dGroup d k g)\<lparr>undelivered := undelivered (dGroup d k g) @ [x]\<rparr>))\<rparr>"

definition ev_xdel :: "string \<Rightarrow> string \<Rightarrow> db \<Rightarrow> db" where
  "ev_xdel k x d =
     d\<lparr>dLog := (dLog d)(k := filter (\<lambda>e. fst e \<noteq> x) (dLog d k)),
       dGroup := (dGroup d)(k := (\<lambda>g. (dGroup d k g)\<lparr>undelivered := filter (\<lambda>y. y \<noteq> x) (undelivered (dGroup d k g))\<rparr>))\<rparr>"

definition ev_xack :: "string \<Rightarrow> string \<Rightarrow> string \<Rightarrow> db \<Rightarrow> db" where
  "ev_xack k g x = upd_group k g (\<lambda>G. G\<lparr>pel := (pel G)(x := None)\<rparr>)"

text \<open>A fresh delivery has delivery count 1 and the reader as its owner.\<close>

definition deliver :: "string \<Rightarrow> int \<Rightarrow> string list \<Rightarrow> (string \<rightharpoonup> pend) \<Rightarrow> string \<rightharpoonup> pend" where
  "deliver c t xs m = (\<lambda>x. if x \<in> set xs then Some \<lparr>pOwner = c, pTime = t, pCount = 1\<rparr> else m x)"

definition ev_xreadgroup :: "string \<Rightarrow> string \<Rightarrow> string \<Rightarrow> int \<Rightarrow> int \<Rightarrow> db \<Rightarrow> db" where
  "ev_xreadgroup k g c n t =
     upd_group k g (\<lambda>G. G\<lparr>undelivered := drop (nat n) (undelivered G),
                          pel := deliver c t (take (nat n) (undelivered G)) (pel G),
                          consumers := (consumers G)(c \<mapsto> t)\<rparr>)"

definition ev_xclaim :: "string \<Rightarrow> string \<Rightarrow> string \<Rightarrow> string \<Rightarrow> int \<Rightarrow> db \<Rightarrow> db" where
  "ev_xclaim k g c x t =
     upd_group k g (\<lambda>G. G\<lparr>pel := (\<lambda>y. if y = x then map_option (\<lambda>p. p\<lparr>pOwner := c, pTime := t\<rparr>) (pel G y) else pel G y),
                          consumers := (consumers G)(c \<mapsto> t)\<rparr>)"

text \<open>
  An automatic claim transfers the pending entries \<open>xs\<close> to consumer \<open>c\<close>, counting one more
  delivery for each, and forgets the pending entries \<open>D\<close> whose stream entry is gone.
\<close>

definition reassign :: "string \<Rightarrow> int \<Rightarrow> string set \<Rightarrow> string set \<Rightarrow> (string \<rightharpoonup> pend) \<Rightarrow> string \<rightharpoonup> pend" where
  "reassign c t xs D m =
     (\<lambda>x. if x \<in> xs then map_option (\<lambda>p. p\<lparr>pOwner := c, pTime := t, pCount := pCount p + 1\<rparr>) (m x)
          else if x \<in> D then None else m x)"

definition ev_xautoclaim ::
  "string \<Rightarrow> string \<Rightarrow> string \<Rightarrow> int \<Rightarrow> string set \<Rightarrow> string set \<Rightarrow> db \<Rightarrow> db" where
  "ev_xautoclaim k g c t xs D =
     upd_group k g (\<lambda>G. G\<lparr>pel := reassign c t xs D (pel G), consumers := (consumers G)(c \<mapsto> t)\<rparr>)"

text \<open>Deleting a consumer drops its pending entries with it.\<close>

definition ev_delconsumer :: "string \<Rightarrow> string \<Rightarrow> string \<Rightarrow> db \<Rightarrow> db" where
  "ev_delconsumer k g c =
     upd_group k g (\<lambda>G. G\<lparr>pel := (\<lambda>x. case pel G x of None \<Rightarrow> None | Some p \<Rightarrow> if pOwner p = c then None else Some p),
                          consumers := (consumers G)(c := None)\<rparr>)"

definition ev_zadd :: "string \<Rightarrow> int \<Rightarrow> string \<Rightarrow> db \<Rightarrow> db" where
  "ev_zadd k v m d = d\<lparr>dZset := (dZset d)(k := (dZset d k)(m \<mapsto> v))\<rparr>"

definition ev_zrem :: "string \<Rightarrow> string \<Rightarrow> db \<Rightarrow> db" where
  "ev_zrem k m d = d\<lparr>dZset := (dZset d)(k := (dZset d k)(m := None))\<rparr>"

definition ev_hset :: "string \<Rightarrow> string \<Rightarrow> string \<Rightarrow> db \<Rightarrow> db" where
  "ev_hset k f v d = d\<lparr>dHash := (dHash d)(k := (dHash d k)(f \<mapsto> v))\<rparr>"

definition ev_hdel :: "string \<Rightarrow> string \<Rightarrow> db \<Rightarrow> db" where
  "ev_hdel k f d = d\<lparr>dHash := (dHash d)(k := (dHash d k)(f := None))\<rparr>"

definition ev_set_px :: "string \<Rightarrow> string \<Rightarrow> int \<Rightarrow> int \<Rightarrow> db \<Rightarrow> db" where
  "ev_set_px k v ttl t d = d\<lparr>dStr := (dStr d)(k \<mapsto> (v, t + ttl))\<rparr>"

lemmas ev_defs = upd_group_def ev_xadd_def ev_xdel_def ev_xack_def ev_xreadgroup_def ev_xclaim_def
  ev_xautoclaim_def ev_delconsumer_def ev_zadd_def ev_zrem_def ev_hset_def ev_hdel_def ev_set_px_def

section \<open>The server's contract\<close>

definition due :: "string \<Rightarrow> int \<Rightarrow> db \<Rightarrow> string set" where
  "due k now d = {m. \<exists>v. dZset d k m = Some v \<and> v \<le> now}"

locale redis_server =
  fixes R :: "'r redis"
    and view :: "'r \<Rightarrow> db"
    and kt :: "string \<Rightarrow> ktype"
    and xle :: "string \<Rightarrow> string \<Rightarrow> bool"
  assumes xadd_view:
      "kt k = KStream \<Longrightarrow> view (fst (xadd R k fs s)) = ev_xadd k (snd (xadd R k fs s)) fs (view s)"
    and xadd_fresh: "kt k = KStream \<Longrightarrow> snd (xadd R k fs s) \<notin> dUsed (view s) k"
    and xdel_view: "kt k = KStream \<Longrightarrow> view (xdel R k x s) = ev_xdel k x (view s)"
    and xlen_view: "kt k = KStream \<Longrightarrow> xlen R k s = int (length (dLog (view s) k))"
    and xack_view: "kt k = KStream \<Longrightarrow> view (xack R k g x s) = ev_xack k g x (view s)"
    and xpending_view:
      "kt k = KStream \<Longrightarrow> xpending R k g x t s =
         (case pel (dGroup (view s) k g) x of
            None \<Rightarrow> [] | Some p \<Rightarrow> [(x, pOwner p, t - pTime p, pCount p)])"
    and xpending_consumer_view:
      "kt k = KStream \<Longrightarrow>
         xpending_consumer R k g c t s = [] \<longleftrightarrow> (\<forall>x p. pel (dGroup (view s) k g) x = Some p \<longrightarrow> pOwner p \<noteq> c)"
    and xpending_count_view:
      "kt k = KStream \<Longrightarrow> finite (dom (pel (dGroup (view s) k g))) \<Longrightarrow>
         xpending_count R k g s = int (card (dom (pel (dGroup (view s) k g))))"
    and xreadgroup_view:
      "kt k = KStream \<Longrightarrow> 1 \<le> n \<Longrightarrow> view (fst (xreadgroup R k g c n t s)) = ev_xreadgroup k g c n t (view s)"
    and xreadgroup_reply:
      "kt k = KStream \<Longrightarrow> 1 \<le> n \<Longrightarrow>
         set (undelivered (dGroup (view s) k g)) \<subseteq> ids_of (dLog (view s) k) \<Longrightarrow>
         snd (xreadgroup R k g c n t s) =
           (case take (nat n) (undelivered (dGroup (view s) k g)) of
              [] \<Rightarrow> None
            | x # xs \<Rightarrow> Some (map (\<lambda>y. (y, the (map_of (dLog (view s) k) y))) (x # xs)))"
    and xclaim_view:
      "kt k = KStream \<Longrightarrow> x \<in> ids_of (dLog (view s) k) \<Longrightarrow>
         view (xclaim_justid R k g c x t s) = ev_xclaim k g c x t (view s)"
    and xautoclaim_view:
      "kt k = KStream \<Longrightarrow> 1 \<le> n \<Longrightarrow> xautoclaim R k g c idle start n t s = (s', cur, cl) \<Longrightarrow>
         \<exists>D. D \<subseteq> dom (pel (dGroup (view s) k g)) - ids_of (dLog (view s) k) \<and>
             view s' = ev_xautoclaim k g c t (ids_of cl) D (view s)"
    and xautoclaim_reply:
      "kt k = KStream \<Longrightarrow> 1 \<le> n \<Longrightarrow> xautoclaim R k g c idle start n t s = (s', cur, cl) \<Longrightarrow>
         distinct (map fst cl) \<and> int (length cl) \<le> n \<and>
         (\<forall>(x, fs) \<in> set cl. map_of (dLog (view s) k) x = Some fs \<and> x \<in> dom (pel (dGroup (view s) k g)))"
    and xautoclaim_scan:
      "kt k = KStream \<Longrightarrow> 1 \<le> n \<Longrightarrow> xautoclaim R k g c idle start n t s = (s', cur, cl) \<Longrightarrow>
         pel (dGroup (view s) k g) x = Some p \<Longrightarrow> x \<in> ids_of (dLog (view s) k) \<Longrightarrow>
         x \<in> ids_of cl \<longleftrightarrow>
           idle \<le> t - pTime p \<and> xle start x \<and> (cur = ''0-0'' \<or> xle x cur \<and> x \<noteq> cur)"
    and xle_start: "xle ''0-0'' x"
    and xle_total: "xle x y \<or> xle y x"
    and xgroup_create_view: "kt k = KStream \<Longrightarrow> view (fst (xgroup_create R k g s)) = view s"
    and delconsumer_view:
      "kt k = KStream \<Longrightarrow> view (xgroup_delconsumer R k g c s) = ev_delconsumer k g c (view s)"
    and xinfo_view:
      "kt k = KStream \<Longrightarrow> (c, n, i) \<in> set (xinfo_consumers R k g t s) \<Longrightarrow>
         n = 0 \<longleftrightarrow> (\<forall>x p. pel (dGroup (view s) k g) x = Some p \<longrightarrow> pOwner p \<noteq> c)"
    and zadd_view: "kt k = KZset \<Longrightarrow> view (zadd R k v m s) = ev_zadd k v m (view s)"
    and zrem_view: "kt k = KZset \<Longrightarrow> view (zrem R k m s) = ev_zrem k m (view s)"
    and zcard_view:
      "kt k = KZset \<Longrightarrow> finite (dom (dZset (view s) k)) \<Longrightarrow> zcard R k s = int (card (dom (dZset (view s) k)))"
    and zrange_reply:
      "kt k = KZset \<Longrightarrow> 0 \<le> n \<Longrightarrow>
         distinct (zrangebyscore R k now n s) \<and> set (zrangebyscore R k now n s) \<subseteq> due k now (view s) \<and>
         int (length (zrangebyscore R k now n s)) \<le> n \<and>
         (int (length (zrangebyscore R k now n s)) < n \<longrightarrow> due k now (view s) \<subseteq> set (zrangebyscore R k now n s))"
    and hset_view: "kt k = KHash \<Longrightarrow> view (hset R k f w s) = ev_hset k f w (view s)"
    and hget_view: "kt k = KHash \<Longrightarrow> hget R k f s = dHash (view s) k f"
    and hdel_view: "kt k = KHash \<Longrightarrow> view (hdel R k f s) = ev_hdel k f (view s)"
    and get_str_view:
      "kt k = KStr \<Longrightarrow> get_str R k t s =
         (case dStr (view s) k of None \<Rightarrow> None | Some (v, e) \<Rightarrow> if t < e then Some v else None)"
    and set_px_view:
      "kt k = KStr \<Longrightarrow> 0 < ttl \<Longrightarrow> view (set_px R k w ttl t s) = ev_set_px k w ttl t (view s)"

end
