(* ===== verification/Scripts.thy ===== *)
theory Scripts
  imports Redis
begin

text \<open>
  \<^verbatim>\<open>redisstream/scripts.go\<close>: every Lua script, over the server parameter \<open>R\<close>. A
  script runs as one atomic step of the server; \<open>t\<close> is the server's clock during the run
  (frozen inside a script), \<open>dec\<close> is the server's \<^verbatim>\<open>cjson.decode\<close> followed by the
  order in which \<^verbatim>\<open>pairs\<close> enumerates the table. Delivery counts are far below
  \<open>2^53\<close>, so Lua's numbers represent them exactly and tokens are integers.
\<close>

section \<open>Local functions of leaseLua\<close>

definition owns :: "'r redis \<Rightarrow> string \<Rightarrow> string \<Rightarrow> string \<Rightarrow> string \<Rightarrow> int \<Rightarrow> int \<Rightarrow> 'r \<Rightarrow> bool" where
  [lua_defs]: "owns R stream gname x owner token t s =
     (case xpending R stream gname x t s of
        [] \<Rightarrow> False
      | (_, c, _, n) # _ \<Rightarrow> c = owner \<and> n = token)"

definition settle :: "'r redis \<Rightarrow> string \<Rightarrow> string \<Rightarrow> string \<Rightarrow> 'r \<Rightarrow> 'r" where
  [lua_defs]: "settle R stream gname x s = xdel R stream x (xack R stream gname x s)"

definition renew :: "'r redis \<Rightarrow> string \<Rightarrow> string \<Rightarrow> string \<Rightarrow> string \<Rightarrow> int \<Rightarrow> 'r \<Rightarrow> 'r" where
  [lua_defs]: "renew R stream gname x owner t s = xclaim_justid R stream gname owner x t s"

text \<open>The triples are the message ID, owner and token of each delivery in \<^verbatim>\<open>ARGV[2..]\<close>.\<close>

fun each_owned :: "'r redis \<Rightarrow> string \<Rightarrow> string \<Rightarrow> int \<Rightarrow> (string \<Rightarrow> string \<Rightarrow> 'r \<Rightarrow> 'r) \<Rightarrow>
    (string \<times> string \<times> int) list \<Rightarrow> 'r \<Rightarrow> 'r \<times> int list" where
  "each_owned R stream gname t action [] s = (s, [])"
| "each_owned R stream gname t action ((x, owner, token) # ds) s =
     (if owns R stream gname x owner token t s
      then (case each_owned R stream gname t action ds (action x owner s) of (s', out) \<Rightarrow> (s', 1 # out))
      else (case each_owned R stream gname t action ds s of (s', out) \<Rightarrow> (s', 0 # out)))"

definition xadd_json :: "'r redis \<Rightarrow> (string \<Rightarrow> fields) \<Rightarrow> string \<Rightarrow> string \<Rightarrow> 'r \<Rightarrow> 'r" where
  [lua_defs]: "xadd_json R dec stream fields_json s = fst (xadd R stream (dec fields_json) s)"

section \<open>Fenced scripts\<close>

definition ackScript ::
  "'r redis \<Rightarrow> string \<Rightarrow> string \<Rightarrow> string \<Rightarrow> string \<Rightarrow> int \<Rightarrow> int \<Rightarrow> 'r \<Rightarrow> 'r \<times> int" where
  [lua_defs]: "ackScript R stream gname x owner token t s =
     (if \<not> owns R stream gname x owner token t s then (s, 0)
      else (settle R stream gname x s, 1))"

definition extendScript ::
  "'r redis \<Rightarrow> string \<Rightarrow> string \<Rightarrow> string \<Rightarrow> string \<Rightarrow> int \<Rightarrow> int \<Rightarrow> 'r \<Rightarrow> 'r \<times> int" where
  [lua_defs]: "extendScript R stream gname x owner token t s =
     (if \<not> owns R stream gname x owner token t s then (s, 0)
      else (renew R stream gname x owner t s, 1))"

definition retryScript ::
  "'r redis \<Rightarrow> string \<Rightarrow> string \<Rightarrow> string \<Rightarrow> string \<Rightarrow> string \<Rightarrow> string \<Rightarrow> int \<Rightarrow>
   int \<Rightarrow> string \<Rightarrow> string \<Rightarrow> int \<Rightarrow> 'r \<Rightarrow> 'r \<times> int" where
  [lua_defs]: "retryScript R stream zset data gname x owner token runAt jobID fields_json t s =
     (if \<not> owns R stream gname x owner token t s then (s, 0)
      else (let s1 = hset R data jobID fields_json s;
                s2 = zadd R zset runAt jobID s1
            in (settle R stream gname x s2, 1)))"

definition deadLetterScript ::
  "'r redis \<Rightarrow> string \<Rightarrow> string \<Rightarrow> string \<Rightarrow> string \<Rightarrow> string \<Rightarrow> int \<Rightarrow> fields \<Rightarrow> int \<Rightarrow> 'r \<Rightarrow> 'r \<times> int" where
  [lua_defs]: "deadLetterScript R stream dead gname x owner token pairs t s =
     (if \<not> owns R stream gname x owner token t s then (s, 0)
      else (settle R stream gname x (fst (xadd R dead pairs s)), 1))"

definition ackBatchScript ::
  "'r redis \<Rightarrow> string \<Rightarrow> string \<Rightarrow> (string \<times> string \<times> int) list \<Rightarrow> int \<Rightarrow> 'r \<Rightarrow> 'r \<times> int list" where
  [lua_defs]: "ackBatchScript R stream gname ds t s =
     each_owned R stream gname t (\<lambda>x owner. settle R stream gname x) ds s"

definition extendBatchScript ::
  "'r redis \<Rightarrow> string \<Rightarrow> string \<Rightarrow> (string \<times> string \<times> int) list \<Rightarrow> int \<Rightarrow> 'r \<Rightarrow> 'r \<times> int list" where
  [lua_defs]: "extendBatchScript R stream gname ds t s =
     each_owned R stream gname t (\<lambda>x owner. renew R stream gname x owner t) ds s"

section \<open>Promotion and claiming\<close>

definition promote_one :: "'r redis \<Rightarrow> (string \<Rightarrow> fields) \<Rightarrow> string \<Rightarrow> string \<Rightarrow> string \<Rightarrow> string \<Rightarrow> 'r \<Rightarrow> 'r" where
  [lua_defs]: "promote_one R dec zset data stream jid s =
     (let s1 = (case hget R data jid s of
                  None \<Rightarrow> s
                | Some fields_json \<Rightarrow> xadd_json R dec stream fields_json s)
      in zrem R zset jid (hdel R data jid s1))"

fun promote_all :: "'r redis \<Rightarrow> (string \<Rightarrow> fields) \<Rightarrow> string \<Rightarrow> string \<Rightarrow> string \<Rightarrow> string list \<Rightarrow> 'r \<Rightarrow> 'r" where
  "promote_all R dec zset data stream [] s = s"
| "promote_all R dec zset data stream (jid # jids) s =
     promote_all R dec zset data stream jids (promote_one R dec zset data stream jid s)"

definition promote ::
  "'r redis \<Rightarrow> (string \<Rightarrow> fields) \<Rightarrow> string \<Rightarrow> string \<Rightarrow> string \<Rightarrow> int \<Rightarrow> int \<Rightarrow> 'r \<Rightarrow> 'r \<times> int" where
  [lua_defs]: "promote R dec zset data stream now limit s =
     (let jids = zrangebyscore R zset now limit s
      in (promote_all R dec zset data stream jids s, int (length jids)))"

definition promoteScript ::
  "'r redis \<Rightarrow> (string \<Rightarrow> fields) \<Rightarrow> string \<Rightarrow> string \<Rightarrow> string \<Rightarrow> int \<Rightarrow> int \<Rightarrow> 'r \<Rightarrow> 'r \<times> int" where
  [lua_defs]: "promoteScript R dec zset data stream now limit s = promote R dec zset data stream now limit s"

definition claimScript ::
  "'r redis \<Rightarrow> (string \<Rightarrow> fields) \<Rightarrow> string \<Rightarrow> string \<Rightarrow> string \<Rightarrow> string \<Rightarrow> string \<Rightarrow> int \<Rightarrow> int \<Rightarrow>
   int \<Rightarrow> 'r \<Rightarrow> 'r \<times> entry list" where
  [lua_defs]: "claimScript R dec stream zset data gname consumer cnt now t s =
     (let s1 = fst (promote R dec zset data stream now 100 s)
      in case xreadgroup R stream gname consumer cnt t s1 of
           (s2, None) \<Rightarrow> (s2, [])
         | (s2, Some es) \<Rightarrow> (s2, es))"

section \<open>Recovery\<close>

text \<open>
  The delivery count read back after each automatic claim; indexing an empty reply is a Lua
  runtime error, \<^term>\<open>None\<close>.
\<close>

fun with_counts :: "'r redis \<Rightarrow> string \<Rightarrow> string \<Rightarrow> int \<Rightarrow> 'r \<Rightarrow> entry list \<Rightarrow> (string \<times> fields \<times> int) list option" where
  "with_counts R stream gname t s [] = Some []"
| "with_counts R stream gname t s ((x, fs) # es) =
     (case xpending R stream gname x t s of
        [] \<Rightarrow> None
      | (_, _, _, n) # _ \<Rightarrow> map_option (\<lambda>r. (x, fs, n) # r) (with_counts R stream gname t s es))"

fun recover_loop ::
  "nat \<Rightarrow> 'r redis \<Rightarrow> string \<Rightarrow> string \<Rightarrow> string \<Rightarrow> int \<Rightarrow> int \<Rightarrow> int \<Rightarrow> string \<Rightarrow>
   (string \<times> fields \<times> int) list \<Rightarrow> 'r \<Rightarrow> 'r \<times> (string \<times> (string \<times> fields \<times> int) list) option" where
  "recover_loop 0 R stream gname consumer minIdle want t cursor out s = (s, Some (cursor, out))"
| "recover_loop (Suc n) R stream gname consumer minIdle want t cursor out s =
     (case xautoclaim R stream gname consumer minIdle cursor (want - int (length out)) t s of
        (s', cursor', res) \<Rightarrow>
          (case with_counts R stream gname t s' res of
             None \<Rightarrow> (s', None)
           | Some claimed \<Rightarrow>
               (let out' = out @ claimed
                in if int (length out') \<ge> want \<or> cursor' = ''0-0'' then (s', Some (cursor', out'))
                   else recover_loop n R stream gname consumer minIdle want t cursor' out' s')))"

definition recoverScript ::
  "'r redis \<Rightarrow> string \<Rightarrow> string \<Rightarrow> string \<Rightarrow> int \<Rightarrow> int \<Rightarrow> string \<Rightarrow> int \<Rightarrow> 'r \<Rightarrow>
   'r \<times> (string \<times> (string \<times> fields \<times> int) list) option" where
  [lua_defs]: "recoverScript R stream gname consumer minIdle want cursor t s =
     recover_loop 10 R stream gname consumer minIdle want t cursor [] s"

section \<open>Consumers\<close>

definition deregisterScript :: "'r redis \<Rightarrow> string \<Rightarrow> string \<Rightarrow> string \<Rightarrow> int \<Rightarrow> 'r \<Rightarrow> 'r \<times> int" where
  [lua_defs]: "deregisterScript R stream gname consumer t s =
     (if length (xpending_consumer R stream gname consumer t s) > 0 then (s, 0)
      else (xgroup_delconsumer R stream gname consumer s, 1))"

fun prune_each :: "'r redis \<Rightarrow> string \<Rightarrow> string \<Rightarrow> int \<Rightarrow> (string \<times> int \<times> int) list \<Rightarrow> 'r \<Rightarrow> 'r \<times> int" where
  "prune_each R stream gname minIdle [] s = (s, 0)"
| "prune_each R stream gname minIdle ((name, pending, idle) # cs) s =
     (if pending = 0 \<and> idle \<ge> minIdle
      then (case prune_each R stream gname minIdle cs (xgroup_delconsumer R stream gname name s) of
              (s', removed) \<Rightarrow> (s', removed + 1))
      else prune_each R stream gname minIdle cs s)"

definition pruneConsumersScript :: "'r redis \<Rightarrow> string \<Rightarrow> string \<Rightarrow> int \<Rightarrow> int \<Rightarrow> 'r \<Rightarrow> 'r \<times> int" where
  [lua_defs]: "pruneConsumersScript R stream gname minIdle t s =
     prune_each R stream gname minIdle (xinfo_consumers R stream gname t s) s"

section \<open>Idempotent enqueue\<close>

definition enqueueOnceScript ::
  "'r redis \<Rightarrow> (string \<Rightarrow> fields) \<Rightarrow> string \<Rightarrow> string \<Rightarrow> string \<Rightarrow> string \<Rightarrow> string \<Rightarrow> int \<Rightarrow> int \<Rightarrow>
   string \<Rightarrow> int \<Rightarrow> 'r \<Rightarrow> 'r \<times> string" where
  [lua_defs]: "enqueueOnceScript R dec dedupe stream zset data jobID window runAt fields_json t s =
     (case get_str R dedupe t s of
        Some existing \<Rightarrow> (s, existing)
      | None \<Rightarrow>
          (let s1 = set_px R dedupe jobID window t s
           in if runAt > 0 then (zadd R zset runAt jobID (hset R data jobID fields_json s1), jobID)
              else (xadd_json R dec stream fields_json s1, jobID)))"

end
