(* ===== verification/StreamState.thy ===== *)
theory StreamState
  imports Scripts
begin

text \<open>
  What the commands do to one queue's data: which lease a pending entry belongs to, the
  well-formedness of a stream with its consumer group, and the jobs a stream and a schedule
  hold. All lemmas here are about the abstract view; the scripts are related to it in
  \<^verbatim>\<open>ScriptSpecs\<close>.
\<close>

section \<open>Leases and well-formed streams\<close>

definition owned :: "string \<Rightarrow> string \<Rightarrow> string \<Rightarrow> string \<Rightarrow> int \<Rightarrow> db \<Rightarrow> bool" where
  "owned k g x owner token d \<longleftrightarrow>
     (\<exists>p. pel (dGroup d k g) x = Some p \<and> pOwner p = owner \<and> pCount p = token)"

definition settled :: "string \<Rightarrow> string \<Rightarrow> string \<Rightarrow> db \<Rightarrow> db" where
  "settled k g x d = ev_xdel k x (ev_xack k g x d)"

text \<open>
  A stream is well formed for its group when entry identifiers are distinct, the undelivered
  ones are entries of the stream, and the pending entries are exactly the delivered ones:
  no entry is delivered but not pending (it could never be claimed or recovered), and nothing
  is pending without an entry.
\<close>

definition stream_ok :: "string \<Rightarrow> string \<Rightarrow> db \<Rightarrow> bool" where
  "stream_ok k g d \<longleftrightarrow>
     distinct (map fst (dLog d k)) \<and>
     distinct (undelivered (dGroup d k g)) \<and>
     set (undelivered (dGroup d k g)) \<subseteq> ids_of (dLog d k) \<and>
     dom (pel (dGroup d k g)) = ids_of (dLog d k) - set (undelivered (dGroup d k g)) \<and>
     ids_of (dLog d k) \<subseteq> dUsed d k \<and>
     (\<forall>x p. pel (dGroup d k g) x = Some p \<longrightarrow> 1 \<le> pCount p)"

lemma stream_okD:
  assumes "stream_ok k g d"
  shows "distinct (map fst (dLog d k))" "distinct (undelivered (dGroup d k g))"
    "set (undelivered (dGroup d k g)) \<subseteq> ids_of (dLog d k)"
    "dom (pel (dGroup d k g)) = ids_of (dLog d k) - set (undelivered (dGroup d k g))"
    "ids_of (dLog d k) \<subseteq> dUsed d k"
    "pel (dGroup d k g) x = Some p \<Longrightarrow> 1 \<le> pCount p"
  using assms unfolding stream_ok_def by blast+

lemma stream_ok_pending_in_log:
  "stream_ok k g d \<Longrightarrow> pel (dGroup d k g) x = Some p \<Longrightarrow> x \<in> ids_of (dLog d k)"
  by (metis DiffD1 domI stream_okD(4))

lemma stream_ok_pending:
  assumes "stream_ok k g d" "pel (dGroup d k g) x = Some p"
  shows "x \<in> dUsed d k" "x \<notin> set (undelivered (dGroup d k g))"
proof -
  have "x \<in> ids_of (dLog d k) - set (undelivered (dGroup d k g))"
    using assms stream_okD(4) [OF assms(1)] by blast
  then show "x \<in> dUsed d k" "x \<notin> set (undelivered (dGroup d k g))"
    using stream_okD(5) [OF assms(1)] by auto
qed

lemma stream_ok_no_dangling:
  "stream_ok k g d \<Longrightarrow> dom (pel (dGroup d k g)) - ids_of (dLog d k) = {}"
  by (simp add: stream_okD(4))

text \<open>The well-formedness of a queue depends on its own stream and group only.\<close>

lemma stream_ok_cong:
  "dLog d' k = dLog d k \<Longrightarrow> dGroup d' k g = dGroup d k g \<Longrightarrow> dUsed d' k = dUsed d k \<Longrightarrow>
   stream_ok k g d' = stream_ok k g d"
  by (simp add: stream_ok_def)

lemma stream_ok_other [simp]:
  "stream_ok k g (ev_zadd zk v m d) = stream_ok k g d"
  "stream_ok k g (ev_zrem zk m d) = stream_ok k g d"
  "stream_ok k g (ev_hset hk f w d) = stream_ok k g d"
  "stream_ok k g (ev_hdel hk f d) = stream_ok k g d"
  "stream_ok k g (ev_set_px sk w ttl t d) = stream_ok k g d"
  "k' \<noteq> k \<Longrightarrow> stream_ok k g (ev_xadd k' x fs d) = stream_ok k g d"
  "k' \<noteq> k \<Longrightarrow> stream_ok k g (settled k' g' x d) = stream_ok k g d"
  by (rule stream_ok_cong; simp add: ev_defs settled_def)+

lemma stream_ok_xadd:
  "stream_ok k g d \<Longrightarrow> x \<notin> dUsed d k \<Longrightarrow> stream_ok k g (ev_xadd k x fs d)"
  unfolding stream_ok_def ev_xadd_def by (auto; blast)

lemma settled_simps [simp]:
  "dLog (settled k g x d) k = filter (\<lambda>e. fst e \<noteq> x) (dLog d k)"
  "undelivered (dGroup (settled k g x d) k g) = filter (\<lambda>y. y \<noteq> x) (undelivered (dGroup d k g))"
  "pel (dGroup (settled k g x d) k g) = (pel (dGroup d k g))(x := None)"
  "consumers (dGroup (settled k g x d) k g) = consumers (dGroup d k g)"
  "dUsed (settled k g x d) = dUsed d"
  "dZset (settled k g x d) = dZset d" "dHash (settled k g x d) = dHash d"
  "dStr (settled k g x d) = dStr d"
  "k' \<noteq> k \<Longrightarrow> dLog (settled k g x d) k' = dLog d k'"
  "k' \<noteq> k \<Longrightarrow> dGroup (settled k g x d) k' = dGroup d k'"
  by (simp_all add: settled_def ev_defs)

lemma stream_ok_settled: "stream_ok k g d \<Longrightarrow> stream_ok k g (settled k g x d)"
  unfolding stream_ok_def by (auto simp: distinct_map_filter split: if_splits)

lemma xreadgroup_simps [simp]:
  "dLog (ev_xreadgroup k g c n t d) = dLog d"
  "dUsed (ev_xreadgroup k g c n t d) = dUsed d"
  "dZset (ev_xreadgroup k g c n t d) = dZset d" "dHash (ev_xreadgroup k g c n t d) = dHash d"
  "dStr (ev_xreadgroup k g c n t d) = dStr d"
  "undelivered (dGroup (ev_xreadgroup k g c n t d) k g) = drop (nat n) (undelivered (dGroup d k g))"
  "pel (dGroup (ev_xreadgroup k g c n t d) k g) =
     deliver c t (take (nat n) (undelivered (dGroup d k g))) (pel (dGroup d k g))"
  by (simp_all add: ev_defs)

lemma dom_deliver: "dom (deliver c t xs m) = set xs \<union> dom m"
  by (auto simp: deliver_def dom_def)

lemma set_take_drop_distinct:
  assumes "distinct xs"
  shows "set (take n xs) \<inter> set (drop n xs) = {}" "set (take n xs) \<union> set (drop n xs) = set xs"
  using assms by (metis append_take_drop_id distinct_append, metis append_take_drop_id set_append)

lemma stream_ok_xreadgroup:
  assumes "stream_ok k g d" shows "stream_ok k g (ev_xreadgroup k g c n t d)"
proof -
  let ?u = "undelivered (dGroup d k g)"
  note ok = stream_okD [OF assms]
  have "dom (deliver c t (take (nat n) ?u) (pel (dGroup d k g))) =
      ids_of (dLog d k) - set (drop (nat n) ?u)"
    using ok(3,4) set_take_drop_distinct [OF ok(2), of "nat n"] by (auto simp: dom_deliver)
  with ok show ?thesis
    unfolding stream_ok_def
    by (auto simp: deliver_def dest: in_set_dropD split: if_splits)
qed

lemma stream_ok_upd_pel:
  assumes "stream_ok k g d"
    and "dom (pel (f (dGroup d k g))) = dom (pel (dGroup d k g))"
    and "undelivered (f (dGroup d k g)) = undelivered (dGroup d k g)"
    and "\<And>x p. pel (f (dGroup d k g)) x = Some p \<Longrightarrow> 1 \<le> pCount p"
  shows "stream_ok k g (upd_group k g f d)"
  using assms unfolding stream_ok_def upd_group_def by simp

lemma stream_ok_xclaim: "stream_ok k g d \<Longrightarrow> stream_ok k g (ev_xclaim k g c x t d)"
  unfolding ev_xclaim_def
  by (rule stream_ok_upd_pel)
    (auto simp: dom_def dest: stream_okD(6) split: if_splits)

lemma stream_ok_xautoclaim:
  assumes ok: "stream_ok k g d" and D: "D \<subseteq> dom (pel (dGroup d k g)) - ids_of (dLog d k)"
  shows "stream_ok k g (ev_xautoclaim k g c t xs D d)"
proof -
  have "D = {}"
    using D stream_ok_no_dangling [OF ok] by auto
  then show ?thesis
    unfolding ev_xautoclaim_def reassign_def
    by (intro stream_ok_upd_pel [OF ok])
      (auto simp: dom_def dest: stream_okD(6) [OF ok] split: if_splits)
qed

lemma ev_delconsumer_idle:
  "(\<And>x p. pel (dGroup d k g) x = Some p \<Longrightarrow> pOwner p \<noteq> c) \<Longrightarrow>
   pel (dGroup (ev_delconsumer k g c d) k g) = pel (dGroup d k g)"
  by (rule ext) (simp add: ev_defs split: option.splits)

lemma stream_ok_delconsumer:
  assumes "stream_ok k g d" and "\<And>x p. pel (dGroup d k g) x = Some p \<Longrightarrow> pOwner p \<noteq> c"
  shows "stream_ok k g (ev_delconsumer k g c d)"
  using assms(1) ev_delconsumer_idle [of d k g c, OF assms(2)]
  unfolding stream_ok_def by (simp add: ev_defs)

section \<open>Superseded deliveries\<close>

text \<open>
  Delivery number \<open>n\<close> of entry \<open>x\<close> is superseded once the entry was delivered again
  or is no longer pending. No command the program issues undoes this.
\<close>

definition superseded :: "string \<Rightarrow> string \<Rightarrow> string \<Rightarrow> int \<Rightarrow> db \<Rightarrow> bool" where
  "superseded k g x n d \<longleftrightarrow>
     x \<in> dUsed d k \<and> x \<notin> set (undelivered (dGroup d k g)) \<and>
     (\<forall>p. pel (dGroup d k g) x = Some p \<longrightarrow> n < pCount p)"

lemma superseded_not_owned: "superseded k g x n d \<Longrightarrow> \<not> owned k g x owner n d"
  by (auto simp: superseded_def owned_def)

lemma superseded_cong:
  "dGroup d' k g = dGroup d k g \<Longrightarrow> dUsed d' k = dUsed d k \<Longrightarrow> superseded k g x n d' = superseded k g x n d"
  by (simp add: superseded_def)

lemma superseded_other [simp]:
  "superseded k g x n (ev_zadd zk v m d) = superseded k g x n d"
  "superseded k g x n (ev_zrem zk m d) = superseded k g x n d"
  "superseded k g x n (ev_hset hk f w d) = superseded k g x n d"
  "superseded k g x n (ev_hdel hk f d) = superseded k g x n d"
  "superseded k g x n (ev_set_px sk w ttl t d) = superseded k g x n d"
  "k' \<noteq> k \<Longrightarrow> superseded k g x n (ev_xadd k' y fs d) = superseded k g x n d"
  by (rule superseded_cong; simp add: ev_defs)+

lemma superseded_xadd:
  "superseded k g x n d \<Longrightarrow> y \<notin> dUsed d k \<Longrightarrow> superseded k g x n (ev_xadd k y fs d)"
  by (auto simp: superseded_def ev_defs)

lemma superseded_settled_other: "superseded k g x n d \<Longrightarrow> superseded k g x n (settled k g y d)"
  by (auto simp: superseded_def split: if_splits)

lemma superseded_xreadgroup:
  "superseded k g x n d \<Longrightarrow> superseded k g x n (ev_xreadgroup k g c m t d)"
  by (auto simp: superseded_def deliver_def dest: in_set_takeD in_set_dropD split: if_splits)

lemma superseded_xclaim: "superseded k g x n d \<Longrightarrow> superseded k g x n (ev_xclaim k g c y t d)"
  by (auto simp: superseded_def ev_defs split: if_splits)

lemma superseded_xautoclaim:
  "superseded k g x n d \<Longrightarrow> superseded k g x n (ev_xautoclaim k g c t xs D d)"
  by (force simp: superseded_def ev_defs reassign_def split: if_splits)

lemma superseded_delconsumer:
  "superseded k g x n d \<Longrightarrow> superseded k g x n (ev_delconsumer k g c d)"
  by (auto simp: superseded_def ev_defs split: if_splits option.splits)

lemmas superseded_stable = superseded_xadd superseded_settled_other superseded_xreadgroup
  superseded_xclaim superseded_xautoclaim superseded_delconsumer

lemma superseded_by_settling:
  "stream_ok k g d \<Longrightarrow> owned k g x owner m d \<Longrightarrow> superseded k g x n (settled k g x d)"
  by (auto simp: superseded_def owned_def dest: stream_ok_pending)

lemma superseded_by_redelivery:
  assumes "stream_ok k g d" "owned k g x owner n d" "x \<in> xs"
  shows "superseded k g x n (ev_xautoclaim k g c t xs D d)"
  using assms by (auto simp: superseded_def owned_def ev_defs reassign_def dest: stream_ok_pending)

section \<open>The jobs a queue holds\<close>

text \<open>The fields of an entry as a map; the last of several equal names wins.\<close>

definition field :: "fields \<Rightarrow> string \<Rightarrow> string option" where
  "field fs = map_of (rev fs)"

text \<open>The job an entry stands for: its \<^verbatim>\<open>id\<close> field, or the entry ID without one.\<close>

definition entry_job :: "entry \<Rightarrow> string" where
  "entry_job e = (case field (snd e) ''id'' of None \<Rightarrow> fst e | Some i \<Rightarrow> if i = [] then fst e else i)"

definition stream_jobs :: "string \<Rightarrow> db \<Rightarrow> string set" where
  "stream_jobs k d = entry_job ` set (dLog d k)"

definition sched_jobs :: "string \<Rightarrow> db \<Rightarrow> string set" where
  "sched_jobs hk d = dom (dHash d hk)"

text \<open>
  A schedule is well formed when its sorted set and its data hash have the same members and
  each stored job carries its own identifier.
\<close>

definition sched_ok :: "(string \<Rightarrow> fields) \<Rightarrow> string \<Rightarrow> string \<Rightarrow> db \<Rightarrow> bool" where
  "sched_ok dec zk hk d \<longleftrightarrow>
     dom (dZset d zk) = dom (dHash d hk) \<and>
     (\<forall>m w. dHash d hk m = Some w \<longrightarrow> m \<noteq> [] \<and> field (dec w) ''id'' = Some m)"

lemma sched_ok_cong:
  "dZset d' zk = dZset d zk \<Longrightarrow> dHash d' hk = dHash d hk \<Longrightarrow> sched_ok dec zk hk d' = sched_ok dec zk hk d"
  by (simp add: sched_ok_def)

lemma sched_ok_other [simp]:
  "sched_ok dec zk hk (ev_xadd k x fs d) = sched_ok dec zk hk d"
  "sched_ok dec zk hk (settled k g x d) = sched_ok dec zk hk d"
  "sched_ok dec zk hk (ev_xreadgroup k g c n t d) = sched_ok dec zk hk d"
  "sched_ok dec zk hk (ev_xclaim k g c x t d) = sched_ok dec zk hk d"
  "sched_ok dec zk hk (ev_xautoclaim k g c t xs D d) = sched_ok dec zk hk d"
  "sched_ok dec zk hk (ev_delconsumer k g c d) = sched_ok dec zk hk d"
  "sched_ok dec zk hk (ev_set_px sk w ttl t d) = sched_ok dec zk hk d"
  by (rule sched_ok_cong; simp add: ev_defs settled_def)+

lemma sched_ok_schedule:
  "sched_ok dec zk hk d \<Longrightarrow> m \<noteq> [] \<Longrightarrow> field (dec w) ''id'' = Some m \<Longrightarrow>
   sched_ok dec zk hk (ev_zadd zk v m (ev_hset hk m w d))"
  by (auto simp: sched_ok_def ev_defs split: if_splits)

lemma sched_ok_unschedule:
  "sched_ok dec zk hk d \<Longrightarrow> sched_ok dec zk hk (ev_zrem zk m (ev_hdel hk m d))"
  by (auto simp: sched_ok_def ev_defs split: if_splits)

lemma stream_jobs_xadd [simp]:
  "stream_jobs k (ev_xadd k x fs d) = insert (entry_job (x, fs)) (stream_jobs k d)"
  "k' \<noteq> k \<Longrightarrow> stream_jobs k' (ev_xadd k x fs d) = stream_jobs k' d"
  by (auto simp: stream_jobs_def ev_defs)

lemma stream_jobs_settled:
  assumes "stream_ok k g d" "map_of (dLog d k) x = Some fs"
  shows "stream_jobs k d \<subseteq> insert (entry_job (x, fs)) (stream_jobs k (settled k g x d))"
proof
  fix j assume "j \<in> stream_jobs k d"
  then obtain y gs where e: "(y, gs) \<in> set (dLog d k)" "j = entry_job (y, gs)"
    by (auto simp: stream_jobs_def)
  have "gs = fs" if "y = x"
    using e(1) that assms stream_okD(1) [OF assms(1)] by (simp add: map_of_eq_Some_iff)
  with e show "j \<in> insert (entry_job (x, fs)) (stream_jobs k (settled k g x d))"
    by (cases "y = x") (auto simp: stream_jobs_def)
qed

end
