(* ===== verification/Codec.thy ===== *)
theory Codec
  imports Jobs StreamState
begin

text \<open>
  How a job is written to and read back from the server: \<^verbatim>\<open>jobFields\<close>,
  \<^verbatim>\<open>flatToMap\<close> and \<^verbatim>\<open>parseJob\<close> of \<^verbatim>\<open>redisstream/store.go\<close>. The
  textual form of times and the JSON form of the field map are parameters, collected in the
  record \<open>codec\<close>; what the program relies on is the locale \<open>codec_laws\<close>: a UTC time
  survives \<^verbatim>\<open>Format\<close>/\<^verbatim>\<open>Parse\<close> with the RFC3339Nano layout, and a map of valid UTF-8
  strings survives \<^verbatim>\<open>json.Marshal\<close> followed by the server's \<^verbatim>\<open>cjson.decode\<close>.
  A Go \<^verbatim>\<open>map[string]string\<close> is a list of pairs with distinct keys, since the order in
  which Go enumerates a map is unspecified and nothing depends on it.
\<close>

record codec =
  fmt_time :: "int \<Rightarrow> string"
  parse_time :: "string \<Rightarrow> int option"
  marshal :: "fields \<Rightarrow> string"
  cjson_decode :: "string \<Rightarrow> fields"

section \<open>Valid UTF-8\<close>

definition byte_in :: "nat \<Rightarrow> nat \<Rightarrow> char \<Rightarrow> bool" where
  "byte_in lo hi c \<longleftrightarrow> lo \<le> (of_char c :: nat) \<and> (of_char c :: nat) \<le> hi"

fun utf8_ok :: "string \<Rightarrow> bool" where
  "utf8_ok [] = True"
| "utf8_ok (a # s) =
     (if byte_in 0 127 a then utf8_ok s
      else if byte_in 194 223 a then (case s of b # r \<Rightarrow> byte_in 128 191 b \<and> utf8_ok r | _ \<Rightarrow> False)
      else if byte_in 224 239 a then
        (case s of
           b # c # r \<Rightarrow>
             byte_in (if byte_in 224 224 a then 160 else 128) (if byte_in 237 237 a then 159 else 191) b \<and>
             byte_in 128 191 c \<and> utf8_ok r
         | _ \<Rightarrow> False)
      else if byte_in 240 244 a then
        (case s of
           b # c # e # r \<Rightarrow>
             byte_in (if byte_in 240 240 a then 144 else 128) (if byte_in 244 244 a then 143 else 191) b \<and>
             byte_in 128 191 c \<and> byte_in 128 191 e \<and> utf8_ok r
         | _ \<Rightarrow> False)
      else False)"

text \<open>Times whose year has four digits, which is what the layout can print and read.\<close>

definition time_ok :: "int \<Rightarrow> bool" where
  "time_ok t \<longleftrightarrow> - 62167219200000000000 \<le> t \<and> t < 253402300800000000000"

locale codec_laws =
  fixes C :: codec
  assumes parse_fmt: "time_ok t \<Longrightarrow> parse_time C (fmt_time C t) = Some t"
    and fmt_ascii: "time_ok t \<Longrightarrow> utf8_ok (fmt_time C t)"
    and decode_marshal:
      "distinct (map fst fs) \<Longrightarrow> (\<forall>(k, v) \<in> set fs. utf8_ok k \<and> utf8_ok v) \<Longrightarrow>
       field (cjson_decode C (marshal C fs)) = field fs"

section \<open>Writing a job\<close>

definition jobFields :: "codec \<Rightarrow> job \<Rightarrow> fields" where
  "jobFields C j =
     [(''id'', ID j),
      (''task'', Task j),
      (''payload'', Payload j),
      (''attempt'', itoa (Attempt j)),
      (''maxAttempts'', itoa (MaxAttempts j)),
      (''traceparent'', TraceParent j),
      (''createdAt'', fmt_time C (CreatedAt j)),
      (''availableAt'', fmt_time C (AvailableAt j))]"

section \<open>Reading a job\<close>

text \<open>Storing under a key of a Go map: replace the value or add the pair.\<close>

fun map_put :: "string \<Rightarrow> string \<Rightarrow> fields \<Rightarrow> fields" where
  "map_put k v [] = [(k, v)]"
| "map_put k v ((k', v') # m) = (if k' = k then (k, v) # m else (k', v') # map_put k v m)"

text \<open>A script's reply lists fields and values alternately.\<close>

definition flatten :: "fields \<Rightarrow> string list" where
  "flatten fs = concat (map (\<lambda>(k, v). [k, v]) fs)"

fun flat_loop :: "fields \<Rightarrow> string list \<Rightarrow> fields" where
  "flat_loop vals (k # v # r) = flat_loop (map_put k v vals) r"
| "flat_loop vals _ = vals"

definition flatToMap :: "string list \<Rightarrow> fields" where
  "flatToMap flat = flat_loop [] flat"

definition field_err :: "string \<Rightarrow> string \<Rightarrow> err" where
  "field_err name msgID = ErrorString (''invalid '' @ name @ '' field for message '' @ msgID)"

definition str_field :: "string \<Rightarrow> fields \<Rightarrow> string \<Rightarrow> err + string" where
  "str_field msgID vals name =
     (case map_of vals name of None \<Rightarrow> Inl (field_err name msgID) | Some v \<Rightarrow> Inr v)"

definition num_field :: "string \<Rightarrow> fields \<Rightarrow> string \<Rightarrow> err + int" where
  "num_field msgID vals name =
     (case str_field msgID vals name of
        Inl e \<Rightarrow> Inl e
      | Inr s \<Rightarrow> (case atoi s of None \<Rightarrow> Inl (ErrExternal ''strconv.Atoi'') | Some n \<Rightarrow> Inr n))"

definition ts_field :: "codec \<Rightarrow> string \<Rightarrow> fields \<Rightarrow> string \<Rightarrow> err + int" where
  "ts_field C msgID vals name =
     (case str_field msgID vals name of
        Inl e \<Rightarrow> Inl e
      | Inr s \<Rightarrow> (case parse_time C s of None \<Rightarrow> Inl (ErrExternal ''time.Parse'') | Some t \<Rightarrow> Inr t))"

definition parseJob :: "codec \<Rightarrow> string \<Rightarrow> fields \<Rightarrow> lease \<Rightarrow> err + job" where
  "parseJob C msgID vals l =
     (case str_field msgID vals ''task'' of Inl e \<Rightarrow> Inl e | Inr task \<Rightarrow>
      case str_field msgID vals ''payload'' of Inl e \<Rightarrow> Inl e | Inr payload \<Rightarrow>
      case num_field msgID vals ''attempt'' of Inl e \<Rightarrow> Inl e | Inr attempt \<Rightarrow>
      case num_field msgID vals ''maxAttempts'' of Inl e \<Rightarrow> Inl e | Inr maxAttempts \<Rightarrow>
      case ts_field C msgID vals ''createdAt'' of Inl e \<Rightarrow> Inl e | Inr createdAt \<Rightarrow>
      case ts_field C msgID vals ''availableAt'' of Inl e \<Rightarrow> Inl e | Inr availableAt \<Rightarrow>
      Inr \<lparr>ID = (case map_of vals ''id'' of Some i \<Rightarrow> if i \<noteq> [] then i else msgID | None \<Rightarrow> msgID),
           Task = task, Payload = payload, Attempt = attempt, MaxAttempts = maxAttempts,
           TraceParent = (case map_of vals ''traceparent'' of Some v \<Rightarrow> v | None \<Rightarrow> []),
           CreatedAt = createdAt, AvailableAt = availableAt, IdempotencyKey = [], Lease = l\<rparr>)"

section \<open>The text of an error\<close>

fun Error :: "err \<Rightarrow> string" where
  "Error ErrNotImplemented = ''not implemented''"
| "Error ErrUnknownTask = ''unknown task''"
| "Error ErrInvalidJob = ''invalid job''"
| "Error ErrLeaseLost = ''lease lost''"
| "Error ErrShutdown = ''worker shutdown timed out''"
| "Error ErrCanceled = ''context canceled''"
| "Error (ErrExternal m) = m"
| "Error (ErrorString m) = m"
| "Error (Wrapped m e) = m @ Error e"
| "Error (Suffixed e m) = Error e @ m"

section \<open>Lemmas\<close>

lemma map_of_map_put [simp]: "map_of (map_put k v m) = (map_of m)(k \<mapsto> v)"
  by (induction k v m rule: map_put.induct) auto

lemma fst_set_map_put [simp]: "fst ` set (map_put k v m) = insert k (fst ` set m)"
  by (induction k v m rule: map_put.induct) auto

lemma distinct_map_put [simp]: "distinct (map fst m) \<Longrightarrow> distinct (map fst (map_put k v m))"
proof (induction k v m rule: map_put.induct)
  case (2 k v k' v' m)
  then show ?case
    using fst_set_map_put [of k v m] by auto
qed simp

lemma map_of_flat_loop: "map_of (flat_loop vals (flatten fs)) = map_of vals ++ field fs"
proof (induction fs arbitrary: vals)
  case Nil
  then show ?case by (simp add: flatten_def field_def)
next
  case (Cons a fs)
  obtain k v where a: "a = (k, v)" by (cases a)
  from Cons.IH [of "map_put k v vals"] show ?case
    by (auto simp: a flatten_def field_def map_add_def fun_eq_iff split: option.split)
qed

lemma map_of_flatToMap [simp]: "map_of (flatToMap (flatten fs)) = field fs"
  by (simp add: flatToMap_def map_of_flat_loop)

lemma distinct_flat_loop: "distinct (map fst vals) \<Longrightarrow> distinct (map fst (flat_loop vals flat))"
  by (induction vals flat rule: flat_loop.induct) simp_all

lemma distinct_flatToMap [simp]: "distinct (map fst (flatToMap flat))"
  by (simp add: flatToMap_def distinct_flat_loop)

lemma field_distinct: "distinct (map fst fs) \<Longrightarrow> field fs = map_of fs"
  unfolding field_def by (subst map_of_inject_set) (simp_all flip: rev_map)

text \<open>Only the map matters to the parser, not the list that represents it.\<close>

lemma parseJob_cong:
  assumes "map_of vals = map_of vals'"
  shows "parseJob C x vals l = parseJob C x vals' l"
  unfolding parseJob_def num_field_def ts_field_def str_field_def assms by (rule refl)

lemma distinct_jobFields [simp]: "distinct (map fst (jobFields C j))"
  by (simp add: jobFields_def)

text \<open>What a job must satisfy to be stored without loss: Go's own ranges and a printable time.\<close>

definition storable :: "job \<Rightarrow> bool" where
  "storable j \<longleftrightarrow> ID j \<noteq> [] \<and> is_int64 (Attempt j) \<and> is_int64 (MaxAttempts j) \<and>
     time_ok (CreatedAt j) \<and> time_ok (AvailableAt j)"

definition utf8_job :: "job \<Rightarrow> bool" where
  "utf8_job j \<longleftrightarrow> utf8_ok (ID j) \<and> utf8_ok (Task j) \<and> utf8_ok (Payload j) \<and> utf8_ok (TraceParent j)"

lemma utf8_ok_ascii: "(\<And>c. c \<in> set s \<Longrightarrow> (of_char c :: nat) \<le> 127) \<Longrightarrow> utf8_ok s"
  by (induction s) (simp_all add: byte_in_def)

lemma utf8_ok_nat_digits [simp]: "utf8_ok (nat_digits n)"
  by (rule utf8_ok_ascii) (drule nat_digits_all_digits, simp add: is_digit_def)

lemma utf8_ok_itoa [simp]: "utf8_ok (itoa i)"
  by (simp add: itoa_def byte_in_def)

context codec_laws
begin

lemma parse_jobFields:
  "storable j \<Longrightarrow> parseJob C x (jobFields C j) l = Inr (j\<lparr>IdempotencyKey := [], Lease := l\<rparr>)"
  by (simp add: parseJob_def jobFields_def str_field_def num_field_def ts_field_def storable_def parse_fmt)

lemma utf8_jobFields:
  "storable j \<Longrightarrow> utf8_job j \<Longrightarrow> \<forall>(k, v) \<in> set (jobFields C j). utf8_ok k \<and> utf8_ok v"
  by (simp add: jobFields_def utf8_job_def storable_def fmt_ascii byte_in_def)

lemma field_decode_jobFields:
  "storable j \<Longrightarrow> utf8_job j \<Longrightarrow> field (cjson_decode C (marshal C (jobFields C j))) = map_of (jobFields C j)"
  by (simp add: decode_marshal utf8_jobFields field_distinct)

lemma parse_decode_jobFields:
  assumes "storable j" "utf8_job j"
  shows "parseJob C x (flatToMap (flatten (cjson_decode C (marshal C (jobFields C j))))) l =
    Inr (j\<lparr>IdempotencyKey := [], Lease := l\<rparr>)"
proof -
  have "map_of (flatToMap (flatten (cjson_decode C (marshal C (jobFields C j))))) = map_of (jobFields C j)"
    using assms by (simp add: field_decode_jobFields)
  then show ?thesis
    using parseJob_cong parse_jobFields [OF assms(1)] by metis
qed

end

text \<open>The job a parsed entry stands for is the entry's job.\<close>

lemma parseJob_ID:
  "parseJob C x (flatToMap (flatten fs)) l = Inr j \<Longrightarrow> ID j = entry_job (x, fs)"
  by (auto simp: parseJob_def entry_job_def split: sum.splits option.splits)

lemma parseJob_Lease: "parseJob C x vals l = Inr j \<Longrightarrow> Lease j = l"
  by (auto simp: parseJob_def split: sum.splits)

end
