(* ===== verification/ScriptSpecs.thy ===== *)
theory ScriptSpecs
  imports StreamState
begin

text \<open>
  What each Lua script does to the view of the data, proved once for every server that meets
  the contract \<open>redis_server\<close>: the fenced scripts change nothing and answer 0 unless the
  caller's delivery is the current one, and every script keeps the stream and the schedule
  well formed.
\<close>

section \<open>The contract of a fenced operation\<close>

text \<open>
  The scripts that settle or renew a delivery share one contract: a caller whose lease is not
  the current one changes nothing and is told so; for the current one the script has its
  effect \<open>eff\<close> on the view and answers 1.
\<close>

locale fenced =
  fixes view :: "'r \<Rightarrow> db"
    and k :: string
    and g :: string
    and act :: "string \<Rightarrow> string \<Rightarrow> int \<Rightarrow> int \<Rightarrow> 'r \<Rightarrow> 'r \<times> int"
    and eff :: "string \<Rightarrow> string \<Rightarrow> int \<Rightarrow> 'r \<Rightarrow> db \<Rightarrow> db"
  assumes lost: "\<not> owned k g x owner token (view s) \<Longrightarrow> act x owner token t s = (s, 0)"
    and held: "stream_ok k g (view s) \<Longrightarrow> owned k g x owner token (view s) \<Longrightarrow>
      snd (act x owner token t s) = 1 \<and> view (fst (act x owner token t s)) = eff x owner t s (view s)"
begin

lemma reply_iff_owned:
  "stream_ok k g (view s) \<Longrightarrow> snd (act x owner token t s) \<noteq> 0 \<longleftrightarrow> owned k g x owner token (view s)"
  using lost held by (metis snd_conv zero_neq_one)

lemma reply_zero_unchanged:
  "stream_ok k g (view s) \<Longrightarrow> snd (act x owner token t s) = 0 \<Longrightarrow> fst (act x owner token t s) = s"
  using lost held by (metis fst_conv zero_neq_one)

lemma stale_rejected:
  "superseded k g x token (view s) \<Longrightarrow> act x owner token t s = (s, 0)"
  by (rule lost) (rule superseded_not_owned)

lemma result_cases:
  assumes "stream_ok k g (view s)"
  obtains "\<not> owned k g x owner token (view s)" "act x owner token t s = (s, 0)"
  | "owned k g x owner token (view s)" "snd (act x owner token t s) = 1"
    "view (fst (act x owner token t s)) = eff x owner t s (view s)"
  using assms lost held by blast

end

section \<open>The keys of one queue\<close>

text \<open>The queue's five keys have the types its scripts use, and its two streams differ.\<close>

locale queue_keys = redis_server R view kt xle
  for R :: "'r redis" and view :: "'r \<Rightarrow> db" and kt :: "string \<Rightarrow> ktype" and xle :: "string \<Rightarrow> string \<Rightarrow> bool" +
  fixes stream :: string and zset :: string and data :: string and dead :: string and gname :: string
  assumes kt_stream [simp]: "kt stream = KStream"
    and kt_zset [simp]: "kt zset = KZset"
    and kt_data [simp]: "kt data = KHash"
    and kt_dead [simp]: "kt dead = KStream"
    and stream_dead: "stream \<noteq> dead"
begin

lemma dead_stream [simp]: "dead \<noteq> stream" "stream \<noteq> dead"
  using stream_dead by simp_all

abbreviation okS :: "'r \<Rightarrow> bool" where
  "okS s \<equiv> stream_ok stream gname (view s)"

lemma owns_owned [simp]:
  "owns R stream gname x owner token t s = owned stream gname x owner token (view s)"
  by (auto simp: owns_def owned_def xpending_view split: option.splits)

lemma settle_view [simp]: "view (settle R stream gname x s) = settled stream gname x (view s)"
  by (simp add: settle_def settled_def xdel_view xack_view)

lemma renew_view:
  "okS s \<Longrightarrow> owned stream gname x o' n (view s) \<Longrightarrow>
   view (renew R stream gname x owner t s) = ev_xclaim stream gname owner x t (view s)"
  by (auto simp: renew_def owned_def intro!: xclaim_view dest: stream_ok_pending_in_log)

end

subsection \<open>The fenced scripts meet the contract\<close>

sublocale queue_keys \<subseteq> ack: fenced view stream gname "ackScript R stream gname"
  "\<lambda>x owner t s d. settled stream gname x d"
  by unfold_locales (simp_all add: ackScript_def)

sublocale queue_keys \<subseteq> ext: fenced view stream gname "extendScript R stream gname"
  "\<lambda>x owner t s d. ev_xclaim stream gname owner x t d"
  by unfold_locales (simp_all add: extendScript_def renew_view)

sublocale queue_keys \<subseteq> ret: fenced view stream gname
  "\<lambda>x owner token. retryScript R stream zset data gname x owner token runAt jobID json"
  "\<lambda>x owner t s d. settled stream gname x (ev_zadd zset runAt jobID (ev_hset data jobID json d))"
  for runAt :: int and jobID :: string and json :: string
  by unfold_locales (simp_all add: retryScript_def Let_def zadd_view hset_view)

sublocale queue_keys \<subseteq> dlq: fenced view stream gname
  "\<lambda>x owner token. deadLetterScript R stream dead gname x owner token pairs"
  "\<lambda>x owner t s d. settled stream gname x (ev_xadd dead (snd (xadd R dead pairs s)) pairs d)"
  for pairs :: fields
  by unfold_locales (simp_all add: deadLetterScript_def xadd_view)

section \<open>Every script keeps the queue well formed\<close>

definition queue_ok :: "(string \<Rightarrow> fields) \<Rightarrow> string \<Rightarrow> string \<Rightarrow> string \<Rightarrow> string \<Rightarrow> db \<Rightarrow> bool" where
  "queue_ok dec stream gname zset data d \<longleftrightarrow> stream_ok stream gname d \<and> sched_ok dec zset data d"

lemma queue_okI: "stream_ok k g d \<Longrightarrow> sched_ok dec z h d \<Longrightarrow> queue_ok dec k g z h d"
  by (simp add: queue_ok_def)

lemma queue_okD: "queue_ok dec k g z h d \<Longrightarrow> stream_ok k g d" "queue_ok dec k g z h d \<Longrightarrow> sched_ok dec z h d"
  by (simp_all add: queue_ok_def)

text \<open>A job as it is scheduled: under its own, non-empty identifier.\<close>

definition own_id :: "(string \<Rightarrow> fields) \<Rightarrow> string \<Rightarrow> string \<Rightarrow> bool" where
  "own_id dec jobID json \<longleftrightarrow> jobID \<noteq> [] \<and> field (dec json) ''id'' = Some jobID"

text \<open>
  What recovery takes: expired deliveries of existing entries only, each counted once more
  and now owned by the caller since time \<open>t\<close>.
\<close>

definition taken :: "string \<Rightarrow> string \<Rightarrow> string \<Rightarrow> int \<Rightarrow> int \<Rightarrow> db \<Rightarrow> db \<Rightarrow> string \<times> fields \<times> int \<Rightarrow> bool" where
  "taken k g c t idle d d' = (\<lambda>(x, fs, m).
     map_of (dLog d k) x = Some fs \<and>
     (\<exists>p. pel (dGroup d k g) x = Some p \<and> m = pCount p + 1 \<and> idle \<le> t - pTime p) \<and>
     pel (dGroup d' k g) x = Some \<lparr>pOwner = c, pTime = t, pCount = m\<rparr>)"

definition recovers :: "string \<Rightarrow> string \<Rightarrow> string \<Rightarrow> int \<Rightarrow> int \<Rightarrow> db \<Rightarrow> db \<Rightarrow> (string \<times> fields \<times> int) list \<Rightarrow> bool" where
  "recovers k g c t idle d d' rs \<longleftrightarrow>
     dLog d' = dLog d \<and> dUsed d' = dUsed d \<and> dZset d' = dZset d \<and> dHash d' = dHash d \<and> dStr d' = dStr d \<and>
     undelivered (dGroup d' k g) = undelivered (dGroup d k g) \<and>
     distinct (map fst rs) \<and>
     (\<forall>r \<in> set rs. taken k g c t idle d d' r) \<and>
     (\<forall>x. x \<notin> fst ` set rs \<longrightarrow> pel (dGroup d' k g) x = pel (dGroup d k g) x)"

lemma recovers_refl: "recovers k g c t idle d d []"
  by (simp add: recovers_def)

lemma recoversD:
  assumes "recovers k g c t idle d d' rs"
  shows "dLog d' = dLog d" "dUsed d' = dUsed d" "dZset d' = dZset d" "dHash d' = dHash d" "dStr d' = dStr d"
    "undelivered (dGroup d' k g) = undelivered (dGroup d k g)" "distinct (map fst rs)"
    "r \<in> set rs \<Longrightarrow> taken k g c t idle d d' r"
    "x \<notin> fst ` set rs \<Longrightarrow> pel (dGroup d' k g) x = pel (dGroup d k g) x"
  using assms unfolding recovers_def by blast+

lemma taken_frame:
  assumes "taken k g c t idle d1 d2 (x, fs, m)"
    and "dLog d1 k = dLog d k" "pel (dGroup d1 k g) x = pel (dGroup d k g) x"
    and "pel (dGroup d2 k g) x = pel (dGroup d' k g) x"
  shows "taken k g c t idle d d' (x, fs, m)"
  using assms by (simp add: taken_def)

text \<open>What was just taken is not expired any more, so consecutive claims take disjoint sets.\<close>

lemma recovers_disjoint:
  assumes a: "recovers k g c t idle d d1 rs" and b: "recovers k g c t idle d1 d2 qs" and idle: "1 \<le> idle"
    and q: "(x, fs, m) \<in> set qs"
  shows "x \<notin> fst ` set rs"
proof
  assume "x \<in> fst ` set rs"
  then obtain fs' m' where "(x, fs', m') \<in> set rs" by auto
  from recoversD(8) [OF a this] have "pel (dGroup d1 k g) x = Some \<lparr>pOwner = c, pTime = t, pCount = m'\<rparr>"
    by (simp add: taken_def)
  with recoversD(8) [OF b q] idle show False
    by (simp add: taken_def)
qed

lemma recovers_trans:
  assumes a: "recovers k g c t idle d d1 rs" and b: "recovers k g c t idle d1 d2 qs" and idle: "1 \<le> idle"
  shows "recovers k g c t idle d d2 (rs @ qs)"
proof -
  have disj: "fst ` set qs \<inter> fst ` set rs = {}"
  proof -
    have "x \<notin> fst ` set rs" if "x \<in> fst ` set qs" for x
    proof -
      from that obtain fs m where "(x, fs, m) \<in> set qs" by auto
      then show ?thesis by (rule recovers_disjoint [OF a b idle])
    qed
    then show ?thesis by auto
  qed
  have "taken k g c t idle d d2 r" if r: "r \<in> set (rs @ qs)" for r
  proof -
    obtain x fs m where x: "r = (x, fs, m)" by (cases r)
    show ?thesis
    proof (cases "r \<in> set rs")
      case True
      then have "x \<notin> fst ` set qs" using disj x by force
      with recoversD(9) [OF b] recoversD(8) [OF a True] show ?thesis
        unfolding x by (elim taken_frame) simp_all
    next
      case False
      with r have q: "r \<in> set qs" by simp
      then have "x \<notin> fst ` set rs" using disj x by force
      with recoversD(9) [OF a] recoversD(1) [OF a] recoversD(8) [OF b q] show ?thesis
        unfolding x by (elim taken_frame) simp_all
    qed
  qed
  moreover have "distinct (map fst (rs @ qs))"
    using recoversD(7) [OF a] recoversD(7) [OF b] disj by auto
  moreover have "pel (dGroup d2 k g) x = pel (dGroup d k g) x" if "x \<notin> fst ` set (rs @ qs)" for x
    using that recoversD(9) [OF a] recoversD(9) [OF b] by (simp add: image_Un)
  ultimately show ?thesis
    using recoversD(1-6) [OF a] recoversD(1-6) [OF b] unfolding recovers_def by simp
qed

lemma recovers_superseded:
  assumes "recovers k g c t idle d d' rs" "superseded k g x n d"
  shows "superseded k g x n d'"
proof (cases "x \<in> fst ` set rs")
  case True
  then obtain fs m where "(x, fs, m) \<in> set rs" by auto
  from recoversD(8) [OF assms(1) this] assms(2) recoversD(2,6) [OF assms(1)] show ?thesis
    by (auto simp: taken_def superseded_def)
next
  case False
  from recoversD(9) [OF assms(1) this] assms(2) recoversD(2,6) [OF assms(1)] show ?thesis
    by (simp add: superseded_def)
qed

text \<open>Every lease that existed on a recovered entry is superseded; the new one is current.\<close>

lemma recovers_fences:
  assumes "recovers k g c t idle d d' rs" "stream_ok k g d" "(x, fs, m) \<in> set rs"
  shows "owned k g x owner n d \<Longrightarrow> superseded k g x n d'" and "owned k g x c m d'"
    and "map_of (dLog d' k) x = Some fs"
proof -
  have tk: "taken k g c t idle d d' (x, fs, m)"
    by (rule recoversD(8) [OF assms(1,3)])
  then show "owned k g x c m d'" "map_of (dLog d' k) x = Some fs"
    using recoversD(1) [OF assms(1)] by (auto simp: taken_def owned_def)
  show "superseded k g x n d'" if "owned k g x owner n d"
    using tk that recoversD(2,6) [OF assms(1)] stream_ok_pending [OF assms(2), of x]
    by (auto simp: taken_def owned_def superseded_def)
qed

context queue_keys
begin

lemma ack_ok:
  assumes "queue_ok dec stream gname zset data (view s)"
  shows "queue_ok dec stream gname zset data (view (fst (ackScript R stream gname x owner token t s)))"
  using queue_okD [OF assms]
  by (cases rule: ack.result_cases [OF queue_okD(1) [OF assms], of x owner token t])
    (simp_all add: queue_ok_def stream_ok_settled)

lemma extend_ok:
  assumes "queue_ok dec stream gname zset data (view s)"
  shows "queue_ok dec stream gname zset data (view (fst (extendScript R stream gname x owner token t s)))"
  using queue_okD [OF assms]
  by (cases rule: ext.result_cases [OF queue_okD(1) [OF assms], of x owner token t])
    (simp_all add: queue_ok_def stream_ok_xclaim)

lemma retry_ok:
  assumes "queue_ok dec stream gname zset data (view s)" "own_id dec jobID json"
  shows "queue_ok dec stream gname zset data
    (view (fst (retryScript R stream zset data gname x owner token runAt jobID json t s)))"
  using queue_okD [OF assms(1)] assms(2)
  by (cases rule: ret.result_cases [OF queue_okD(1) [OF assms(1)], of x owner token runAt jobID json t])
    (simp_all add: queue_ok_def stream_ok_settled sched_ok_schedule own_id_def)

lemma dead_letter_ok:
  assumes "queue_ok dec stream gname zset data (view s)"
  shows "queue_ok dec stream gname zset data
    (view (fst (deadLetterScript R stream dead gname x owner token pairs t s)))"
  using queue_okD [OF assms]
  by (cases rule: dlq.result_cases [OF queue_okD(1) [OF assms], of x owner token pairs t])
    (simp_all add: queue_ok_def stream_ok_settled)

lemma xadd_stream_ok:
  "queue_ok dec stream gname zset data (view s) \<Longrightarrow>
   queue_ok dec stream gname zset data (view (fst (xadd R stream fs s)))"
  by (simp add: queue_ok_def xadd_view stream_ok_xadd xadd_fresh)

lemma schedule_ok:
  "queue_ok dec stream gname zset data (view s) \<Longrightarrow> own_id dec jobID json \<Longrightarrow>
   queue_ok dec stream gname zset data (view (zadd R zset runAt jobID (hset R data jobID json s)))"
  by (simp add: queue_ok_def zadd_view hset_view sched_ok_schedule own_id_def)

subsection \<open>Promotion\<close>

lemma promote_one_view:
  "view (promote_one R dec zset data stream jid s) =
     ev_zrem zset jid (ev_hdel data jid
       (case dHash (view s) data jid of
          None \<Rightarrow> view s
        | Some w \<Rightarrow> ev_xadd stream (snd (xadd R stream (dec w) s)) (dec w) (view s)))"
  by (simp add: promote_one_def xadd_json_def Let_def hget_view zrem_view hdel_view xadd_view
      split: option.split)

lemma promote_one_ok:
  "queue_ok dec stream gname zset data (view s) \<Longrightarrow>
   queue_ok dec stream gname zset data (view (promote_one R dec zset data stream jid s))"
  by (simp add: queue_ok_def promote_one_view stream_ok_xadd xadd_fresh sched_ok_unschedule
      split: option.split)

text \<open>A promoted job moves from the schedule to the stream; the jobs held stay the same.\<close>

lemma promote_one_jobs:
  assumes "queue_ok dec stream gname zset data (view s)"
  shows "stream_jobs stream (view (promote_one R dec zset data stream jid s)) \<union>
      sched_jobs data (view (promote_one R dec zset data stream jid s)) =
    stream_jobs stream (view s) \<union> sched_jobs data (view s)"
proof (cases "dHash (view s) data jid")
  case None
  then show ?thesis
    by (auto simp: promote_one_view stream_jobs_def sched_jobs_def ev_defs)
next
  case (Some w)
  with queue_okD(2) [OF assms] have "field (dec w) ''id'' = Some jid" "jid \<noteq> []"
    by (auto simp: sched_ok_def)
  then have "entry_job (x, dec w) = jid" for x
    by (simp add: entry_job_def)
  with Some show ?thesis
    by (auto simp: promote_one_view stream_jobs_def sched_jobs_def ev_defs)
qed

lemma promote_all_ok:
  "queue_ok dec stream gname zset data (view s) \<Longrightarrow>
   queue_ok dec stream gname zset data (view (promote_all R dec zset data stream jids s)) \<and>
   stream_jobs stream (view (promote_all R dec zset data stream jids s)) \<union>
     sched_jobs data (view (promote_all R dec zset data stream jids s)) =
   stream_jobs stream (view s) \<union> sched_jobs data (view s)"
proof (induction jids arbitrary: s)
  case (Cons jid jids)
  from Cons.IH [OF promote_one_ok [OF Cons.prems]] promote_one_jobs [OF Cons.prems]
  show ?case by simp
qed simp

lemma promote_ok:
  "queue_ok dec stream gname zset data (view s) \<Longrightarrow>
   queue_ok dec stream gname zset data (view (fst (promote R dec zset data stream now n s)))"
  by (simp add: promote_def Let_def promote_all_ok)

lemma promote_jobs:
  "queue_ok dec stream gname zset data (view s) \<Longrightarrow>
   stream_jobs stream (view (fst (promote R dec zset data stream now n s))) \<union>
     sched_jobs data (view (fst (promote R dec zset data stream now n s))) =
   stream_jobs stream (view s) \<union> sched_jobs data (view s)"
  by (simp add: promote_def Let_def promote_all_ok)

text \<open>
  Promoting distinct scheduled jobs appends exactly one entry per job, in order, and removes
  exactly those jobs from both halves of the schedule.
\<close>

lemma promote_one_log:
  assumes ok: "queue_ok dec stream gname zset data (view s)" and j: "dHash (view s) data jid = Some w"
  shows "\<exists>x. dLog (view (promote_one R dec zset data stream jid s)) stream = dLog (view s) stream @ [(x, dec w)]
      \<and> entry_job (x, dec w) = jid"
    and "dHash (view (promote_one R dec zset data stream jid s)) data = (dHash (view s) data)(jid := None)"
    and "dZset (view (promote_one R dec zset data stream jid s)) zset = (dZset (view s) zset)(jid := None)"
proof -
  have "field (dec w) ''id'' = Some jid" "jid \<noteq> []"
    using queue_okD(2) [OF ok] j by (auto simp: sched_ok_def)
  then show "\<exists>x. dLog (view (promote_one R dec zset data stream jid s)) stream = dLog (view s) stream @ [(x, dec w)]
      \<and> entry_job (x, dec w) = jid"
    by (simp add: promote_one_view j ev_defs entry_job_def)
qed (simp_all add: promote_one_view j ev_defs)

lemma promote_all_log:
  "queue_ok dec stream gname zset data (view s) \<Longrightarrow> distinct jids \<Longrightarrow> set jids \<subseteq> dom (dHash (view s) data) \<Longrightarrow>
   (\<exists>es. dLog (view (promote_all R dec zset data stream jids s)) stream = dLog (view s) stream @ es \<and>
      map entry_job es = jids) \<and>
   dHash (view (promote_all R dec zset data stream jids s)) data = dHash (view s) data |` (- set jids) \<and>
   dZset (view (promote_all R dec zset data stream jids s)) zset = dZset (view s) zset |` (- set jids)"
proof (induction jids arbitrary: s)
  case (Cons jid jids)
  then obtain w where w: "dHash (view s) data jid = Some w" by auto
  let ?s1 = "promote_one R dec zset data stream jid s"
  note one = promote_one_log [OF Cons.prems(1) w]
  obtain x where x: "dLog (view ?s1) stream = dLog (view s) stream @ [(x, dec w)]" "entry_job (x, dec w) = jid"
    using one(1) by blast
  have "set jids \<subseteq> dom (dHash (view ?s1) data)"
    using Cons.prems one(2) by auto
  with Cons.IH [of ?s1] promote_one_ok [OF Cons.prems(1)] Cons.prems(2)
  obtain es where "dLog (view (promote_all R dec zset data stream jids ?s1)) stream = dLog (view ?s1) stream @ es"
      "map entry_job es = jids"
    and r: "dHash (view (promote_all R dec zset data stream jids ?s1)) data = dHash (view ?s1) data |` (- set jids)"
      "dZset (view (promote_all R dec zset data stream jids ?s1)) zset = dZset (view ?s1) zset |` (- set jids)"
    by auto
  then have "\<exists>es. dLog (view (promote_all R dec zset data stream jids ?s1)) stream = dLog (view s) stream @ es \<and>
      map entry_job es = jid # jids"
    using x by (intro exI [of _ "(x, dec w) # es"]) simp
  moreover note r [unfolded one(2,3) restrict_map_drop]
  ultimately show ?case
    by (simp only: promote_all.simps list.set)
qed (simp add: restrict_map_def fun_eq_iff)

lemma due_scheduled:
  "queue_ok dec stream gname zset data d \<Longrightarrow> due zset now d \<subseteq> dom (dHash d data)"
  by (auto simp: due_def queue_ok_def sched_ok_def)

lemma promote_log:
  assumes ok: "queue_ok dec stream gname zset data (view s)" and n: "0 \<le> n"
  shows "\<exists>es. dLog (view (fst (promote R dec zset data stream now n s))) stream = dLog (view s) stream @ es \<and>
      distinct (map entry_job es) \<and> set (map entry_job es) \<subseteq> due zset now (view s) \<and>
      int (length es) \<le> n \<and> snd (promote R dec zset data stream now n s) = int (length es) \<and>
      (int (length es) < n \<longrightarrow> set (map entry_job es) = due zset now (view s)) \<and>
      dZset (view (fst (promote R dec zset data stream now n s))) zset =
        dZset (view s) zset |` (- set (map entry_job es))"
proof -
  let ?js = "zrangebyscore R zset now n s"
  have z: "distinct ?js" "set ?js \<subseteq> due zset now (view s)" "int (length ?js) \<le> n"
    "int (length ?js) < n \<longrightarrow> due zset now (view s) \<subseteq> set ?js"
    using zrange_reply [of zset n now s] n by simp_all
  obtain es where "dLog (view (promote_all R dec zset data stream ?js s)) stream = dLog (view s) stream @ es"
      "map entry_job es = ?js"
      "dZset (view (promote_all R dec zset data stream ?js s)) zset = dZset (view s) zset |` (- set ?js)"
    using promote_all_log [OF ok z(1)] z(2) due_scheduled [OF ok] by blast
  moreover from this(2) have "length es = length ?js"
    by (metis length_map)
  ultimately show ?thesis
    using z by (intro exI [of _ es]) (auto simp: promote_def Let_def)
qed

subsection \<open>Claiming\<close>

lemma claim_view:
  fixes now :: int
  assumes "queue_ok dec stream gname zset data (view s)" "1 \<le> n"
  defines "s1 \<equiv> fst (promote R dec zset data stream now 100 s)"
  shows "view (fst (claimScript R dec stream zset data gname c n now t s)) =
      ev_xreadgroup stream gname c n t (view s1)"
    and "snd (claimScript R dec stream zset data gname c n now t s) =
      map (\<lambda>y. (y, the (map_of (dLog (view s1) stream) y))) (take (nat n) (undelivered (dGroup (view s1) stream gname)))"
proof -
  have ok: "okS s1"
    using promote_ok [OF assms(1)] by (simp add: s1_def queue_ok_def)
  obtain s2 r where x: "xreadgroup R stream gname c n t s1 = (s2, r)"
    by (cases "xreadgroup R stream gname c n t s1")
  have "view s2 = ev_xreadgroup stream gname c n t (view s1)"
    using xreadgroup_view [of stream n gname c t s1] x assms(2) by simp
  moreover have "r = (case take (nat n) (undelivered (dGroup (view s1) stream gname)) of
              [] \<Rightarrow> None
            | x # xs \<Rightarrow> Some (map (\<lambda>y. (y, the (map_of (dLog (view s1) stream) y))) (x # xs)))"
    using xreadgroup_reply [of stream n s1 gname c t] x assms(2) stream_okD(3) [OF ok] by simp
  ultimately show "view (fst (claimScript R dec stream zset data gname c n now t s)) =
      ev_xreadgroup stream gname c n t (view s1)"
    and "snd (claimScript R dec stream zset data gname c n now t s) =
      map (\<lambda>y. (y, the (map_of (dLog (view s1) stream) y))) (take (nat n) (undelivered (dGroup (view s1) stream gname)))"
    using x by (simp_all add: claimScript_def Let_def s1_def [symmetric] split: option.split list.splits)
qed

lemma claim_ok:
  "queue_ok dec stream gname zset data (view s) \<Longrightarrow> 1 \<le> n \<Longrightarrow>
   queue_ok dec stream gname zset data (view (fst (claimScript R dec stream zset data gname c n now t s)))"
  using promote_ok by (simp add: claim_view queue_ok_def stream_ok_xreadgroup)

lemma claim_jobs:
  "queue_ok dec stream gname zset data (view s) \<Longrightarrow> 1 \<le> n \<Longrightarrow>
   stream_jobs stream (view (fst (claimScript R dec stream zset data gname c n now t s))) \<union>
     sched_jobs data (view (fst (claimScript R dec stream zset data gname c n now t s))) =
   stream_jobs stream (view s) \<union> sched_jobs data (view s)"
  using promote_jobs [of dec s now 100] by (simp add: claim_view stream_jobs_def sched_jobs_def)

text \<open>Each entry a claim returns is now leased to the caller as its first delivery.\<close>

lemma read_owned:
  assumes ok: "stream_ok k g d" and x: "x \<in> set (take (nat n) (undelivered (dGroup d k g)))"
  shows "owned k g x c 1 (ev_xreadgroup k g c n t d)"
    and "map_of (dLog d k) x = Some (the (map_of (dLog d k) x))"
proof -
  show "owned k g x c 1 (ev_xreadgroup k g c n t d)"
    using x by (simp add: owned_def deliver_def)
  have "x \<in> ids_of (dLog d k)"
    using x stream_okD(3) [OF ok] in_set_takeD by fast
  then show "map_of (dLog d k) x = Some (the (map_of (dLog d k) x))"
    by (metis map_of_eq_None_iff option.collapse)
qed

lemma claim_owned:
  assumes "queue_ok dec stream gname zset data (view s)" "1 \<le> n"
    and "claimScript R dec stream zset data gname c n now t s = (s', es)"
    and "(x, fs) \<in> set es"
  shows "owned stream gname x c 1 (view s')" "map_of (dLog (view s') stream) x = Some fs"
proof -
  define s1 where "s1 = fst (promote R dec zset data stream now 100 s)"
  have ok: "okS s1"
    using promote_ok [OF assms(1)] by (simp add: s1_def queue_ok_def)
  have v: "view s' = ev_xreadgroup stream gname c n t (view s1)"
    and e: "es = map (\<lambda>y. (y, the (map_of (dLog (view s1) stream) y))) (take (nat n) (undelivered (dGroup (view s1) stream gname)))"
    using claim_view [OF assms(1,2), of c now t] assms(3) by (simp_all add: s1_def)
  have x: "x \<in> set (take (nat n) (undelivered (dGroup (view s1) stream gname)))"
    and fs: "fs = the (map_of (dLog (view s1) stream) x)"
    using assms(4) e by auto
  from read_owned [OF ok x] show "owned stream gname x c 1 (view s')" "map_of (dLog (view s') stream) x = Some fs"
    by (simp_all add: v fs)
qed

lemma claim_limit:
  "queue_ok dec stream gname zset data (view s) \<Longrightarrow> 1 \<le> n \<Longrightarrow>
   int (length (snd (claimScript R dec stream zset data gname c n now t s))) \<le> n"
  by (simp add: claim_view(2))

subsection \<open>Recovery\<close>

lemma with_counts_map:
  "\<forall>(x, fs) \<in> set es. x \<in> dom (pel (dGroup (view s) stream gname)) \<Longrightarrow>
   with_counts R stream gname t s es =
     Some (map (\<lambda>(x, fs). (x, fs, pCount (the (pel (dGroup (view s) stream gname) x)))) es)"
  by (induction es) (auto simp: xpending_view)

lemma autoclaim_step:
  assumes ok: "okS s" and n: "1 \<le> n"
    and x: "xautoclaim R stream gname c idle cur n t s = (s', cur', cl)"
  shows "view s' = ev_xautoclaim stream gname c t (ids_of cl) {} (view s)" "okS s'"
    and "\<exists>rs. with_counts R stream gname t s' cl = Some rs \<and> map fst rs = map fst cl \<and>
      (\<forall>r \<in> set rs. taken stream gname c t idle (view s) (view s') r)"
proof -
  obtain D where D: "D \<subseteq> dom (pel (dGroup (view s) stream gname)) - ids_of (dLog (view s) stream)"
      "view s' = ev_xautoclaim stream gname c t (ids_of cl) D (view s)"
    using xautoclaim_view [OF kt_stream n x] by blast
  have "D = {}"
    using D(1) stream_ok_no_dangling [OF ok] by simp
  then show v: "view s' = ev_xautoclaim stream gname c t (ids_of cl) {} (view s)"
    using D(2) by simp
  show "okS s'"
    using D stream_ok_xautoclaim [OF ok] by simp
  have reply: "\<forall>(x, fs) \<in> set cl. map_of (dLog (view s) stream) x = Some fs \<and> x \<in> dom (pel (dGroup (view s) stream gname))"
    using xautoclaim_reply [OF kt_stream n x] by blast
  let ?rs = "map (\<lambda>(x, fs). (x, fs, pCount (the (pel (dGroup (view s') stream gname) x)))) cl"
  have "with_counts R stream gname t s' cl = Some ?rs"
    by (rule with_counts_map) (use reply in \<open>auto simp: v ev_defs reassign_def\<close>)
  moreover have "taken stream gname c t idle (view s) (view s') r" if r: "r \<in> set ?rs" for r
  proof -
    obtain y fs where e: "(y, fs) \<in> set cl" "r = (y, fs, pCount (the (pel (dGroup (view s') stream gname) y)))"
      using r by auto
    with reply obtain p where p: "pel (dGroup (view s) stream gname) y = Some p" "map_of (dLog (view s) stream) y = Some fs"
      by auto
    have in_cl: "y \<in> ids_of cl"
      using e(1) by force
    moreover have "y \<in> ids_of (dLog (view s) stream)"
      using p(2) by (rule map_of_Some_fst)
    ultimately have "idle \<le> t - pTime p"
      using xautoclaim_scan [OF kt_stream n x p(1)] by blast
    with e(2) p in_cl show ?thesis
      by (simp add: taken_def v ev_defs reassign_def)
  qed
  moreover have "map fst ?rs = map fst cl"
    by (auto simp: o_def split_def)
  ultimately show "\<exists>rs. with_counts R stream gname t s' cl = Some rs \<and> map fst rs = map fst cl \<and>
      (\<forall>r \<in> set rs. taken stream gname c t idle (view s) (view s') r)"
    by blast
qed

lemma autoclaim_recovers:
  assumes ok: "okS s" and n: "1 \<le> n"
    and x: "xautoclaim R stream gname c idle cur n t s = (s', cur', cl)"
  shows "\<exists>rs. with_counts R stream gname t s' cl = Some rs \<and> map fst rs = map fst cl \<and>
    recovers stream gname c t idle (view s) (view s') rs"
proof -
  note v = autoclaim_step(1) [OF ok n x]
  obtain rs where rs: "with_counts R stream gname t s' cl = Some rs" "map fst rs = map fst cl"
      "\<forall>r \<in> set rs. taken stream gname c t idle (view s) (view s') r"
    using autoclaim_step(3) [OF ok n x] by blast
  have ids: "ids_of cl = fst ` set rs"
    using rs(2) by (metis list.set_map)
  have "distinct (map fst rs)"
    using xautoclaim_reply [OF kt_stream n x] rs(2) by simp
  moreover have "\<forall>y. y \<notin> fst ` set rs \<longrightarrow> pel (dGroup (view s') stream gname) y = pel (dGroup (view s) stream gname) y"
    using ids by (auto simp: v ev_defs reassign_def)
  ultimately have "recovers stream gname c t idle (view s) (view s') rs"
    using rs(3) unfolding recovers_def by (simp add: v ev_defs)
  with rs(1,2) show ?thesis by blast
qed

lemma recover_loop_spec:
  assumes "okS s" "1 \<le> idle" "int (length out) < want"
  shows "\<exists>s' cur' rs. recover_loop n R stream gname c idle want t cur out s = (s', Some (cur', out @ rs)) \<and>
    recovers stream gname c t idle (view s) (view s') rs \<and> okS s' \<and> int (length (out @ rs)) \<le> want"
  using assms
proof (induction n arbitrary: cur out s)
  case 0
  then show ?case by (simp add: recovers_refl)
next
  case (Suc n)
  obtain s1 cur1 cl where x: "xautoclaim R stream gname c idle cur (want - int (length out)) t s = (s1, cur1, cl)"
    by (metis prod_cases3)
  have n: "1 \<le> want - int (length out)"
    using Suc.prems(3) by simp
  obtain rs where rs: "with_counts R stream gname t s1 cl = Some rs" "map fst rs = map fst cl"
      and rec: "recovers stream gname c t idle (view s) (view s1) rs"
    using autoclaim_recovers [OF Suc.prems(1) n x] by blast
  have "length rs = length cl"
    using rs(2) by (metis length_map)
  with xautoclaim_reply [OF kt_stream n x] have len: "int (length (out @ rs)) \<le> want"
    by simp
  have ok1: "okS s1"
    by (rule autoclaim_step(2) [OF Suc.prems(1) n x])
  show ?case
  proof (cases "int (length (out @ rs)) \<ge> want \<or> cur1 = ''0-0''")
    case True
    with x rs(1) rec ok1 len show ?thesis
      by (auto simp: Let_def)
  next
    case False
    then have "int (length (out @ rs)) < want" by simp
    from Suc.IH [OF ok1 Suc.prems(2) this, of cur1] obtain s' cur' qs where
      q: "recover_loop n R stream gname c idle want t cur1 (out @ rs) s1 = (s', Some (cur', (out @ rs) @ qs))"
      and qs: "recovers stream gname c t idle (view s1) (view s') qs" "okS s'"
        "int (length ((out @ rs) @ qs)) \<le> want"
      by blast
    with x rs(1) False recovers_trans [OF rec qs(1) Suc.prems(2)] show ?thesis
      by (auto simp: Let_def)
  qed
qed

lemma recover_spec:
  assumes "okS s" "1 \<le> idle" "1 \<le> want"
  shows "\<exists>s' cur' rs. recoverScript R stream gname c idle want cur t s = (s', Some (cur', rs)) \<and>
    recovers stream gname c t idle (view s) (view s') rs \<and> okS s' \<and> int (length rs) \<le> want"
  using recover_loop_spec [of s idle "[]" want 10 c t cur] assms by (simp add: recoverScript_def)

text \<open>
  A complete scan: when a recovery reports the end of the pending list, every delivery that
  was expired at or after its cursor is among those it took.
\<close>

lemma recover_loop_complete:
  assumes "okS s" "1 \<le> idle" "int (length out) < want" "1 \<le> n \<or> cur \<noteq> ''0-0''"
    and "recover_loop n R stream gname c idle want t cur out s = (s', Some (''0-0'', rs))"
    and "pel (dGroup (view s) stream gname) x = Some p" "idle \<le> t - pTime p" "xle cur x"
  shows "x \<in> fst ` set rs"
  using assms
proof (induction n arbitrary: cur out s)
  case 0
  then show ?case by simp
next
  case (Suc n)
  obtain s1 cur1 cl where x: "xautoclaim R stream gname c idle cur (want - int (length out)) t s = (s1, cur1, cl)"
    by (metis prod_cases3)
  have n: "1 \<le> want - int (length out)"
    using Suc.prems(3) by simp
  obtain qs where qs: "with_counts R stream gname t s1 cl = Some qs" "map fst qs = map fst cl"
      and rec: "recovers stream gname c t idle (view s) (view s1) qs"
    using autoclaim_recovers [OF Suc.prems(1) n x] by blast
  have ids: "ids_of cl = fst ` set qs"
    using qs(2) by (metis list.set_map)
  have mem: "x \<in> fst ` set qs \<longleftrightarrow> cur1 = ''0-0'' \<or> xle x cur1 \<and> x \<noteq> cur1"
    using xautoclaim_scan [OF kt_stream n x Suc.prems(6) stream_ok_pending_in_log [OF Suc.prems(1,6)]] Suc.prems(7,8)
    by (simp add: ids)
  show ?case
  proof (cases "int (length (out @ qs)) \<ge> want \<or> cur1 = ''0-0''")
    case True
    with Suc.prems(5) x qs(1) have "cur1 = ''0-0''" "rs = out @ qs"
      by (auto simp: Let_def)
    with mem show ?thesis by (simp add: image_Un)
  next
    case False
    then have loop: "recover_loop n R stream gname c idle want t cur1 (out @ qs) s1 = (s', Some (''0-0'', rs))"
      using Suc.prems(5) x qs(1) by (auto simp: Let_def)
    have ok1: "okS s1" and len: "int (length (out @ qs)) < want" and c1: "1 \<le> n \<or> cur1 \<noteq> ''0-0''"
      using autoclaim_step(2) [OF Suc.prems(1) n x] False by simp_all
    show ?thesis
    proof (cases "x \<in> fst ` set qs")
      case True
      obtain us where "rs = (out @ qs) @ us"
        using recover_loop_spec [OF ok1 Suc.prems(2) len, of n c t cur1] loop by auto
      with True show ?thesis by auto
    next
      case f: False
      have "xle cur1 x"
        using f mem xle_total [of x cur1] by auto
      moreover have "pel (dGroup (view s1) stream gname) x = Some p"
        using recoversD(9) [OF rec f] Suc.prems(6) by simp
      ultimately show ?thesis
        using Suc.IH [OF ok1 Suc.prems(2) len c1 loop] Suc.prems(7) by blast
    qed
  qed
qed

lemma recover_complete:
  assumes "okS s" "1 \<le> idle" "1 \<le> want"
    and "recoverScript R stream gname c idle want ''0-0'' t s = (s', Some (''0-0'', rs))"
    and "pel (dGroup (view s) stream gname) x = Some p" "idle \<le> t - pTime p"
  shows "x \<in> fst ` set rs"
  using recover_loop_complete [OF assms(1,2), of "[]" want 10 "''0-0''" c t s' rs x p] assms xle_start
  by (simp add: recoverScript_def)

subsection \<open>Consumers\<close>

lemma deregister_ok:
  assumes "queue_ok dec stream gname zset data (view s)"
  shows "queue_ok dec stream gname zset data (view (fst (deregisterScript R stream gname c t s)))"
proof (cases "xpending_consumer R stream gname c t s = []")
  case True
  with xpending_consumer_view [OF kt_stream, of gname c t s] assms show ?thesis
    by (auto simp: deregisterScript_def delconsumer_view queue_ok_def intro!: stream_ok_delconsumer)
next
  case False
  with assms show ?thesis by (simp add: deregisterScript_def)
qed

text \<open>Deregistering never drops a pending entry.\<close>

lemma deregister_pel:
  "pel (dGroup (view (fst (deregisterScript R stream gname c t s))) stream gname) = pel (dGroup (view s) stream gname)"
proof (cases "xpending_consumer R stream gname c t s = []")
  case True
  with xpending_consumer_view [OF kt_stream, of gname c t s] show ?thesis
    by (auto simp: deregisterScript_def delconsumer_view intro!: ev_delconsumer_idle)
qed (simp add: deregisterScript_def)

definition idle_consumers :: "(string \<times> int \<times> int) list \<Rightarrow> 'r \<Rightarrow> bool" where
  "idle_consumers cs s \<longleftrightarrow>
     (\<forall>(c, n, i) \<in> set cs. n = 0 \<longrightarrow> (\<forall>x p. pel (dGroup (view s) stream gname) x = Some p \<longrightarrow> pOwner p \<noteq> c))"

lemma prune_each_spec:
  "idle_consumers cs s \<Longrightarrow>
   pel (dGroup (view (fst (prune_each R stream gname minIdle cs s))) stream gname) = pel (dGroup (view s) stream gname) \<and>
   (queue_ok dec stream gname zset data (view s) \<longrightarrow>
      queue_ok dec stream gname zset data (view (fst (prune_each R stream gname minIdle cs s))))"
proof (induction cs arbitrary: s)
  case (Cons a cs)
  obtain c n i where a: "a = (c, n, i)" by (cases a)
  let ?s1 = "xgroup_delconsumer R stream gname c s"
  have rest: "idle_consumers cs s"
    using Cons.prems by (simp add: idle_consumers_def)
  show ?case
  proof (cases "n = 0 \<and> i \<ge> minIdle")
    case True
    then have idle: "pel (dGroup (view s) stream gname) x = Some p \<Longrightarrow> pOwner p \<noteq> c" for x p
      using Cons.prems a unfolding idle_consumers_def by fastforce
    have pel1: "pel (dGroup (view ?s1) stream gname) = pel (dGroup (view s) stream gname)"
      using idle by (simp add: delconsumer_view ev_delconsumer_idle)
    have ok1: "queue_ok dec stream gname zset data (view s) \<Longrightarrow> queue_ok dec stream gname zset data (view ?s1)"
      using idle by (simp add: queue_ok_def delconsumer_view stream_ok_delconsumer)
    have "idle_consumers cs ?s1"
      using rest pel1 by (simp add: idle_consumers_def)
    from Cons.IH [OF this] True pel1 ok1 show ?thesis
      by (auto simp: a split: prod.splits)
  next
    case False
    with Cons.IH [OF rest] show ?thesis by (auto simp: a)
  qed
qed simp

lemma prune_spec:
  "pel (dGroup (view (fst (pruneConsumersScript R stream gname minIdle t s))) stream gname) = pel (dGroup (view s) stream gname)"
  "queue_ok dec stream gname zset data (view s) \<Longrightarrow>
     queue_ok dec stream gname zset data (view (fst (pruneConsumersScript R stream gname minIdle t s)))"
proof -
  have "idle_consumers (xinfo_consumers R stream gname t s) s"
    using xinfo_view [OF kt_stream] unfolding idle_consumers_def by blast
  then show "pel (dGroup (view (fst (pruneConsumersScript R stream gname minIdle t s))) stream gname) = pel (dGroup (view s) stream gname)"
    "queue_ok dec stream gname zset data (view s) \<Longrightarrow>
     queue_ok dec stream gname zset data (view (fst (pruneConsumersScript R stream gname minIdle t s)))"
    by (simp_all add: pruneConsumersScript_def prune_each_spec)
qed

end

section \<open>Batches\<close>

text \<open>Running a single-delivery script on one delivery after another.\<close>

fun run_each :: "(string \<Rightarrow> string \<Rightarrow> int \<Rightarrow> 'r \<Rightarrow> 'r \<times> int) \<Rightarrow> (string \<times> string \<times> int) list \<Rightarrow> 'r \<Rightarrow> 'r \<times> int list" where
  "run_each f [] s = (s, [])"
| "run_each f ((x, owner, token) # ds) s =
     (case f x owner token s of (s1, r) \<Rightarrow> (case run_each f ds s1 of (s2, rs) \<Rightarrow> (s2, r # rs)))"

lemma each_owned_run_each:
  "each_owned R k g t action ds s =
   run_each (\<lambda>x owner token s. if \<not> owns R k g x owner token t s then (s, 0) else (action x owner s, 1)) ds s"
  by (induction ds arbitrary: s) (auto split: prod.splits)

lemma ackBatch_run_each:
  "ackBatchScript R k g ds t s = run_each (\<lambda>x owner token. ackScript R k g x owner token t) ds s"
  by (simp add: ackBatchScript_def each_owned_run_each ackScript_def [abs_def])

lemma extendBatch_run_each:
  "extendBatchScript R k g ds t s = run_each (\<lambda>x owner token. extendScript R k g x owner token t) ds s"
  by (simp add: extendBatchScript_def each_owned_run_each extendScript_def [abs_def])

lemma run_each_length: "length (snd (run_each f ds s)) = length ds"
proof (induction ds arbitrary: s)
  case (Cons d ds)
  obtain x owner token where d: "d = (x, owner, token)" by (cases d)
  obtain s1 r where s1: "f x owner token s = (s1, r)" by (cases "f x owner token s")
  from Cons.IH [of s1] s1 d show ?case
    by (simp split: prod.split) (metis snd_conv)
qed simp

lemma run_each_invariant:
  "P s \<Longrightarrow> (\<And>x owner token s. P s \<Longrightarrow> P (fst (f x owner token s))) \<Longrightarrow> P (fst (run_each f ds s))"
proof (induction ds arbitrary: s)
  case (Cons d ds)
  obtain x owner token where d: "d = (x, owner, token)" by (cases d)
  obtain s1 r where s1: "f x owner token s = (s1, r)" by (cases "f x owner token s")
  have "P s1"
    using Cons.prems(2) [OF Cons.prems(1), of x owner token] s1 by simp
  from Cons.IH [OF this Cons.prems(2)] s1 d show ?case
    by (simp split: prod.split) (metis fst_conv)
qed simp

section \<open>Idempotent enqueue\<close>

context queue_keys
begin

lemma enqueue_once_used:
  assumes "kt dk = KStr" "dStr (view s) dk = Some (v, e)" "t < e"
  shows "enqueueOnceScript R dec dk stream zset data jobID window runAt json t s = (s, v)"
  using assms by (simp add: enqueueOnceScript_def get_str_view)

lemma enqueue_once_fresh:
  fixes jobID :: string
  assumes "kt dk = KStr" "0 < window" and "\<And>v e. dStr (view s) dk = Some (v, e) \<Longrightarrow> e \<le> t"
  defines "s1 \<equiv> set_px R dk jobID window t s"
  shows "enqueueOnceScript R dec dk stream zset data jobID window runAt json t s =
      (if runAt > 0 then zadd R zset runAt jobID (hset R data jobID json s1) else fst (xadd R stream (dec json) s1), jobID)"
    and "view s1 = ev_set_px dk jobID window t (view s)"
proof -
  have "get_str R dk t s = None"
    using assms(1,3) by (fastforce simp: get_str_view split: option.split)
  then show "enqueueOnceScript R dec dk stream zset data jobID window runAt json t s =
      (if runAt > 0 then zadd R zset runAt jobID (hset R data jobID json s1) else fst (xadd R stream (dec json) s1), jobID)"
    by (simp add: enqueueOnceScript_def Let_def s1_def xadd_json_def)
  show "view s1 = ev_set_px dk jobID window t (view s)"
    using assms(1,2) by (simp add: s1_def set_px_view)
qed

text \<open>The key is remembered with the identifier the first call returned.\<close>

lemma enqueue_once_remembers:
  assumes "kt dk = KStr" "0 < window"
    and "enqueueOnceScript R dec dk stream zset data jobID window runAt json t s = (s', r)"
    and "t < e'" "\<And>v e. dStr (view s) dk = Some (v, e) \<Longrightarrow> t < e \<Longrightarrow> e' \<le> e"
    and "e' \<le> t + window"
  shows "\<exists>e. dStr (view s') dk = Some (r, e) \<and> e' \<le> e"
proof (cases "\<exists>v e. dStr (view s) dk = Some (v, e) \<and> t < e")
  case True
  then obtain v e where e: "dStr (view s) dk = Some (v, e)" "t < e" by blast
  with enqueue_once_used [OF assms(1) e] assms(3,5) show ?thesis by auto
next
  case False
  note f = enqueue_once_fresh [OF assms(1,2), of s t]
  have "dStr (view s') dk = Some (r, t + window)"
    using f(1) [where jobID = jobID and dec = dec and runAt = runAt and json = json]
      f(2) [where jobID = jobID] False assms(3)
    by (auto simp: zadd_view hset_view xadd_view ev_defs not_less split: if_splits)
  with assms(6) show ?thesis by auto
qed

lemma set_px_ok:
  "kt dk = KStr \<Longrightarrow> 0 < window \<Longrightarrow> queue_ok dec stream gname zset data (view s) \<Longrightarrow>
   queue_ok dec stream gname zset data (view (set_px R dk jobID window t s))"
  by (simp add: queue_ok_def set_px_view)

lemma enqueue_once_ok:
  assumes "kt dk = KStr" "0 < window" "queue_ok dec stream gname zset data (view s)" "own_id dec jobID json"
  shows "queue_ok dec stream gname zset data
    (view (fst (enqueueOnceScript R dec dk stream zset data jobID window runAt json t s)))"
  using set_px_ok [OF assms(1,2,3), of jobID t] assms(3,4)
  by (simp add: enqueueOnceScript_def Let_def xadd_json_def xadd_stream_ok schedule_ok split: option.split)

end

end
