(* ===== verification/Retries.thy ===== *)
theory Retries
  imports Jobs
begin

text \<open>
  \<^verbatim>\<open>queue/retry.go\<close>: exponential backoff on 64-bit durations (nanoseconds) and the
  decision to dead-letter. Floating-point values are rationals; the rounding of each
  floating-point operation is the argument \<open>fl\<close>, because the Go specification leaves an
  implementation the freedom to fuse operations. The draw of \<^verbatim>\<open>rand.Float64\<close> is the
  argument \<open>r\<close>.
\<close>

record RetryPolicy =
  BaseDelay :: int
  MaxDelay :: int
  Jitter :: rat

definition second :: int where "second = 1000000000"
definition millisecond :: int where "millisecond = 1000000"
definition minute :: int where "minute = 60 * second"
definition hour :: int where "hour = 60 * minute"

definition DefaultRetryPolicy :: RetryPolicy where
  "DefaultRetryPolicy = \<lparr>BaseDelay = second, MaxDelay = 30 * second, Jitter = 1 / 2\<rparr>"

text \<open>The doubling loop: \<^verbatim>\<open>for i := 1; i < attempt && delay < p.MaxDelay; i++\<close>.\<close>

function backoff_loop :: "int \<Rightarrow> int \<Rightarrow> int \<Rightarrow> int \<Rightarrow> int" where
  "backoff_loop i attempt mx delay =
     (if i < attempt \<and> delay < mx then backoff_loop (i + 1) attempt mx (wrap64 (delay * 2)) else delay)"
  by pat_completeness auto
termination
  by (relation "measure (\<lambda>(i, attempt, mx, delay). nat (attempt - i))") auto

declare backoff_loop.simps [simp del]

text \<open>Conversion of a floating-point value to an integer truncates toward zero.\<close>

definition trunc_rat :: "rat \<Rightarrow> int" where
  "trunc_rat q = (if q < 0 then - \<lfloor>- q\<rfloor> else \<lfloor>q\<rfloor>)"

definition NextDelay :: "(rat \<Rightarrow> rat) \<Rightarrow> rat \<Rightarrow> RetryPolicy \<Rightarrow> int \<Rightarrow> int" where
  "NextDelay fl r p attempt0 =
     (let attempt = (if attempt0 < 1 then 1 else attempt0);
          base = (if BaseDelay p = 0 then 1 * second else BaseDelay p);
          mx = (if MaxDelay p = 0 then 30 * second else MaxDelay p);
          delay = min (backoff_loop 1 attempt mx base) mx;
          j = min (max (Jitter p) 0) 1
      in if 0 < j then
           let fd = fl (rat_of_int delay); spread = fl (fd * j)
           in trunc_rat (fl (fl (fd - spread) + fl (r * spread)))
         else delay)"

definition ShouldDeadLetter :: "job \<Rightarrow> bool" where
  "ShouldDeadLetter j = Exhausted j"

section \<open>The doubling loop computes the capped exponential\<close>

lemma backoff_loop_capped:
  assumes "0 < d" "mx \<le> 2 ^ 62" "i \<le> n"
  shows "min (backoff_loop i n mx d) mx = min (d * 2 ^ nat (n - i)) mx"
  using assms
proof (induction i n mx d rule: backoff_loop.induct)
  case (1 i n mx d)
  show ?case
  proof (cases "i < n \<and> d < mx")
    case True
    then have fits: "wrap64 (d * 2) = d * 2"
      using "1.prems" by (intro wrap64_id is_int64I) simp_all
    have "nat (n - i) = Suc (nat (n - (i + 1)))"
      using True by arith
    then have pow: "2 ^ nat (n - i) = (2 :: int) * 2 ^ nat (n - (i + 1))"
      by simp
    from "1.IH" [OF True] True "1.prems" fits
    have "min (backoff_loop (i + 1) n mx (d * 2)) mx = min (d * 2 * 2 ^ nat (n - (i + 1))) mx"
      by simp
    with True fits pow show ?thesis
      by (simp add: backoff_loop.simps [of i n mx d] mult.assoc)
  next
    case False
    have eq: "backoff_loop i n mx d = d"
      using False by (auto simp: backoff_loop.simps [of i n mx d])
    have le: "d \<le> d * 2 ^ nat (n - i)"
      using "1.prems" by simp
    show ?thesis
    proof (cases "i < n")
      case True
      with False have "mx \<le> d" by simp
      with le eq show ?thesis by (metis min.absorb2 order.trans)
    next
      case False
      with "1.prems" eq show ?thesis by simp
    qed
  qed
qed

lemma backoff_loop_pos:
  assumes "0 < d" "mx \<le> 2 ^ 62"
  shows "0 < backoff_loop i n mx d"
  using assms
proof (induction i n mx d rule: backoff_loop.induct)
  case (1 i n mx d)
  then show ?case
    by (cases "i < n \<and> d < mx")
      (auto simp: backoff_loop.simps [of i n mx d] wrap64_id [OF is_int64I])
qed

text \<open>
  C39. Without jitter the delay before retry number \<open>n\<close> is
  \<^verbatim>\<open>BaseDelay * 2^(n-1)\<close> capped at \<^verbatim>\<open>MaxDelay\<close>, for every policy with positive
  bounds whose cap is at most \<open>2^62\<close> nanoseconds.
\<close>

theorem NextDelay_exponential:
  assumes "0 < BaseDelay p" "0 < MaxDelay p" "MaxDelay p \<le> 2 ^ 62" "Jitter p \<le> 0" "1 \<le> n"
  shows "NextDelay fl r p n = min (BaseDelay p * 2 ^ nat (n - 1)) (MaxDelay p)"
  using assms backoff_loop_capped [of "BaseDelay p" "MaxDelay p" 1 n]
  by (simp add: NextDelay_def)

theorem NextDelay_exponential_witness:
  "NextDelay id 0 \<lparr>BaseDelay = second, MaxDelay = 30 * second, Jitter = 0\<rparr> 4 = 8 * second"
  using NextDelay_exponential [of "\<lparr>BaseDelay = second, MaxDelay = 30 * second, Jitter = 0\<rparr>" 4 id 0]
  by (simp add: second_def)

text \<open>
  The bound on the cap is needed: past \<open>2^62\<close> nanoseconds the doubling wraps around, so
  with the largest cap the third retry is scheduled without any delay.
\<close>

theorem NextDelay_overflow:
  "NextDelay fl r \<lparr>BaseDelay = 2 ^ 62, MaxDelay = 2 ^ 63 - 1, Jitter = 0\<rparr> 3 = 0"
proof -
  have "backoff_loop 1 3 (2 ^ 63 - 1) (2 ^ 62) = 0"
    by code_simp
  then show ?thesis
    by (simp add: NextDelay_def)
qed

end
