(* ===== verification/Store.thy ===== *)
theory Store
  imports Codec ScriptSpecs Retries
begin

text \<open>
  \<^verbatim>\<open>redisstream/store.go\<close>: the single-stream backend. A \<open>store\<close> is the client's view of
  the world: the server, the two clocks (server milliseconds, process nanoseconds), the
  client's own mutable fields, and the outcomes the environment has in store for it: what the
  network does to each round trip (\<open>net\<close>) and how each blocking read ends (\<open>blocks\<close>). A
  round trip can be carried out, be lost before the server sees it, or be carried out with its
  reply lost. Every method is a function of the store, so a theorem about all stores covers
  all clocks and all faults. The clocks stand still during one call.
\<close>

section \<open>Configuration\<close>

record Config =
  Addr :: string
  Stream :: string
  Group :: string
  RetryKey :: string
  DeadLetter :: string
  DedupePrefix :: string
  DedupeWindow :: int
  ConsumerIdleTimeout :: int

definition config_defaults :: "Config \<Rightarrow> Config" where
  "config_defaults c =
     (let c1 = c\<lparr>Stream := (if Stream c = [] then ''dtq:jobs'' else Stream c)\<rparr>;
          c2 = c1\<lparr>Group := (if Group c1 = [] then ''dtq:workers'' else Group c1)\<rparr>;
          c3 = c2\<lparr>RetryKey := (if RetryKey c2 = [] then ''dtq:retry'' else RetryKey c2)\<rparr>;
          c4 = c3\<lparr>DeadLetter := (if DeadLetter c3 = [] then ''dtq:dead'' else DeadLetter c3)\<rparr>;
          c5 = c4\<lparr>DedupePrefix := (if DedupePrefix c4 = [] then ''dtq:dedupe:'' else DedupePrefix c4)\<rparr>;
          c6 = c5\<lparr>DedupeWindow := (if DedupeWindow c5 \<le> 0 then 24 * hour else DedupeWindow c5)\<rparr>
      in c6\<lparr>ConsumerIdleTimeout := (if ConsumerIdleTimeout c6 \<le> 0 then hour else ConsumerIdleTimeout c6)\<rparr>)"

lemma config_defaults_fields:
  "Stream (config_defaults c) = (if Stream c = [] then ''dtq:jobs'' else Stream c)"
  "Group (config_defaults c) = (if Group c = [] then ''dtq:workers'' else Group c)"
  "RetryKey (config_defaults c) = (if RetryKey c = [] then ''dtq:retry'' else RetryKey c)"
  "DeadLetter (config_defaults c) = (if DeadLetter c = [] then ''dtq:dead'' else DeadLetter c)"
  "DedupePrefix (config_defaults c) = (if DedupePrefix c = [] then ''dtq:dedupe:'' else DedupePrefix c)"
  "DedupeWindow (config_defaults c) = (if DedupeWindow c \<le> 0 then 24 * hour else DedupeWindow c)"
  "ConsumerIdleTimeout (config_defaults c) = (if ConsumerIdleTimeout c \<le> 0 then hour else ConsumerIdleTimeout c)"
  by (simp_all add: config_defaults_def Let_def)

definition retryData :: "Config \<Rightarrow> string" where
  "retryData c = RetryKey c @ '':jobs''"

section \<open>The client and its environment\<close>

datatype fault = Delivered | Lost string | NoReply string

datatype block = Served | Expired | GaveUp bool | Failed bool string

record 'r store =
  srv :: 'r
  sclk :: int
  wclk :: int
  net :: "fault list"
  blocks :: "block list"
  idSeeds :: "8 word list list"
  recoverCursor :: string
  lastPrune :: int
  lastStuckWarn :: int

text \<open>One round trip: an atomic server function under the next network outcome.\<close>

definition rt :: "('r \<Rightarrow> 'r \<times> 'a) \<Rightarrow> 'r store \<Rightarrow> 'r store \<times> (err + 'a)" where
  "rt f st =
     (case net st of
        [] \<Rightarrow> (st\<lparr>srv := fst (f (srv st))\<rparr>, Inr (snd (f (srv st))))
      | Delivered # ns \<Rightarrow> (st\<lparr>srv := fst (f (srv st)), net := ns\<rparr>, Inr (snd (f (srv st))))
      | Lost m # ns \<Rightarrow> (st\<lparr>net := ns\<rparr>, Inl (ErrExternal m))
      | NoReply m # ns \<Rightarrow> (st\<lparr>srv := fst (f (srv st)), net := ns\<rparr>, Inl (ErrExternal m)))"

definition UnixMilli :: "int \<Rightarrow> int" where
  "UnixMilli t = t div 1000000"

definition Milliseconds :: "int \<Rightarrow> int" where
  "Milliseconds d = (if d < 0 then - ((- d) div 1000000) else d div 1000000)"

definition fresh_id :: "'r store \<Rightarrow> string \<times> 'r store" where
  "fresh_id st =
     (case idSeeds st of [] \<Rightarrow> (NewJobID [], st) | b # bs \<Rightarrow> (NewJobID b, st\<lparr>idSeeds := bs\<rparr>))"

text \<open>The zero \<^verbatim>\<open>time.Time\<close>, 1 January of year 1.\<close>

definition zero_time :: int where
  "zero_time = - 62135596800000000000"

definition str_contains :: "string \<Rightarrow> string \<Rightarrow> bool" where
  "str_contains s sub \<longleftrightarrow> list_ex (\<lambda>i. take (length sub) (drop i s) = sub) [0..<Suc (length s)]"

text \<open>
  The constructor fills in the defaults and creates the consumer group; a server that answers
  that the group exists already is fine. The store it returns starts scanning at the
  beginning of the pending list.
\<close>

definition NewWithClient :: "'r redis \<Rightarrow> Config \<Rightarrow> 'r store \<Rightarrow> 'r store \<times> (err + Config)" where
  [go_defs]: "NewWithClient R config0 st =
     (let config = config_defaults config0
      in case rt (xgroup_create R (Stream config) (Group config)) st of
           (st', Inl e) \<Rightarrow> (st', Inl e)
         | (st', Inr (Some msg)) \<Rightarrow>
             if \<not> str_contains msg ''BUSYGROUP'' then (st', Inl (ErrExternal msg))
             else (st'\<lparr>recoverCursor := ''0-0'', lastPrune := zero_time\<rparr>, Inr config)
         | (st', Inr None) \<Rightarrow> (st'\<lparr>recoverCursor := ''0-0'', lastPrune := zero_time\<rparr>, Inr config))"

section \<open>Enqueue\<close>

definition schedule :: "'r redis \<Rightarrow> codec \<Rightarrow> Config \<Rightarrow> job \<Rightarrow> int \<Rightarrow> 'r store \<Rightarrow> 'r store \<times> err option" where
  [go_defs]: "schedule R C c j runAt st =
     (case rt (\<lambda>s. (zadd R (RetryKey c) (UnixMilli runAt) (ID j)
                     (hset R (retryData c) (ID j) (marshal C (jobFields C j)) s), ())) st of
        (st', Inl e) \<Rightarrow> (st', Some e)
      | (st', Inr _) \<Rightarrow> (st', None))"

definition enqueueOnce :: "'r redis \<Rightarrow> codec \<Rightarrow> Config \<Rightarrow> job \<Rightarrow> 'r store \<Rightarrow> 'r store \<times> (err + string)" where
  [go_defs]: "enqueueOnce R C c j st =
     (let runAt = (if AvailableAt j > wclk st then UnixMilli (AvailableAt j) else 0)
      in rt (enqueueOnceScript R (cjson_decode C) (DedupePrefix c @ IdempotencyKey j) (Stream c) (RetryKey c)
               (retryData c) (ID j) (Milliseconds (DedupeWindow c)) runAt (marshal C (jobFields C j)) (sclk st)) st)"

definition with_id :: "job \<Rightarrow> 'r store \<Rightarrow> job \<times> 'r store" where
  [go_defs]: "with_id j st = (if ID j = [] then (case fresh_id st of (i, st') \<Rightarrow> (j\<lparr>ID := i\<rparr>, st')) else (j, st))"

definition Store_Enqueue :: "'r redis \<Rightarrow> codec \<Rightarrow> Config \<Rightarrow> job \<Rightarrow> 'r store \<Rightarrow> 'r store \<times> (err + string)" where
  [go_defs]: "Store_Enqueue R C c j0 st0 =
     (case with_id j0 st0 of (j, st) \<Rightarrow>
        if IdempotencyKey j \<noteq> [] then enqueueOnce R C c j st
        else if AvailableAt j > wclk st then
          (case schedule R C c j (AvailableAt j) st of
             (st', Some e) \<Rightarrow> (st', Inl e)
           | (st', None) \<Rightarrow> (st', Inr (ID j)))
        else
          (case rt (xadd R (Stream c) (jobFields C j)) st of
             (st', Inl e) \<Rightarrow> (st', Inl e)
           | (st', Inr _) \<Rightarrow> (st', Inr (ID j))))"

text \<open>
  A batch is one MULTI/EXEC transaction. The identifiers are assigned while the transaction
  is being queued, then the commands of all jobs run in order as one atomic server function.
\<close>

fun assign_ids :: "job list \<Rightarrow> 'r store \<Rightarrow> job list \<times> 'r store" where
  "assign_ids [] st = ([], st)"
| "assign_ids (j # js) st =
     (case with_id j st of (j', st') \<Rightarrow> (case assign_ids js st' of (js', st'') \<Rightarrow> (j' # js', st'')))"

definition tx_one :: "'r redis \<Rightarrow> codec \<Rightarrow> Config \<Rightarrow> int \<Rightarrow> int \<Rightarrow> job \<Rightarrow> 'r \<Rightarrow> 'r \<times> string" where
  [go_defs]: "tx_one R C c now t j s =
     (let runAt = (if AvailableAt j > now then UnixMilli (AvailableAt j) else 0);
          json = marshal C (jobFields C j)
      in if IdempotencyKey j = [] \<and> runAt = 0 then (fst (xadd R (Stream c) (jobFields C j) s), ID j)
         else if IdempotencyKey j \<noteq> [] then
           enqueueOnceScript R (cjson_decode C) (DedupePrefix c @ IdempotencyKey j) (Stream c) (RetryKey c)
             (retryData c) (ID j) (Milliseconds (DedupeWindow c)) runAt json t s
         else (zadd R (RetryKey c) runAt (ID j) (hset R (retryData c) (ID j) json s), ID j))"

fun tx_all :: "'r redis \<Rightarrow> codec \<Rightarrow> Config \<Rightarrow> int \<Rightarrow> int \<Rightarrow> job list \<Rightarrow> 'r \<Rightarrow> 'r \<times> string list" where
  "tx_all R C c now t [] s = (s, [])"
| "tx_all R C c now t (j # js) s =
     (case tx_one R C c now t j s of (s1, i) \<Rightarrow> (case tx_all R C c now t js s1 of (s2, is) \<Rightarrow> (s2, i # is)))"

definition Store_EnqueueBatch ::
  "'r redis \<Rightarrow> codec \<Rightarrow> Config \<Rightarrow> job list \<Rightarrow> 'r store \<Rightarrow> 'r store \<times> (err + string list)" where
  [go_defs]: "Store_EnqueueBatch R C c jobs st0 =
     (case assign_ids jobs st0 of (js, st) \<Rightarrow>
        if js = [] then (st, Inr [])
        else rt (tx_all R C c (wclk st) (sclk st) js) st)"

section \<open>Settling\<close>

definition fenced_call :: "('r \<Rightarrow> 'r \<times> int) \<Rightarrow> 'r store \<Rightarrow> 'r store \<times> err option" where
  [go_defs]: "fenced_call script st =
     (case rt script st of
        (st', Inl e) \<Rightarrow> (st', Some e)
      | (st', Inr n) \<Rightarrow> (st', if n = 0 then Some ErrLeaseLost else None))"

definition Store_Ack :: "'r redis \<Rightarrow> Config \<Rightarrow> job \<Rightarrow> 'r store \<Rightarrow> 'r store \<times> err option" where
  [go_defs]: "Store_Ack R c j st =
     fenced_call (ackScript R (Stream c) (Group c) (MessageID (Lease j)) (Owner (Lease j)) (Token (Lease j)) (sclk st)) st"

definition Store_Extend :: "'r redis \<Rightarrow> Config \<Rightarrow> job \<Rightarrow> 'r store \<Rightarrow> 'r store \<times> err option" where
  [go_defs]: "Store_Extend R c j st =
     fenced_call (extendScript R (Stream c) (Group c) (MessageID (Lease j)) (Owner (Lease j)) (Token (Lease j)) (sclk st)) st"

definition Store_Retry :: "'r redis \<Rightarrow> codec \<Rightarrow> Config \<Rightarrow> job \<Rightarrow> int \<Rightarrow> 'r store \<Rightarrow> 'r store \<times> err option" where
  [go_defs]: "Store_Retry R C c j0 nextRunAt st =
     (let j = j0\<lparr>Attempt := wrap64 (Attempt j0 + 1)\<rparr>
      in fenced_call (retryScript R (Stream c) (RetryKey c) (retryData c) (Group c) (MessageID (Lease j))
           (Owner (Lease j)) (Token (Lease j)) (UnixMilli nextRunAt) (ID j) (marshal C (jobFields C j)) (sclk st)) st)"

definition Store_DeadLetter :: "'r redis \<Rightarrow> codec \<Rightarrow> Config \<Rightarrow> job \<Rightarrow> string \<Rightarrow> 'r store \<Rightarrow> 'r store \<times> err option" where
  [go_defs]: "Store_DeadLetter R C c j reason st =
     (let pairs = map_put ''failedAt'' (fmt_time C (wclk st))
                    (map_put ''deliveries'' (itoa (Token (Lease j)))
                      (map_put ''reason'' reason (jobFields C j)))
      in fenced_call (deadLetterScript R (Stream c) (DeadLetter c) (Group c) (MessageID (Lease j))
           (Owner (Lease j)) (Token (Lease j)) pairs (sclk st)) st)"

definition lease_triples :: "job list \<Rightarrow> (string \<times> string \<times> int) list" where
  "lease_triples js = map (\<lambda>j. (MessageID (Lease j), Owner (Lease j), Token (Lease j))) js"

definition fencedBatch ::
  "((string \<times> string \<times> int) list \<Rightarrow> 'r \<Rightarrow> 'r \<times> int list) \<Rightarrow> job list \<Rightarrow> 'r store \<Rightarrow> 'r store \<times> err option list" where
  [go_defs]: "fencedBatch script js st =
     (case rt (script (lease_triples js)) st of
        (st', Inl e) \<Rightarrow> (st', map (\<lambda>_. Some e) js)
      | (st', Inr res) \<Rightarrow>
          (st', map (\<lambda>i. if i \<ge> length res \<or> res ! i = 0 then Some ErrLeaseLost else None) [0..<length js]))"

definition Store_AckBatch :: "'r redis \<Rightarrow> Config \<Rightarrow> job list \<Rightarrow> 'r store \<Rightarrow> 'r store \<times> err option list" where
  [go_defs]: "Store_AckBatch R c js st =
     fencedBatch (\<lambda>ds. ackBatchScript R (Stream c) (Group c) ds (sclk st)) js st"

definition Store_ExtendBatch :: "'r redis \<Rightarrow> Config \<Rightarrow> job list \<Rightarrow> 'r store \<Rightarrow> 'r store \<times> err option list" where
  [go_defs]: "Store_ExtendBatch R c js st =
     fencedBatch (\<lambda>ds. extendBatchScript R (Stream c) (Group c) ds (sclk st)) js st"

section \<open>Claiming and recovering\<close>

definition drop_key :: "string \<Rightarrow> fields \<Rightarrow> fields" where
  "drop_key k fs = filter (\<lambda>p. fst p \<noteq> k) fs"

text \<open>An entry that cannot be parsed goes to the dead-letter stream with its raw fields.\<close>

definition parseOrQuarantine ::
  "'r redis \<Rightarrow> codec \<Rightarrow> Config \<Rightarrow> string \<Rightarrow> fields \<Rightarrow> lease \<Rightarrow> 'r store \<Rightarrow> 'r store \<times> job option" where
  [go_defs]: "parseOrQuarantine R C c msgID vals l st =
     (case parseJob C msgID vals l of
        Inr j \<Rightarrow> (st, Some j)
      | Inl e \<Rightarrow>
          (let pairs = (''reason'', ''malformed entry: '' @ Error e) # drop_key ''reason'' vals
           in (fst (fenced_call (deadLetterScript R (Stream c) (DeadLetter c) (Group c) (MessageID l) (Owner l)
                      (Token l) pairs (sclk st)) st), None)))"

text \<open>The entries of a reply, each with its token, parsed one after the other.\<close>

fun parse_entries ::
  "'r redis \<Rightarrow> codec \<Rightarrow> Config \<Rightarrow> string \<Rightarrow> (string \<times> fields \<times> int) list \<Rightarrow> 'r store \<Rightarrow> 'r store \<times> job list" where
  "parse_entries R C c workerID [] st = (st, [])"
| "parse_entries R C c workerID ((x, fs, token) # es) st =
     (case parseOrQuarantine R C c x (flatToMap (flatten fs))
             \<lparr>MessageID = x, Owner = workerID, Token = token, Partition = 0\<rparr> st of
        (st1, r) \<Rightarrow>
          (case parse_entries R C c workerID es st1 of
             (st2, js) \<Rightarrow> (st2, case r of None \<Rightarrow> js | Some j \<Rightarrow> j # js)))"

definition claimReady :: "'r redis \<Rightarrow> codec \<Rightarrow> Config \<Rightarrow> string \<Rightarrow> int \<Rightarrow> 'r store \<Rightarrow> 'r store \<times> (err + job list)" where
  [go_defs]: "claimReady R C c workerID limit st =
     (case rt (claimScript R (cjson_decode C) (Stream c) (RetryKey c) (retryData c) (Group c) workerID limit
                (UnixMilli (wclk st)) (sclk st)) st of
        (st', Inl e) \<Rightarrow> (st', Inl (Wrapped ''claim: '' e))
      | (st', Inr res) \<Rightarrow>
          (case parse_entries R C c workerID (map (\<lambda>(x, fs). (x, fs, 1)) res) st' of
             (st'', js) \<Rightarrow> (st'', Inr js)))"

definition warnStuckBlock :: "'r store \<Rightarrow> 'r store" where
  [go_defs]: "warnStuckBlock st =
     (if wclk st - lastStuckWarn st < minute then st else st\<lparr>lastStuckWarn := wclk st\<rparr>)"

text \<open>
  A blocking read is served when entries are available, expires empty, is given up by the
  client after the grace period, or fails; in the last two cases the server may have
  delivered entries that the client never sees. \<open>done\<close> says whether the caller's context
  is already cancelled.
\<close>

definition claimBlocking ::
  "'r redis \<Rightarrow> codec \<Rightarrow> Config \<Rightarrow> bool \<Rightarrow> string \<Rightarrow> int \<Rightarrow> 'r store \<Rightarrow> 'r store \<times> (err + job list)" where
  [go_defs]: "claimBlocking R C c done workerID limit st =
     (let read = xreadgroup R (Stream c) (Group c) workerID limit (sclk st) (srv st);
          outcome = (case blocks st of [] \<Rightarrow> Expired | b # _ \<Rightarrow> b);
          st1 = st\<lparr>blocks := tl (blocks st)\<rparr>;
          fail = (\<lambda>e. Inl (Wrapped (''xreadgroup for '' @ workerID @ '': '') e))
      in case outcome of
           Expired \<Rightarrow> (st1, Inr [])
         | Served \<Rightarrow>
             (case snd read of
                None \<Rightarrow> (st1\<lparr>srv := fst read\<rparr>, Inr [])
              | Some es \<Rightarrow>
                  (case parse_entries R C c workerID (map (\<lambda>(x, fs). (x, fs, 1)) es) (st1\<lparr>srv := fst read\<rparr>) of
                     (st2, js) \<Rightarrow> (st2, Inr js)))
         | GaveUp late \<Rightarrow>
             (let st2 = (if late then st1\<lparr>srv := fst read\<rparr> else st1)
              in if \<not> done then (warnStuckBlock st2, Inr []) else (st2, fail (ErrExternal ''deadline exceeded'')))
         | Failed late m \<Rightarrow>
             ((if late then st1\<lparr>srv := fst read\<rparr> else st1), fail (ErrExternal m)))"

text \<open>\<open>env\<close> is what other clients do to the server between the two reads.\<close>

definition Store_Claim ::
  "'r redis \<Rightarrow> codec \<Rightarrow> Config \<Rightarrow> ('r \<Rightarrow> 'r) \<Rightarrow> bool \<Rightarrow> string \<Rightarrow> int \<Rightarrow> int \<Rightarrow> 'r store \<Rightarrow> 'r store \<times> (err + job list)" where
  [go_defs]: "Store_Claim R C c env done workerID limit wait st =
     (case claimReady R C c workerID limit st of
        (st', Inl e) \<Rightarrow> (st', Inl e)
      | (st', Inr jobs) \<Rightarrow>
          if length jobs > 0 \<or> wait \<le> 0 then (st', Inr jobs)
          else claimBlocking R C c done workerID limit (st'\<lparr>srv := env (srv st')\<rparr>))"

definition pruneConsumers :: "'r redis \<Rightarrow> Config \<Rightarrow> 'r store \<Rightarrow> 'r store \<times> err option" where
  [go_defs]: "pruneConsumers R c st =
     (case rt (pruneConsumersScript R (Stream c) (Group c) (Milliseconds (ConsumerIdleTimeout c)) (sclk st)) st of
        (st', Inl e) \<Rightarrow> (st', Some e)
      | (st', Inr _) \<Rightarrow> (st', None))"

definition prune_due :: "Config \<Rightarrow> 'r store \<Rightarrow> bool" where
  "prune_due c st \<longleftrightarrow> wclk st - lastPrune st \<ge> min minute (ConsumerIdleTimeout c div 2)"

definition Store_RecoverExpired ::
  "'r redis \<Rightarrow> codec \<Rightarrow> Config \<Rightarrow> int \<Rightarrow> string \<Rightarrow> int \<Rightarrow> 'r store \<Rightarrow> 'r store \<times> (err + job list)" where
  [go_defs]: "Store_RecoverExpired R C c visibilityTimeout workerID limit st =
     (if limit \<le> 0 then (st, Inr [])
      else
        let cursor = recoverCursor st;
            st1 = (if prune_due c st then fst (pruneConsumers R c (st\<lparr>lastPrune := wclk st\<rparr>)) else st)
        in case rt (recoverScript R (Stream c) (Group c) workerID (Milliseconds visibilityTimeout) limit cursor (sclk st1)) st1 of
             (st2, Inl e) \<Rightarrow> (st2, Inl e)
           | (st2, Inr None) \<Rightarrow> (st2, Inl (ErrExternal ''script error''))
           | (st2, Inr (Some (next_cursor, entries))) \<Rightarrow>
               (case parse_entries R C c workerID entries (st2\<lparr>recoverCursor := next_cursor\<rparr>) of
                  (st3, js) \<Rightarrow> (st3, Inr js)))"

section \<open>Maintenance and statistics\<close>

definition Store_Deregister :: "'r redis \<Rightarrow> Config \<Rightarrow> string \<Rightarrow> 'r store \<Rightarrow> 'r store \<times> err option" where
  [go_defs]: "Store_Deregister R c workerID st =
     (case rt (deregisterScript R (Stream c) (Group c) workerID (sclk st)) st of
        (st', Inl e) \<Rightarrow> (st', Some e)
      | (st', Inr _) \<Rightarrow> (st', None))"

definition promoteRetries :: "'r redis \<Rightarrow> codec \<Rightarrow> Config \<Rightarrow> int \<Rightarrow> 'r store \<Rightarrow> 'r store \<times> (err + int)" where
  [go_defs]: "promoteRetries R C c limit st =
     rt (promoteScript R (cjson_decode C) (RetryKey c) (retryData c) (Stream c) (UnixMilli (wclk st)) limit) st"

record Stats =
  StreamLength :: int
  InFlight :: int
  DeadLetterDepth :: int
  RetryScheduled :: int

definition Store_Stats :: "'r redis \<Rightarrow> Config \<Rightarrow> 'r store \<Rightarrow> 'r store \<times> (err + Stats)" where
  [go_defs]: "Store_Stats R c st =
     rt (\<lambda>s. (s, \<lparr>StreamLength = xlen R (Stream c) s, InFlight = xpending_count R (Stream c) (Group c) s,
                  DeadLetterDepth = xlen R (DeadLetter c) s, RetryScheduled = zcard R (RetryKey c) s\<rparr>)) st"

end
