(* ===== verification/Delivery.thy ===== *)
theory Delivery
  imports Store
begin

text \<open>
  The delivery protocol as a state machine. Every state change of a queue is one atomic
  script, so the system is the server together with what the environment remembers of it:
  the jobs that were accepted, the jobs whose ack was carried out, and the leases handed out
  so far. A step is one script run on behalf of some producer or worker, in any order and
  with any arguments the Go code can pass. Workers may crash at any time (they just take no
  further steps), pause, or act on leases that have expired.
\<close>

section \<open>The configuration of one queue\<close>

definition queue_config :: "(string \<Rightarrow> ktype) \<Rightarrow> Config \<Rightarrow> bool" where
  "queue_config kt c \<longleftrightarrow>
     kt (Stream c) = KStream \<and> kt (DeadLetter c) = KStream \<and> Stream c \<noteq> DeadLetter c \<and>
     kt (RetryKey c) = KZset \<and> kt (retryData c) = KHash \<and>
     (\<forall>key. kt (DedupePrefix c @ key) = KStr) \<and> 0 < Milliseconds (DedupeWindow c)"

locale store_queue = redis_server R view kt xle + codec_laws C
  for R :: "'r redis" and view :: "'r \<Rightarrow> db" and kt :: "string \<Rightarrow> ktype" and xle :: "string \<Rightarrow> string \<Rightarrow> bool"
    and C :: codec +
  fixes c :: Config
  assumes config: "queue_config kt c"

sublocale store_queue \<subseteq> queue_keys R view kt xle "Stream c" "RetryKey c" "retryData c" "DeadLetter c" "Group c"
  using config by unfold_locales (simp_all add: queue_config_def)

section \<open>The system\<close>

record ghost =
  accepted :: "string set"
  acked :: "string set"
  leases :: "(string \<times> string \<times> int \<times> string) set"

text \<open>A lease handed out: message, owner, token, and the job the worker was given.\<close>

definition handed :: "string \<Rightarrow> (string \<times> fields \<times> int) list \<Rightarrow> (string \<times> string \<times> int \<times> string) set" where
  "handed w es = (\<lambda>(x, fs, n). (x, w, n, entry_job (x, fs))) ` set es"

inductive step :: "'r redis \<Rightarrow> codec \<Rightarrow> Config \<Rightarrow> 'r \<times> ghost \<Rightarrow> 'r \<times> ghost \<Rightarrow> bool"
  for R :: "'r redis" and C :: codec and c :: Config where
  enqueue_now:
    "storable j \<Longrightarrow> utf8_job j \<Longrightarrow> ID j \<notin> accepted G \<Longrightarrow>
     step R C c (s, G) (fst (xadd R (Stream c) (jobFields C j) s), G\<lparr>accepted := insert (ID j) (accepted G)\<rparr>)"
| enqueue_later:
    "storable j \<Longrightarrow> utf8_job j \<Longrightarrow> ID j \<notin> accepted G \<Longrightarrow>
     step R C c (s, G)
       (zadd R (RetryKey c) runAt (ID j) (hset R (retryData c) (ID j) (marshal C (jobFields C j)) s),
        G\<lparr>accepted := insert (ID j) (accepted G)\<rparr>)"
| enqueue_once:
    "storable j \<Longrightarrow> utf8_job j \<Longrightarrow> ID j \<notin> accepted G \<Longrightarrow>
     enqueueOnceScript R (cjson_decode C) (DedupePrefix c @ key) (Stream c) (RetryKey c) (retryData c) (ID j)
       (Milliseconds (DedupeWindow c)) runAt (marshal C (jobFields C j)) t s = (s', r) \<Longrightarrow>
     step R C c (s, G) (s', G\<lparr>accepted := insert r (accepted G)\<rparr>)"
| claim:
    "1 \<le> n \<Longrightarrow>
     claimScript R (cjson_decode C) (Stream c) (RetryKey c) (retryData c) (Group c) w n now t s = (s', es) \<Longrightarrow>
     step R C c (s, G) (s', G\<lparr>leases := leases G \<union> handed w (map (\<lambda>(x, fs). (x, fs, 1)) es)\<rparr>)"
| read:
    "1 \<le> n \<Longrightarrow> xreadgroup R (Stream c) (Group c) w n t s = (s', r) \<Longrightarrow>
     step R C c (s, G)
       (s', G\<lparr>leases := leases G \<union> handed w (map (\<lambda>(x, fs). (x, fs, 1)) (case r of None \<Rightarrow> [] | Some es \<Rightarrow> es))\<rparr>)"
| recover:
    "1 \<le> n \<Longrightarrow> 1 \<le> idle \<Longrightarrow>
     recoverScript R (Stream c) (Group c) w idle n cur t s = (s', Some (cur', rs)) \<Longrightarrow>
     step R C c (s, G) (s', G\<lparr>leases := leases G \<union> handed w rs\<rparr>)"
| ack:
    "(x, w, n, i) \<in> leases G \<Longrightarrow> ackScript R (Stream c) (Group c) x w n t s = (s', r) \<Longrightarrow>
     step R C c (s, G) (s', if r = 0 then G else G\<lparr>acked := insert i (acked G)\<rparr>)"
| extend:
    "(x, w, n, i) \<in> leases G \<Longrightarrow> extendScript R (Stream c) (Group c) x w n t s = (s', r) \<Longrightarrow>
     step R C c (s, G) (s', G)"
| retry:
    "(x, w, n, ID j) \<in> leases G \<Longrightarrow> storable j \<Longrightarrow> utf8_job j \<Longrightarrow>
     retryScript R (Stream c) (RetryKey c) (retryData c) (Group c) x w n runAt (ID j) (marshal C (jobFields C j)) t s = (s', r) \<Longrightarrow>
     step R C c (s, G) (s', G)"
| dead_letter:
    "(x, w, n, i) \<in> leases G \<Longrightarrow> i \<noteq> [] \<Longrightarrow> field pairs ''id'' = Some i \<Longrightarrow>
     deadLetterScript R (Stream c) (DeadLetter c) (Group c) x w n pairs t s = (s', r) \<Longrightarrow>
     step R C c (s, G) (s', G)"
| promote_due:
    "0 \<le> n \<Longrightarrow> promoteScript R (cjson_decode C) (RetryKey c) (retryData c) (Stream c) now n s = (s', r) \<Longrightarrow>
     step R C c (s, G) (s', G)"
| prune:
    "pruneConsumersScript R (Stream c) (Group c) idle t s = (s', r) \<Longrightarrow> step R C c (s, G) (s', G)"
| deregister:
    "deregisterScript R (Stream c) (Group c) w t s = (s', r) \<Longrightarrow> step R C c (s, G) (s', G)"

inductive steps :: "'r redis \<Rightarrow> codec \<Rightarrow> Config \<Rightarrow> 'r \<times> ghost \<Rightarrow> 'r \<times> ghost \<Rightarrow> bool"
  for R :: "'r redis" and C :: codec and c :: Config where
  steps_refl: "steps R C c S S"
| steps_snoc: "steps R C c S T \<Longrightarrow> step R C c T U \<Longrightarrow> steps R C c S U"

text \<open>A queue starts empty, with nothing accepted.\<close>

definition empty_queue :: "Config \<Rightarrow> db \<Rightarrow> bool" where
  "empty_queue c d \<longleftrightarrow>
     dLog d (Stream c) = [] \<and> undelivered (dGroup d (Stream c) (Group c)) = [] \<and>
     pel (dGroup d (Stream c) (Group c)) = Map.empty \<and> dLog d (DeadLetter c) = [] \<and>
     dZset d (RetryKey c) = Map.empty \<and> dHash d (retryData c) = Map.empty \<and>
     (\<forall>key. dStr d (DedupePrefix c @ key) = None)"

definition no_ghost :: ghost where
  "no_ghost = \<lparr>accepted = {}, acked = {}, leases = {}\<rparr>"

section \<open>Where a job is\<close>

definition copies :: "string \<Rightarrow> db \<Rightarrow> string \<Rightarrow> nat" where
  "copies k d i = length (filter (\<lambda>e. entry_job e = i) (dLog d k))"

text \<open>
  The number of places a job is in: entries of the stream, the schedule, entries of the
  dead-letter stream, and the jobs whose ack was carried out.
\<close>

definition places :: "Config \<Rightarrow> db \<Rightarrow> ghost \<Rightarrow> string \<Rightarrow> nat" where
  "places c d G i =
     copies (Stream c) d i + of_bool (i \<in> dom (dHash d (retryData c))) + copies (DeadLetter c) d i +
     of_bool (i \<in> acked G)"

definition conserved :: "Config \<Rightarrow> db \<Rightarrow> ghost \<Rightarrow> bool" where
  "conserved c d G \<longleftrightarrow> (\<forall>i. places c d G i = of_bool (i \<in> accepted G))"

text \<open>Every lease is for an entry that was delivered, and names that entry's job.\<close>

definition leases_ok :: "Config \<Rightarrow> db \<Rightarrow> ghost \<Rightarrow> bool" where
  "leases_ok c d G \<longleftrightarrow>
     (\<forall>(x, w, n, i) \<in> leases G.
        x \<in> dUsed d (Stream c) \<and> x \<notin> set (undelivered (dGroup d (Stream c) (Group c))) \<and>
        (\<forall>fs. map_of (dLog d (Stream c)) x = Some fs \<longrightarrow> entry_job (x, fs) = i))"

definition keys_ok :: "Config \<Rightarrow> db \<Rightarrow> ghost \<Rightarrow> bool" where
  "keys_ok c d G \<longleftrightarrow> (\<forall>key v e. dStr d (DedupePrefix c @ key) = Some (v, e) \<longrightarrow> v \<in> accepted G)"

definition core_inv :: "codec \<Rightarrow> Config \<Rightarrow> db \<Rightarrow> ghost \<Rightarrow> bool" where
  "core_inv C c d G \<longleftrightarrow>
     queue_ok (cjson_decode C) (Stream c) (Group c) (RetryKey c) (retryData c) d \<and>
     conserved c d G \<and> leases_ok c d G"

definition sys_inv :: "codec \<Rightarrow> Config \<Rightarrow> db \<Rightarrow> ghost \<Rightarrow> bool" where
  "sys_inv C c d G \<longleftrightarrow> core_inv C c d G \<and> keys_ok c d G"

lemma core_invI:
  "queue_ok (cjson_decode C) (Stream c) (Group c) (RetryKey c) (retryData c) d \<Longrightarrow>
   conserved c d G \<Longrightarrow> leases_ok c d G \<Longrightarrow> core_inv C c d G"
  by (simp add: core_inv_def)

lemma core_invD:
  assumes "core_inv C c d G"
  shows "queue_ok (cjson_decode C) (Stream c) (Group c) (RetryKey c) (retryData c) d"
    "conserved c d G" "leases_ok c d G" "stream_ok (Stream c) (Group c) d"
  using assms by (simp_all add: core_inv_def queue_ok_def)

lemma sys_inv_empty: "empty_queue c d \<Longrightarrow> sys_inv C c d no_ghost"
  by (auto simp: sys_inv_def core_inv_def empty_queue_def queue_ok_def stream_ok_def sched_ok_def conserved_def places_def
      copies_def leases_ok_def keys_ok_def no_ghost_def)

section \<open>How the commands move copies\<close>

lemma copies_cong: "dLog d' k = dLog d k \<Longrightarrow> copies k d' i = copies k d i"
  by (simp add: copies_def)

lemma copies_xadd [simp]:
  "copies k (ev_xadd k x fs d) i = copies k d i + of_bool (entry_job (x, fs) = i)"
  "k' \<noteq> k \<Longrightarrow> copies k' (ev_xadd k x fs d) i = copies k' d i"
  by (simp_all add: copies_def ev_defs)

lemma copies_settled_other [simp]: "k' \<noteq> k \<Longrightarrow> copies k' (settled k g x d) i = copies k' d i"
  by (simp add: copies_def)

lemma copies_settled:
  assumes "distinct (map fst (dLog d k))" "map_of (dLog d k) x = Some fs"
  shows "copies k (settled k g x d) i + of_bool (entry_job (x, fs) = i) = copies k d i"
proof -
  have "length (filter (\<lambda>e. entry_job e = i) (filter (\<lambda>e. fst e \<noteq> x) es)) + of_bool (entry_job (x, fs) = i) =
      length (filter (\<lambda>e. entry_job e = i) es)"
    if "distinct (map fst es)" "map_of es x = Some fs" for es :: "entry list"
    using that
  proof (induction es)
    case (Cons e es)
    show ?case
    proof (cases "fst e = x")
      case True
      then have "filter (\<lambda>e. fst e \<noteq> x) es = es"
        using Cons.prems(1) by (auto intro!: filter_True simp: image_iff)
      with True Cons.prems(2) show ?thesis
        by (cases e) auto
    next
      case False
      with Cons show ?thesis by (cases e) auto
    qed
  qed simp
  with assms show ?thesis by (simp add: copies_def)
qed

lemma places_xadd:
  "Stream c \<noteq> DeadLetter c \<Longrightarrow>
   places c (ev_xadd (Stream c) x fs d) G i = places c d G i + of_bool (entry_job (x, fs) = i)"
  "Stream c \<noteq> DeadLetter c \<Longrightarrow>
   places c (ev_xadd (DeadLetter c) x fs d) G i = places c d G i + of_bool (entry_job (x, fs) = i)"
  by (simp_all add: places_def) (simp_all add: ev_defs)

lemma places_hset:
  "m \<notin> dom (dHash d (retryData c)) \<Longrightarrow>
   places c (ev_hset (retryData c) m w d) G i = places c d G i + of_bool (m = i)"
  by (auto simp: places_def copies_def ev_defs)

lemma places_hdel:
  "m \<in> dom (dHash d (retryData c)) \<Longrightarrow>
   places c (ev_hdel (retryData c) m d) G i + of_bool (m = i) = places c d G i"
  by (auto simp: places_def copies_def ev_defs)

lemma places_settled:
  assumes "Stream c \<noteq> DeadLetter c" "distinct (map fst (dLog d (Stream c)))" "map_of (dLog d (Stream c)) x = Some fs"
  shows "places c (settled (Stream c) g x d) G i + of_bool (entry_job (x, fs) = i) = places c d G i"
  using copies_settled [OF assms(2,3), of g i] assms(1) by (simp add: places_def)

lemma places_same:
  "places c (ev_zadd zk v m d) G i = places c d G i" "places c (ev_zrem zk m d) G i = places c d G i"
  "places c (ev_set_px sk w ttl t d) G i = places c d G i"
  "places c (ev_xreadgroup k g w n t d) G i = places c d G i"
  "places c (ev_xclaim k g w x t d) G i = places c d G i"
  "places c (ev_delconsumer k g w d) G i = places c d G i"
  by (simp_all add: places_def copies_def ev_defs)

lemma places_ghost:
  "i \<notin> acked G \<Longrightarrow> places c d (G\<lparr>acked := insert i (acked G)\<rparr>) j = places c d G j + of_bool (i = j)"
  "places c d (G\<lparr>accepted := A\<rparr>) j = places c d G j" "places c d (G\<lparr>leases := L\<rparr>) j = places c d G j"
  by (auto simp: places_def)

lemma conserved_le_one: "conserved c d G \<Longrightarrow> places c d G i \<le> 1"
  by (simp add: conserved_def)

lemma copies_pos: "(x, fs) \<in> set (dLog d k) \<Longrightarrow> 1 \<le> copies k d (entry_job (x, fs))"
  by (fastforce simp: copies_def Suc_le_eq filter_empty_conv)

text \<open>A job with an entry in the stream is nowhere else.\<close>

lemma conserved_in_stream:
  assumes "conserved c d G" "map_of (dLog d (Stream c)) x = Some fs"
  shows "entry_job (x, fs) \<notin> dom (dHash d (retryData c))" "entry_job (x, fs) \<notin> acked G"
    "copies (DeadLetter c) d (entry_job (x, fs)) = 0"
proof -
  have "of_bool (entry_job (x, fs) \<in> dom (dHash d (retryData c))) + copies (DeadLetter c) d (entry_job (x, fs)) +
      of_bool (entry_job (x, fs) \<in> acked G) = (0 :: nat)"
    using conserved_le_one [OF assms(1), of "entry_job (x, fs)"] copies_pos [OF map_of_SomeD [OF assms(2)]]
    unfolding places_def by linarith
  then show "entry_job (x, fs) \<notin> dom (dHash d (retryData c))" "entry_job (x, fs) \<notin> acked G"
    "copies (DeadLetter c) d (entry_job (x, fs)) = 0"
    by (simp_all only: add_is_0 of_bool_eq_0_iff not_False_eq_True)
qed

section \<open>How the commands treat leases\<close>

definition lease_ok :: "Config \<Rightarrow> db \<Rightarrow> string \<Rightarrow> string \<Rightarrow> bool" where
  "lease_ok c d x i \<longleftrightarrow>
     x \<in> dUsed d (Stream c) \<and> x \<notin> set (undelivered (dGroup d (Stream c) (Group c))) \<and>
     (\<forall>fs. map_of (dLog d (Stream c)) x = Some fs \<longrightarrow> entry_job (x, fs) = i)"

lemma leases_ok_alt: "leases_ok c d G \<longleftrightarrow> (\<forall>(x, w, n, i) \<in> leases G. lease_ok c d x i)"
  by (simp add: leases_ok_def lease_ok_def)

lemma leases_okD: "leases_ok c d G \<Longrightarrow> (x, w, n, i) \<in> leases G \<Longrightarrow> lease_ok c d x i"
  by (auto simp: leases_ok_alt)

lemma leases_ok_mono:
  "leases_ok c d G \<Longrightarrow> (\<And>x i. lease_ok c d x i \<Longrightarrow> lease_ok c d' x i) \<Longrightarrow> leases_ok c d' G"
  by (fastforce simp: leases_ok_alt)

lemma leases_ok_ghost [simp]:
  "leases_ok c d (G\<lparr>accepted := A\<rparr>) = leases_ok c d G" "leases_ok c d (G\<lparr>acked := A\<rparr>) = leases_ok c d G"
  by (simp_all add: leases_ok_def)

lemma leases_ok_union:
  "leases_ok c d (G\<lparr>leases := leases G \<union> L\<rparr>) \<longleftrightarrow> leases_ok c d G \<and> (\<forall>(x, w, n, i) \<in> L. lease_ok c d x i)"
  by (simp add: leases_ok_alt ball_Un)

lemma lease_ok_cong:
  "dLog d' (Stream c) = dLog d (Stream c) \<Longrightarrow> dUsed d' (Stream c) = dUsed d (Stream c) \<Longrightarrow>
   undelivered (dGroup d' (Stream c) (Group c)) = undelivered (dGroup d (Stream c) (Group c)) \<Longrightarrow>
   lease_ok c d' x i = lease_ok c d x i"
  by (simp add: lease_ok_def)

lemma lease_ok_same [simp]:
  "lease_ok c (ev_zadd zk v m d) x i = lease_ok c d x i" "lease_ok c (ev_zrem zk m d) x i = lease_ok c d x i"
  "lease_ok c (ev_hset hk m w d) x i = lease_ok c d x i" "lease_ok c (ev_hdel hk m d) x i = lease_ok c d x i"
  "lease_ok c (ev_set_px sk w ttl t d) x i = lease_ok c d x i"
  "lease_ok c (ev_xclaim (Stream c) (Group c) u y t d) x i = lease_ok c d x i"
  "lease_ok c (ev_delconsumer (Stream c) (Group c) u d) x i = lease_ok c d x i"
  "k \<noteq> Stream c \<Longrightarrow> lease_ok c (ev_xadd k y fs d) x i = lease_ok c d x i"
  by (rule lease_ok_cong; simp add: ev_defs)+

lemma lease_ok_xadd:
  "lease_ok c d x i \<Longrightarrow> y \<notin> dUsed d (Stream c) \<Longrightarrow> lease_ok c (ev_xadd (Stream c) y fs d) x i"
  by (auto simp: lease_ok_def ev_defs map_add_def split: if_splits option.splits)

lemma lease_ok_settled: "lease_ok c d x i \<Longrightarrow> lease_ok c (settled (Stream c) (Group c) y d) x i"
  by (auto simp: lease_ok_def map_of_filter_fst [of "\<lambda>k. k \<noteq> y"] split: if_splits)

lemma lease_ok_xreadgroup:
  "lease_ok c d x i \<Longrightarrow> lease_ok c (ev_xreadgroup (Stream c) (Group c) w n t d) x i"
  by (auto simp: lease_ok_def dest: in_set_dropD)

lemma lease_ok_recovers:
  "recovers (Stream c) (Group c) w t idle d d' rs \<Longrightarrow> lease_ok c d' x i = lease_ok c d x i"
  by (rule lease_ok_cong) (simp_all add: recovers_def)

text \<open>A pending entry gives a valid lease on its own job.\<close>

lemma lease_ok_owned:
  assumes "stream_ok (Stream c) (Group c) d" "owned (Stream c) (Group c) x w n d"
    "map_of (dLog d (Stream c)) x = Some fs"
  shows "lease_ok c d x (entry_job (x, fs))"
  using assms stream_ok_pending [OF assms(1)] by (auto simp: lease_ok_def owned_def)

section \<open>Every step keeps the system's invariant\<close>

lemma places_cong:
  "dLog d' (Stream c) = dLog d (Stream c) \<Longrightarrow> dLog d' (DeadLetter c) = dLog d (DeadLetter c) \<Longrightarrow>
   dHash d' (retryData c) = dHash d (retryData c) \<Longrightarrow> places c d' G i = places c d G i"
  by (simp add: places_def copies_def)

lemma conserved_same: "conserved c d G \<Longrightarrow> (\<And>i. places c d' G i = places c d G i) \<Longrightarrow> conserved c d' G"
  by (simp add: conserved_def)

lemma conserved_leases [simp]: "conserved c d (G\<lparr>leases := L\<rparr>) = conserved c d G"
  by (simp add: conserved_def places_ghost)

lemma conserved_accept:
  "conserved c d G \<Longrightarrow> j \<notin> accepted G \<Longrightarrow> (\<And>i. places c d' G i = places c d G i + of_bool (j = i)) \<Longrightarrow>
   conserved c d' (G\<lparr>accepted := insert j (accepted G)\<rparr>)"
  by (auto simp: conserved_def places_ghost)

lemma conserved_absent:
  assumes "conserved c d G" "j \<notin> accepted G"
  shows "j \<notin> dom (dHash d (retryData c))"
proof -
  have "places c d G j = 0"
    using assms by (simp add: conserved_def)
  then show ?thesis
    unfolding places_def by (simp only: add_is_0 of_bool_eq_0_iff not_False_eq_True)
qed

lemma keys_ok_same: "keys_ok c d G \<Longrightarrow> dStr d' = dStr d \<Longrightarrow> keys_ok c d' G"
  by (simp add: keys_ok_def)

lemma keys_ok_accept: "keys_ok c d G \<Longrightarrow> keys_ok c d (G\<lparr>accepted := insert i (accepted G)\<rparr>)"
  by (auto simp: keys_ok_def)

lemma keys_ok_ghost [simp]:
  "keys_ok c d (G\<lparr>acked := A\<rparr>) = keys_ok c d G" "keys_ok c d (G\<lparr>leases := L\<rparr>) = keys_ok c d G"
  by (simp_all add: keys_ok_def)

lemma dStr_same [simp]:
  "dStr (ev_xadd k x fs d) = dStr d" "dStr (ev_zadd k v m d) = dStr d" "dStr (ev_zrem k m d) = dStr d"
  "dStr (ev_hset k f w d) = dStr d" "dStr (ev_hdel k f d) = dStr d"
  "dStr (ev_xclaim k g w x t d) = dStr d" "dStr (ev_delconsumer k g w d) = dStr d"
  by (simp_all add: ev_defs)

lemma leases_ok_step:
  "leases_ok c d G \<Longrightarrow> (\<And>x i. lease_ok c d x i \<Longrightarrow> lease_ok c d' x i) \<Longrightarrow>
   (\<And>x w n i. (x, w, n, i) \<in> L \<Longrightarrow> lease_ok c d' x i) \<Longrightarrow>
   leases_ok c d' (G\<lparr>leases := leases G \<union> L\<rparr>)"
  by (auto simp: leases_ok_union dest: leases_ok_mono)

context store_queue
begin

abbreviation core :: "'r \<Rightarrow> ghost \<Rightarrow> bool" where
  "core s G \<equiv> core_inv C c (view s) G"

lemma entry_job_fields:
  assumes "storable j" "utf8_job j"
  shows "entry_job (x, jobFields C j) = ID j" "entry_job (x, cjson_decode C (marshal C (jobFields C j))) = ID j"
    "own_id (cjson_decode C) (ID j) (marshal C (jobFields C j))"
  using assms field_decode_jobFields [OF assms]
  by (simp_all add: entry_job_def own_id_def field_distinct storable_def) (simp_all add: jobFields_def)

lemma core_xadd:
  assumes "core s G" "i \<notin> accepted G" "\<And>x. entry_job (x, fs) = i"
  shows "core (fst (xadd R (Stream c) fs s)) (G\<lparr>accepted := insert i (accepted G)\<rparr>)"
proof (rule core_invI)
  note I = core_invD [OF assms(1)]
  show "queue_ok (cjson_decode C) (Stream c) (Group c) (RetryKey c) (retryData c) (view (fst (xadd R (Stream c) fs s)))"
    by (rule xadd_stream_ok [OF I(1)])
  show "conserved c (view (fst (xadd R (Stream c) fs s))) (G\<lparr>accepted := insert i (accepted G)\<rparr>)"
    by (rule conserved_accept [OF I(2) assms(2)]) (simp add: xadd_view places_xadd assms(3))
  show "leases_ok c (view (fst (xadd R (Stream c) fs s))) (G\<lparr>accepted := insert i (accepted G)\<rparr>)"
    by (simp add: xadd_view) (rule leases_ok_mono [OF I(3)], simp add: lease_ok_xadd xadd_fresh)
qed

lemma core_schedule:
  assumes "core s G" "i \<notin> accepted G" "own_id (cjson_decode C) i json"
  shows "core (zadd R (RetryKey c) runAt i (hset R (retryData c) i json s)) (G\<lparr>accepted := insert i (accepted G)\<rparr>)"
    (is "core ?s ?G")
proof (rule core_invI)
  note I = core_invD [OF assms(1)]
  have v: "view ?s = ev_zadd (RetryKey c) runAt i (ev_hset (retryData c) i json (view s))"
    by (simp add: zadd_view hset_view)
  show "queue_ok (cjson_decode C) (Stream c) (Group c) (RetryKey c) (retryData c) (view ?s)"
    by (rule schedule_ok [OF I(1) assms(3)])
  show "conserved c (view ?s) ?G"
    by (rule conserved_accept [OF I(2) assms(2)])
      (simp only: v places_same places_hset [OF conserved_absent [OF I(2) assms(2)]])
  show "leases_ok c (view ?s) ?G"
    by (simp add: v) (rule leases_ok_mono [OF I(3)], simp)
qed

lemma core_set_px:
  assumes "kt dk = KStr" "0 < ttl" "core s G"
  shows "core (set_px R dk w ttl t s) G"
proof (rule core_invI)
  note I = core_invD [OF assms(3)]
  show "queue_ok (cjson_decode C) (Stream c) (Group c) (RetryKey c) (retryData c) (view (set_px R dk w ttl t s))"
    by (rule set_px_ok [OF assms(1,2) I(1)])
  show "conserved c (view (set_px R dk w ttl t s)) G"
    by (rule conserved_same [OF I(2)]) (simp add: set_px_view assms(1,2) places_same)
  show "leases_ok c (view (set_px R dk w ttl t s)) G"
    by (rule leases_ok_mono [OF I(3)]) (simp add: set_px_view assms(1,2))
qed

lemma dedupe_key: "kt (DedupePrefix c @ key) = KStr" "0 < Milliseconds (DedupeWindow c)"
  using config by (simp_all add: queue_config_def)

text \<open>A remembered key names an accepted job; a fresh one is remembered with the job it accepts.\<close>

lemma inv_enqueue_once:
  assumes I: "sys_inv C c (view s) G" and j: "storable j" "utf8_job j" "ID j \<notin> accepted G"
    and e: "enqueueOnceScript R (cjson_decode C) (DedupePrefix c @ key) (Stream c) (RetryKey c) (retryData c) (ID j)
       (Milliseconds (DedupeWindow c)) runAt (marshal C (jobFields C j)) t s = (s', r)"
  shows "sys_inv C c (view s') (G\<lparr>accepted := insert r (accepted G)\<rparr>)"
proof (cases "get_str R (DedupePrefix c @ key) t s")
  case (Some v)
  then obtain x where "dStr (view s) (DedupePrefix c @ key) = Some (v, x)"
    by (auto simp: get_str_view dedupe_key split: option.splits if_splits)
  with I have "v \<in> accepted G"
    by (auto simp: sys_inv_def keys_ok_def)
  with Some e I show ?thesis
    by (simp add: enqueueOnceScript_def insert_absorb)
next
  case None
  define s1 where "s1 = set_px R (DedupePrefix c @ key) (ID j) (Milliseconds (DedupeWindow c)) t s"
  have v: "view s1 = ev_set_px (DedupePrefix c @ key) (ID j) (Milliseconds (DedupeWindow c)) t (view s)"
    by (simp add: s1_def set_px_view dedupe_key)
  have I1: "core s1 G"
    unfolding s1_def by (rule core_set_px [OF dedupe_key]) (use I in \<open>simp add: sys_inv_def\<close>)
  have r: "r = ID j" and s': "s' = (if runAt > 0 then zadd R (RetryKey c) runAt (ID j) (hset R (retryData c) (ID j) (marshal C (jobFields C j)) s1)
      else fst (xadd R (Stream c) (cjson_decode C (marshal C (jobFields C j))) s1))"
    using e None by (auto simp: enqueueOnceScript_def Let_def s1_def xadd_json_def split: if_splits)
  have "core s' (G\<lparr>accepted := insert r (accepted G)\<rparr>)"
    using core_xadd [OF I1 j(3), of "cjson_decode C (marshal C (jobFields C j))"] core_schedule [OF I1 j(3), of _ runAt]
      entry_job_fields [OF j(1,2)] by (simp add: r s')
  moreover have "dStr (view s') = dStr (view s1)"
    by (simp add: s' zadd_view hset_view xadd_view)
  then have "keys_ok c (view s') (G\<lparr>accepted := insert r (accepted G)\<rparr>)"
    using I by (auto simp: v r sys_inv_def keys_ok_def ev_set_px_def)
  ultimately show ?thesis by (simp add: sys_inv_def)
qed

text \<open>Promotion moves a job from the schedule to the stream.\<close>

lemma core_promote_one:
  assumes "core s G"
  shows "core (promote_one R (cjson_decode C) (RetryKey c) (retryData c) (Stream c) jid s) G" (is "core ?s G")
proof (rule core_invI)
  note I = core_invD [OF assms]
  note v = promote_one_view [of "cjson_decode C" jid s]
  show "queue_ok (cjson_decode C) (Stream c) (Group c) (RetryKey c) (retryData c) (view ?s)"
    by (rule promote_one_ok [OF I(1)])
  show "leases_ok c (view ?s) G"
    by (rule leases_ok_mono [OF I(3)]) (simp add: v lease_ok_xadd xadd_fresh split: option.split)
  show "conserved c (view ?s) G"
  proof (rule conserved_same [OF I(2)])
    fix i
    show "places c (view ?s) G i = places c (view s) G i"
    proof (cases "dHash (view s) (retryData c) jid")
      case None
      then show ?thesis by (auto simp: v places_same places_def copies_def ev_defs)
    next
      case (Some w)
      define d1 where "d1 = ev_xadd (Stream c) (snd (xadd R (Stream c) (cjson_decode C w) s)) (cjson_decode C w) (view s)"
      have "entry_job (x, cjson_decode C w) = jid" for x
        using queue_okD(2) [OF I(1)] Some by (simp add: sched_ok_def entry_job_def)
      then have "places c d1 G i = places c (view s) G i + of_bool (jid = i)"
        by (simp add: d1_def places_xadd)
      moreover have "places c (ev_hdel (retryData c) jid d1) G i + of_bool (jid = i) = places c d1 G i"
        by (rule places_hdel) (simp add: d1_def ev_defs Some domI)
      ultimately show ?thesis
        by (simp add: v Some d1_def [symmetric] places_same)
    qed
  qed
qed

lemma core_promote_all:
  "core s G \<Longrightarrow> core (promote_all R (cjson_decode C) (RetryKey c) (retryData c) (Stream c) jids s) G"
  by (induction jids arbitrary: s) (simp_all add: core_promote_one)

lemma core_promote:
  "core s G \<Longrightarrow> core (fst (promote R (cjson_decode C) (RetryKey c) (retryData c) (Stream c) now n s)) G"
  by (simp add: promote_def Let_def core_promote_all)

text \<open>Reading hands out leases on undelivered entries.\<close>

lemma core_read_view:
  assumes "core_inv C c d G" "d' = ev_xreadgroup (Stream c) (Group c) w n t d"
    and "es = map (\<lambda>y. (y, the (map_of (dLog d (Stream c)) y))) (take (nat n) (undelivered (dGroup d (Stream c) (Group c))))"
  shows "core_inv C c d' (G\<lparr>leases := leases G \<union> handed w (map (\<lambda>(x, fs). (x, fs, 1)) es)\<rparr>)"
proof (rule core_invI)
  note I = core_invD [OF assms(1)]
  show q: "queue_ok (cjson_decode C) (Stream c) (Group c) (RetryKey c) (retryData c) d'"
    using I(1) by (simp add: assms(2) queue_ok_def stream_ok_xreadgroup)
  show "conserved c d' (G\<lparr>leases := leases G \<union> handed w (map (\<lambda>(x, fs). (x, fs, 1)) es)\<rparr>)"
    using I(2) by (simp add: conserved_same assms(2) places_same)
  show "leases_ok c d' (G\<lparr>leases := leases G \<union> handed w (map (\<lambda>(x, fs). (x, fs, 1)) es)\<rparr>)"
  proof (rule leases_ok_step [OF I(3)])
    show "lease_ok c d x i \<Longrightarrow> lease_ok c d' x i" for x i
      by (simp add: assms(2) lease_ok_xreadgroup)
    fix x u m i assume "(x, u, m, i) \<in> handed w (map (\<lambda>(x, fs). (x, fs, 1)) es)"
    then have x: "x \<in> set (take (nat n) (undelivered (dGroup d (Stream c) (Group c))))"
      and i: "i = entry_job (x, the (map_of (dLog d (Stream c)) x))"
      by (auto simp: handed_def assms(3))
    show "lease_ok c d' x i"
      unfolding i by (rule lease_ok_owned [OF queue_okD(1) [OF q], of x w 1])
        (use read_owned [OF I(4) x] in \<open>simp_all add: assms(2)\<close>)
  qed
qed

lemma core_claim:
  assumes "core s G" "1 \<le> n"
    and "claimScript R (cjson_decode C) (Stream c) (RetryKey c) (retryData c) (Group c) w n now t s = (s', es)"
  shows "core s' (G\<lparr>leases := leases G \<union> handed w (map (\<lambda>(x, fs). (x, fs, 1)) es)\<rparr>)"
  using core_read_view [OF core_promote [OF assms(1), of now 100]]
    claim_view [OF core_invD(1) [OF assms(1)] assms(2), of w now t] assms(3) by simp

lemma core_read:
  assumes "core s G" "1 \<le> n" "xreadgroup R (Stream c) (Group c) w n t s = (s', r)"
  shows "core s' (G\<lparr>leases := leases G \<union> handed w (map (\<lambda>(x, fs). (x, fs, 1)) (case r of None \<Rightarrow> [] | Some es \<Rightarrow> es))\<rparr>)"
proof (rule core_read_view [OF assms(1)])
  show "view s' = ev_xreadgroup (Stream c) (Group c) w n t (view s)"
    using xreadgroup_view [of "Stream c" n "Group c" w t s] assms(2,3) by simp
  have sub: "set (undelivered (dGroup (view s) (Stream c) (Group c))) \<subseteq> ids_of (dLog (view s) (Stream c))"
    by (rule stream_okD(3) [OF core_invD(4) [OF assms(1)]])
  show "(case r of None \<Rightarrow> [] | Some es \<Rightarrow> es) = map (\<lambda>y. (y, the (map_of (dLog (view s) (Stream c)) y)))
      (take (nat n) (undelivered (dGroup (view s) (Stream c) (Group c))))"
    using xreadgroup_reply [OF kt_stream assms(2) sub, of w t] assms(3) by (simp split: list.splits)
qed

lemma core_recover:
  assumes "core s G" "1 \<le> n" "1 \<le> idle"
    and "recoverScript R (Stream c) (Group c) w idle n cur t s = (s', Some (cur', rs))"
  shows "core s' (G\<lparr>leases := leases G \<union> handed w rs\<rparr>)"
proof (rule core_invI)
  note I = core_invD [OF assms(1)]
  have rec: "recovers (Stream c) (Group c) w t idle (view s) (view s') rs" and ok: "stream_ok (Stream c) (Group c) (view s')"
    using recover_spec [OF I(4) assms(3,2), of w cur t] assms(4) by auto
  note rD = recoversD [OF rec]
  show "queue_ok (cjson_decode C) (Stream c) (Group c) (RetryKey c) (retryData c) (view s')"
    using ok queue_okD(2) [OF I(1)] rD(3,4) by (simp add: queue_ok_def sched_ok_def)
  show "conserved c (view s') (G\<lparr>leases := leases G \<union> handed w rs\<rparr>)"
    by (simp, rule conserved_same [OF I(2)], rule places_cong) (simp_all add: rD)
  show "leases_ok c (view s') (G\<lparr>leases := leases G \<union> handed w rs\<rparr>)"
  proof (rule leases_ok_step [OF I(3)])
    show "lease_ok c (view s) x i \<Longrightarrow> lease_ok c (view s') x i" for x i
      using lease_ok_recovers [OF rec] by simp
    fix x u m i assume "(x, u, m, i) \<in> handed w rs"
    then obtain fs where r: "(x, fs, m) \<in> set rs" and i: "i = entry_job (x, fs)"
      by (auto simp: handed_def)
    show "lease_ok c (view s') x i"
      unfolding i using recovers_fences(2,3) [OF rec I(4) r] by (rule lease_ok_owned [OF ok])
  qed
qed

text \<open>Settling takes the job of a current lease out of the stream.\<close>

lemma leased_entry:
  assumes "core s G" "(x, w, n, i) \<in> leases G" "owned (Stream c) (Group c) x w n (view s)"
  shows "\<exists>fs. map_of (dLog (view s) (Stream c)) x = Some fs \<and> entry_job (x, fs) = i"
proof -
  obtain p where "pel (dGroup (view s) (Stream c) (Group c)) x = Some p"
    using assms(3) by (auto simp: owned_def)
  then have "x \<in> ids_of (dLog (view s) (Stream c))"
    by (rule stream_ok_pending_in_log [OF core_invD(4) [OF assms(1)]])
  then obtain fs where "map_of (dLog (view s) (Stream c)) x = Some fs"
    by (metis map_of_eq_None_iff not_None_eq)
  with leases_okD [OF core_invD(3) [OF assms(1)] assms(2)] show ?thesis
    by (auto simp: lease_ok_def)
qed

lemma core_ack:
  assumes "core s G" "(x, w, n, i) \<in> leases G" "ackScript R (Stream c) (Group c) x w n t s = (s', r)"
  shows "core s' (if r = 0 then G else G\<lparr>acked := insert i (acked G)\<rparr>)"
proof (cases rule: ack.result_cases [OF core_invD(4) [OF assms(1)], of x w n t])
  case 1
  with assms show ?thesis by simp
next
  case 2
  note I = core_invD [OF assms(1)]
  have r: "r = 1" and v: "view s' = settled (Stream c) (Group c) x (view s)"
    using 2 assms(3) by simp_all
  obtain fs where fs: "map_of (dLog (view s) (Stream c)) x = Some fs" "entry_job (x, fs) = i"
    using leased_entry [OF assms(1,2) 2(1)] by blast
  have "i \<notin> acked G"
    using conserved_in_stream(2) [OF I(2) fs(1)] fs(2) by simp
  then have "places c (view s') (G\<lparr>acked := insert i (acked G)\<rparr>) j = places c (view s) G j" for j
    using places_settled [OF stream_dead stream_okD(1) [OF I(4)] fs(1), of "Group c" G j] fs(2)
    by (simp add: v places_ghost)
  then have "conserved c (view s') (G\<lparr>acked := insert i (acked G)\<rparr>)"
    using I(2) by (simp add: conserved_def)
  moreover have "queue_ok (cjson_decode C) (Stream c) (Group c) (RetryKey c) (retryData c) (view s')"
    using ack_ok [OF I(1), of x w n t] assms(3) by simp
  moreover have "leases_ok c (view s') G"
    by (rule leases_ok_mono [OF I(3)]) (simp add: v lease_ok_settled)
  ultimately show ?thesis by (simp add: r core_inv_def)
qed

lemma core_extend:
  assumes "core s G" "extendScript R (Stream c) (Group c) x w n t s = (s', r)"
  shows "core s' G"
proof (cases rule: ext.result_cases [OF core_invD(4) [OF assms(1)], of x w n t])
  case 1
  with assms show ?thesis by simp
next
  case 2
  note I = core_invD [OF assms(1)]
  have v: "view s' = ev_xclaim (Stream c) (Group c) w x t (view s)"
    using 2 assms(2) by simp
  show ?thesis
  proof (rule core_invI)
    show "queue_ok (cjson_decode C) (Stream c) (Group c) (RetryKey c) (retryData c) (view s')"
      using extend_ok [OF I(1), of x w n t] assms(2) by simp
    show "conserved c (view s') G"
      by (rule conserved_same [OF I(2)]) (simp add: v places_same)
    show "leases_ok c (view s') G"
      by (rule leases_ok_mono [OF I(3)]) (simp add: v)
  qed
qed

lemma core_retry:
  assumes "core s G" "(x, w, n, i) \<in> leases G" "own_id (cjson_decode C) i json"
    and "retryScript R (Stream c) (RetryKey c) (retryData c) (Group c) x w n runAt i json t s = (s', r)"
  shows "core s' G"
proof (cases rule: ret.result_cases [OF core_invD(4) [OF assms(1)], of x w n runAt i json t])
  case 1
  with assms show ?thesis by simp
next
  case 2
  note I = core_invD [OF assms(1)]
  define d1 where "d1 = ev_zadd (RetryKey c) runAt i (ev_hset (retryData c) i json (view s))"
  have v: "view s' = settled (Stream c) (Group c) x d1"
    using 2 assms(4) by (simp add: d1_def)
  obtain fs where fs: "map_of (dLog (view s) (Stream c)) x = Some fs" "entry_job (x, fs) = i"
    using leased_entry [OF assms(1,2) 2(1)] by blast
  have p1: "places c d1 G j = places c (view s) G j + of_bool (i = j)" for j
    unfolding d1_def places_same
    by (rule places_hset) (use conserved_in_stream(1) [OF I(2) fs(1)] fs(2) in \<open>simp add: domIff\<close>)
  have log: "dLog d1 = dLog (view s)"
    by (simp add: d1_def ev_defs)
  have same: "places c (view s') G j = places c (view s) G j" for j
    using places_settled [OF stream_dead, of d1 x fs "Group c" G j] stream_okD(1) [OF I(4)] fs p1 [of j]
    by (simp add: v log)
  show ?thesis
  proof (rule core_invI)
    show "queue_ok (cjson_decode C) (Stream c) (Group c) (RetryKey c) (retryData c) (view s')"
      using retry_ok [OF I(1) assms(3), of x w n runAt t] assms(4) by simp
    show "conserved c (view s') G"
      by (rule conserved_same [OF I(2) same])
    show "leases_ok c (view s') G"
      by (rule leases_ok_mono [OF I(3)]) (simp add: v d1_def lease_ok_settled)
  qed
qed

lemma core_dead_letter:
  assumes "core s G" "(x, w, n, i) \<in> leases G" "\<And>y. entry_job (y, pairs) = i"
    and "deadLetterScript R (Stream c) (DeadLetter c) (Group c) x w n pairs t s = (s', r)"
  shows "core s' G"
proof (cases rule: dlq.result_cases [OF core_invD(4) [OF assms(1)], of x w n pairs t])
  case 1
  with assms show ?thesis by simp
next
  case 2
  note I = core_invD [OF assms(1)]
  define d1 where "d1 = ev_xadd (DeadLetter c) (snd (xadd R (DeadLetter c) pairs s)) pairs (view s)"
  have v: "view s' = settled (Stream c) (Group c) x d1"
    using 2 assms(4) by (simp add: d1_def)
  obtain fs where fs: "map_of (dLog (view s) (Stream c)) x = Some fs" "entry_job (x, fs) = i"
    using leased_entry [OF assms(1,2) 2(1)] by blast
  have p1: "places c d1 G j = places c (view s) G j + of_bool (i = j)" for j
    by (simp add: d1_def places_xadd assms(3))
  have log: "dLog d1 (Stream c) = dLog (view s) (Stream c)"
    by (simp add: d1_def ev_defs)
  have same: "places c (view s') G j = places c (view s) G j" for j
    using places_settled [OF stream_dead, of d1 x fs "Group c" G j] stream_okD(1) [OF I(4)] fs p1 [of j]
    by (simp add: v log)
  show ?thesis
  proof (rule core_invI)
    show "queue_ok (cjson_decode C) (Stream c) (Group c) (RetryKey c) (retryData c) (view s')"
      using dead_letter_ok [OF I(1), of x w n pairs t] assms(4) by simp
    show "conserved c (view s') G"
      by (rule conserved_same [OF I(2) same])
    show "leases_ok c (view s') G"
      by (rule leases_ok_mono [OF I(3)]) (simp add: v d1_def lease_ok_settled)
  qed
qed

text \<open>Removing consumers touches nothing but the group's consumers.\<close>

lemma core_same_data:
  assumes "core s G" "queue_ok (cjson_decode C) (Stream c) (Group c) (RetryKey c) (retryData c) (view s')"
    and "dLog (view s') = dLog (view s)" "dHash (view s') = dHash (view s)" "dUsed (view s') = dUsed (view s)"
    and "undelivered (dGroup (view s') (Stream c) (Group c)) = undelivered (dGroup (view s) (Stream c) (Group c))"
  shows "core s' G"
proof (rule core_invI [OF assms(2)])
  note I = core_invD [OF assms(1)]
  show "conserved c (view s') G"
    by (rule conserved_same [OF I(2)], rule places_cong) (simp_all add: assms)
  have "lease_ok c (view s') x i = lease_ok c (view s) x i" for x i
    by (rule lease_ok_cong) (simp_all add: assms)
  then show "leases_ok c (view s') G"
    using I(3) by (simp add: leases_ok_alt)
qed

lemma delconsumer_frame:
  "dLog (view (xgroup_delconsumer R (Stream c) g w s)) = dLog (view s)"
  "dHash (view (xgroup_delconsumer R (Stream c) g w s)) = dHash (view s)"
  "dUsed (view (xgroup_delconsumer R (Stream c) g w s)) = dUsed (view s)"
  "dStr (view (xgroup_delconsumer R (Stream c) g w s)) = dStr (view s)"
  "undelivered (dGroup (view (xgroup_delconsumer R (Stream c) g w s)) (Stream c) g) =
     undelivered (dGroup (view s) (Stream c) g)"
  by (simp_all add: delconsumer_view ev_defs)

lemma prune_each_frame:
  "dLog (view (fst (prune_each R (Stream c) g idle cs s))) = dLog (view s) \<and>
   dHash (view (fst (prune_each R (Stream c) g idle cs s))) = dHash (view s) \<and>
   dUsed (view (fst (prune_each R (Stream c) g idle cs s))) = dUsed (view s) \<and>
   dStr (view (fst (prune_each R (Stream c) g idle cs s))) = dStr (view s) \<and>
   undelivered (dGroup (view (fst (prune_each R (Stream c) g idle cs s))) (Stream c) g) =
     undelivered (dGroup (view s) (Stream c) g)"
proof (induction cs arbitrary: s)
  case (Cons a cs)
  obtain w n i where a: "a = (w, n, i)" by (cases a)
  obtain s1 m where r: "prune_each R (Stream c) g idle cs (xgroup_delconsumer R (Stream c) g w s) = (s1, m)"
    by (cases "prune_each R (Stream c) g idle cs (xgroup_delconsumer R (Stream c) g w s)")
  from Cons.IH [of s] Cons.IH [of "xgroup_delconsumer R (Stream c) g w s"] show ?case
    by (simp add: a r delconsumer_frame)
qed simp

lemma core_prune:
  assumes "core s G" shows "core (fst (pruneConsumersScript R (Stream c) (Group c) idle t s)) G"
  using prune_spec(2) [OF core_invD(1) [OF assms]] prune_each_frame
  by (intro core_same_data [OF assms]) (simp_all add: pruneConsumersScript_def)

lemma core_deregister:
  assumes "core s G" shows "core (fst (deregisterScript R (Stream c) (Group c) w t s)) G"
  using deregister_ok [OF core_invD(1) [OF assms], of w t]
  by (intro core_same_data [OF assms]) (simp_all add: deregisterScript_def delconsumer_frame split: if_splits)

text \<open>Only an idempotent enqueue writes keys.\<close>

lemma promote_all_dStr:
  "dStr (view (promote_all R dec (RetryKey c) (retryData c) (Stream c) jids s)) = dStr (view s)"
  by (induction jids arbitrary: s) (simp_all add: promote_one_view split: option.split)

lemma promote_dStr:
  "dStr (view (fst (promote R dec (RetryKey c) (retryData c) (Stream c) now n s))) = dStr (view s)"
  by (simp add: promote_def Let_def promote_all_dStr)

lemma fenced_dStr:
  assumes "stream_ok (Stream c) (Group c) (view s)"
  shows "dStr (view (fst (ackScript R (Stream c) (Group c) x w n t s))) = dStr (view s)"
    "dStr (view (fst (extendScript R (Stream c) (Group c) x w n t s))) = dStr (view s)"
    "dStr (view (fst (retryScript R (Stream c) (RetryKey c) (retryData c) (Group c) x w n runAt i json t s))) = dStr (view s)"
    "dStr (view (fst (deadLetterScript R (Stream c) (DeadLetter c) (Group c) x w n pairs t s))) = dStr (view s)"
  using ack.result_cases [OF assms, of x w n t] ext.result_cases [OF assms, of x w n t]
    ret.result_cases [OF assms, of x w n runAt i json t] dlq.result_cases [OF assms, of x w n pairs t]
  by (metis dStr_same settled_simps(8) fst_conv)+

lemma keys_same_or_grow:
  "keys_ok c d G \<Longrightarrow> dStr d' = dStr d \<Longrightarrow> accepted G \<subseteq> accepted G' \<Longrightarrow> keys_ok c d' G'"
  by (auto simp: keys_ok_def)

lemma step_inv:
  assumes "step R C c S S'" "sys_inv C c (view (fst S)) (snd S)"
  shows "sys_inv C c (view (fst S')) (snd S')"
  using assms
proof (cases rule: step.cases)
  case (enqueue_now j G s)
  have "dStr (view (fst (xadd R (Stream c) (jobFields C j) s))) = dStr (view s)"
    by (simp add: xadd_view)
  with enqueue_now assms(2) show ?thesis
    using entry_job_fields(1) [of j]
    by (auto simp: sys_inv_def intro!: core_xadd elim!: keys_same_or_grow)
next
  case (enqueue_later j G s runAt)
  have "dStr (view (zadd R (RetryKey c) runAt (ID j) (hset R (retryData c) (ID j) (marshal C (jobFields C j)) s))) =
      dStr (view s)"
    by (simp add: zadd_view hset_view)
  with enqueue_later assms(2) show ?thesis
    using entry_job_fields(3) [of j]
    by (auto simp: sys_inv_def intro!: core_schedule elim!: keys_same_or_grow)
next
  case (enqueue_once j G key runAt t s s' r)
  with assms(2) show ?thesis using inv_enqueue_once by simp
next
  case (claim n w now t s s' es G)
  have "dStr (view s') = dStr (view s)"
    using claim_view(1) [of "cjson_decode C" s n w now t] claim(3,4) assms(2)
    by (simp add: claim(1) sys_inv_def core_inv_def promote_dStr)
  with claim assms(2) show ?thesis
    using core_claim [OF _ claim(3,4), of G] by (auto simp: sys_inv_def elim!: keys_same_or_grow)
next
  case (read n w t s s' r G)
  have "dStr (view s') = dStr (view s)"
    using xreadgroup_view [of "Stream c" n "Group c" w t s] read(3,4) by simp
  with read assms(2) show ?thesis
    using core_read [OF _ read(3,4), of G] by (auto simp: sys_inv_def elim!: keys_same_or_grow)
next
  case (recover n idle w cur t s s' cur' rs G)
  have "dStr (view s') = dStr (view s)"
    using recover_spec [of s idle n w cur t] recover(3-5) assms(2)
    by (auto simp: recover(1) sys_inv_def dest: core_invD(4) recoversD(5))
  with recover assms(2) show ?thesis
    using core_recover [OF _ recover(3-5), of G] by (auto simp: sys_inv_def elim!: keys_same_or_grow)
next
  case (ack x w n i G t s s' r)
  have "dStr (view s') = dStr (view s)"
    using fenced_dStr(1) [of s x w n t] ack(4) assms(2) by (simp add: ack(1) sys_inv_def core_inv_def queue_ok_def)
  with ack assms(2) show ?thesis
    using core_ack [OF _ ack(3,4)] by (auto simp: sys_inv_def elim!: keys_same_or_grow)
next
  case (extend x w n i G t s s' r)
  have "dStr (view s') = dStr (view s)"
    using fenced_dStr(2) [of s x w n t] extend(4) assms(2) by (simp add: extend(1) sys_inv_def core_inv_def queue_ok_def)
  with extend assms(2) show ?thesis
    using core_extend [OF _ extend(4)] by (auto simp: sys_inv_def elim!: keys_same_or_grow)
next
  case (retry x w n j G runAt t s s' r)
  have "dStr (view s') = dStr (view s)"
    using fenced_dStr(3) [of s x w n runAt "ID j" "marshal C (jobFields C j)" t] retry(6) assms(2)
    by (simp add: retry(1) sys_inv_def core_inv_def queue_ok_def)
  with retry assms(2) show ?thesis
    using core_retry [OF _ retry(3) entry_job_fields(3) [OF retry(4,5)] retry(6)]
    by (auto simp: sys_inv_def elim!: keys_same_or_grow)
next
  case (dead_letter x w n i G pairs t s s' r)
  have "dStr (view s') = dStr (view s)"
    using fenced_dStr(4) [of s x w n pairs t] dead_letter(6) assms(2)
    by (simp add: dead_letter(1) sys_inv_def core_inv_def queue_ok_def)
  moreover have "entry_job (y, pairs) = i" for y
    using dead_letter(4,5) by (simp add: entry_job_def)
  ultimately show ?thesis
    using core_dead_letter [OF _ dead_letter(3) _ dead_letter(6)] dead_letter(1,2) assms(2)
    by (auto simp: sys_inv_def elim!: keys_same_or_grow)
next
  case (promote_due n now s s' r G)
  have s': "s' = fst (promote R (cjson_decode C) (RetryKey c) (retryData c) (Stream c) now n s)"
    using promote_due(4) by (simp add: promoteScript_def)
  with promote_due(1,2) assms(2) show ?thesis
    by (auto simp: sys_inv_def promote_dStr core_promote elim!: keys_same_or_grow)
next
  case (prune idle t s s' r G)
  have "s' = fst (pruneConsumersScript R (Stream c) (Group c) idle t s)"
    using prune(3) by simp
  with prune(1,2) assms(2) show ?thesis
    using core_prune prune_each_frame
    by (auto simp: sys_inv_def pruneConsumersScript_def elim!: keys_same_or_grow)
next
  case (deregister w t s s' r G)
  have "s' = fst (deregisterScript R (Stream c) (Group c) w t s)"
    using deregister(3) by simp
  with deregister(1,2) assms(2) show ?thesis
    using core_deregister delconsumer_frame(4)
    by (auto simp: sys_inv_def deregisterScript_def elim!: keys_same_or_grow split: if_splits)
qed

lemma steps_inv:
  "steps R C c S S' \<Longrightarrow> sys_inv C c (view (fst S)) (snd S) \<Longrightarrow> sys_inv C c (view (fst S')) (snd S')"
  by (induction rule: steps.induct) (auto intro: step_inv)

lemma reachable_inv:
  "steps R C c (s, no_ghost) (s', G) \<Longrightarrow> empty_queue c (view s) \<Longrightarrow> sys_inv C c (view s') G"
  using steps_inv [of "(s, no_ghost)" "(s', G)"] sys_inv_empty by simp

end

end
