(* ===== verification/Fencing.thy ===== *)
theory Fencing
  imports Delivery
begin

text \<open>
  Fencing: what happens to a lease once it was handed out. The delivery record of an entry
  only moves forward (\<open>evolves\<close>): a pending entry keeps its owner and token until it is
  delivered again with a larger token or leaves the stream, and an entry that left never comes
  back. So every lease is either the current one of its message or superseded for good, and
  the token of a new lease exceeds those of all earlier leases on the message.
\<close>

definition evolves :: "string \<Rightarrow> string \<Rightarrow> db \<Rightarrow> db \<Rightarrow> bool" where
  "evolves k g d d' \<longleftrightarrow>
     (\<forall>x. x \<in> dUsed d k \<and> x \<notin> set (undelivered (dGroup d k g)) \<longrightarrow>
        x \<in> dUsed d' k \<and> x \<notin> set (undelivered (dGroup d' k g)) \<and>
        (\<forall>p'. pel (dGroup d' k g) x = Some p' \<longrightarrow>
           (\<exists>p. pel (dGroup d k g) x = Some p \<and>
              (pCount p < pCount p' \<or> pCount p = pCount p' \<and> pOwner p = pOwner p'))))"

lemma evolvesI:
  assumes "\<And>x. x \<in> dUsed d k \<Longrightarrow> x \<notin> set (undelivered (dGroup d k g)) \<Longrightarrow>
      x \<in> dUsed d' k \<and> x \<notin> set (undelivered (dGroup d' k g))"
    and "\<And>x p'. x \<in> dUsed d k \<Longrightarrow> x \<notin> set (undelivered (dGroup d k g)) \<Longrightarrow> pel (dGroup d' k g) x = Some p' \<Longrightarrow>
      \<exists>p. pel (dGroup d k g) x = Some p \<and> (pCount p < pCount p' \<or> pCount p = pCount p' \<and> pOwner p = pOwner p')"
  shows "evolves k g d d'"
  using assms unfolding evolves_def by blast

lemma evolves_refl [simp]: "evolves k g d d"
  by (simp add: evolves_def)

lemma evolves_trans:
  assumes "evolves k g d1 d2" "evolves k g d2 d3"
  shows "evolves k g d1 d3"
proof (rule evolvesI)
  fix x assume x: "x \<in> dUsed d1 k" "x \<notin> set (undelivered (dGroup d1 k g))"
  then have x2: "x \<in> dUsed d2 k" "x \<notin> set (undelivered (dGroup d2 k g))"
    using assms(1) unfolding evolves_def by blast+
  then show "x \<in> dUsed d3 k \<and> x \<notin> set (undelivered (dGroup d3 k g))"
    using assms(2) unfolding evolves_def by blast
  fix p3 assume "pel (dGroup d3 k g) x = Some p3"
  with assms(2) x2 obtain p2 where p2: "pel (dGroup d2 k g) x = Some p2"
      "pCount p2 < pCount p3 \<or> pCount p2 = pCount p3 \<and> pOwner p2 = pOwner p3"
    unfolding evolves_def by blast
  with assms(1) x obtain p1 where "pel (dGroup d1 k g) x = Some p1"
      "pCount p1 < pCount p2 \<or> pCount p1 = pCount p2 \<and> pOwner p1 = pOwner p2"
    unfolding evolves_def by blast
  with p2 show "\<exists>p. pel (dGroup d1 k g) x = Some p \<and> (pCount p < pCount p3 \<or> pCount p = pCount p3 \<and> pOwner p = pOwner p3)"
    by auto
qed

lemma evolves_superseded: "evolves k g d d' \<Longrightarrow> superseded k g x n d \<Longrightarrow> superseded k g x n d'"
  unfolding evolves_def superseded_def by (metis order.strict_trans)

text \<open>The fate of a delivery: still current, or superseded.\<close>

definition fated :: "string \<Rightarrow> string \<Rightarrow> string \<Rightarrow> string \<Rightarrow> int \<Rightarrow> db \<Rightarrow> bool" where
  "fated k g x w n d \<longleftrightarrow> owned k g x w n d \<or> superseded k g x n d"

lemma evolves_fated:
  assumes "evolves k g d d'" "stream_ok k g d" "fated k g x w n d"
  shows "fated k g x w n d'"
proof (cases "superseded k g x n d")
  case True
  then show ?thesis using evolves_superseded [OF assms(1)] by (simp add: fated_def)
next
  case False
  with assms(3) obtain p where p: "pel (dGroup d k g) x = Some p" "pOwner p = w" "pCount p = n"
    by (auto simp: fated_def owned_def)
  have x: "x \<in> dUsed d' k" "x \<notin> set (undelivered (dGroup d' k g))"
    using assms(1) stream_ok_pending [OF assms(2) p(1)] unfolding evolves_def by blast+
  show ?thesis
  proof (cases "owned k g x w n d'")
    case True
    then show ?thesis by (simp add: fated_def)
  next
    case False
    have "n < pCount p'" if "pel (dGroup d' k g) x = Some p'" for p'
      using assms(1) stream_ok_pending [OF assms(2) p(1)] that p False
      unfolding evolves_def owned_def by (metis option.inject)
    with x show ?thesis by (simp add: fated_def superseded_def)
  qed
qed

section \<open>How the commands move delivery records\<close>

lemma evolves_cong:
  "dUsed d' k = dUsed d k \<Longrightarrow> undelivered (dGroup d' k g) = undelivered (dGroup d k g) \<Longrightarrow>
   pel (dGroup d' k g) = pel (dGroup d k g) \<Longrightarrow> evolves k g d d'"
  by (rule evolvesI) simp_all

lemma evolves_other [simp]:
  "evolves k g d (ev_zadd zk v m d)" "evolves k g d (ev_zrem zk m d)" "evolves k g d (ev_hset hk f w d)"
  "evolves k g d (ev_hdel hk f d)" "evolves k g d (ev_set_px sk w ttl t d)"
  "k' \<noteq> k \<Longrightarrow> evolves k g d (ev_xadd k' x fs d)"
  by (rule evolves_cong; simp add: ev_defs)+

lemma evolves_xadd: "x \<notin> dUsed d k \<Longrightarrow> evolves k g d (ev_xadd k x fs d)"
  by (rule evolvesI) (auto simp: ev_defs)

lemma evolves_settled [simp]: "evolves k g d (settled k g x d)"
  by (rule evolvesI) (auto split: if_splits)

lemma evolves_xreadgroup [simp]: "evolves k g d (ev_xreadgroup k g w n t d)"
  by (rule evolvesI) (auto simp: deliver_def dest: in_set_dropD in_set_takeD split: if_splits)

lemma evolves_xclaim: "owned k g x w n d \<Longrightarrow> evolves k g d (ev_xclaim k g w x t d)"
  by (rule evolvesI) (auto simp: ev_defs owned_def split: if_splits)

lemma evolves_delconsumer [simp]: "evolves k g d (ev_delconsumer k g w d)"
  by (rule evolvesI) (auto simp: ev_defs split: option.splits if_splits)

lemma evolves_recovers:
  assumes "recovers k g w t idle d d' rs"
  shows "evolves k g d d'"
proof (rule evolvesI)
  fix x p' assume p': "pel (dGroup d' k g) x = Some p'"
  show "\<exists>p. pel (dGroup d k g) x = Some p \<and> (pCount p < pCount p' \<or> pCount p = pCount p' \<and> pOwner p = pOwner p')"
  proof (cases "x \<in> fst ` set rs")
    case True
    then obtain fs m where "(x, fs, m) \<in> set rs" by auto
    from recoversD(8) [OF assms this] p' show ?thesis by (auto simp: taken_def)
  next
    case False
    from recoversD(9) [OF assms this] p' show ?thesis by (intro exI [of _ p']) simp
  qed
qed (simp add: recoversD(2,6) [OF assms])

section \<open>Every step moves them forward\<close>

context store_queue
begin

lemma promote_evolves:
  "evolves (Stream c) g (view s) (view (fst (promote R dec (RetryKey c) (retryData c) (Stream c) now n s)))"
proof -
  have one: "evolves (Stream c) g (view s) (view (promote_one R dec (RetryKey c) (retryData c) (Stream c) jid s))" for jid s
    unfolding promote_one_view
    by (rule evolves_trans [OF _ evolves_trans [OF evolves_other(4) evolves_other(2)]])
      (simp add: evolves_xadd xadd_fresh split: option.split)
  have "evolves (Stream c) g (view s) (view (promote_all R dec (RetryKey c) (retryData c) (Stream c) jids s))" for jids
    by (induction jids arbitrary: s) (auto intro: evolves_trans [OF one])
  then show ?thesis by (simp add: promote_def Let_def)
qed

lemma prune_each_evolves:
  "evolves (Stream c) g (view s) (view (fst (prune_each R (Stream c) g idle cs s)))"
proof (induction cs arbitrary: s)
  case (Cons a cs)
  obtain w n i where a: "a = (w, n, i)" by (cases a)
  obtain s1 m where r: "prune_each R (Stream c) g idle cs (xgroup_delconsumer R (Stream c) g w s) = (s1, m)"
    by (cases "prune_each R (Stream c) g idle cs (xgroup_delconsumer R (Stream c) g w s)")
  have "evolves (Stream c) g (view s) (view s1)"
    using evolves_trans [OF _ Cons.IH [of "xgroup_delconsumer R (Stream c) g w s"], of "view s"]
    by (simp add: r delconsumer_view)
  with Cons.IH [of s] show ?case by (simp add: a r)
qed simp

lemma fenced_evolves:
  assumes "okS s"
  shows "evolves (Stream c) (Group c) (view s) (view (fst (ackScript R (Stream c) (Group c) x w n t s)))"
    "evolves (Stream c) (Group c) (view s) (view (fst (extendScript R (Stream c) (Group c) x w n t s)))"
    "evolves (Stream c) (Group c) (view s)
       (view (fst (retryScript R (Stream c) (RetryKey c) (retryData c) (Group c) x w n runAt i json t s)))"
    "evolves (Stream c) (Group c) (view s)
       (view (fst (deadLetterScript R (Stream c) (DeadLetter c) (Group c) x w n pairs t s)))"
proof -
  show "evolves (Stream c) (Group c) (view s) (view (fst (ackScript R (Stream c) (Group c) x w n t s)))"
    by (cases rule: ack.result_cases [OF assms, of x w n t]) simp_all
  show "evolves (Stream c) (Group c) (view s) (view (fst (extendScript R (Stream c) (Group c) x w n t s)))"
    by (cases rule: ext.result_cases [OF assms, of x w n t]) (simp_all add: evolves_xclaim)
  show "evolves (Stream c) (Group c) (view s)
       (view (fst (retryScript R (Stream c) (RetryKey c) (retryData c) (Group c) x w n runAt i json t s)))"
    by (cases rule: ret.result_cases [OF assms, of x w n runAt i json t])
      (auto intro: evolves_trans [OF evolves_trans [OF evolves_other(3) evolves_other(1)] evolves_settled])
  show "evolves (Stream c) (Group c) (view s)
       (view (fst (deadLetterScript R (Stream c) (DeadLetter c) (Group c) x w n pairs t s)))"
    by (cases rule: dlq.result_cases [OF assms, of x w n pairs t])
      (auto intro: evolves_trans [OF evolves_other(6) evolves_settled])
qed

lemma enqueue_once_evolves:
  "evolves (Stream c) g (view s) (view (fst (enqueueOnceScript R dec (DedupePrefix c @ key) (Stream c) (RetryKey c)
     (retryData c) i (Milliseconds (DedupeWindow c)) runAt json t s)))"
proof -
  let ?s1 = "set_px R (DedupePrefix c @ key) i (Milliseconds (DedupeWindow c)) t s"
  have 1: "evolves (Stream c) g (view s) (view ?s1)"
    by (simp add: set_px_view dedupe_key)
  have 2: "evolves (Stream c) g (view ?s1) (view (zadd R (RetryKey c) runAt i (hset R (retryData c) i json ?s1)))"
    using evolves_trans [OF evolves_other(3) evolves_other(1)] by (simp add: zadd_view hset_view)
  have 3: "evolves (Stream c) g (view ?s1) (view (fst (xadd R (Stream c) fs ?s1)))" for fs
    by (simp add: xadd_view evolves_xadd xadd_fresh)
  show ?thesis
    using evolves_trans [OF 1 2] evolves_trans [OF 1 3]
    by (simp add: enqueueOnceScript_def Let_def xadd_json_def split: option.split)
qed

lemma step_evolves:
  assumes "step R C c S S'" "sys_inv C c (view (fst S)) (snd S)"
  shows "evolves (Stream c) (Group c) (view (fst S)) (view (fst S'))"
proof -
  have q: "queue_ok (cjson_decode C) (Stream c) (Group c) (RetryKey c) (retryData c) (view (fst S))"
    and ok: "okS (fst S)"
    using assms(2) by (auto simp: sys_inv_def dest: core_invD)
  from assms(1) show ?thesis
  proof (cases rule: step.cases)
    case (enqueue_now j G s)
    then show ?thesis by (simp add: xadd_view evolves_xadd xadd_fresh)
  next
    case (enqueue_later j G s runAt)
    then show ?thesis
      using evolves_trans [OF evolves_other(3) evolves_other(1)] by (simp add: zadd_view hset_view)
  next
    case (enqueue_once j G key runAt t s s' r)
    then show ?thesis
      using enqueue_once_evolves [of "Group c" s "cjson_decode C" key "ID j" runAt "marshal C (jobFields C j)" t] by simp
  next
    case (claim n w now t s s' es G)
    have "view s' = ev_xreadgroup (Stream c) (Group c) w n t
        (view (fst (promote R (cjson_decode C) (RetryKey c) (retryData c) (Stream c) now 100 s)))"
      using claim_view(1) [of "cjson_decode C" s n w now t] claim q by simp
    with claim show ?thesis
      using evolves_trans [OF promote_evolves evolves_xreadgroup] by simp
  next
    case (read n w t s s' r G)
    then show ?thesis
      using xreadgroup_view [of "Stream c" n "Group c" w t s] by simp
  next
    case (recover n idle w cur t s s' cur' rs G)
    then show ?thesis
      using recover_spec [of s idle n w cur t] ok by (auto intro: evolves_recovers)
  next
    case (ack x w n i G t s s' r)
    then show ?thesis using fenced_evolves(1) [of s x w n t] ok by simp
  next
    case (extend x w n i G t s s' r)
    then show ?thesis using fenced_evolves(2) [of s x w n t] ok by simp
  next
    case (retry x w n j G runAt t s s' r)
    then show ?thesis
      using fenced_evolves(3) [of s x w n runAt "ID j" "marshal C (jobFields C j)" t] ok by simp
  next
    case (dead_letter x w n i G pairs t s s' r)
    then show ?thesis using fenced_evolves(4) [of s x w n pairs t] ok by simp
  next
    case (promote_due n now s s' r G)
    then show ?thesis
      using promote_evolves [of "Group c" s "cjson_decode C" now n] by (simp add: promoteScript_def)
  next
    case (prune idle t s s' r G)
    then show ?thesis
      using prune_each_evolves [of "Group c" s idle "xinfo_consumers R (Stream c) (Group c) t s"]
      by (simp add: pruneConsumersScript_def)
  next
    case (deregister w t s s' r G)
    then show ?thesis by (auto simp: deregisterScript_def delconsumer_view split: if_splits)
  qed
qed

end

section \<open>The leases handed out\<close>

definition fates_ok :: "Config \<Rightarrow> db \<Rightarrow> ghost \<Rightarrow> bool" where
  "fates_ok c d G \<longleftrightarrow> (\<forall>(x, w, n, i) \<in> leases G. fated (Stream c) (Group c) x w n d)"

text \<open>No two holders have the same message with the same token.\<close>

definition tokens_ok :: "ghost \<Rightarrow> bool" where
  "tokens_ok G \<longleftrightarrow>
     (\<forall>(x, w, n, i) \<in> leases G. \<forall>(x', w', n', i') \<in> leases G. x = x' \<and> n = n' \<longrightarrow> w = w' \<and> i = i')"

lemma tokens_okD:
  "tokens_ok G \<Longrightarrow> (x, w, n, i) \<in> leases G \<Longrightarrow> (x, w', n, i') \<in> leases G \<Longrightarrow> w = w' \<and> i = i'"
  by (auto simp: tokens_ok_def)

text \<open>A new lease is current and its token exceeds the tokens of all leases before it.\<close>

definition newest :: "Config \<Rightarrow> db \<Rightarrow> ghost \<Rightarrow> string \<times> string \<times> int \<times> string \<Rightarrow> bool" where
  "newest c d G = (\<lambda>(x, w, m, i).
     owned (Stream c) (Group c) x w m d \<and> (\<forall>(x', w', n, i') \<in> leases G. x' = x \<longrightarrow> n < m))"

lemma step_leases:
  assumes "step R C c (s, G) (s', G')"
  shows "leases G \<subseteq> leases G'"
  using assms by (cases rule: step.cases) auto

context store_queue
begin

lemma undelivered_not_leased:
  "leases_ok c d G \<Longrightarrow> x \<in> set (undelivered (dGroup d (Stream c) (Group c))) \<Longrightarrow> (x, w, n, i) \<notin> leases G"
  by (auto simp: leases_ok_def)

lemma newest_read:
  assumes "core_inv C c d G" "r \<in> handed w (map (\<lambda>(x, fs). (x, fs, 1)) es)"
    and "es = map (\<lambda>y. (y, the (map_of (dLog d (Stream c)) y))) (take (nat n) (undelivered (dGroup d (Stream c) (Group c))))"
  shows "newest c (ev_xreadgroup (Stream c) (Group c) w n t d) G r"
proof -
  obtain x i where r: "r = (x, w, 1, i)" and x: "x \<in> set (take (nat n) (undelivered (dGroup d (Stream c) (Group c))))"
    using assms(2,3) by (auto simp: handed_def)
  from read_owned(1) [OF core_invD(4) [OF assms(1)] x, of w t]
    undelivered_not_leased [OF core_invD(3) [OF assms(1)] in_set_takeD [OF x]]
  show ?thesis by (auto simp: newest_def r)
qed

lemma newest_recover:
  assumes "core s G" "fates_ok c (view s) G" "1 \<le> n" "1 \<le> idle" "r \<in> handed w rs"
    and "recoverScript R (Stream c) (Group c) w idle n cur t s = (s', Some (cur', rs))"
  shows "newest c (view s') G r"
proof -
  have rec: "recovers (Stream c) (Group c) w t idle (view s) (view s') rs"
    using recover_spec [OF core_invD(4) [OF assms(1)] assms(4,3), of w cur t] assms(6) by auto
  obtain x fs m i where r: "r = (x, w, m, i)" "(x, fs, m) \<in> set rs"
    using assms(5) by (auto simp: handed_def)
  from recoversD(8) [OF rec r(2)] obtain p where
    "pel (dGroup (view s) (Stream c) (Group c)) x = Some p" "m = pCount p + 1"
    by (auto simp: taken_def)
  moreover have "fated (Stream c) (Group c) x u k (view s)" if "(x, u, k, j) \<in> leases G" for u k j
    using assms(2) that by (auto simp: fates_ok_def)
  ultimately have "k < m" if "(x, u, k, j) \<in> leases G" for u k j
    using that by (fastforce simp: fated_def owned_def superseded_def)
  with recovers_fences(2) [OF rec core_invD(4) [OF assms(1)] r(2)] show ?thesis
    by (auto simp: newest_def r(1))
qed

lemma step_newest:
  assumes "step R C c (s, G) (s', G')" "sys_inv C c (view s) G" "fates_ok c (view s) G" "r \<in> leases G' - leases G"
  shows "newest c (view s') G r"
proof -
  have I: "core s G"
    using assms(2) by (simp add: sys_inv_def)
  from assms(1) show ?thesis
  proof (cases rule: step.cases)
    case (claim n w now t es)
    have *: "view s' = ev_xreadgroup (Stream c) (Group c) w n t
        (view (fst (promote R (cjson_decode C) (RetryKey c) (retryData c) (Stream c) now 100 s)))"
      using claim_view(1) [OF core_invD(1) [OF I] claim(2), of w now t] claim(3) by simp
    show ?thesis
      unfolding * by (rule newest_read [OF core_promote [OF I]])
        (use assms(4) claim claim_view(2) [OF core_invD(1) [OF I] claim(2), of w now t] in auto)
  next
    case (read n w t q)
    have *: "view s' = ev_xreadgroup (Stream c) (Group c) w n t (view s)"
      using xreadgroup_view [of "Stream c" n "Group c" w t s] read(2,3) by simp
    have sub: "set (undelivered (dGroup (view s) (Stream c) (Group c))) \<subseteq> ids_of (dLog (view s) (Stream c))"
      by (rule stream_okD(3) [OF core_invD(4) [OF I]])
    show ?thesis
      unfolding * by (rule newest_read [OF I, where es = "case q of None \<Rightarrow> [] | Some es \<Rightarrow> es"])
        (use assms(4) read xreadgroup_reply [OF kt_stream read(2) sub, of w t] in \<open>auto split: list.splits\<close>)
  next
    case (recover n idle w cur t cur' rs)
    show ?thesis
      by (rule newest_recover [OF I assms(3) recover(2,3) _ recover(4)]) (use assms(4) recover(1) in auto)
  qed (use assms(4) in \<open>auto split: if_splits\<close>)
qed

lemma owned_lease_job:
  assumes "leases_ok c d G" "stream_ok (Stream c) (Group c) d"
    and "(x, w, n, i) \<in> leases G" "(x, w', n', i') \<in> leases G"
    and "owned (Stream c) (Group c) x w n d"
  shows "i' = i"
proof -
  obtain p where "pel (dGroup d (Stream c) (Group c)) x = Some p"
    using assms(5) by (auto simp: owned_def)
  then obtain fs where "map_of (dLog d (Stream c)) x = Some fs"
    using stream_ok_pending_in_log [OF assms(2)] by (metis map_of_eq_None_iff not_None_eq)
  with leases_okD [OF assms(1,3)] leases_okD [OF assms(1,4)] show ?thesis
    by (auto simp: lease_ok_def)
qed

lemma step_fates:
  assumes st: "step R C c (s, G) (s', G')" and I: "sys_inv C c (view s) G"
    and "fates_ok c (view s) G" "tokens_ok G"
  shows "fates_ok c (view s') G'" "tokens_ok G'"
proof -
  note new = step_newest [OF st I assms(3)]
  have ok: "okS s" and I': "sys_inv C c (view s') G'"
    using I step_inv [OF st] by (auto simp: sys_inv_def dest: core_invD)
  note L = core_invD(3,4) [OF I' [unfolded sys_inv_def, THEN conjunct1]]
  have ev: "evolves (Stream c) (Group c) (view s) (view s')"
    using step_evolves [OF st] I by simp
  show "fates_ok c (view s') G'"
    unfolding fates_ok_def
  proof (clarify)
    fix x w n i assume l: "(x, w, n, i) \<in> leases G'"
    show "fated (Stream c) (Group c) x w n (view s')"
    proof (cases "(x, w, n, i) \<in> leases G")
      case True
      with assms(3) evolves_fated [OF ev ok] show ?thesis by (auto simp: fates_ok_def)
    next
      case False
      with new l show ?thesis by (auto simp: newest_def fated_def)
    qed
  qed
  show "tokens_ok G'"
    unfolding tokens_ok_def
  proof (clarify)
    fix x w n i w' i' assume l: "(x, w, n, i) \<in> leases G'" "(x, w', n, i') \<in> leases G'"
    have *: "w = w' \<and> i = i'" if a: "(x, w, n, i) \<in> leases G' - leases G" and b: "(x, w', n, i') \<in> leases G'" for w i w' i'
    proof -
      have own: "owned (Stream c) (Group c) x w n (view s')"
        using new [OF a] by (simp add: newest_def)
      have "(x, w', n, i') \<notin> leases G"
        using new [OF a] by (auto simp: newest_def)
      with new [of "(x, w', n, i')"] b have "owned (Stream c) (Group c) x w' n (view s')"
        by (simp add: newest_def)
      with own owned_lease_job [OF L _ b own, of i] a show ?thesis by (auto simp: owned_def)
    qed
    show "w = w' \<and> i = i'"
      using * [of w i w' i'] * [of w' i' w i] tokens_okD [OF assms(4), of x w n i w' i'] l
      by (cases "(x, w, n, i) \<in> leases G"; cases "(x, w', n, i') \<in> leases G") simp_all
  qed
qed

lemma reachable_fates:
  assumes "steps R C c (s, no_ghost) (s', G)" "empty_queue c (view s)"
  shows "fates_ok c (view s') G \<and> tokens_ok G"
  using assms(1)
proof (induction "(s, no_ghost)" "(s', G)" arbitrary: s' G rule: steps.induct)
  case steps_refl
  then show ?case by (simp add: fates_ok_def tokens_ok_def no_ghost_def)
next
  case (steps_snoc T)
  obtain t H where T: "T = (t, H)" by (cases T)
  have "sys_inv C c (view t) H"
    using reachable_inv steps_snoc(1) assms(2) by (simp add: T)
  with step_fates [of t H s' G] steps_snoc(2,3) show ?case by (simp add: T)
qed

lemma steps_evolves:
  assumes "steps R C c S S'" "sys_inv C c (view (fst S)) (snd S)"
  shows "evolves (Stream c) (Group c) (view (fst S)) (view (fst S'))"
  using assms
proof (induction rule: steps.induct)
  case (steps_snoc S T U)
  then show ?case
    using step_evolves [OF steps_snoc(2) steps_inv [OF steps_snoc(1,4)]] by (blast intro: evolves_trans)
qed simp

section \<open>Consequences for the holders of leases\<close>

lemmas recover_script = recover_spec
lemmas recover_script_complete = recover_complete
lemmas promote_script = promote_log
lemmas claim_script = claim_ok claim_owned claim_limit claim_view
lemmas consumer_scripts = deregister_pel prune_spec
lemmas once_script = enqueue_once_used enqueue_once_fresh enqueue_once_remembers

lemma fenced_exact:
  assumes ok: "okS s" and fate: "fated (Stream c) (Group c) x w n (view s)"
    and f: "f \<in> {ackScript R (Stream c) (Group c) x w n t, extendScript R (Stream c) (Group c) x w n t,
      retryScript R (Stream c) (RetryKey c) (retryData c) (Group c) x w n runAt i json t,
      deadLetterScript R (Stream c) (DeadLetter c) (Group c) x w n pairs t}"
  shows "if owned (Stream c) (Group c) x w n (view s) then snd (f s) = 1
    else superseded (Stream c) (Group c) x n (view s) \<and> f s = (s, 0)"
proof (cases "owned (Stream c) (Group c) x w n (view s)")
  case True
  with f show ?thesis
    using ack.held [OF ok True] ext.held [OF ok True] ret.held [OF ok True] dlq.held [OF ok True] by auto
next
  case False
  with f fate show ?thesis
    using ack.lost [OF False] ext.lost [OF False] ret.lost [OF False] dlq.lost [OF False] by (auto simp: fated_def)
qed

lemma reachable_fated:
  assumes "steps R C c (s, no_ghost) (s', G)" "empty_queue c (view s)" "(x, w, n, i) \<in> leases G"
  shows "fated (Stream c) (Group c) x w n (view s')"
  using reachable_fates [OF assms(1,2)] assms(3) by (auto simp: fates_ok_def)

lemma reachable_okS: "steps R C c (s, no_ghost) (s', G) \<Longrightarrow> empty_queue c (view s) \<Longrightarrow> okS s'"
  using reachable_inv by (auto simp: sys_inv_def dest: core_invD)

lemma lost_forever:
  assumes "steps R C c (s, no_ghost) (s', G)" "empty_queue c (view s)" "(x, w, n, i) \<in> leases G"
    and "\<not> owned (Stream c) (Group c) x w n (view s')" "steps R C c (s', G) (s'', G')"
  shows "superseded (Stream c) (Group c) x n (view s'')"
proof -
  have "superseded (Stream c) (Group c) x n (view s')"
    using reachable_fated [OF assms(1-3)] assms(4) by (simp add: fated_def)
  moreover have "evolves (Stream c) (Group c) (view s') (view s'')"
    using steps_evolves [OF assms(5)] reachable_inv [OF assms(1,2)] by simp
  ultimately show ?thesis by (rule evolves_superseded [rotated])
qed

lemma one_holder:
  assumes "steps R C c (s, no_ghost) (s', G)" "empty_queue c (view s)"
    and "(x, w, n, i) \<in> leases G" "(x, w', n', i') \<in> leases G"
    and "owned (Stream c) (Group c) x w n (view s')" "owned (Stream c) (Group c) x w' n' (view s')"
  shows "w' = w \<and> n' = n \<and> i' = i"
proof -
  have "core s' G"
    using reachable_inv [OF assms(1,2)] by (simp add: sys_inv_def)
  then have "i' = i"
    using owned_lease_job [OF core_invD(3,4) assms(3,4,5)] by simp
  with assms(5,6) show ?thesis by (auto simp: owned_def)
qed

end

lemma step_acked: "step R C c S S' \<Longrightarrow> acked (snd S) \<subseteq> acked (snd S')"
  by (cases rule: step.cases) auto

lemma steps_acked: "steps R C c S S' \<Longrightarrow> acked (snd S) \<subseteq> acked (snd S')"
  by (induction rule: steps.induct) (use step_acked in blast)+

lemma steps_trans: "steps R C c S T \<Longrightarrow> steps R C c T U \<Longrightarrow> steps R C c S U"
  by (rotate_tac, induction rule: steps.induct) (auto intro: steps.intros)

context store_queue
begin

text \<open>A job whose ack was carried out is in no queue, so no step hands it out.\<close>

lemma acked_not_held:
  assumes "sys_inv C c (view s) G" "(x, w, n, i) \<in> leases G" "owned (Stream c) (Group c) x w n (view s)"
  shows "i \<notin> acked G"
proof -
  have I: "core s G"
    using assms(1) by (simp add: sys_inv_def)
  from leased_entry [OF I assms(2,3)] conserved_in_stream(2) [OF core_invD(2) [OF I]] show ?thesis
    by auto
qed

lemma acked_not_redelivered:
  assumes "steps R C c (s, no_ghost) (s', G)" "empty_queue c (view s)" "i \<in> acked G"
    and "steps R C c (s', G) (s1, G1)" "step R C c (s1, G1) (s2, G2)" "(x, w, n, i) \<in> leases G2"
  shows "(x, w, n, i) \<in> leases G1"
proof (rule ccontr)
  assume new: "(x, w, n, i) \<notin> leases G1"
  have s1: "steps R C c (s, no_ghost) (s1, G1)"
    by (rule steps_trans [OF assms(1,4)])
  have I2: "sys_inv C c (view s2) G2"
    by (rule reachable_inv [OF steps_snoc [OF s1 assms(5)] assms(2)])
  have "newest c (view s2) G1 (x, w, n, i)"
    by (rule step_newest [OF assms(5) reachable_inv [OF s1 assms(2)]])
      (use reachable_fates [OF s1 assms(2)] assms(6) new in auto)
  then have "i \<notin> acked G2"
    using acked_not_held [OF I2 assms(6)] by (simp add: newest_def)
  moreover have "i \<in> acked G2"
    using assms(3) steps_acked [OF assms(4)] step_acked [OF assms(5)] by auto
  ultimately show False by simp
qed

end

end
