(* ===== verification/RefServer.thy ===== *)
theory RefServer
  imports Delivery "HOL-Library.AList" "HOL-Library.List_Lexorder" "HOL-Library.Char_ord" "HOL-Library.Product_Lexorder"
begin

text \<open>
  A reference server: an executable implementation of the commands the program uses, over
  association lists, which meets the contract \<open>redis_server\<close>; and a reference text encoding
  that meets \<open>codec_laws\<close>. They show that the hypotheses of the theorems about the program can
  hold, and the theorems are applied to concrete runs on them. The program itself is never
  specialised to this server.
\<close>

section \<open>State\<close>

record refgrp =
  gUnd :: "string list"
  gPel :: "(string \<times> pend) list"
  gCons :: "(string \<times> int) list"

record refdb =
  sLog :: "string \<Rightarrow> entry list"
  sNext :: "string \<Rightarrow> nat"
  sGrp :: "string \<Rightarrow> string \<Rightarrow> refgrp"
  sZ :: "string \<Rightarrow> (string \<times> int) list"
  sH :: "string \<Rightarrow> fields"
  sStr :: "string \<rightharpoonup> string \<times> int"

definition entry_id :: "nat \<Rightarrow> string" where
  "entry_id n = nat_digits (Suc n) @ ''-0''"

definition ref_view :: "refdb \<Rightarrow> db" where
  "ref_view s =
     \<lparr>dLog = sLog s, dUsed = (\<lambda>k. entry_id ` {..<sNext s k}),
      dGroup = (\<lambda>k g. \<lparr>undelivered = gUnd (sGrp s k g), pel = map_of (gPel (sGrp s k g)),
                       consumers = map_of (gCons (sGrp s k g))\<rparr>),
      dZset = (\<lambda>k. map_of (sZ s k)), dHash = (\<lambda>k. map_of (sH s k)), dStr = sStr s\<rparr>"

definition empty_server :: refdb where
  "empty_server = \<lparr>sLog = (\<lambda>_. []), sNext = (\<lambda>_. 0), sGrp = (\<lambda>_ _. \<lparr>gUnd = [], gPel = [], gCons = []\<rparr>),
     sZ = (\<lambda>_. []), sH = (\<lambda>_. []), sStr = (\<lambda>_. None)\<rparr>"

section \<open>Commands\<close>

definition upd_grp :: "string \<Rightarrow> string \<Rightarrow> (refgrp \<Rightarrow> refgrp) \<Rightarrow> refdb \<Rightarrow> refdb" where
  "upd_grp k g f s = s\<lparr>sGrp := (sGrp s)(k := (sGrp s k)(g := f (sGrp s k g)))\<rparr>"

definition r_xadd :: "string \<Rightarrow> fields \<Rightarrow> refdb \<Rightarrow> refdb \<times> string" where
  "r_xadd k fs s =
     (let x = entry_id (sNext s k)
      in (s\<lparr>sLog := (sLog s)(k := sLog s k @ [(x, fs)]), sNext := (sNext s)(k := Suc (sNext s k)),
            sGrp := (sGrp s)(k := (\<lambda>g. (sGrp s k g)\<lparr>gUnd := gUnd (sGrp s k g) @ [x]\<rparr>))\<rparr>, x))"

definition r_xdel :: "string \<Rightarrow> string \<Rightarrow> refdb \<Rightarrow> refdb" where
  "r_xdel k x s =
     s\<lparr>sLog := (sLog s)(k := filter (\<lambda>e. fst e \<noteq> x) (sLog s k)),
       sGrp := (sGrp s)(k := (\<lambda>g. (sGrp s k g)\<lparr>gUnd := filter (\<lambda>y. y \<noteq> x) (gUnd (sGrp s k g))\<rparr>))\<rparr>"

definition r_xack :: "string \<Rightarrow> string \<Rightarrow> string \<Rightarrow> refdb \<Rightarrow> refdb" where
  "r_xack k g x = upd_grp k g (\<lambda>G. G\<lparr>gPel := filter (\<lambda>p. fst p \<noteq> x) (gPel G)\<rparr>)"

definition pel_row :: "int \<Rightarrow> string \<times> pend \<Rightarrow> string \<times> string \<times> int \<times> int" where
  "pel_row t = (\<lambda>(x, p). (x, pOwner p, t - pTime p, pCount p))"

definition r_xpending :: "string \<Rightarrow> string \<Rightarrow> string \<Rightarrow> int \<Rightarrow> refdb \<Rightarrow> (string \<times> string \<times> int \<times> int) list" where
  "r_xpending k g x t s =
     (case map_of (gPel (sGrp s k g)) x of None \<Rightarrow> [] | Some p \<Rightarrow> [pel_row t (x, p)])"

definition r_pel_of :: "string \<Rightarrow> string \<Rightarrow> string \<Rightarrow> refdb \<Rightarrow> (string \<times> pend) list" where
  "r_pel_of k g c s = filter (\<lambda>(x, p). pOwner p = c) (AList.clearjunk (gPel (sGrp s k g)))"

definition r_xreadgroup :: "string \<Rightarrow> string \<Rightarrow> string \<Rightarrow> int \<Rightarrow> int \<Rightarrow> refdb \<Rightarrow> refdb \<times> entry list option" where
  "r_xreadgroup k g c n t s =
     (let xs = take (nat n) (gUnd (sGrp s k g))
      in (upd_grp k g (\<lambda>G. G\<lparr>gUnd := drop (nat n) (gUnd G),
            gPel := map (\<lambda>x. (x, \<lparr>pOwner = c, pTime = t, pCount = 1\<rparr>)) xs @ gPel G,
            gCons := (c, t) # gCons G\<rparr>) s,
          if xs = [] then None else Some (map (\<lambda>y. (y, the (map_of (sLog s k) y))) xs)))"

definition r_xclaim :: "string \<Rightarrow> string \<Rightarrow> string \<Rightarrow> string \<Rightarrow> int \<Rightarrow> refdb \<Rightarrow> refdb" where
  "r_xclaim k g c x t =
     upd_grp k g (\<lambda>G. G\<lparr>gPel := map (\<lambda>(y, p). (y, if y = x then p\<lparr>pOwner := c, pTime := t\<rparr> else p)) (gPel G),
                        gCons := (c, t) # gCons G\<rparr>)"

text \<open>Identifiers are scanned in a total order that starts with the initial cursor.\<close>

definition id_key :: "string \<Rightarrow> bool \<times> string" where
  "id_key x = (x \<noteq> ''0-0'', x)"

definition id_le :: "string \<Rightarrow> string \<Rightarrow> bool" where
  "id_le x y \<longleftrightarrow> id_key x \<le> id_key y"

definition r_scan :: "string \<Rightarrow> string \<Rightarrow> string \<Rightarrow> refdb \<Rightarrow> string list" where
  "r_scan k g start s =
     sort_key id_key (filter (\<lambda>x. map_of (gPel (sGrp s k g)) x \<noteq> None \<and> id_le start x) (remdups (map fst (sLog s k))))"

definition r_xautoclaim ::
  "string \<Rightarrow> string \<Rightarrow> string \<Rightarrow> int \<Rightarrow> string \<Rightarrow> int \<Rightarrow> int \<Rightarrow> refdb \<Rightarrow> refdb \<times> string \<times> entry list" where
  "r_xautoclaim k g c idle start n t s =
     (let xs = r_scan k g start s;
          ys = filter (\<lambda>x. case map_of (gPel (sGrp s k g)) x of None \<Rightarrow> False | Some p \<Rightarrow> idle \<le> t - pTime p) (take (nat n) xs)
      in (upd_grp k g (\<lambda>G. G\<lparr>gPel := map (\<lambda>(y, p). (y, if y \<in> set ys then p\<lparr>pOwner := c, pTime := t, pCount := pCount p + 1\<rparr> else p)) (gPel G),
                             gCons := (c, t) # gCons G\<rparr>) s,
          if length xs \<le> nat n then ''0-0'' else xs ! nat n,
          map (\<lambda>y. (y, the (map_of (sLog s k) y))) ys))"

definition r_delconsumer :: "string \<Rightarrow> string \<Rightarrow> string \<Rightarrow> refdb \<Rightarrow> refdb" where
  "r_delconsumer k g c =
     upd_grp k g (\<lambda>G. G\<lparr>gPel := filter (\<lambda>q. case map_of (gPel G) (fst q) of None \<Rightarrow> True | Some p \<Rightarrow> pOwner p \<noteq> c) (gPel G),
                        gCons := filter (\<lambda>q. fst q \<noteq> c) (gCons G)\<rparr>)"

definition r_xinfo :: "string \<Rightarrow> string \<Rightarrow> int \<Rightarrow> refdb \<Rightarrow> (string \<times> int \<times> int) list" where
  "r_xinfo k g t s = map (\<lambda>(c, seen). (c, int (length (r_pel_of k g c s)), t - seen)) (AList.clearjunk (gCons (sGrp s k g)))"

definition r_zrange :: "string \<Rightarrow> int \<Rightarrow> int \<Rightarrow> refdb \<Rightarrow> string list" where
  "r_zrange k now n s =
     take (nat n) (map fst (sort_key snd (filter (\<lambda>(m, v). v \<le> now) (AList.clearjunk (sZ s k)))))"

definition ref_redis :: "refdb redis" where
  "ref_redis =
     \<lparr>xadd = r_xadd, xdel = r_xdel, xlen = (\<lambda>k s. int (length (sLog s k))), xack = r_xack, xpending = r_xpending,
      xpending_consumer = (\<lambda>k g c t s. map (pel_row t) (take 1 (r_pel_of k g c s))),
      xpending_count = (\<lambda>k g s. int (length (AList.clearjunk (gPel (sGrp s k g))))),
      xreadgroup = r_xreadgroup, xclaim_justid = r_xclaim, xautoclaim = r_xautoclaim,
      xgroup_create = (\<lambda>k g s. (s, None)), xgroup_delconsumer = r_delconsumer, xinfo_consumers = r_xinfo,
      zadd = (\<lambda>k v m s. s\<lparr>sZ := (sZ s)(k := AList.update m v (sZ s k))\<rparr>),
      zrem = (\<lambda>k m s. s\<lparr>sZ := (sZ s)(k := AList.delete m (sZ s k))\<rparr>),
      zcard = (\<lambda>k s. int (length (AList.clearjunk (sZ s k)))), zrangebyscore = r_zrange,
      hset = (\<lambda>k f v s. s\<lparr>sH := (sH s)(k := AList.update f v (sH s k))\<rparr>),
      hget = (\<lambda>k f s. map_of (sH s k) f),
      hdel = (\<lambda>k f s. s\<lparr>sH := (sH s)(k := AList.delete f (sH s k))\<rparr>),
      get_str = (\<lambda>k t s. case sStr s k of None \<Rightarrow> None | Some (v, e) \<Rightarrow> if t < e then Some v else None),
      set_px = (\<lambda>k v ttl t s. s\<lparr>sStr := (sStr s)(k \<mapsto> (v, t + ttl))\<rparr>)\<rparr>"

section \<open>The contract\<close>

lemma entry_id_inj: "entry_id m = entry_id n \<longleftrightarrow> m = n"
proof -
  have "m = n" if "nat_digits (Suc m) = nat_digits (Suc n)"
    using that scan_nat_digits by (metis nat.inject option.inject)
  then show ?thesis by (auto simp: entry_id_def)
qed

lemma id_key_inj: "id_key x = id_key y \<longleftrightarrow> x = y"
  by (auto simp: id_key_def)

text \<open>In a strictly sorted list the first \<open>n\<close> elements are those below the next one.\<close>

lemma take_sorted:
  fixes f :: "'a \<Rightarrow> 'b :: linorder"
  assumes "sorted (map f xs)" "distinct (map f xs)" "n < length xs" "x \<in> set xs"
  shows "x \<in> set (take n xs) \<longleftrightarrow> f x < f (xs ! n)"
proof -
  obtain i where i: "i < length xs" "xs ! i = x"
    using assms(4) by (metis in_set_conv_nth)
  have st: "f (xs ! a) < f (xs ! b) \<longleftrightarrow> a < b" if "a < length xs" "b < length xs" for a b
  proof -
    have "sorted_wrt (<) (map f xs)"
      using assms(1,2) by (simp add: strict_sorted_iff)
    then have "a < b \<Longrightarrow> f (xs ! a) < f (xs ! b)" "b < a \<Longrightarrow> f (xs ! b) < f (xs ! a)"
      using that by (auto simp: sorted_wrt_map sorted_wrt_iff_nth_less)
    then show ?thesis by (metis less_irrefl linorder_neqE_nat order.strict_trans)
  qed
  have "x \<in> set (take n xs) \<longleftrightarrow> i < n"
  proof
    assume "x \<in> set (take n xs)"
    then obtain a where "a < n" "a < length xs" "xs ! a = x"
      by (auto simp: in_set_conv_nth)
    with st [of a i] st [of i a] i show "i < n" by auto
  next
    assume "i < n"
    with i show "x \<in> set (take n xs)" by (force simp: in_set_conv_nth)
  qed
  with st [OF i(1) assms(3)] i(2) show ?thesis by simp
qed

lemma map_of_map_snd: "map_of (map (\<lambda>(y, p). (y, f y p)) xs) y = map_option (f y) (map_of xs y)"
  by (induction xs) auto

lemma ref_view_simps [simp]:
  "dLog (ref_view s) = sLog s" "dUsed (ref_view s) k = entry_id ` {..<sNext s k}"
  "undelivered (dGroup (ref_view s) k g) = gUnd (sGrp s k g)"
  "pel (dGroup (ref_view s) k g) = map_of (gPel (sGrp s k g))"
  "consumers (dGroup (ref_view s) k g) = map_of (gCons (sGrp s k g))"
  "dZset (ref_view s) k = map_of (sZ s k)" "dHash (ref_view s) k = map_of (sH s k)" "dStr (ref_view s) = sStr s"
  by (simp_all add: ref_view_def)

text \<open>A group update of the reference state is the update of the view.\<close>

lemma ref_view_upd_grp:
  assumes "\<And>G. undelivered (F \<lparr>undelivered = gUnd G, pel = map_of (gPel G), consumers = map_of (gCons G)\<rparr>) = gUnd (f G)"
    and "\<And>G. pel (F \<lparr>undelivered = gUnd G, pel = map_of (gPel G), consumers = map_of (gCons G)\<rparr>) = map_of (gPel (f G))"
    and "\<And>G. consumers (F \<lparr>undelivered = gUnd G, pel = map_of (gPel G), consumers = map_of (gCons G)\<rparr>) = map_of (gCons (f G))"
  shows "ref_view (upd_grp k g f s) = upd_group k g F (ref_view s)"
proof -
  have "\<lparr>undelivered = gUnd (f G), pel = map_of (gPel (f G)), consumers = map_of (gCons (f G))\<rparr> =
      F \<lparr>undelivered = gUnd G, pel = map_of (gPel G), consumers = map_of (gCons G)\<rparr>" for G
    using assms [of G] by (metis grp.surjective grp.select_convs(1-3) old.unit.exhaust)
  then show ?thesis
    by (simp add: ref_view_def upd_grp_def upd_group_def fun_eq_iff)
qed

lemma r_xadd_view: "ref_view (fst (r_xadd k fs s)) = ev_xadd k (snd (r_xadd k fs s)) fs (ref_view s)"
  by (auto simp: r_xadd_def Let_def ref_view_def ev_xadd_def fun_eq_iff lessThan_Suc)

lemma r_xdel_view: "ref_view (r_xdel k x s) = ev_xdel k x (ref_view s)"
  by (auto simp: r_xdel_def ref_view_def ev_xdel_def fun_eq_iff)

lemma map_of_filter_neq: "map_of (filter (\<lambda>p. fst p \<noteq> x) xs) = (map_of xs)(x := None)"
  using map_of_filter_fst [of "\<lambda>k. k \<noteq> x" xs] by (auto simp: fun_eq_iff)

lemma r_xack_view: "ref_view (r_xack k g x s) = ev_xack k g x (ref_view s)"
  unfolding r_xack_def ev_xack_def by (rule ref_view_upd_grp) (simp_all add: map_of_filter_neq)

lemma map_of_delivered:
  "map_of (map (\<lambda>x. (x, p)) xs @ m) = (\<lambda>y. if y \<in> set xs then Some p else map_of m y)"
  by (induction xs) (auto simp: fun_eq_iff)

lemma r_xreadgroup_view: "ref_view (fst (r_xreadgroup k g c n t s)) = ev_xreadgroup k g c n t (ref_view s)"
proof -
  have "ref_view (upd_grp k g (\<lambda>G. G\<lparr>gUnd := drop (nat n) (gUnd G),
            gPel := map (\<lambda>x. (x, \<lparr>pOwner = c, pTime = t, pCount = 1\<rparr>)) (take (nat n) (gUnd G)) @ gPel G,
            gCons := (c, t) # gCons G\<rparr>) s) = ev_xreadgroup k g c n t (ref_view s)"
    unfolding ev_xreadgroup_def
    by (rule ref_view_upd_grp) (simp_all add: map_of_delivered deliver_def del: map_of_append)
  then show ?thesis
    by (simp add: r_xreadgroup_def Let_def upd_grp_def)
qed

lemma r_xclaim_view: "ref_view (r_xclaim k g c x t s) = ev_xclaim k g c x t (ref_view s)"
  unfolding r_xclaim_def ev_xclaim_def
  by (rule ref_view_upd_grp) (auto simp: fun_eq_iff map_of_map_snd map_option_case split: option.split)

lemma r_delconsumer_view: "ref_view (r_delconsumer k g c s) = ev_delconsumer k g c (ref_view s)"
  unfolding r_delconsumer_def ev_delconsumer_def
proof (rule ref_view_upd_grp, goal_cases)
  case (2 G)
  show ?case
    by (auto simp: fun_eq_iff map_of_filter_fst [of "\<lambda>x. case map_of (gPel G) x of None \<Rightarrow> True | Some p \<Rightarrow> pOwner p \<noteq> c"]
        split: option.split)
qed (simp_all add: map_of_filter_neq)

lemma r_pel_of_empty:
  "r_pel_of k g c s = [] \<longleftrightarrow> (\<forall>x p. map_of (gPel (sGrp s k g)) x = Some p \<longrightarrow> pOwner p \<noteq> c)"
proof -
  have "map_of (gPel (sGrp s k g)) x = Some p \<longleftrightarrow> (x, p) \<in> set (AList.clearjunk (gPel (sGrp s k g)))" for x p
    by (metis distinct_clearjunk map_of_clearjunk map_of_eq_Some_iff)
  then show ?thesis
    by (auto simp: r_pel_of_def filter_empty_conv)
qed

lemma length_clearjunk: "length (AList.clearjunk xs) = card (dom (map_of xs))"
  by (metis distinct_card distinct_clearjunk dom_clearjunk dom_map_of_conv_image_fst length_map list.set_map)

subsection \<open>Automatic claims\<close>

lemma r_scan_set:
  "set (r_scan k g start s) = {x. x \<in> fst ` set (sLog s k) \<and> x \<in> dom (map_of (gPel (sGrp s k g))) \<and> id_le start x}"
  by (auto simp: r_scan_def)

lemma r_scan_sorted: "sorted (map id_key (r_scan k g start s))" "distinct (r_scan k g start s)"
  "distinct (map id_key (r_scan k g start s))"
  by (simp_all add: r_scan_def distinct_map inj_on_def id_key_inj)

lemma r_xautoclaim_view:
  assumes "r_xautoclaim k g c idle start n t s = (s', cur, cl)"
  shows "ref_view s' = ev_xautoclaim k g c t (ids_of cl) {} (ref_view s)"
proof -
  have s': "s' = upd_grp k g (\<lambda>G. G\<lparr>gPel := map (\<lambda>(y, p). (y, if y \<in> ids_of cl then p\<lparr>pOwner := c, pTime := t, pCount := pCount p + 1\<rparr> else p)) (gPel G),
                             gCons := (c, t) # gCons G\<rparr>) s"
    using assms by (auto simp: r_xautoclaim_def Let_def image_image)
  show ?thesis
    unfolding s' ev_xautoclaim_def
    by (rule ref_view_upd_grp) (auto simp: fun_eq_iff map_of_map_snd reassign_def map_option_case split: option.split)
qed

lemma r_xautoclaim_reply:
  assumes "r_xautoclaim k g c idle start n t s = (s', cur, cl)" "1 \<le> n"
  shows "distinct (map fst cl)" "int (length cl) \<le> n"
    "\<forall>(x, fs) \<in> set cl. map_of (sLog s k) x = Some fs \<and> x \<in> dom (map_of (gPel (sGrp s k g)))"
proof -
  define ys where "ys = filter (\<lambda>x. case map_of (gPel (sGrp s k g)) x of None \<Rightarrow> False | Some p \<Rightarrow> idle \<le> t - pTime p)
    (take (nat n) (r_scan k g start s))"
  have cl: "cl = map (\<lambda>y. (y, the (map_of (sLog s k) y))) ys"
    using assms(1) by (simp add: r_xautoclaim_def Let_def ys_def)
  show "distinct (map fst cl)"
    by (simp add: cl o_def ys_def r_scan_sorted(2))
  have "length ys \<le> nat n"
    unfolding ys_def by (rule order_trans [OF length_filter_le]) simp
  then show "int (length cl) \<le> n"
    using assms(2) by (simp add: cl)
  have "set ys \<subseteq> set (r_scan k g start s)"
    by (auto simp: ys_def dest: in_set_takeD)
  then show "\<forall>(x, fs) \<in> set cl. map_of (sLog s k) x = Some fs \<and> x \<in> dom (map_of (gPel (sGrp s k g)))"
    by (force simp: cl r_scan_set dest: weak_map_of_SomeI)
qed

lemma r_xautoclaim_scan:
  assumes "r_xautoclaim k g c idle start n t s = (s', cur, cl)" "1 \<le> n"
    and "map_of (gPel (sGrp s k g)) x = Some p" "x \<in> ids_of (sLog s k)"
  shows "x \<in> ids_of cl \<longleftrightarrow> idle \<le> t - pTime p \<and> id_le start x \<and> (cur = ''0-0'' \<or> id_le x cur \<and> x \<noteq> cur)"
proof -
  let ?xs = "r_scan k g start s"
  have cur: "cur = (if length ?xs \<le> nat n then ''0-0'' else ?xs ! nat n)"
    and cl: "ids_of cl = {x \<in> set (take (nat n) ?xs). case map_of (gPel (sGrp s k g)) x of None \<Rightarrow> False | Some p \<Rightarrow> idle \<le> t - pTime p}"
    using assms(1) by (auto simp: r_xautoclaim_def Let_def image_image)
  have xs: "x \<in> set ?xs \<longleftrightarrow> id_le start x"
    using assms(3,4) by (auto simp: r_scan_set)
  show ?thesis
  proof (cases "length ?xs \<le> nat n")
    case True
    then show ?thesis using assms(3) xs by (auto simp: cur cl)
  next
    case False
    then have n: "nat n < length ?xs" by simp
    have lt: "id_key (?xs ! 0) < id_key (?xs ! nat n)"
      using take_sorted [OF r_scan_sorted(1,3) n, of "?xs ! 0"] n assms(2)
      by (force simp: in_set_conv_nth)
    have "id_key ''0-0'' \<le> id_key (?xs ! 0)"
      by (cases "?xs ! 0 = ''0-0''") (simp_all add: id_key_def)
    with lt have "id_key ''0-0'' < id_key (?xs ! nat n)" by simp
    then have nz: "?xs ! nat n \<noteq> ''0-0''" by auto
    have "id_key x < id_key (?xs ! nat n) \<longleftrightarrow> id_le x (?xs ! nat n) \<and> x \<noteq> ?xs ! nat n"
      by (auto simp: id_le_def id_key_inj less_le)
    with take_sorted [OF r_scan_sorted(1,3) n, of x] nz False assms(3) xs show ?thesis
      by (auto simp: cur cl dest: in_set_takeD)
  qed
qed

subsection \<open>The remaining replies\<close>

lemma r_zrange_reply:
  assumes "0 \<le> n"
  shows "distinct (r_zrange k now n s) \<and> set (r_zrange k now n s) \<subseteq> due k now (ref_view s) \<and>
    int (length (r_zrange k now n s)) \<le> n \<and>
    (int (length (r_zrange k now n s)) < n \<longrightarrow> due k now (ref_view s) \<subseteq> set (r_zrange k now n s))"
proof -
  define ms where "ms = map fst (sort_key snd (filter (\<lambda>(m, v). v \<le> now) (AList.clearjunk (sZ s k))))"
  have r: "r_zrange k now n s = take (nat n) ms"
    by (simp add: r_zrange_def ms_def)
  have some: "map_of (sZ s k) m = Some v \<longleftrightarrow> (m, v) \<in> set (AList.clearjunk (sZ s k))" for m v
    by (metis distinct_clearjunk map_of_clearjunk map_of_eq_Some_iff)
  have set: "set ms = due k now (ref_view s)"
    by (force simp: ms_def due_def some)
  have "mset ms = mset (map fst (filter (\<lambda>(m, v). v \<le> now) (AList.clearjunk (sZ s k))))"
    by (simp add: ms_def)
  moreover have "distinct (map fst (filter (\<lambda>(m, v). v \<le> now) (AList.clearjunk (sZ s k))))"
    by simp
  ultimately have dist: "distinct ms"
    by (metis mset_eq_imp_distinct_iff)
  show ?thesis
    using assms dist unfolding r set [symmetric]
    by (auto dest: in_set_takeD simp: min_def split: if_splits)
qed

lemma r_xinfo_reply:
  "(c, n, i) \<in> set (r_xinfo k g t s) \<Longrightarrow>
   n = 0 \<longleftrightarrow> (\<forall>x p. map_of (gPel (sGrp s k g)) x = Some p \<longrightarrow> pOwner p \<noteq> c)"
  using r_pel_of_empty [of k g c s] by (auto simp: r_xinfo_def)

lemma ref_view_data:
  "ref_view (s\<lparr>sZ := (sZ s)(k := AList.update m v (sZ s k))\<rparr>) = ev_zadd k v m (ref_view s)"
  "ref_view (s\<lparr>sZ := (sZ s)(k := AList.delete m (sZ s k))\<rparr>) = ev_zrem k m (ref_view s)"
  "ref_view (s\<lparr>sH := (sH s)(k := AList.update f w (sH s k))\<rparr>) = ev_hset k f w (ref_view s)"
  "ref_view (s\<lparr>sH := (sH s)(k := AList.delete f (sH s k))\<rparr>) = ev_hdel k f (ref_view s)"
  "ref_view (s\<lparr>sStr := (sStr s)(k \<mapsto> (w, t + ttl))\<rparr>) = ev_set_px k w ttl t (ref_view s)"
  by (auto simp: ref_view_def ev_defs fun_eq_iff update_conv' delete_conv')

lemma id_le_order: "id_le ''0-0'' x" "id_le x y \<or> id_le y x"
  by (auto simp: id_le_def id_key_def)

section \<open>The keys of the default configuration\<close>

definition ref_config :: Config where
  "ref_config = config_defaults \<lparr>Addr = [], Stream = [], Group = [], RetryKey = [], DeadLetter = [], DedupePrefix = [],
     DedupeWindow = 0, ConsumerIdleTimeout = 0\<rparr>"

definition ref_kt :: "string \<Rightarrow> ktype" where
  "ref_kt k = (if k = ''dtq:jobs'' \<or> k = ''dtq:dead'' then KStream else if k = ''dtq:retry'' then KZset
     else if k = ''dtq:retry:jobs'' then KHash else KStr)"

interpretation ref: redis_server ref_redis ref_view ref_kt id_le
proof (unfold_locales, goal_cases)
  case (2 k fs s)
  then show ?case by (auto simp: ref_redis_def r_xadd_def Let_def entry_id_inj)
next
  case (6 k g x t s)
  then show ?case by (simp add: ref_redis_def r_xpending_def pel_row_def split: option.split)
next
  case (10 k n s g c t)
  then show ?case by (simp add: ref_redis_def r_xreadgroup_def Let_def split: list.split)
next
  case (12 k n g c idle start t s s' cur cl)
  then show ?case by (auto simp: ref_redis_def dest: r_xautoclaim_view)
next
  case (13 k n g c idle start t s s' cur cl)
  then show ?case using r_xautoclaim_reply by (simp add: ref_redis_def)
next
  case (14 k n g c idle start t s s' cur cl x p)
  then show ?case using r_xautoclaim_scan by (simp add: ref_redis_def)
next
  case (23 k n now s)
  then show ?case using r_zrange_reply by (simp add: ref_redis_def)
qed (simp_all add: ref_redis_def r_xadd_view r_xdel_view r_xack_view r_xreadgroup_view r_xclaim_view r_delconsumer_view
    r_pel_of_empty length_clearjunk r_xinfo_reply id_le_order ref_view_data)

section \<open>A reference encoding\<close>

definition ref_parse_time :: "string \<Rightarrow> int option" where
  "ref_parse_time s =
     (case s of
        [] \<Rightarrow> None
      | a # r \<Rightarrow> if a = CHR ''-'' then map_option (\<lambda>n. - int n) (scan_digits 0 r) else map_option int (scan_digits 0 s))"

fun ref_write :: "string \<Rightarrow> string" where
  "ref_write [] = ''.''"
| "ref_write (a # s) = CHR ''+'' # a # ref_write s"

fun ref_read :: "string \<Rightarrow> string \<Rightarrow> string \<times> string" where
  "ref_read acc (b # a # s) = (if b = CHR ''+'' then ref_read (acc @ [a]) s else (acc, a # s))"
| "ref_read acc [b] = (acc, [])"
| "ref_read acc [] = (acc, [])"

fun ref_marshal :: "fields \<Rightarrow> string" where
  "ref_marshal [] = []"
| "ref_marshal ((k, v) # fs) = ref_write k @ ref_write v @ ref_marshal fs"

lemma ref_read_write: "ref_read acc (ref_write a @ s) = (acc @ a, s)"
  by (induction a arbitrary: acc) (simp_all, cases s, simp_all)

fun ref_decode :: "nat \<Rightarrow> string \<Rightarrow> fields" where
  "ref_decode 0 s = []"
| "ref_decode (Suc n) s =
     (if s = [] then []
      else case ref_read [] s of (k, r) \<Rightarrow> (case ref_read [] r of (v, r') \<Rightarrow> (k, v) # ref_decode n r'))"

definition ref_codec :: codec where
  "ref_codec = \<lparr>fmt_time = itoa, parse_time = ref_parse_time, marshal = ref_marshal,
     cjson_decode = (\<lambda>s. ref_decode (length s) s)\<rparr>"

lemma ref_decode_marshal: "length fs \<le> n \<Longrightarrow> ref_decode n (ref_marshal fs) = fs"
proof (induction fs arbitrary: n)
  case Nil
  then show ?case by (cases n) simp_all
next
  case (Cons a fs)
  obtain k v where a: "a = (k, v)" by (cases a)
  obtain m where m: "n = Suc m" "length fs \<le> m"
    using Cons.prems by (cases n) simp_all
  have "ref_write k @ x \<noteq> []" for x
    by (cases k) simp_all
  with Cons.IH [OF m(2)] show ?case
    by (simp add: a m(1) ref_read_write)
qed

lemma length_ref_marshal: "length fs \<le> length (ref_marshal fs)"
proof (induction fs)
  case (Cons a fs)
  obtain k v where a: "a = (k, v)" by (cases a)
  have "1 \<le> length (ref_write k)"
    by (cases k) simp_all
  with Cons show ?case by (simp add: a)
qed simp

interpretation ref_codec: codec_laws ref_codec
proof (unfold_locales, goal_cases)
  case (1 t)
  obtain a r where d: "nat_digits (nat t) = a # r"
    by (cases "nat_digits (nat t)") simp_all
  show ?case
    using scan_nat_digits [of "nat t"] scan_nat_digits [of "nat (- t)"] nat_digits_hd(1) [OF d]
    by (simp add: ref_codec_def ref_parse_time_def itoa_def d)
qed (simp_all add: ref_codec_def ref_decode_marshal length_ref_marshal)

section \<open>The default queue on the reference server\<close>

interpretation refq: store_queue ref_redis ref_view ref_kt id_le ref_codec ref_config
  by unfold_locales
    (simp add: queue_config_def ref_config_def config_defaults_def Let_def ref_kt_def retryData_def Milliseconds_def hour_def minute_def second_def)

end
