(* ===== verification/Protocol.thy ===== *)
theory Protocol
  imports Fencing RefServer
begin

text \<open>
  The delivery guarantees of one queue, for every server that meets the contract, every
  configuration with the right key types, and every interleaving of producers and workers:
  no accepted job is lost or duplicated, every entry stays claimable or recoverable, at most
  one lease per message is current, and a fenced worker stays fenced. Each theorem is applied
  to a concrete run of the default queue on the reference server.
\<close>

section \<open>A concrete run\<close>

definition demo_job :: job where
  "demo_job = \<lparr>ID = ''j1'', Task = ''email'', Payload = ''{}'', Attempt = 0, MaxAttempts = 5, TraceParent = [],
     CreatedAt = 0, AvailableAt = 0, IdempotencyKey = [], Lease = \<lparr>MessageID = [], Owner = [], Token = 0, Partition = 0\<rparr>\<rparr>"

lemma demo_job_ok [simp]: "storable demo_job" "utf8_job demo_job" "ID demo_job = ''j1''"
  by (simp_all add: demo_job_def storable_def utf8_job_def is_int64_def time_ok_def byte_in_def)

text \<open>Enqueue, claim by one worker, and recovery by another after the lease expired.\<close>

definition demo_enqueued :: refdb where
  "demo_enqueued = fst (xadd ref_redis (Stream ref_config) (jobFields ref_codec demo_job) empty_server)"

definition demo_claim :: "refdb \<times> entry list" where
  "demo_claim = claimScript ref_redis (cjson_decode ref_codec) (Stream ref_config) (RetryKey ref_config)
     (retryData ref_config) (Group ref_config) ''w1'' 1 0 10 demo_enqueued"

definition demo_recover :: "refdb \<times> (string \<times> (string \<times> fields \<times> int) list) option" where
  "demo_recover = recoverScript ref_redis (Stream ref_config) (Group ref_config) ''w2'' 100 1 ''0-0'' 200 (fst demo_claim)"

definition demo_ghost :: ghost where
  "demo_ghost = \<lparr>accepted = {''j1''}, acked = {}, leases = {(''1-0'', ''w2'', 2, ''j1''), (''1-0'', ''w1'', 1, ''j1'')}\<rparr>"

lemma demo_claim_reply: "map (\<lambda>e. (fst e, entry_job e)) (snd demo_claim) = [(''1-0'', ''j1'')]"
  by code_simp

lemma demo_recover_reply:
  "map_option (\<lambda>(cur, rs). (cur, map (\<lambda>(x, fs, n). (x, entry_job (x, fs), n)) rs)) (snd demo_recover) =
     Some (''0-0'', [(''1-0'', ''j1'', 2)])"
  by code_simp

lemma handed_claim: "map (\<lambda>e. (fst e, entry_job e)) es = [(x, i)] \<Longrightarrow>
  handed w (map (\<lambda>(x, fs). (x, fs, 1)) es) = {(x, w, 1, i)}"
  by (auto simp: handed_def map_eq_Cons_conv)

lemma handed_recover: "map (\<lambda>(x, fs, n). (x, entry_job (x, fs), n)) rs = [(x, i, n)] \<Longrightarrow> handed w rs = {(x, w, n, i)}"
  by (auto simp: handed_def map_eq_Cons_conv)

lemma empty_server_queue: "empty_queue c (ref_view empty_server)"
  by (simp add: empty_queue_def empty_server_def)

lemma demo_steps_claim:
  "steps ref_redis ref_codec ref_config (empty_server, no_ghost)
     (fst demo_claim, demo_ghost\<lparr>leases := {(''1-0'', ''w1'', 1, ''j1'')}\<rparr>)"
proof (rule steps_snoc)
  show "steps ref_redis ref_codec ref_config (empty_server, no_ghost)
      (demo_enqueued, no_ghost\<lparr>accepted := insert (ID demo_job) (accepted no_ghost)\<rparr>)"
    unfolding demo_enqueued_def
    by (rule steps_snoc [OF steps_refl step.enqueue_now]) (simp_all add: no_ghost_def del: demo_job_ok(3))
  have "step ref_redis ref_codec ref_config
      (demo_enqueued, no_ghost\<lparr>accepted := insert (ID demo_job) (accepted no_ghost)\<rparr>)
      (fst demo_claim, no_ghost\<lparr>accepted := insert (ID demo_job) (accepted no_ghost),
         leases := leases no_ghost \<union> handed ''w1'' (map (\<lambda>(x, fs). (x, fs, 1)) (snd demo_claim))\<rparr>)"
    using step.claim [of 1 ref_redis ref_codec ref_config "''w1''" 0 10 demo_enqueued "fst demo_claim" "snd demo_claim"
        "no_ghost\<lparr>accepted := insert (ID demo_job) (accepted no_ghost)\<rparr>"]
    by (simp add: demo_claim_def)
  then show "step ref_redis ref_codec ref_config
      (demo_enqueued, no_ghost\<lparr>accepted := insert (ID demo_job) (accepted no_ghost)\<rparr>)
      (fst demo_claim, demo_ghost\<lparr>leases := {(''1-0'', ''w1'', 1, ''j1'')}\<rparr>)"
    by (simp add: handed_claim [OF demo_claim_reply] no_ghost_def demo_ghost_def)
qed

lemma demo_step_recover:
  "step ref_redis ref_codec ref_config (fst demo_claim, demo_ghost\<lparr>leases := {(''1-0'', ''w1'', 1, ''j1'')}\<rparr>)
     (fst demo_recover, demo_ghost)"
proof -
  obtain rs where rs: "snd demo_recover = Some (''0-0'', rs)"
      "map (\<lambda>(x, fs, n). (x, entry_job (x, fs), n)) rs = [(''1-0'', ''j1'', 2)]"
    using demo_recover_reply by auto
  have "step ref_redis ref_codec ref_config (fst demo_claim, demo_ghost\<lparr>leases := {(''1-0'', ''w1'', 1, ''j1'')}\<rparr>)
     (fst demo_recover, demo_ghost\<lparr>leases := {(''1-0'', ''w1'', 1, ''j1'')} \<union> handed ''w2'' rs\<rparr>)"
    using step.recover [of 1 100 ref_redis ref_config "''w2''" "''0-0''" 200 "fst demo_claim" "fst demo_recover" "''0-0''" rs
        ref_codec "demo_ghost\<lparr>leases := {(''1-0'', ''w1'', 1, ''j1'')}\<rparr>"] rs(1)
    by (simp add: demo_recover_def [symmetric] prod_eq_iff)
  then show ?thesis
    by (simp add: handed_recover [OF rs(2)] demo_ghost_def)
qed

lemmas demo_steps = steps_snoc [OF demo_steps_claim demo_step_recover]

section \<open>No job is lost or duplicated\<close>

text \<open>
  C1. However producers and workers interleave, crash, pause or act on expired leases, a job
  that was accepted is in exactly one place: one entry of the stream, the schedule, one entry
  of the dead-letter stream, or the set of jobs whose ack was carried out. A job that was
  never accepted is nowhere.
\<close>

theorem every_job_in_one_place:
  assumes "store_queue R view kt xle C c" "empty_queue c (view s)" "steps R C c (s, no_ghost) (s', G)"
  shows "copies (Stream c) (view s') i + of_bool (dHash (view s') (retryData c) i \<noteq> None) +
    copies (DeadLetter c) (view s') i + of_bool (i \<in> acked G) = of_bool (i \<in> accepted G)"
proof -
  have "sys_inv C c (view s') G"
    by (rule store_queue.reachable_inv [OF assms(1,3,2)])
  then show ?thesis
    unfolding sys_inv_def core_inv_def conserved_def places_def by (simp add: domIff)
qed

theorem every_job_in_one_place_witness:
  "copies (Stream ref_config) (ref_view (fst demo_recover)) ''j1'' +
   of_bool (dHash (ref_view (fst demo_recover)) (retryData ref_config) ''j1'' \<noteq> None) +
   copies (DeadLetter ref_config) (ref_view (fst demo_recover)) ''j1'' + of_bool (''j1'' \<in> acked demo_ghost) = 1"
  using every_job_in_one_place [OF refq.store_queue_axioms empty_server_queue demo_steps, of "''j1''"]
  by (simp add: demo_ghost_def)

text \<open>
  In every reachable state each stream entry is either still to be delivered or pending
  with some worker, so it can be claimed or recovered, and nothing is pending without its
  entry; the two halves of the schedule agree and every scheduled job is stored under its own
  identifier, so promotion finds it.
\<close>

theorem every_entry_reachable:
  assumes "store_queue R view kt xle C c" "empty_queue c (view s)" "steps R C c (s, no_ghost) (s', G)"
  shows "stream_ok (Stream c) (Group c) (view s') \<and> sched_ok (cjson_decode C) (RetryKey c) (retryData c) (view s')"
  using store_queue.reachable_inv [OF assms(1,3,2)] by (simp add: sys_inv_def core_inv_def queue_ok_def)

theorem every_entry_reachable_witness:
  "stream_ok (Stream ref_config) (Group ref_config) (ref_view (fst demo_recover)) \<and>
   sched_ok (cjson_decode ref_codec) (RetryKey ref_config) (retryData ref_config) (ref_view (fst demo_recover))"
  using every_entry_reachable [OF refq.store_queue_axioms empty_server_queue demo_steps] by simp

section \<open>Fencing\<close>

text \<open>
  C8. Fencing is exact: of the leases handed out, an operation of a holder is carried out if
  and only if its lease is the message's current one; otherwise the ack, extend, retry and
  dead-letter scripts all answer 0 and leave the server exactly as it was.
\<close>

theorem fenced_scripts_exact:
  assumes "store_queue R view kt xle C c" "empty_queue c (view s)" "steps R C c (s, no_ghost) (s', G)"
    and "(x, w, n, i) \<in> leases G"
    and "f \<in> {ackScript R (Stream c) (Group c) x w n t, extendScript R (Stream c) (Group c) x w n t,
            retryScript R (Stream c) (RetryKey c) (retryData c) (Group c) x w n runAt i json t,
            deadLetterScript R (Stream c) (DeadLetter c) (Group c) x w n pairs t}"
  shows "if owned (Stream c) (Group c) x w n (view s') then snd (f s') = 1
    else superseded (Stream c) (Group c) x n (view s') \<and> f s' = (s', 0)"
  by (rule store_queue.fenced_exact [OF assms(1) store_queue.reachable_okS [OF assms(1,3,2)]
        store_queue.reachable_fated [OF assms(1,3,2,4)] assms(5)])

lemma demo_leases: "(''1-0'', ''w1'', 1, ''j1'') \<in> leases demo_ghost" "(''1-0'', ''w2'', 2, ''j1'') \<in> leases demo_ghost"
  by (simp_all add: demo_ghost_def)

lemma demo_pending:
  "map_of (gPel (sGrp (fst demo_recover) (Stream ref_config) (Group ref_config))) ''1-0'' =
     Some \<lparr>pOwner = ''w2'', pTime = 200, pCount = 2\<rparr>"
  by code_simp

lemma demo_owned:
  "\<not> owned (Stream ref_config) (Group ref_config) ''1-0'' ''w1'' 1 (ref_view (fst demo_recover))"
  "owned (Stream ref_config) (Group ref_config) ''1-0'' ''w2'' 2 (ref_view (fst demo_recover))"
  by (simp_all add: owned_def demo_pending)

theorem fenced_scripts_exact_witness:
  "ackScript ref_redis (Stream ref_config) (Group ref_config) ''1-0'' ''w1'' 1 300 (fst demo_recover) = (fst demo_recover, 0) \<and>
   snd (ackScript ref_redis (Stream ref_config) (Group ref_config) ''1-0'' ''w2'' 2 300 (fst demo_recover)) = 1"
  using fenced_scripts_exact [OF refq.store_queue_axioms empty_server_queue demo_steps demo_leases(1) insertI1, of 300]
    fenced_scripts_exact [OF refq.store_queue_axioms empty_server_queue demo_steps demo_leases(2) insertI1, of 300]
  by (simp add: demo_owned)

text \<open>
  C13. A worker that lost its lease stays fenced: from the moment its lease is not the current
  one, no later step of any worker makes an operation under it succeed or change anything.
\<close>

theorem fenced_for_good:
  assumes "store_queue R view kt xle C c" "empty_queue c (view s)" "steps R C c (s, no_ghost) (s', G)"
    and "(x, w, n, i) \<in> leases G" "\<not> owned (Stream c) (Group c) x w n (view s')"
    and "steps R C c (s', G) (s'', G')"
    and "f \<in> {ackScript R (Stream c) (Group c) x w n t, extendScript R (Stream c) (Group c) x w n t,
            retryScript R (Stream c) (RetryKey c) (retryData c) (Group c) x w n runAt i json t,
            deadLetterScript R (Stream c) (DeadLetter c) (Group c) x w n pairs t}"
  shows "f s'' = (s'', 0)"
proof -
  have lost: "superseded (Stream c) (Group c) x n (view s'')"
    by (rule store_queue.lost_forever [OF assms(1,3,2,4,5,6)])
  have ok: "stream_ok (Stream c) (Group c) (view s'')"
    by (rule store_queue.reachable_okS [OF assms(1) steps_trans [OF assms(3,6)] assms(2)])
  from store_queue.fenced_exact [OF assms(1) ok _ assms(7)] lost superseded_not_owned [OF lost] show ?thesis
    by (simp add: fated_def)
qed

theorem fenced_for_good_witness:
  "ackScript ref_redis (Stream ref_config) (Group ref_config) ''1-0'' ''w1'' 1 300 (fst demo_recover) = (fst demo_recover, 0)"
  by (rule fenced_for_good [OF refq.store_queue_axioms empty_server_queue demo_steps demo_leases(1) demo_owned(1) steps_refl insertI1])

text \<open>
  A message has one holder: two leases on the same message that are both current are the
  same lease, and no two leases ever handed out share a message and a token.
\<close>

theorem one_current_holder:
  assumes "store_queue R view kt xle C c" "empty_queue c (view s)" "steps R C c (s, no_ghost) (s', G)"
    and "(x, w, n, i) \<in> leases G" "(x, w', n', i') \<in> leases G"
    and "n = n' \<or> owned (Stream c) (Group c) x w n (view s') \<and> owned (Stream c) (Group c) x w' n' (view s')"
  shows "w' = w \<and> n' = n \<and> i' = i"
  using assms(6)
proof
  assume "n = n'"
  with tokens_okD [OF store_queue.reachable_fates [OF assms(1,3,2), THEN conjunct2] assms(4), of w' i'] assms(5)
  show ?thesis by simp
next
  assume "owned (Stream c) (Group c) x w n (view s') \<and> owned (Stream c) (Group c) x w' n' (view s')"
  then show ?thesis
    using store_queue.one_holder [OF assms(1,3,2,4,5)] by simp
qed

theorem one_current_holder_witness: "(''1-0'', ''w3'', 2, ''j1'') \<notin> leases demo_ghost"
  using one_current_holder [OF refq.store_queue_axioms empty_server_queue demo_steps demo_leases(2), of "''w3''" 2 "''j1''"]
  by auto

text \<open>
  A step that hands out a lease makes it the message's current one, with a token greater
  than that of every lease handed out on that message before.
\<close>

theorem new_lease_is_newest:
  assumes "store_queue R view kt xle C c" "empty_queue c (view s)" "steps R C c (s, no_ghost) (s', G)"
    and "step R C c (s', G) (s'', G')" "(x, w, m, i) \<in> leases G' - leases G"
  shows "owned (Stream c) (Group c) x w m (view s'') \<and> (\<forall>u n j. (x, u, n, j) \<in> leases G \<longrightarrow> n < m)"
  using store_queue.step_newest [OF assms(1,4) store_queue.reachable_inv [OF assms(1,3,2)]
      store_queue.reachable_fates [OF assms(1,3,2), THEN conjunct1] assms(5)]
  by (auto simp: newest_def)

theorem new_lease_is_newest_witness:
  "owned (Stream ref_config) (Group ref_config) ''1-0'' ''w2'' 2 (ref_view (fst demo_recover)) \<and> (1 :: int) < 2"
  using new_lease_is_newest [OF refq.store_queue_axioms empty_server_queue demo_steps_claim demo_step_recover,
      of "''1-0''" "''w2''" 2 "''j1''"] by (simp add: demo_ghost_def)

text \<open>
  C14. A job whose ack was carried out is finished: it is in neither the stream, the schedule
  nor the dead-letter stream in any later state, and no later step hands it to a worker.
\<close>

theorem acked_is_final:
  assumes "store_queue R view kt xle C c" "empty_queue c (view s)" "steps R C c (s, no_ghost) (s', G)"
    and "i \<in> acked G" "steps R C c (s', G) (s1, G1)"
  shows "copies (Stream c) (view s1) i = 0 \<and> dHash (view s1) (retryData c) i = None \<and>
    copies (DeadLetter c) (view s1) i = 0 \<and>
    (\<forall>s2 G2 x w n. step R C c (s1, G1) (s2, G2) \<and> (x, w, n, i) \<in> leases G2 \<longrightarrow> (x, w, n, i) \<in> leases G1)"
proof -
  have "i \<in> acked G1"
    using assms(4) steps_acked [OF assms(5)] by auto
  moreover have "sys_inv C c (view s1) G1"
    by (rule store_queue.reachable_inv [OF assms(1) steps_trans [OF assms(3,5)] assms(2)])
  then have "conserved c (view s1) G1"
    by (simp add: sys_inv_def core_inv_def)
  ultimately have "copies (Stream c) (view s1) i + of_bool (i \<in> dom (dHash (view s1) (retryData c))) +
      copies (DeadLetter c) (view s1) i + 1 \<le> 1"
    using conserved_le_one [of c "view s1" G1 i] by (simp add: places_def)
  then show ?thesis
    using store_queue.acked_not_redelivered [OF assms(1,3,2,4,5)]
    by (simp add: domIff split: if_splits) blast
qed

definition demo_ack :: "refdb \<times> int" where
  "demo_ack = ackScript ref_redis (Stream ref_config) (Group ref_config) ''1-0'' ''w2'' 2 300 (fst demo_recover)"

lemma demo_ack_reply: "snd demo_ack = 1"
  by code_simp

lemma demo_steps_ack:
  "steps ref_redis ref_codec ref_config (empty_server, no_ghost) (fst demo_ack, demo_ghost\<lparr>acked := {''j1''}\<rparr>)"
proof -
  have "step ref_redis ref_codec ref_config (fst demo_recover, demo_ghost)
      (fst demo_ack, if snd demo_ack = 0 then demo_ghost else demo_ghost\<lparr>acked := insert ''j1'' (acked demo_ghost)\<rparr>)"
    by (rule step.ack [OF demo_leases(2), of _ _ 300]) (simp add: demo_ack_def)
  then have "step ref_redis ref_codec ref_config (fst demo_recover, demo_ghost) (fst demo_ack, demo_ghost\<lparr>acked := {''j1''}\<rparr>)"
    by (simp add: demo_ack_reply) (simp add: demo_ghost_def)
  then show ?thesis
    by (rule steps_snoc [OF demo_steps])
qed

theorem acked_is_final_witness:
  "copies (Stream ref_config) (ref_view (fst demo_ack)) ''j1'' = 0 \<and>
   copies (DeadLetter ref_config) (ref_view (fst demo_ack)) ''j1'' = 0"
  using acked_is_final [OF refq.store_queue_axioms empty_server_queue demo_steps_ack _ steps_refl, of "''j1''"] by simp

section \<open>Recovery\<close>

text \<open>
  C33. Recovery always answers, takes at most the number of deliveries asked for, and takes
  only deliveries that have been idle for the visibility timeout: each is now leased to the
  caller with the next token and the lease it replaces is superseded; no other delivery
  changes hands.
\<close>

theorem recover_takes_expired_only:
  assumes "store_queue R view kt xle C c" "empty_queue c (view s)" "steps R C c (s, no_ghost) (s', G)"
    and "1 \<le> idle" "1 \<le> n"
  shows "\<exists>s'' cur' rs. recoverScript R (Stream c) (Group c) w idle n cur t s' = (s'', Some (cur', rs)) \<and>
    int (length rs) \<le> n \<and> distinct (map fst rs) \<and>
    (\<forall>x fs m. (x, fs, m) \<in> set rs \<longrightarrow>
       owned (Stream c) (Group c) x w m (view s'') \<and>
       (\<exists>p. pel (dGroup (view s') (Stream c) (Group c)) x = Some p \<and> idle \<le> t - pTime p \<and> m = pCount p + 1 \<and>
          superseded (Stream c) (Group c) x (pCount p) (view s''))) \<and>
    (\<forall>x. x \<notin> fst ` set rs \<longrightarrow>
       pel (dGroup (view s'') (Stream c) (Group c)) x = pel (dGroup (view s') (Stream c) (Group c)) x)"
proof -
  have ok: "stream_ok (Stream c) (Group c) (view s')"
    by (rule store_queue.reachable_okS [OF assms(1,3,2)])
  obtain s'' cur' rs where r: "recoverScript R (Stream c) (Group c) w idle n cur t s' = (s'', Some (cur', rs))"
      and rec: "recovers (Stream c) (Group c) w t idle (view s') (view s'') rs" and n: "int (length rs) \<le> n"
    using store_queue.recover_script [OF assms(1) ok assms(4,5)] by blast
  have "owned (Stream c) (Group c) x w m (view s'') \<and>
      (\<exists>p. pel (dGroup (view s') (Stream c) (Group c)) x = Some p \<and> idle \<le> t - pTime p \<and> m = pCount p + 1 \<and>
         superseded (Stream c) (Group c) x (pCount p) (view s''))" if x: "(x, fs, m) \<in> set rs" for x fs m
  proof -
    obtain p where "pel (dGroup (view s') (Stream c) (Group c)) x = Some p" "m = pCount p + 1" "idle \<le> t - pTime p"
      using recoversD(8) [OF rec x] by (auto simp: taken_def)
    with recovers_fences(1,2) [OF rec ok x] show ?thesis
      by (auto simp: owned_def)
  qed
  with r n recoversD(7,9) [OF rec] show ?thesis by blast
qed

theorem recover_takes_expired_only_witness:
  "\<exists>s'' cur' rs. recoverScript ref_redis (Stream ref_config) (Group ref_config) ''w3'' 100 5 ''0-0'' 400 (fst demo_recover) =
     (s'', Some (cur', rs)) \<and> int (length rs) \<le> 5"
  using recover_takes_expired_only [OF refq.store_queue_axioms empty_server_queue demo_steps, of 100 5 "''w3''" "''0-0''" 400]
  by auto

text \<open>
  Nothing expired is left behind: when a recovery that scans from the beginning of the
  pending list reports that it reached the end, every delivery that had been idle for the
  visibility timeout is among those it took.
\<close>

theorem recover_full_scan:
  assumes "store_queue R view kt xle C c" "empty_queue c (view s)" "steps R C c (s, no_ghost) (s', G)"
    and "1 \<le> idle" "1 \<le> n"
    and "recoverScript R (Stream c) (Group c) w idle n ''0-0'' t s' = (s'', Some (''0-0'', rs))"
    and "pel (dGroup (view s') (Stream c) (Group c)) x = Some p" "idle \<le> t - pTime p"
  shows "x \<in> fst ` set rs"
  by (rule store_queue.recover_script_complete [OF assms(1) store_queue.reachable_okS [OF assms(1,3,2)] assms(4-8)])

lemma demo_claim_pending:
  "map_of (gPel (sGrp (fst demo_claim) (Stream ref_config) (Group ref_config))) ''1-0'' =
     Some \<lparr>pOwner = ''w1'', pTime = 10, pCount = 1\<rparr>"
  by code_simp

theorem recover_full_scan_witness:
  "''1-0'' \<in> fst ` set (snd (the (snd demo_recover)))"
proof -
  obtain rs where rs: "snd demo_recover = Some (''0-0'', rs)"
    using demo_recover_reply by auto
  have "recoverScript ref_redis (Stream ref_config) (Group ref_config) ''w2'' 100 1 ''0-0'' 200 (fst demo_claim) =
      (fst demo_recover, Some (''0-0'', rs))"
    by (simp add: rs [symmetric] flip: demo_recover_def)
  from recover_full_scan [OF refq.store_queue_axioms empty_server_queue demo_steps_claim _ _ this, of "''1-0''"]
  show ?thesis by (simp add: rs demo_claim_pending)
qed

section \<open>Scheduled jobs\<close>

text \<open>
  C34. Promotion is exact: it appends one stream entry per promoted job, promotes only jobs
  that are due and each of them once, at most as many as asked for and all that are due if
  there are fewer, removes exactly those from the schedule, and reports their number.
\<close>

theorem promote_exact:
  assumes "store_queue R view kt xle C c" "empty_queue c (view s)" "steps R C c (s, no_ghost) (s', G)" "0 \<le> n"
  shows "\<exists>es. dLog (view (fst (promoteScript R (cjson_decode C) (RetryKey c) (retryData c) (Stream c) now n s'))) (Stream c) =
        dLog (view s') (Stream c) @ es \<and>
      distinct (map entry_job es) \<and> set (map entry_job es) \<subseteq> due (RetryKey c) now (view s') \<and>
      int (length es) \<le> n \<and>
      snd (promoteScript R (cjson_decode C) (RetryKey c) (retryData c) (Stream c) now n s') = int (length es) \<and>
      (int (length es) < n \<longrightarrow> set (map entry_job es) = due (RetryKey c) now (view s')) \<and>
      dZset (view (fst (promoteScript R (cjson_decode C) (RetryKey c) (retryData c) (Stream c) now n s'))) (RetryKey c) =
        dZset (view s') (RetryKey c) |` (- set (map entry_job es))"
proof -
  have "queue_ok (cjson_decode C) (Stream c) (Group c) (RetryKey c) (retryData c) (view s')"
    using store_queue.reachable_inv [OF assms(1,3,2)] by (simp add: sys_inv_def core_inv_def)
  from store_queue.promote_script [OF assms(1) this assms(4)] show ?thesis
    unfolding promoteScript_def .
qed

definition demo_scheduled :: refdb where
  "demo_scheduled = zadd ref_redis (RetryKey ref_config) 50 ''j1''
     (hset ref_redis (retryData ref_config) ''j1'' (marshal ref_codec (jobFields ref_codec demo_job)) empty_server)"

lemma demo_steps_schedule:
  "steps ref_redis ref_codec ref_config (empty_server, no_ghost)
     (demo_scheduled, no_ghost\<lparr>accepted := insert ''j1'' (accepted no_ghost)\<rparr>)"
  using steps_snoc [OF steps_refl step.enqueue_later [of demo_job no_ghost ref_redis ref_codec ref_config empty_server 50]]
  by (simp add: demo_scheduled_def no_ghost_def)

theorem promote_exact_witness:
  "\<exists>es. dLog (ref_view (fst (promoteScript ref_redis (cjson_decode ref_codec) (RetryKey ref_config) (retryData ref_config)
       (Stream ref_config) 60 100 demo_scheduled))) (Stream ref_config) = dLog (ref_view demo_scheduled) (Stream ref_config) @ es \<and>
     set (map entry_job es) = {''j1''}"
proof -
  have *: "sZ demo_scheduled (RetryKey ref_config) = [(''j1'', 50)]"
    by code_simp
  have due: "due (RetryKey ref_config) 60 (ref_view demo_scheduled) = {''j1''}"
    by (auto simp: due_def * split: if_splits)
  obtain es where es: "dLog (ref_view (fst (promoteScript ref_redis (cjson_decode ref_codec) (RetryKey ref_config) (retryData ref_config)
       (Stream ref_config) 60 100 demo_scheduled))) (Stream ref_config) = dLog (ref_view demo_scheduled) (Stream ref_config) @ es"
      "distinct (map entry_job es)" "set (map entry_job es) \<subseteq> {''j1''}" "int (length es) < 100 \<longrightarrow> set (map entry_job es) = {''j1''}"
    using promote_exact [OF refq.store_queue_axioms empty_server_queue demo_steps_schedule, of 100 60] due by auto
  moreover from es(2,3) have "length es \<le> 1"
    using distinct_card [OF es(2)] card_mono [OF _ es(3)] by simp
  ultimately show ?thesis by auto
qed

section \<open>Consumers\<close>

text \<open>
  Removing consumers is safe: neither a worker's deregistration nor the pruning of idle
  consumers drops a pending delivery, whatever the consumers' state.
\<close>

theorem consumers_keep_pending:
  assumes "store_queue R view kt xle C c"
  shows "pel (dGroup (view (fst (deregisterScript R (Stream c) (Group c) w t s))) (Stream c) (Group c)) =
      pel (dGroup (view s) (Stream c) (Group c)) \<and>
    pel (dGroup (view (fst (pruneConsumersScript R (Stream c) (Group c) idle t s))) (Stream c) (Group c)) =
      pel (dGroup (view s) (Stream c) (Group c))"
  by (simp add: store_queue.consumer_scripts(1,2) [OF assms])

theorem consumers_keep_pending_witness:
  "pel (dGroup (ref_view (fst (deregisterScript ref_redis (Stream ref_config) (Group ref_config) ''w2'' 500 (fst demo_recover))))
     (Stream ref_config) (Group ref_config)) ''1-0'' = Some \<lparr>pOwner = ''w2'', pTime = 200, pCount = 2\<rparr>"
  using consumers_keep_pending [OF refq.store_queue_axioms] by (simp add: demo_pending)

end
