(* ===== verification/StoreSpecs.thy ===== *)
theory StoreSpecs
  imports Protocol
begin

text \<open>
  The methods of \<^verbatim>\<open>Store\<close> implement the delivery protocol: whatever the network does
  to its round trips, a call changes the server by protocol steps only, and what it returns
  agrees with them. The methods that settle a delivery report success exactly when they were
  carried out on the current lease; a batch is the sequence of its single calls.
\<close>

context store_queue
begin

lemma once_fresh:
  assumes "get_str R (DedupePrefix c @ key) t s = None"
  shows "dStr (view (fst (enqueueOnceScript R dec (DedupePrefix c @ key) (Stream c) (RetryKey c) (retryData c) i
      (Milliseconds (DedupeWindow c)) runAt json t s))) (DedupePrefix c @ key) =
    Some (i, t + Milliseconds (DedupeWindow c))"
  using assms
  by (simp add: enqueueOnceScript_def Let_def xadd_json_def xadd_view zadd_view hset_view set_px_view dedupe_key)
    (simp add: ev_set_px_def)

lemma once_used:
  assumes "dStr (view s) (DedupePrefix c @ key) = Some (v, e)" "t < e"
  shows "enqueueOnceScript R dec (DedupePrefix c @ key) (Stream c) (RetryKey c) (retryData c) i w runAt json t s = (s, v)"
  using assms by (simp add: enqueueOnceScript_def get_str_view dedupe_key)

end

section \<open>One round trip\<close>

lemma rt_srv: "srv (fst (rt f st)) = srv st \<or> srv (fst (rt f st)) = fst (f (srv st))"
  by (simp add: rt_def split: list.split fault.split)

lemma rt_Inr:
  assumes "snd (rt f st) = Inr a"
  shows "srv (fst (rt f st)) = fst (f (srv st))" "a = snd (f (srv st))"
  using assms by (simp_all add: rt_def split: list.splits fault.splits)

lemma rt_frame [simp]:
  "sclk (fst (rt f st)) = sclk st" "wclk (fst (rt f st)) = wclk st" "blocks (fst (rt f st)) = blocks st"
  "idSeeds (fst (rt f st)) = idSeeds st" "recoverCursor (fst (rt f st)) = recoverCursor st"
  "lastPrune (fst (rt f st)) = lastPrune st"
  by (simp_all add: rt_def split: list.split fault.split)

lemma rt_reliable [simp]: "net st = [] \<Longrightarrow> rt f st = (st\<lparr>srv := fst (f (srv st))\<rparr>, Inr (snd (f (srv st))))"
  by (simp add: rt_def)

lemma rt_cases:
  obtains (unreached) m where "srv (fst (rt f st)) = srv st" "snd (rt f st) = Inl (ErrExternal m)"
  | (unanswered) m where "srv (fst (rt f st)) = fst (f (srv st))" "snd (rt f st) = Inl (ErrExternal m)"
  | (answered) "srv (fst (rt f st)) = fst (f (srv st))" "snd (rt f st) = Inr (snd (f (srv st)))"
  by (cases "net st"; cases "hd (net st)") (auto simp: rt_def)

text \<open>A round trip that runs a protocol step is that step, or none if the server was not reached.\<close>

lemma rt_steps:
  assumes "step R C c (srv st, G) (fst (f (srv st)), G')"
  shows "\<exists>H \<in> {G, G'}. steps R C c (srv st, G) (srv (fst (rt f st)), H) \<and> (\<forall>a. snd (rt f st) = Inr a \<longrightarrow> H = G')"
proof (cases rule: rt_cases [of f st])
  case (unreached m)
  then show ?thesis by (auto intro: steps_refl)
qed (use steps_snoc [OF steps_refl assms] in auto)

section \<open>Settling one delivery\<close>

lemma fenced_call_rt:
  "fst (fenced_call script st) = fst (rt script st)"
  "snd (fenced_call script st) =
     (case snd (rt script st) of Inl e \<Rightarrow> Some e | Inr n \<Rightarrow> if n = 0 then Some ErrLeaseLost else None)"
  by (simp_all add: fenced_call_def split: prod.split sum.split)

text \<open>The lease of a job as the system records it.\<close>

definition lease_of :: "job \<Rightarrow> string \<times> string \<times> int \<times> string" where
  "lease_of j = (MessageID (Lease j), Owner (Lease j), Token (Lease j), ID j)"

definition holds_lease :: "Config \<Rightarrow> job \<Rightarrow> db \<Rightarrow> bool" where
  "holds_lease c j d \<longleftrightarrow> owned (Stream c) (Group c) (MessageID (Lease j)) (Owner (Lease j)) (Token (Lease j)) d"

definition settling :: "'r redis \<Rightarrow> codec \<Rightarrow> Config \<Rightarrow> job \<Rightarrow> ('r store \<Rightarrow> 'r store \<times> err option) set" where
  "settling R C c j =
     {Store_Ack R c j, Store_Extend R c j} \<union> range (Store_Retry R C c j) \<union> range (Store_DeadLetter R C c j)"

context store_queue
begin

lemma settling_script:
  assumes "f \<in> settling R C c j"
  obtains script where "f st = fenced_call script st"
    "\<And>s. okS s \<Longrightarrow> holds_lease c j (view s) \<Longrightarrow> snd (script s) = 1"
    "\<And>s. \<not> holds_lease c j (view s) \<Longrightarrow> script s = (s, 0)"
  using assms unfolding settling_def
proof (elim UnE insertE rangeE emptyE, goal_cases)
  case 1
  then show ?case
    by (auto simp: Store_Ack_def holds_lease_def ack.held ack.lost)
next
  case 2
  then show ?case
    by (auto simp: Store_Extend_def holds_lease_def ext.held ext.lost)
next
  case (3 t)
  then show ?case
    by (auto simp: Store_Retry_def Let_def holds_lease_def ret.held ret.lost)
next
  case (4 r)
  then show ?case
    by (auto simp: Store_DeadLetter_def Let_def holds_lease_def dlq.held dlq.lost)
qed

lemma settling_result:
  assumes "f \<in> settling R C c j" "okS (srv st)"
  shows "snd (f st) = None \<Longrightarrow> holds_lease c j (view (srv st))"
    and "snd (f st) = Some ErrLeaseLost \<Longrightarrow> \<not> holds_lease c j (view (srv st))"
    and "\<not> holds_lease c j (view (srv st)) \<Longrightarrow> srv (fst (f st)) = srv st"
    and "net st = [] \<Longrightarrow> snd (f st) = (if holds_lease c j (view (srv st)) then None else Some ErrLeaseLost)"
proof -
  obtain script where s: "f st = fenced_call script st"
      "\<And>s. okS s \<Longrightarrow> holds_lease c j (view s) \<Longrightarrow> snd (script s) = 1"
      "\<And>s. \<not> holds_lease c j (view s) \<Longrightarrow> script s = (s, 0)"
    using settling_script [OF assms(1)] by blast
  note rt = rt_cases [of script st]
  show "snd (f st) = None \<Longrightarrow> holds_lease c j (view (srv st))"
    using s(3) [of "srv st"] by (cases rule: rt) (fastforce simp: s(1) fenced_call_rt split: if_splits)+
  show "snd (f st) = Some ErrLeaseLost \<Longrightarrow> \<not> holds_lease c j (view (srv st))"
    using s(2) [OF assms(2)] by (cases rule: rt) (auto simp: s(1) fenced_call_rt)
  show "\<not> holds_lease c j (view (srv st)) \<Longrightarrow> srv (fst (f st)) = srv st"
    using s(3) [of "srv st"] rt_srv [of script st] by (auto simp: s(1) fenced_call_rt)
  show "net st = [] \<Longrightarrow> snd (f st) = (if holds_lease c j (view (srv st)) then None else Some ErrLeaseLost)"
    using s(2) [OF assms(2)] s(3) [of "srv st"] by (auto simp: s(1) fenced_call_rt)
qed

end

text \<open>
  Settling a delivery through the store is fenced end to end: Ack, Extend, Retry and
  DeadLetter report success only to the holder of the current lease, report a lost lease only
  to a caller whose lease is not current, and never change the server for such a caller,
  whatever the network does to the call; on a reliable network the answer is exact.
\<close>

theorem settling_fenced:
  assumes "store_queue R view kt xle C c" "stream_ok (Stream c) (Group c) (view (srv st))"
    and "f \<in> settling R C c j"
  shows "(snd (f st) = None \<longrightarrow> holds_lease c j (view (srv st))) \<and>
    (snd (f st) = Some ErrLeaseLost \<longrightarrow> \<not> holds_lease c j (view (srv st))) \<and>
    (\<not> holds_lease c j (view (srv st)) \<longrightarrow> srv (fst (f st)) = srv st) \<and>
    (net st = [] \<longrightarrow> snd (f st) = (if holds_lease c j (view (srv st)) then None else Some ErrLeaseLost))"
  using store_queue.settling_result [OF assms(1,3,2)] by blast

definition demo_store :: "refdb \<Rightarrow> refdb store" where
  "demo_store s = \<lparr>srv = s, sclk = 300, wclk = 0, net = [], blocks = [], idSeeds = [], recoverCursor = ''0-0'',
     lastPrune = 0, lastStuckWarn = 0\<rparr>"

definition demo_run :: "string \<Rightarrow> int \<Rightarrow> job" where
  "demo_run w n = demo_job\<lparr>Lease := \<lparr>MessageID = ''1-0'', Owner = w, Token = n, Partition = 0\<rparr>\<rparr>"

lemma demo_okS: "stream_ok (Stream ref_config) (Group ref_config) (ref_view (fst demo_recover))"
  by (rule store_queue.reachable_okS [OF refq.store_queue_axioms demo_steps empty_server_queue])

theorem settling_fenced_witness:
  "snd (Store_Ack ref_redis ref_config (demo_run ''w1'' 1) (demo_store (fst demo_recover))) = Some ErrLeaseLost \<and>
   snd (Store_Ack ref_redis ref_config (demo_run ''w2'' 2) (demo_store (fst demo_recover))) = None"
proof -
  have s: "srv (demo_store (fst demo_recover)) = fst demo_recover" "net (demo_store (fst demo_recover)) = []"
    by (simp_all add: demo_store_def)
  have in_set: "Store_Ack ref_redis ref_config j \<in> settling ref_redis ref_codec ref_config j" for j
    by (simp add: settling_def)
  from settling_fenced [OF refq.store_queue_axioms, of "demo_store (fst demo_recover)", unfolded s, OF demo_okS in_set]
  show ?thesis
    using demo_owned by (simp add: holds_lease_def demo_run_def)
qed

section \<open>The methods take protocol steps\<close>

text \<open>What the producer has to guarantee of the job it stores.\<close>

definition fresh_job :: "ghost \<Rightarrow> job \<Rightarrow> bool" where
  "fresh_job G j \<longleftrightarrow> storable j \<and> utf8_job j \<and> ID j \<notin> accepted G"

lemma with_id_frame: "srv (snd (with_id j st)) = srv st" "wclk (snd (with_id j st)) = wclk st"
  "sclk (snd (with_id j st)) = sclk st" "net (snd (with_id j st)) = net st"
  by (auto simp: with_id_def fresh_id_def split: prod.split list.split)

lemma with_id_key: "IdempotencyKey (fst (with_id j st)) = IdempotencyKey j"
  by (simp add: with_id_def split: prod.split)

lemma schedule_rt:
  "schedule R C c j runAt st =
     (let f = (\<lambda>s. (zadd R (RetryKey c) (UnixMilli runAt) (ID j) (hset R (retryData c) (ID j) (marshal C (jobFields C j)) s), ()))
      in (fst (rt f st), case snd (rt f st) of Inl e \<Rightarrow> Some e | Inr _ \<Rightarrow> None))"
  by (simp add: schedule_def Let_def split: prod.split sum.split)

lemma rt_accept:
  assumes "step R C c (srv st, G) (fst (f (srv st)), G\<lparr>accepted := insert (h (snd (f (srv st)))) (accepted G)\<rparr>)"
  shows "\<exists>G'. steps R C c (srv st, G) (srv (fst (rt f st)), G') \<and> leases G' = leases G \<and> acked G' = acked G \<and>
    (\<forall>a. snd (rt f st) = Inr a \<longrightarrow> h a \<in> accepted G') \<and> accepted G' \<subseteq> insert (h (snd (f (srv st)))) (accepted G)"
proof -
  let ?G1 = "G\<lparr>accepted := insert (h (snd (f (srv st)))) (accepted G)\<rparr>"
  obtain H where H: "H \<in> {G, ?G1}" "steps R C c (srv st, G) (srv (fst (rt f st)), H)"
      "\<forall>a. snd (rt f st) = Inr a \<longrightarrow> H = ?G1"
    using rt_steps [of R C c st G f, OF assms] by blast
  have "leases H = leases G \<and> acked H = acked G"
    using H(1) by auto
  moreover have "h a \<in> accepted H" if "snd (rt f st) = Inr a" for a
    using H(3) that rt_Inr(2) [OF that] by simp
  moreover have "accepted H \<subseteq> insert (h (snd (f (srv st)))) (accepted G)"
    using H(1) by auto
  ultimately show ?thesis using H(2) by blast
qed

text \<open>Which identifiers an enqueue can add: the job's own, or the one its key is taken by already.\<close>

definition accepts :: "'r redis \<Rightarrow> Config \<Rightarrow> job \<Rightarrow> 'r store \<Rightarrow> string set" where
  "accepts R c j st = insert (ID (fst (with_id j st))) (set_option (get_str R (DedupePrefix c @ IdempotencyKey j) (sclk st) (srv st)))"

lemma Enqueue_steps:
  assumes "fresh_job G (fst (with_id j st))"
  shows "\<exists>G'. steps R C c (srv st, G) (srv (fst (Store_Enqueue R C c j st)), G') \<and> leases G' = leases G \<and> acked G' = acked G \<and>
    (\<forall>i. snd (Store_Enqueue R C c j st) = Inr i \<longrightarrow> i \<in> accepted G') \<and> accepted G' \<subseteq> accepts R c j st \<union> accepted G"
proof -
  obtain j' st' where w: "with_id j st = (j', st')" by (cases "with_id j st")
  have srv: "srv st' = srv st"
    using with_id_frame(1) [of j st] by (simp add: w)
  have j': "storable j'" "utf8_job j'" "ID j' \<notin> accepted G"
    using assms by (simp_all add: fresh_job_def w)
  consider (once) "IdempotencyKey j' \<noteq> []" | (later) "IdempotencyKey j' = []" "AvailableAt j' > wclk st'"
    | (now) "IdempotencyKey j' = []" "\<not> AvailableAt j' > wclk st'"
    by blast
  then show ?thesis
  proof cases
    case once
    define f where "f = enqueueOnceScript R (cjson_decode C) (DedupePrefix c @ IdempotencyKey j') (Stream c) (RetryKey c)
       (retryData c) (ID j') (Milliseconds (DedupeWindow c))
       (if AvailableAt j' > wclk st' then UnixMilli (AvailableAt j') else 0) (marshal C (jobFields C j')) (sclk st')"
    have E: "Store_Enqueue R C c j st = rt f st'"
      using once by (simp add: Store_Enqueue_def w enqueueOnce_def f_def Let_def)
    have "step R C c (srv st', G) (fst (f (srv st')), G\<lparr>accepted := insert (snd (f (srv st'))) (accepted G)\<rparr>)"
      by (rule step.enqueue_once [OF j']) (simp add: f_def)
    from rt_accept [of R C c st' G f "\<lambda>a. a", OF this] obtain G' where
      "steps R C c (srv st', G) (srv (fst (rt f st')), G')" "leases G' = leases G" "acked G' = acked G"
      "\<forall>a. snd (rt f st') = Inr a \<longrightarrow> a \<in> accepted G'"
      "accepted G' \<subseteq> insert (snd (f (srv st'))) (accepted G)" by blast
    moreover have "snd (f (srv st')) \<in> accepts R c j st"
      using srv with_id_frame(3) [of j st] with_id_key [of j st] by (auto simp: f_def w accepts_def enqueueOnceScript_def Let_def split: option.split)
    ultimately show ?thesis
      unfolding E srv by blast
  next
    case later
    define f where "f = (\<lambda>s. (zadd R (RetryKey c) (UnixMilli (AvailableAt j')) (ID j')
       (hset R (retryData c) (ID j') (marshal C (jobFields C j')) s), ()))"
    have E: "Store_Enqueue R C c j st = (fst (rt f st'), case snd (rt f st') of Inl e \<Rightarrow> Inl e | Inr _ \<Rightarrow> Inr (ID j'))"
      using later by (simp add: Store_Enqueue_def w schedule_rt Let_def f_def split: sum.split)
    have "step R C c (srv st', G) (fst (f (srv st')), G\<lparr>accepted := insert (ID j') (accepted G)\<rparr>)"
      unfolding f_def fst_conv by (rule step.enqueue_later [OF j'])
    from rt_accept [of R C c st' G f "\<lambda>_. ID j'", OF this] show ?thesis
      unfolding E srv fst_conv snd_conv accepts_def w by (fastforce split: sum.splits)
  next
    case now
    define f where "f = xadd R (Stream c) (jobFields C j')"
    have E: "Store_Enqueue R C c j st = (fst (rt f st'), case snd (rt f st') of Inl e \<Rightarrow> Inl e | Inr _ \<Rightarrow> Inr (ID j'))"
      using now by (simp add: Store_Enqueue_def w f_def split: prod.split sum.split)
    have "step R C c (srv st', G) (fst (f (srv st')), G\<lparr>accepted := insert (ID j') (accepted G)\<rparr>)"
      unfolding f_def by (rule step.enqueue_now [OF j'])
    from rt_accept [of R C c st' G f "\<lambda>_. ID j'", OF this] show ?thesis
      unfolding E srv fst_conv snd_conv accepts_def w by (fastforce split: sum.splits)
  qed
qed

text \<open>The transaction of a batch is the sequence of the steps of its jobs.\<close>

fun fresh_jobs :: "ghost \<Rightarrow> job list \<Rightarrow> bool" where
  "fresh_jobs G [] = True"
| "fresh_jobs G (j # js) \<longleftrightarrow> fresh_job G j \<and> ID j \<notin> ID ` set js \<and> fresh_jobs G js"

lemma tx_one_step:
  assumes "fresh_job G j"
  shows "step R C c (s, G) (fst (tx_one R C c now t j s), G\<lparr>accepted := insert (snd (tx_one R C c now t j s)) (accepted G)\<rparr>)"
proof -
  have j: "storable j" "utf8_job j" "ID j \<notin> accepted G"
    using assms by (simp_all add: fresh_job_def)
  show ?thesis
  proof (cases "IdempotencyKey j = []")
    case True
    then show ?thesis
      using step.enqueue_now [OF j, of R C c s] step.enqueue_later [OF j, of R C c s] by (simp add: tx_one_def Let_def)
  next
    case False
    show ?thesis
      by (rule step.enqueue_once [OF j, where key = "IdempotencyKey j" and t = t
            and runAt = "if AvailableAt j > now then UnixMilli (AvailableAt j) else 0"])
        (use False in \<open>simp add: tx_one_def Let_def\<close>)
  qed
qed

context store_queue
begin

lemma tx_one_id:
  assumes "sys_inv C c (view s) G"
  shows "snd (tx_one R C c now t j s) = ID j \<or> snd (tx_one R C c now t j s) \<in> accepted G"
proof -
  have "v \<in> accepted G" if "get_str R (DedupePrefix c @ IdempotencyKey j) t s = Some v" for v
  proof -
    from that obtain e where "dStr (view s) (DedupePrefix c @ IdempotencyKey j) = Some (v, e)"
      by (auto simp: get_str_view dedupe_key split: option.splits if_splits)
    with assms show ?thesis by (auto simp: sys_inv_def keys_ok_def)
  qed
  then show ?thesis
    by (auto simp: tx_one_def Let_def enqueueOnceScript_def split: option.split)
qed

lemma tx_all_steps:
  assumes "sys_inv C c (view s) G" "fresh_jobs G js"
  shows "\<exists>G'. steps R C c (s, G) (fst (tx_all R C c now t js s), G') \<and> leases G' = leases G \<and> acked G' = acked G \<and>
    set (snd (tx_all R C c now t js s)) \<subseteq> accepted G' \<and> accepted G \<subseteq> accepted G' \<and> accepted G' \<subseteq> ID ` set js \<union> accepted G"
  using assms
proof (induction js arbitrary: s G)
  case Nil
  then show ?case using steps_refl by fastforce
next
  case (Cons j js)
  obtain s1 i where t1: "tx_one R C c now t j s = (s1, i)" by (cases "tx_one R C c now t j s")
  let ?G1 = "G\<lparr>accepted := insert i (accepted G)\<rparr>"
  have st: "step R C c (s, G) (s1, ?G1)"
    using tx_one_step [of G j R C c s now t] Cons.prems(2) by (simp add: t1)
  have i: "i = ID j \<or> i \<in> accepted G"
    using tx_one_id [OF Cons.prems(1), of now t j] by (simp add: t1)
  from i Cons.prems(2) have "fresh_jobs ?G1 js"
    by (induction js) (auto simp: fresh_job_def)
  from Cons.IH [of s1, OF _ this] step_inv [OF st] Cons.prems(1)
  obtain G' where G': "steps R C c (s1, ?G1) (fst (tx_all R C c now t js s1), G')" "leases G' = leases G" "acked G' = acked G" "accepted G' \<subseteq> ID ` set js \<union> insert i (accepted G)"
      "set (snd (tx_all R C c now t js s1)) \<subseteq> accepted G'" "insert i (accepted G) \<subseteq> accepted G'"
    by auto
  have "steps R C c (s, G) (fst (tx_all R C c now t js s1), G')"
    by (rule steps_trans [OF steps_snoc [OF steps_refl st] G'(1)])
  with G' i show ?case
    by (intro exI [of _ G']) (auto simp: t1 split: prod.split)
qed

end


lemma assign_ids_frame: "srv (snd (assign_ids js st)) = srv st \<and> length (fst (assign_ids js st)) = length js"
proof (induction js arbitrary: st)
  case (Cons j js)
  obtain j' st' where w: "with_id j st = (j', st')" by (cases "with_id j st")
  obtain ks st'' where a: "assign_ids js st' = (ks, st'')" by (cases "assign_ids js st'")
  show ?case
    using Cons.IH [of st'] with_id_frame(1) [of j st] by (simp add: w a)
qed simp

lemma tx_all_length: "length (snd (tx_all R C c now t js s)) = length js"
proof (induction js arbitrary: s)
  case (Cons j js)
  then show ?case by (simp split: prod.split) (metis snd_conv)
qed simp


section \<open>Idempotent enqueue\<close>

text \<open>
  C17. An enqueue with an idempotency key can be repeated safely: if the first call reached the
  server but its reply was lost, repeating it within the window returns the identifier of the
  job stored by the first call and changes nothing on the server, even though the second call
  carries a different job identifier.
\<close>

theorem enqueue_once_retry:
  assumes "store_queue R view kt xle C c" "IdempotencyKey j \<noteq> []" "IdempotencyKey k = IdempotencyKey j"
    and "get_str R (DedupePrefix c @ IdempotencyKey j) (sclk st) (srv st) = None"
    and "net st = [NoReply m]" "st2 = (fst (Store_Enqueue R C c j st))\<lparr>sclk := t2, wclk := t3\<rparr>"
    and "t2 < sclk st + Milliseconds (DedupeWindow c)"
  shows "srv (fst (Store_Enqueue R C c k st2)) = srv st2 \<and>
    snd (Store_Enqueue R C c k st2) = Inr (ID (fst (with_id j st)))"
proof -
  obtain j' st' where w: "with_id j st = (j', st')" by (cases "with_id j st")
  have key: "IdempotencyKey j' = IdempotencyKey j" and fr: "srv st' = srv st" "sclk st' = sclk st" "net st' = [NoReply m]"
    using w with_id_frame [of j st] assms(5) by (auto simp: with_id_def split: prod.splits if_splits)
  define dk where "dk = DedupePrefix c @ IdempotencyKey j"
  define f where "f = enqueueOnceScript R (cjson_decode C) dk (Stream c) (RetryKey c) (retryData c) (ID j')
     (Milliseconds (DedupeWindow c)) (if AvailableAt j' > wclk st' then UnixMilli (AvailableAt j') else 0)
     (marshal C (jobFields C j')) (sclk st')"
  have "Store_Enqueue R C c j st = rt f st'"
    using assms(2) key by (simp add: Store_Enqueue_def w enqueueOnce_def f_def dk_def Let_def)
  then have s2: "srv st2 = fst (f (srv st))" "net st2 = []" "sclk st2 = t2"
    using assms(6) fr by (simp_all add: rt_def)
  have mem: "dStr (view (fst (f (srv st)))) dk = Some (ID j', sclk st + Milliseconds (DedupeWindow c))"
    unfolding f_def dk_def fr by (rule store_queue.once_fresh [OF assms(1,4)])
  obtain k' st3 where w2: "with_id k st2 = (k', st3)" by (cases "with_id k st2")
  have key2: "IdempotencyKey k' = IdempotencyKey j" and fr2: "srv st3 = srv st2" "sclk st3 = t2" "net st3 = []"
    using w2 with_id_frame [of k st2] assms(3) s2 by (auto simp: with_id_def split: prod.splits if_splits)
  define g where "g = enqueueOnceScript R (cjson_decode C) dk (Stream c) (RetryKey c) (retryData c) (ID k')
     (Milliseconds (DedupeWindow c)) (if AvailableAt k' > wclk st3 then UnixMilli (AvailableAt k') else 0)
     (marshal C (jobFields C k')) t2"
  have E: "Store_Enqueue R C c k st2 = rt g st3"
    using assms(2) key2 fr2(2) by (simp add: Store_Enqueue_def w2 enqueueOnce_def g_def dk_def Let_def)
  have "g (srv st2) = (srv st2, ID j')"
    unfolding g_def dk_def
    by (rule store_queue.once_used [OF assms(1), of "srv st2" "IdempotencyKey j" "ID j'" "sclk st + Milliseconds (DedupeWindow c)"])
      (use mem s2(1) assms(7) in \<open>simp_all add: dk_def\<close>)
  then show ?thesis
    using fr2 by (simp add: E w)
qed

section \<open>Concrete calls\<close>

definition keyed_job :: "string \<Rightarrow> job" where
  "keyed_job i = demo_job\<lparr>ID := i, IdempotencyKey := ''k''\<rparr>"

definition flaky_store :: "refdb store" where
  "flaky_store = (demo_store empty_server)\<lparr>net := [NoReply ''timeout'']\<rparr>"

lemma demo_store_simps [simp]: "srv (demo_store s) = s" "net (demo_store s) = []" "wclk (demo_store s) = 0" "sclk (demo_store s) = 300"
  by (simp_all add: demo_store_def)

lemma demo_fresh [simp]: "with_id demo_job st = (demo_job, st)" "fresh_job no_ghost demo_job"
  by (simp_all add: with_id_def fresh_job_def no_ghost_def)



theorem enqueue_once_retry_witness:
  "snd (Store_Enqueue ref_redis ref_codec ref_config (keyed_job ''j2'')
     (fst (Store_Enqueue ref_redis ref_codec ref_config (keyed_job ''j1'') flaky_store))) = Inr ''j1''"
proof -
  have sw: "(fst (Store_Enqueue ref_redis ref_codec ref_config (keyed_job ''j1'') flaky_store))\<lparr>sclk := 300, wclk := 0\<rparr> =
      fst (Store_Enqueue ref_redis ref_codec ref_config (keyed_job ''j1'') flaky_store)"
    by (simp add: Store_Enqueue_def enqueueOnce_def with_id_def keyed_job_def flaky_store_def demo_store_def Let_def rt_def
        split: prod.splits)
  have w: "0 < Milliseconds (DedupeWindow ref_config)"
    by (rule refq.dedupe_key)
  have none: "get_str ref_redis (DedupePrefix ref_config @ ''k'') 300 empty_server = None"
    by (simp add: ref_redis_def empty_server_def)
  have "with_id (keyed_job ''j1'') flaky_store = (keyed_job ''j1'', flaky_store)"
    by (simp add: with_id_def keyed_job_def)
  with enqueue_once_retry [OF refq.store_queue_axioms, of "keyed_job ''j1''" "keyed_job ''j2''" flaky_store "''timeout''"
      _ 0 300, OF _ _ _ _ sw [symmetric]] w none
  show ?thesis
    by (simp add: keyed_job_def flaky_store_def)
qed

end
