(* ===== verification/ClaimSpecs.thy ===== *)
theory ClaimSpecs
  imports StoreSpecs
begin

text \<open>
  Claiming and recovering through the store. Every entry the queue itself wrote parses back
  (\<open>payloads_ok\<close>), so the quarantine path is never taken for it, and the jobs
  \<^verbatim>\<open>Claim\<close> and \<^verbatim>\<open>RecoverExpired\<close> return are exactly the entries their scripts
  delivered, each under a lease of the calling worker.
\<close>

section \<open>Everything stored parses back\<close>

definition parseable :: "codec \<Rightarrow> fields \<Rightarrow> bool" where
  "parseable C fs \<longleftrightarrow> (\<forall>x l. \<exists>j. parseJob C x (flatToMap (flatten fs)) l = Inr j \<and> storable j \<and> utf8_job j)"

text \<open>What the server stores of jobs: fields in the queue, as entries or as JSON on the schedule, and dead letters.\<close>

datatype place = Queued | Buried

definition payloads :: "codec \<Rightarrow> Config \<Rightarrow> db \<Rightarrow> (place \<times> fields) set" where
  "payloads C c d = Pair Queued ` (snd ` set (dLog d (Stream c)) \<union> cjson_decode C ` ran (dHash d (retryData c))) \<union>
     Pair Buried ` snd ` set (dLog d (DeadLetter c))"

definition payloads_ok :: "codec \<Rightarrow> Config \<Rightarrow> db \<Rightarrow> bool" where
  "payloads_ok C c d \<longleftrightarrow> (\<forall>fs. (Queued, fs) \<in> payloads C c d \<longrightarrow> parseable C fs)"

lemma payloads_entry: "(x, fs) \<in> set (dLog d (Stream c)) \<Longrightarrow> (Queued, fs) \<in> payloads C c d"
  unfolding payloads_def by (rule UnI1, rule imageI, rule UnI1, erule rev_image_eqI) simp

lemma payloads_mono: "payloads C c d' \<subseteq> payloads C c d \<Longrightarrow> payloads_ok C c d \<Longrightarrow> payloads_ok C c d'"
  by (auto simp: payloads_ok_def)

lemma payloads_insert:
  "payloads C c d' \<subseteq> insert (p, fs) (payloads C c d) \<Longrightarrow> (p = Queued \<Longrightarrow> parseable C fs) \<Longrightarrow> payloads_ok C c d \<Longrightarrow> payloads_ok C c d'"
  by (auto simp: payloads_ok_def)

lemma payloads_hset_mono:
  "payloads C c d \<subseteq> A \<Longrightarrow> payloads C c (ev_hset (retryData c) m w d) \<subseteq> insert (Queued, cjson_decode C w) A"
proof -
  have "ran (dHash (ev_hset (retryData c) m w d) (retryData c)) \<subseteq> insert w (ran (dHash d (retryData c)))"
    "dLog (ev_hset (retryData c) m w d) = dLog d"
    by (auto simp: ev_defs ran_def split: if_splits)
  then have "payloads C c (ev_hset (retryData c) m w d) \<subseteq> insert (Queued, cjson_decode C w) (payloads C c d)"
    by (auto simp: payloads_def)
  then show "payloads C c d \<subseteq> A \<Longrightarrow> payloads C c (ev_hset (retryData c) m w d) \<subseteq> insert (Queued, cjson_decode C w) A"
    by blast
qed

lemma payloads_cong:
  "dLog d' = dLog d \<Longrightarrow> dHash d' (retryData c) = dHash d (retryData c) \<Longrightarrow> payloads C c d' = payloads C c d"
  by (simp add: payloads_def)

lemma payloads_same [simp]:
  "payloads C c (ev_zadd k v m d) = payloads C c d" "payloads C c (ev_zrem k m d) = payloads C c d"
  "payloads C c (ev_set_px k w ttl t d) = payloads C c d" "payloads C c (ev_xreadgroup k g w n t d) = payloads C c d"
  "payloads C c (ev_xclaim k g w x t d) = payloads C c d" "payloads C c (ev_delconsumer k g w d) = payloads C c d"
  by (rule payloads_cong; simp add: ev_defs)+

lemma payloads_hdel: "payloads C c (ev_hdel k m d) \<subseteq> payloads C c d"
  by (auto simp: payloads_def ev_defs ran_def split: if_splits)

context store_queue
begin

lemma payloads_xadd: "payloads C c (ev_xadd (Stream c) x fs d) = insert (Queued, fs) (payloads C c d)"
  "payloads C c (ev_xadd (DeadLetter c) x fs d) = insert (Buried, fs) (payloads C c d)"
  by (auto simp: payloads_def ev_defs)

lemma payloads_settled: "payloads C c (settled (Stream c) g x d) \<subseteq> payloads C c d"
  by (auto simp: payloads_def settled_def ev_defs)

lemma parseable_job:
  assumes "storable j" "utf8_job j"
  shows "parseable C (jobFields C j)" "parseable C (cjson_decode C (marshal C (jobFields C j)))"
proof -
  have "map_of (flatToMap (flatten (jobFields C j))) = map_of (jobFields C j)"
    by (simp add: field_distinct)
  from parseJob_cong [OF this] parse_jobFields [OF assms(1)]
  have p: "parseJob C x (flatToMap (flatten (jobFields C j))) l = Inr (j\<lparr>IdempotencyKey := [], Lease := l\<rparr>)" for x l by simp
  have ok: "storable (j\<lparr>IdempotencyKey := [], Lease := l\<rparr>)" "utf8_job (j\<lparr>IdempotencyKey := [], Lease := l\<rparr>)" for l
    using assms by (simp_all add: storable_def utf8_job_def)
  show "parseable C (jobFields C j)" "parseable C (cjson_decode C (marshal C (jobFields C j)))"
    unfolding parseable_def using p parse_decode_jobFields [OF assms] ok by blast+
qed

lemma promote_payloads:
  "payloads C c (view (fst (promote R (cjson_decode C) (RetryKey c) (retryData c) (Stream c) now n s))) \<subseteq> payloads C c (view s)"
proof -
  have one: "payloads C c (view (promote_one R (cjson_decode C) (RetryKey c) (retryData c) (Stream c) i s)) \<subseteq> payloads C c (view s)" for i s
  proof (cases "dHash (view s) (retryData c) i")
    case None
    then show ?thesis using payloads_hdel by (simp add: promote_one_view)
  next
    case (Some w)
    then have "(Queued, cjson_decode C w) \<in> payloads C c (view s)"
      by (auto simp: payloads_def ran_def)
    then show ?thesis
      using payloads_hdel [of C c "retryData c" i "ev_xadd (Stream c) (snd (xadd R (Stream c) (cjson_decode C w) s)) (cjson_decode C w) (view s)"]
      by (simp add: promote_one_view Some payloads_xadd insert_absorb)
  qed
  have "payloads C c (view (promote_all R (cjson_decode C) (RetryKey c) (retryData c) (Stream c) is s)) \<subseteq> payloads C c (view s)" for "is" s
  proof (induction "is" arbitrary: s)
    case (Cons i "is")
    show ?case
      unfolding promote_all.simps by (rule subset_trans [OF Cons.IH one])
  qed simp
  then show ?thesis by (simp add: promote_def Let_def)
qed

text \<open>
  What each script leaves of the stored payloads: only an enqueue, a retry and a dead letter add
  one, the fields they were given.
\<close>

lemma enqueue_once_payloads:
  "payloads C c (view (fst (enqueueOnceScript R (cjson_decode C) (DedupePrefix c @ key) (Stream c) (RetryKey c) (retryData c)
    i (Milliseconds (DedupeWindow c)) runAt json t s))) \<subseteq> insert (Queued, cjson_decode C json) (payloads C c (view s))"
  by (auto simp: enqueueOnceScript_def Let_def xadd_json_def xadd_view zadd_view hset_view set_px_view dedupe_key payloads_xadd
      dest: payloads_hset_mono [OF subset_refl, THEN subsetD] split: option.split)

lemma fenced_payloads:
  assumes "okS s"
  shows "payloads C c (view (fst (ackScript R (Stream c) (Group c) x w n t s))) \<subseteq> payloads C c (view s)"
    "payloads C c (view (fst (extendScript R (Stream c) (Group c) x w n t s))) \<subseteq> payloads C c (view s)"
    "payloads C c (view (fst (deadLetterScript R (Stream c) (DeadLetter c) (Group c) x w n pairs t s))) \<subseteq>
      insert (Buried, pairs) (payloads C c (view s))"
    "payloads C c (view (fst (retryScript R (Stream c) (RetryKey c) (retryData c) (Group c) x w n runAt i json t s))) \<subseteq>
       insert (Queued, cjson_decode C json) (payloads C c (view s))"
proof -
  show "payloads C c (view (fst (ackScript R (Stream c) (Group c) x w n t s))) \<subseteq> payloads C c (view s)"
    by (cases rule: ack.result_cases [OF assms, of x w n t]) (auto dest: payloads_settled [THEN subsetD])
  show "payloads C c (view (fst (extendScript R (Stream c) (Group c) x w n t s))) \<subseteq> payloads C c (view s)"
    by (cases rule: ext.result_cases [OF assms, of x w n t]) auto
  show "payloads C c (view (fst (deadLetterScript R (Stream c) (DeadLetter c) (Group c) x w n pairs t s))) \<subseteq>
      insert (Buried, pairs) (payloads C c (view s))"
    by (cases rule: dlq.result_cases [OF assms, of x w n pairs t]) (auto simp: payloads_xadd dest!: payloads_settled [THEN subsetD])
  show "payloads C c (view (fst (retryScript R (Stream c) (RetryKey c) (retryData c) (Group c) x w n runAt i json t s))) \<subseteq>
       insert (Queued, cjson_decode C json) (payloads C c (view s))"
    by (cases rule: ret.result_cases [OF assms, of x w n runAt i json t])
      (auto dest!: payloads_settled [THEN subsetD] payloads_hset_mono [OF subset_refl, THEN subsetD])
qed

lemma claim_payloads:
  assumes "queue_ok (cjson_decode C) (Stream c) (Group c) (RetryKey c) (retryData c) (view s)" "1 \<le> n"
  shows "payloads C c (view (fst (claimScript R (cjson_decode C) (Stream c) (RetryKey c) (retryData c) (Group c) w n now t s))) \<subseteq>
    payloads C c (view s)"
  using promote_payloads [of now 100 s] by (simp add: claim_view(1) [OF assms])

lemma read_payloads:
  "1 \<le> n \<Longrightarrow> payloads C c (view (fst (xreadgroup R (Stream c) (Group c) w n t s))) \<subseteq> payloads C c (view s)"
  using xreadgroup_view [of "Stream c" n "Group c" w t s] by simp

lemma recover_payloads:
  "recovers (Stream c) (Group c) w t idle (view s) (view s') rs \<Longrightarrow> payloads C c (view s') \<subseteq> payloads C c (view s)"
  by (rule eq_refl, rule payloads_cong) (simp_all add: recoversD)

lemma prune_payloads:
  "payloads C c (view (fst (pruneConsumersScript R (Stream c) (Group c) idle t s))) \<subseteq> payloads C c (view s)"
  by (rule eq_refl, rule payloads_cong)
    (use prune_each_frame [of "Group c" idle "xinfo_consumers R (Stream c) (Group c) t s" s] in \<open>simp_all add: pruneConsumersScript_def\<close>)

lemma deregister_payloads:
  "payloads C c (view (fst (deregisterScript R (Stream c) (Group c) w t s))) \<subseteq> payloads C c (view s)"
  by (rule eq_refl, rule payloads_cong) (use delconsumer_frame in \<open>auto simp: deregisterScript_def split: if_splits\<close>)

lemma step_payloads:
  assumes "step R C c S S'" "sys_inv C c (view (fst S)) (snd S)" "payloads_ok C c (view (fst S))"
  shows "payloads_ok C c (view (fst S'))"
proof -
  have q: "queue_ok (cjson_decode C) (Stream c) (Group c) (RetryKey c) (retryData c) (view (fst S))"
    and ok: "okS (fst S)"
    using assms(2) by (auto simp: sys_inv_def dest: core_invD)
  note F = fenced_payloads [OF ok]
  note mono = payloads_mono [OF _ assms(3)] and insert = payloads_insert [OF _ _ assms(3), of _ Queued, OF _ parseable_job(2)]
  from assms(1) show ?thesis
  proof (cases rule: step.cases)
    case (enqueue_now j G s)
    then show ?thesis
      using parseable_job(1) [OF enqueue_now(3,4)] assms(3) by (simp add: xadd_view payloads_ok_def payloads_xadd)
  next
    case (enqueue_later j G s runAt)
    with insert [OF _ enqueue_later(3,4)] payloads_hset_mono show ?thesis
      by (simp add: zadd_view hset_view)
  next
    case (enqueue_once j G key runAt t s s' r)
    with insert [OF _ enqueue_once(3,4)] enqueue_once_payloads [of key "ID j" runAt "marshal C (jobFields C j)" t s] show ?thesis by simp
  next
    case (claim n w now t s s' es G)
    with mono claim_payloads [OF q, of n w now t] show ?thesis by simp
  next
    case (read n w t s s' r G)
    with mono read_payloads [of n w t s] show ?thesis by simp
  next
    case (recover n idle w cur t s s' cur' rs G)
    then have "recovers (Stream c) (Group c) w t idle (view s) (view s') rs"
      using recover_spec [of s idle n w cur t] ok by auto
    with mono recover_payloads recover show ?thesis by simp
  next
    case (ack x w n i G t s s' r)
    with mono F(1) [of x w n t] show ?thesis by simp
  next
    case (extend x w n i G t s s' r)
    with mono F(2) [of x w n t] show ?thesis by simp
  next
    case (retry x w n j G runAt t s s' r)
    with insert [OF _ retry(4,5)] F(4) [of x w n runAt "ID j" "marshal C (jobFields C j)" t] show ?thesis by simp
  next
    case (dead_letter x w n i G pairs t s s' r)
    with payloads_insert [OF F(3) [of x w n pairs t] _ assms(3)] show ?thesis by simp
  next
    case (promote_due n now s s' r G)
    with mono promote_payloads [of now n s] show ?thesis by (simp add: promoteScript_def)
  next
    case (prune idle t s s' r G)
    with mono prune_payloads [of idle t s] show ?thesis by simp
  next
    case (deregister w t s s' r G)
    with mono deregister_payloads [of w t s] show ?thesis by simp
  qed
qed

lemma reachable_payloads:
  assumes "steps R C c (s, no_ghost) (s', G)" "empty_queue c (view s)"
  shows "payloads_ok C c (view s')"
  using assms(1)
proof (induction "(s, no_ghost)" "(s', G)" arbitrary: s' G rule: steps.induct)
  case steps_refl
  then show ?case using assms(2) by (simp add: payloads_ok_def payloads_def empty_queue_def)
next
  case (steps_snoc T)
  obtain t H where T: "T = (t, H)" by (cases T)
  have "sys_inv C c (view t) H"
    using reachable_inv steps_snoc(1) assms(2) by (simp add: T)
  with step_payloads [OF steps_snoc(3)] steps_snoc(2) [OF T] show ?case by (simp add: T)
qed

end

context store_queue
begin

lemma stats_replies:
  assumes "finite (dom (pel (dGroup (view s) (Stream c) (Group c))))" "finite (dom (dZset (view s) (RetryKey c)))"
  shows "xlen R (Stream c) s = int (length (dLog (view s) (Stream c)))"
    "xpending_count R (Stream c) (Group c) s = int (card (dom (pel (dGroup (view s) (Stream c) (Group c)))))"
    "xlen R (DeadLetter c) s = int (length (dLog (view s) (DeadLetter c)))"
    "zcard R (RetryKey c) s = int (card (dom (dZset (view s) (RetryKey c))))"
  using assms by (simp_all add: xlen_view xpending_count_view zcard_view)

end

section \<open>Parsing a reply\<close>

definition delivers :: "string \<Rightarrow> string \<times> fields \<times> int \<Rightarrow> job \<Rightarrow> bool" where
  "delivers w = (\<lambda>(x, fs, n) j. lease_of j = (x, w, n, entry_job (x, fs)) \<and> storable j \<and> utf8_job j)"

lemma parse_entries_ok:
  assumes "\<forall>(x, fs, n) \<in> set es. parseable C fs"
  shows "\<exists>js. parse_entries R C c w es st = (st, js) \<and> list_all2 (delivers w) es js"
  using assms
proof (induction es)
  case (Cons e es)
  obtain x fs n where e: "e = (x, fs, n)" by (cases e)
  let ?l = "\<lparr>MessageID = x, Owner = w, Token = n, Partition = 0\<rparr>"
  obtain j where j: "parseJob C x (flatToMap (flatten fs)) ?l = Inr j" and ok: "storable j" "utf8_job j"
    using Cons.prems e unfolding parseable_def by fastforce
  have "delivers w e j"
    using parseJob_ID [OF j] parseJob_Lease [OF j] ok by (simp add: delivers_def lease_of_def e)
  moreover obtain js where "parse_entries R C c w es st = (st, js)" "list_all2 (delivers w) es js"
    using Cons by auto
  ultimately show ?case
    by (simp add: e j parseOrQuarantine_def)
qed simp

lemma delivers_handed:
  assumes "list_all2 (delivers w) es js" "j \<in> set js"
  shows "lease_of j \<in> handed w es"
proof -
  obtain x fs n where "(x, fs, n) \<in> set es" "delivers w (x, fs, n) j"
    using assms by (metis in_set_conv_nth list_all2_conv_all_nth prod_cases3)
  then show ?thesis by (force simp: delivers_def handed_def)
qed

text \<open>What a caller gets: leases of its own, current, on the jobs it is given.\<close>

definition leased_to :: "Config \<Rightarrow> db \<Rightarrow> ghost \<Rightarrow> string \<Rightarrow> job \<Rightarrow> bool" where
  "leased_to c d G w j \<longleftrightarrow> lease_of j \<in> leases G \<and> Owner (Lease j) = w \<and> holds_lease c j d \<and> storable j \<and> utf8_job j"

lemma leased_toI:
  assumes "list_all2 (delivers w) es js" "j \<in> set js" "handed w es \<subseteq> leases G"
    and "\<And>x fs n. (x, fs, n) \<in> set es \<Longrightarrow> owned (Stream c) (Group c) x w n d"
  shows "leased_to c d G w j"
proof -
  obtain x fs n where e: "(x, fs, n) \<in> set es" "delivers w (x, fs, n) j"
    using assms(1,2) by (metis in_set_conv_nth list_all2_conv_all_nth prod_cases3)
  then show ?thesis
    using delivers_handed [OF assms(1,2)] assms(3) assms(4) [OF e(1)]
    by (auto simp: leased_to_def holds_lease_def delivers_def lease_of_def)
qed

context store_queue
begin

lemma payload_entry:
  "payloads_ok C c d \<Longrightarrow> map_of (dLog d (Stream c)) x = Some fs \<Longrightarrow> parseable C fs"
  unfolding payloads_ok_def using payloads_entry [OF map_of_SomeD] by blast

text \<open>The reply of a reading step, parsed.\<close>

lemma parse_reply:
  assumes "payloads_ok C c d" "\<And>x fs n. (x, fs, n) \<in> set es \<Longrightarrow> owned (Stream c) (Group c) x w n d"
    and "\<And>x fs n. (x, fs, n) \<in> set es \<Longrightarrow> map_of (dLog d (Stream c)) x = Some fs" "handed w es \<subseteq> leases G"
  shows "\<exists>js. parse_entries R C c w es st = (st, js) \<and> length js = length es \<and> (\<forall>j \<in> set js. leased_to c d G w j)"
proof -
  have "\<forall>(x, fs, n) \<in> set es. parseable C fs"
    using payload_entry [OF assms(1) assms(3)] by auto
  from parse_entries_ok [OF this, of R c w st] obtain js where
    js: "parse_entries R C c w es st = (st, js)" "list_all2 (delivers w) es js"
    by blast
  moreover have "leased_to c d G w j" if "j \<in> set js" for j
    by (rule leased_toI [OF js(2) that assms(4,2)])
  ultimately show ?thesis
    by (metis list_all2_lengthD)
qed

lemma claimReady_spec:
  assumes r: "steps R C c (s0, no_ghost) (srv st, G)" "empty_queue c (view s0)" and n: "1 \<le> limit"
  shows "\<exists>G'. steps R C c (srv st, G) (srv (fst (claimReady R C c w limit st)), G') \<and> accepted G' = accepted G \<and> acked G' = acked G \<and>
    (\<forall>js. snd (claimReady R C c w limit st) = Inr js \<longrightarrow> int (length js) \<le> limit \<and>
       (\<forall>j \<in> set js. leased_to c (view (srv (fst (claimReady R C c w limit st)))) G' w j))"
proof -
  define f where "f = claimScript R (cjson_decode C) (Stream c) (RetryKey c) (retryData c) (Group c) w limit
     (UnixMilli (wclk st)) (sclk st)"
  define es where "es = map (\<lambda>(x, fs). (x, fs, 1 :: int)) (snd (f (srv st)))"
  let ?G1 = "G\<lparr>leases := leases G \<union> handed w es\<rparr>"
  have inv: "sys_inv C c (view (srv st)) G"
    by (rule reachable_inv [OF r])
  have q: "queue_ok (cjson_decode C) (Stream c) (Group c) (RetryKey c) (retryData c) (view (srv st))"
    using inv by (simp add: sys_inv_def core_inv_def)
  have st: "step R C c (srv st, G) (fst (f (srv st)), ?G1)"
    unfolding es_def by (rule step.claim [OF n, where now = "UnixMilli (wclk st)" and t = "sclk st"]) (simp add: f_def)
  have own: "owned (Stream c) (Group c) x w m (view (fst (f (srv st)))) \<and> map_of (dLog (view (fst (f (srv st)))) (Stream c)) x = Some fs"
    if "(x, fs, m) \<in> set es" for x fs m
    using claim_owned [OF q n, of w "UnixMilli (wclk st)" "sclk st" "fst (f (srv st))" "snd (f (srv st))" x fs] that
    by (auto simp: es_def f_def)
  have "payloads_ok C c (view (fst (f (srv st))))"
    using reachable_payloads [OF steps_snoc [OF r(1) st] r(2)] .
  from parse_reply [OF this, of es w ?G1 "fst (rt f st)"] own
  obtain js where js: "parse_entries R C c w es (fst (rt f st)) = (fst (rt f st), js)" "length js = length es"
      "\<forall>j \<in> set js. leased_to c (view (fst (f (srv st)))) ?G1 w j"
    by auto
  have len: "int (length js) \<le> limit"
    using claim_limit [OF q n, of w "UnixMilli (wclk st)" "sclk st"] js(2) by (simp add: es_def f_def)
  have E: "claimReady R C c w limit st =
      (case snd (rt f st) of Inl e \<Rightarrow> (fst (rt f st), Inl (Wrapped ''claim: '' e))
       | Inr res \<Rightarrow> (case parse_entries R C c w (map (\<lambda>(x, fs). (x, fs, 1)) res) (fst (rt f st)) of (st'', js) \<Rightarrow> (st'', Inr js)))"
    by (simp add: claimReady_def f_def split: prod.split sum.split)
  show ?thesis
  proof (cases rule: rt_cases [of f st])
    case (unreached m)
    then show ?thesis by (auto simp: E intro!: exI [of _ G] steps_refl)
  next
    case (unanswered m)
    then show ?thesis using steps_snoc [OF steps_refl st] by (auto simp: E intro!: exI [of _ ?G1])
  next
    case answered
    then show ?thesis
      using steps_snoc [OF steps_refl st] js len
      by (auto simp: E es_def [symmetric] intro!: exI [of _ ?G1])
  qed
qed

text \<open>The blocking read.\<close>

lemma read_entries:
  assumes ok: "okS s" and n: "1 \<le> n" and x: "xreadgroup R (Stream c) (Group c) w n t s = (s1, q)"
    and e: "(y, fs) \<in> set (case q of None \<Rightarrow> [] | Some es \<Rightarrow> es)"
  shows "owned (Stream c) (Group c) y w 1 (view s1)" "map_of (dLog (view s1) (Stream c)) y = Some fs"
proof -
  let ?u = "take (nat n) (undelivered (dGroup (view s) (Stream c) (Group c)))"
  have v: "view s1 = ev_xreadgroup (Stream c) (Group c) w n t (view s)"
    using xreadgroup_view [of "Stream c" n "Group c" w t s] x n by simp
  have "(case q of None \<Rightarrow> [] | Some es \<Rightarrow> es) = map (\<lambda>y. (y, the (map_of (dLog (view s) (Stream c)) y))) ?u"
    using xreadgroup_reply [OF kt_stream n stream_okD(3) [OF ok], of w t] x by (simp split: list.splits)
  with e have y: "y \<in> set ?u" "fs = the (map_of (dLog (view s) (Stream c)) y)"
    by auto
  show "owned (Stream c) (Group c) y w 1 (view s1)" "map_of (dLog (view s1) (Stream c)) y = Some fs"
    using read_owned [OF ok y(1)] y(2) by (simp_all add: v)
qed

lemma read_limit:
  assumes ok: "okS s" and n: "1 \<le> n"
  shows "int (length (case snd (xreadgroup R (Stream c) (Group c) w n t s) of None \<Rightarrow> [] | Some es \<Rightarrow> es)) \<le> n"
proof -
  define u where "u = take (nat n) (undelivered (dGroup (view s) (Stream c) (Group c)))"
  have "length (case snd (xreadgroup R (Stream c) (Group c) w n t s) of None \<Rightarrow> [] | Some es \<Rightarrow> es) = length u"
    using xreadgroup_reply [OF kt_stream n stream_okD(3) [OF ok], of w t] unfolding u_def [symmetric]
    by (cases u) simp_all
  moreover have "length u \<le> nat n"
    by (simp add: u_def)
  ultimately show ?thesis
    using n by simp
qed

lemma read_spec:
  assumes r: "steps R C c (s0, no_ghost) (srv st, G)" "empty_queue c (view s0)" and n: "1 \<le> limit"
    and x: "xreadgroup R (Stream c) (Group c) w limit t (srv st) = (s1, q)"
    and es: "es = map (\<lambda>(x, fs). (x, fs, 1 :: int)) (case q of None \<Rightarrow> [] | Some es \<Rightarrow> es)"
  shows "step R C c (srv st, G) (s1, G\<lparr>leases := leases G \<union> handed w es\<rparr>)"
    and "int (length es) \<le> limit"
    and "\<exists>js. parse_entries R C c w es st' = (st', js) \<and> length js = length es \<and>
      (\<forall>j \<in> set js. leased_to c (view s1) (G\<lparr>leases := leases G \<union> handed w es\<rparr>) w j)"
proof -
  let ?G1 = "G\<lparr>leases := leases G \<union> handed w es\<rparr>"
  show st: "step R C c (srv st, G) (s1, ?G1)"
    unfolding es by (rule step.read [OF n x])
  have ok: "okS (srv st)"
    by (rule reachable_okS [OF r])
  show "int (length es) \<le> limit"
    using read_limit [OF ok n, of w t] by (simp add: es x)
  have "payloads_ok C c (view s1)"
    using reachable_payloads [OF steps_snoc [OF r(1) st] r(2)] .
  then show "\<exists>js. parse_entries R C c w es st' = (st', js) \<and> length js = length es \<and>
      (\<forall>j \<in> set js. leased_to c (view s1) ?G1 w j)"
    by (rule parse_reply) (use read_entries [OF ok n x] in \<open>auto simp: es\<close>)
qed

lemma claimBlocking_spec:
  assumes r: "steps R C c (s0, no_ghost) (srv st, G)" "empty_queue c (view s0)" and n: "1 \<le> limit"
  shows "\<exists>G'. steps R C c (srv st, G) (srv (fst (claimBlocking R C c cancelled w limit st)), G') \<and> accepted G' = accepted G \<and> acked G' = acked G \<and>
    (\<forall>js. snd (claimBlocking R C c cancelled w limit st) = Inr js \<longrightarrow> int (length js) \<le> limit \<and>
       (\<forall>j \<in> set js. leased_to c (view (srv (fst (claimBlocking R C c cancelled w limit st)))) G' w j))"
proof -
  obtain s1 q where x: "xreadgroup R (Stream c) (Group c) w limit (sclk st) (srv st) = (s1, q)"
    by (cases "xreadgroup R (Stream c) (Group c) w limit (sclk st) (srv st)")
  define es where "es = map (\<lambda>(x, fs). (x, fs, 1 :: int)) (case q of None \<Rightarrow> [] | Some es \<Rightarrow> es)"
  define st1 where "st1 = st\<lparr>blocks := tl (blocks st), srv := s1\<rparr>"
  let ?G1 = "G\<lparr>leases := leases G \<union> handed w es\<rparr>"
  note R = read_spec [OF r n x es_def]
  have s1: "steps R C c (srv st, G) (s1, ?G1)"
    by (rule steps_snoc [OF steps_refl R(1)])
  have limit: "0 \<le> limit" using n by simp
  obtain js where js: "parse_entries R C c w es st1 = (st1, js)" "length js = length es"
      "\<forall>j \<in> set js. leased_to c (view s1) ?G1 w j"
    using R(3) [of st1] by blast
  have warn: "srv (warnStuckBlock st') = srv st'" for st' :: "'r store"
    by (simp add: warnStuckBlock_def)
  define outcome where "outcome = (case blocks st of [] \<Rightarrow> Expired | b # _ \<Rightarrow> b)"
  have E: "claimBlocking R C c cancelled w limit st =
      (case outcome of
         Expired \<Rightarrow> (st\<lparr>blocks := tl (blocks st)\<rparr>, Inr [])
       | Served \<Rightarrow> (case q of None \<Rightarrow> (st1, Inr [])
                    | Some _ \<Rightarrow> (case parse_entries R C c w es st1 of (st2, js) \<Rightarrow> (st2, Inr js)))
       | GaveUp late \<Rightarrow>
           (let st2 = (if late then st1 else st\<lparr>blocks := tl (blocks st)\<rparr>)
            in if \<not> cancelled then (warnStuckBlock st2, Inr [])
               else (st2, Inl (Wrapped (''xreadgroup for '' @ w @ '': '') (ErrExternal ''deadline exceeded''))))
       | Failed late m \<Rightarrow> (if late then st1 else st\<lparr>blocks := tl (blocks st)\<rparr>,
           Inl (Wrapped (''xreadgroup for '' @ w @ '': '') (ErrExternal m))))"
    by (simp add: claimBlocking_def x Let_def es_def st1_def outcome_def split: block.split option.split)
  have srv1: "srv st1 = s1" by (simp add: st1_def)
  show ?thesis
  proof (cases outcome)
    case Served
    then show ?thesis
      using s1 js R(2) limit by (cases q) (auto simp: E srv1 intro!: exI [of _ ?G1])
  next
    case Expired
    then show ?thesis
      using limit by (auto simp: E intro!: exI [of _ G] steps_refl)
  next
    case (GaveUp late)
    then show ?thesis
      using limit s1 by (cases late) (auto simp: E Let_def warn srv1 intro: steps_refl)
  next
    case (Failed late m)
    then show ?thesis
      using s1 by (cases late) (auto simp: E srv1 intro: steps_refl)
  qed
qed

lemma RecoverExpired_spec:
  assumes r: "steps R C c (s0, no_ghost) (srv st, G)" "empty_queue c (view s0)" and v: "1 \<le> Milliseconds vis"
  shows "\<exists>G'. steps R C c (srv st, G) (srv (fst (Store_RecoverExpired R C c vis w limit st)), G') \<and> accepted G' = accepted G \<and> acked G' = acked G \<and>
    (\<forall>js. snd (Store_RecoverExpired R C c vis w limit st) = Inr js \<longrightarrow> int (length js) \<le> max limit 0 \<and>
       (\<forall>j \<in> set js. leased_to c (view (srv (fst (Store_RecoverExpired R C c vis w limit st)))) G' w j))"
proof (cases "limit \<le> 0")
  case True
  then show ?thesis
    by (auto simp: Store_RecoverExpired_def intro!: exI [of _ G] steps_refl)
next
  case False
  then have n: "1 \<le> limit" by simp
  define st1 where "st1 = (if prune_due c st then fst (pruneConsumers R c (st\<lparr>lastPrune := wclk st\<rparr>)) else st)"
  have p1: "steps R C c (srv st, G) (srv st1, G)"
  proof (cases "prune_due c st")
    case True
    let ?f = "pruneConsumersScript R (Stream c) (Group c) (Milliseconds (ConsumerIdleTimeout c)) (sclk st)"
    have "srv st1 = srv (fst (rt ?f (st\<lparr>lastPrune := wclk st\<rparr>)))"
      using True by (simp add: st1_def pruneConsumers_def split: prod.split sum.split)
    with rt_srv [of ?f "st\<lparr>lastPrune := wclk st\<rparr>"] step.prune [of R c "Milliseconds (ConsumerIdleTimeout c)" "sclk st" "srv st" _ _ C G, OF prod.collapse [symmetric]]
    show ?thesis by (auto intro: steps.intros)
  qed (simp add: st1_def steps_refl)
  have r1: "steps R C c (s0, no_ghost) (srv st1, G)"
    by (rule steps_trans [OF r(1) p1])
  define f where "f = recoverScript R (Stream c) (Group c) w (Milliseconds vis) limit (recoverCursor st) (sclk st1)"
  obtain s2 cur rs where f: "f (srv st1) = (s2, Some (cur, rs))"
      and rec: "recovers (Stream c) (Group c) w (sclk st1) (Milliseconds vis) (view (srv st1)) (view s2) rs"
      and len: "int (length rs) \<le> limit"
    using recover_spec [OF reachable_okS [OF r1 r(2)] v n, of w "recoverCursor st" "sclk st1"] unfolding f_def by blast
  let ?G1 = "G\<lparr>leases := leases G \<union> handed w rs\<rparr>"
  have st: "step R C c (srv st1, G) (s2, ?G1)"
    by (rule step.recover [OF n v f [unfolded f_def]])
  have p2: "steps R C c (srv st, G) (s2, ?G1)"
    by (rule steps_snoc [OF p1 st])
  have pl: "payloads_ok C c (view s2)"
    using reachable_payloads [OF steps_snoc [OF r1 st] r(2)] .
  define st2 where "st2 = (fst (rt f st1))\<lparr>recoverCursor := cur\<rparr>"
  obtain js where js: "parse_entries R C c w rs st2 = (st2, js)" "length js = length rs"
      "\<forall>j \<in> set js. leased_to c (view s2) ?G1 w j"
    using parse_reply [OF pl, of rs w ?G1 st2] recovers_fences(2,3) [OF rec reachable_okS [OF r1 r(2)]] by auto
  have E: "Store_RecoverExpired R C c vis w limit st =
      (case snd (rt f st1) of
         Inl e \<Rightarrow> (fst (rt f st1), Inl e)
       | Inr None \<Rightarrow> (fst (rt f st1), Inl (ErrExternal ''script error''))
       | Inr (Some (cur, es)) \<Rightarrow>
           (case parse_entries R C c w es ((fst (rt f st1))\<lparr>recoverCursor := cur\<rparr>) of (st3, js) \<Rightarrow> (st3, Inr js)))"
    using False by (simp add: Store_RecoverExpired_def Let_def f_def st1_def [symmetric] split: prod.split sum.split option.split)
  show ?thesis
  proof (cases rule: rt_cases [of f st1])
    case (unreached m)
    then show ?thesis using p1 by (auto simp: E)
  next
    case (unanswered m)
    then show ?thesis using p2 by (auto simp: E f)
  next
    case answered
    then show ?thesis
      using p2 js len by (auto simp: E f st2_def [symmetric] intro!: exI [of _ ?G1]) (simp_all add: st2_def)
  qed
qed

end

section \<open>Claiming and recovering through the store\<close>



text \<open>
  \<^verbatim>\<open>RecoverExpired\<close> takes over expired deliveries safely from any reachable state and
  under any network: it changes the server by protocol steps only (pruning idle consumers on
  the way when that is due), and every job it returns, at most \<^verbatim>\<open>limit\<close> of them, is
  leased to the calling worker under the message's current lease.
\<close>

theorem RecoverExpired_returns_own_leases:
  assumes "store_queue R view kt xle C c" "empty_queue c (view s0)" "steps R C c (s0, no_ghost) (srv st, G)"
    and "1 \<le> Milliseconds visibilityTimeout"
  shows "\<exists>G'. steps R C c (srv st, G) (srv (fst (Store_RecoverExpired R C c visibilityTimeout w limit st)), G') \<and>
    (\<forall>js. snd (Store_RecoverExpired R C c visibilityTimeout w limit st) = Inr js \<longrightarrow> int (length js) \<le> max limit 0 \<and>
       (\<forall>j \<in> set js. leased_to c (view (srv (fst (Store_RecoverExpired R C c visibilityTimeout w limit st)))) G' w j))"
  using store_queue.RecoverExpired_spec [OF assms(1,3,2,4)] by blast

theorem RecoverExpired_returns_own_leases_witness:
  "\<exists>G'. steps ref_redis ref_codec ref_config (fst demo_recover, demo_ghost)
     (srv (fst (Store_RecoverExpired ref_redis ref_codec ref_config second ''w3'' 5 (demo_store (fst demo_recover)))), G')"
proof -
  have "1 \<le> Milliseconds second"
    by (simp add: Milliseconds_def second_def)
  with RecoverExpired_returns_own_leases [OF refq.store_queue_axioms empty_server_queue, of "demo_store (fst demo_recover)" demo_ghost second "''w3''" 5]
    demo_steps show ?thesis by auto
qed

section \<open>Round trip of a job\<close>

text \<open>
  A job survives storage: what a worker parses from the entry written by \<^verbatim>\<open>Enqueue\<close>,
  or from the JSON the schedule stores and the server decodes, is the job that was enqueued,
  under the worker's lease and without the idempotency key, which only the enqueue needs.
\<close>

theorem stored_job_parses_back:
  assumes "codec_laws C" "storable j" "utf8_job j"
  shows "parseJob C x (flatToMap (flatten (jobFields C j))) l = Inr (j\<lparr>IdempotencyKey := [], Lease := l\<rparr>) \<and>
    parseJob C x (flatToMap (flatten (cjson_decode C (marshal C (jobFields C j))))) l =
      Inr (j\<lparr>IdempotencyKey := [], Lease := l\<rparr>)"
proof -
  have "map_of (flatToMap (flatten (jobFields C j))) = map_of (jobFields C j)"
    by (simp add: field_distinct)
  from parseJob_cong [OF this] codec_laws.parse_jobFields [OF assms(1,2)]
    codec_laws.parse_decode_jobFields [OF assms] show ?thesis by simp
qed

theorem stored_job_parses_back_witness:
  "parseJob ref_codec ''1-0'' (flatToMap (flatten (jobFields ref_codec demo_job))) no_lease =
     Inr (demo_job\<lparr>IdempotencyKey := [], Lease := no_lease\<rparr>)"
  using stored_job_parses_back [OF ref_codec.codec_laws_axioms demo_job_ok(1,2), of "''1-0''" no_lease] by simp

section \<open>Batches\<close>

fun one_by_one :: "(job \<Rightarrow> 'r store \<Rightarrow> 'r store \<times> err option) \<Rightarrow> job list \<Rightarrow> 'r store \<Rightarrow> 'r store \<times> err option list" where
  "one_by_one f [] st = (st, [])"
| "one_by_one f (j # js) st = (case f j st of (st1, r) \<Rightarrow> (case one_by_one f js st1 of (st2, rs) \<Rightarrow> (st2, r # rs)))"

lemma one_by_one_run_each:
  assumes "net st = []"
    and "\<And>j st. f j st = fenced_call (g (MessageID (Lease j)) (Owner (Lease j)) (Token (Lease j)) (sclk st)) st"
  shows "one_by_one f js st =
    (st\<lparr>srv := fst (run_each (\<lambda>x w n. g x w n (sclk st)) (lease_triples js) (srv st))\<rparr>,
     map (\<lambda>n. if n = 0 then Some ErrLeaseLost else None) (snd (run_each (\<lambda>x w n. g x w n (sclk st)) (lease_triples js) (srv st))))"
  using assms(1)
proof (induction js arbitrary: st)
  case Nil
  then show ?case by (simp add: lease_triples_def)
next
  case (Cons j js)
  obtain s1 r where s1: "g (MessageID (Lease j)) (Owner (Lease j)) (Token (Lease j)) (sclk st) (srv st) = (s1, r)"
    by (cases "g (MessageID (Lease j)) (Owner (Lease j)) (Token (Lease j)) (sclk st) (srv st)")
  have f: "f j st = (st\<lparr>srv := s1\<rparr>, if r = 0 then Some ErrLeaseLost else None)"
    using Cons.prems s1 by (simp add: assms(2) fenced_call_def)
  obtain s2 rs where s2: "run_each (\<lambda>x w n. g x w n (sclk st)) (lease_triples js) s1 = (s2, rs)"
    by (cases "run_each (\<lambda>x w n. g x w n (sclk st)) (lease_triples js) s1")
  from Cons.IH [of "st\<lparr>srv := s1\<rparr>"] Cons.prems s2 show ?case
    by (simp add: f s1 lease_triples_def)
qed

lemma map_nth_results:
  "length res = length js \<Longrightarrow>
   map (\<lambda>i. if length js \<le> i \<or> res ! i = 0 then Some ErrLeaseLost else None) [0..<length js] =
   map (\<lambda>n :: int. if n = 0 then Some ErrLeaseLost else None) res"
  by (rule nth_equalityI) auto

text \<open>
  C20. A batch of acks or extensions is equivalent to its single calls: on a reliable network
  \<^verbatim>\<open>AckBatch\<close> and \<^verbatim>\<open>ExtendBatch\<close> leave the server as calling \<^verbatim>\<open>Ack\<close> or
  \<^verbatim>\<open>Extend\<close> for one job after the other does, and report the same error for each job.
\<close>

theorem batch_is_single_calls:
  assumes "net st = []"
  shows "Store_AckBatch R c js st = one_by_one (Store_Ack R c) js st \<and>
    Store_ExtendBatch R c js st = one_by_one (Store_Extend R c) js st"
proof -
  have len: "length (snd (run_each f (lease_triples js) s)) = length js" for f s
    by (simp add: run_each_length lease_triples_def)
  show ?thesis
    using assms
    by (simp add: one_by_one_run_each [of st "Store_Ack R c" "ackScript R (Stream c) (Group c)"]
        one_by_one_run_each [of st "Store_Extend R c" "extendScript R (Stream c) (Group c)"]
        Store_Ack_def Store_Extend_def Store_AckBatch_def Store_ExtendBatch_def fencedBatch_def
        ackBatch_run_each extendBatch_run_each map_nth_results len)
qed

theorem batch_is_single_calls_witness:
  "Store_AckBatch ref_redis ref_config [demo_run ''w1'' 1, demo_run ''w2'' 2] (demo_store (fst demo_recover)) =
   one_by_one (Store_Ack ref_redis ref_config) [demo_run ''w1'' 1, demo_run ''w2'' 2] (demo_store (fst demo_recover))"
  using batch_is_single_calls [of "demo_store (fst demo_recover)"] by simp

section \<open>Statistics\<close>

lemma steps_finite: "steps R C c S S' \<Longrightarrow> finite (accepted (snd S)) \<Longrightarrow> finite (accepted (snd S'))"
proof (induction rule: steps.induct)
  case (steps_snoc S T U)
  from steps_snoc(2) steps_snoc(3) [OF steps_snoc(4)] show ?case by (cases rule: step.cases) auto
qed

lemma sys_inv_scheduled:
  assumes "sys_inv C c d G" shows "dom (dZset d (RetryKey c)) \<subseteq> accepted G"
proof -
  have "dom (dZset d (RetryKey c)) = dom (dHash d (retryData c))" "conserved c d G"
    using assms by (auto simp: sys_inv_def core_inv_def queue_ok_def sched_ok_def)
  with conserved_absent [of c d G] show ?thesis by blast
qed

text \<open>
  The statistics are exact and consistent: in every reachable state \<^verbatim>\<open>Stats\<close> reports
  the number of stream entries, pending deliveries, dead-lettered and scheduled jobs, and the
  jobs in flight never exceed the stream's length.
\<close>

theorem Stats_exact:
  assumes "store_queue R view kt xle C c" "empty_queue c (view s0)" "steps R C c (s0, no_ghost) (srv st, G)"
    and "net st = []"
  shows "\<exists>r. snd (Store_Stats R c st) = Inr r \<and> StreamLength r = int (length (dLog (view (srv st)) (Stream c))) \<and>
    InFlight r = int (card (dom (pel (dGroup (view (srv st)) (Stream c) (Group c))))) \<and>
    DeadLetterDepth r = int (length (dLog (view (srv st)) (DeadLetter c))) \<and>
    RetryScheduled r = int (card (dom (dZset (view (srv st)) (RetryKey c)))) \<and> InFlight r \<le> StreamLength r"
proof -
  have ok: "stream_ok (Stream c) (Group c) (view (srv st))"
    by (rule store_queue.reachable_okS [OF assms(1,3,2)])
  have sub: "dom (pel (dGroup (view (srv st)) (Stream c) (Group c))) \<subseteq> ids_of (dLog (view (srv st)) (Stream c))"
    using stream_okD(4) [OF ok] by auto
  then have fin: "finite (dom (pel (dGroup (view (srv st)) (Stream c) (Group c))))"
    by (rule finite_subset) simp
  have le: "card (dom (pel (dGroup (view (srv st)) (Stream c) (Group c)))) \<le> length (dLog (view (srv st)) (Stream c))"
    using card_mono [OF _ sub] card_image_le [of "set (dLog (view (srv st)) (Stream c))" fst]
      card_length [of "dLog (view (srv st)) (Stream c)"] by simp
  have "finite (accepted G)"
    using steps_finite [OF assms(3)] by (simp add: no_ghost_def)
  then have "finite (dom (dZset (view (srv st)) (RetryKey c)))"
    using sys_inv_scheduled [OF store_queue.reachable_inv [OF assms(1,3,2)]] by (rule finite_subset [rotated])
  then show ?thesis
    using store_queue.stats_replies [OF assms(1) fin] assms(4) le by (simp add: Store_Stats_def)
qed

theorem Stats_exact_witness:
  "\<exists>r. snd (Store_Stats ref_redis ref_config (demo_store (fst demo_recover))) = Inr r \<and> InFlight r \<le> StreamLength r"
  using Stats_exact [OF refq.store_queue_axioms empty_server_queue, of "demo_store (fst demo_recover)" demo_ghost] demo_steps
  by auto

end
