(* ===== verification/Backend.thy ===== *)
theory Backend
  imports ClaimSpecs
begin

text \<open>
  \<^verbatim>\<open>queue/backend.go\<close> and \<^verbatim>\<open>queue/metrics.go\<close>: the interface between the queue's front end
  and its storage. A backend is a record of operations over a state \<open>'b\<close>; the batch
  operations and \<^verbatim>\<open>Deregister\<close> are optional, as the type assertions in the code make
  them. Operations that return jobs return them together with an error, since a sharded
  backend can fail after leasing some. The single-stream store is a backend.
\<close>

section \<open>The interface\<close>

record 'b backend =
  bEnqueue :: "job \<Rightarrow> 'b \<Rightarrow> 'b \<times> (err + string)"
  bClaim :: "string \<Rightarrow> int \<Rightarrow> int \<Rightarrow> 'b \<Rightarrow> 'b \<times> job list \<times> err option"
  bRecoverExpired :: "int \<Rightarrow> string \<Rightarrow> int \<Rightarrow> 'b \<Rightarrow> 'b \<times> job list \<times> err option"
  bExtend :: "job \<Rightarrow> 'b \<Rightarrow> 'b \<times> err option"
  bAck :: "job \<Rightarrow> 'b \<Rightarrow> 'b \<times> err option"
  bRetry :: "job \<Rightarrow> int \<Rightarrow> 'b \<Rightarrow> 'b \<times> err option"
  bDeadLetter :: "job \<Rightarrow> string \<Rightarrow> 'b \<Rightarrow> 'b \<times> err option"
  bStats :: "'b \<Rightarrow> 'b \<times> (err + Stats)"
  bEnqueueBatch :: "(job list \<Rightarrow> 'b \<Rightarrow> 'b \<times> string list \<times> err option) option"
  bAckBatch :: "(job list \<Rightarrow> 'b \<Rightarrow> 'b \<times> err option list) option"
  bExtendBatch :: "(job list \<Rightarrow> 'b \<Rightarrow> 'b \<times> err option list) option"
  bDeregister :: "(string \<Rightarrow> 'b \<Rightarrow> 'b \<times> err option) option"

text \<open>The calls the metrics interface can receive.\<close>

datatype event =
    JobEnqueued job
  | JobStarted job
  | JobCompleted job
  | JobFailed job bool
  | JobRetried job
  | JobDeadLettered job
  | JobLeaseLost job
  | StatsObserved Stats

section \<open>The store as a backend\<close>

definition jobs_and_error :: "'b \<times> (err + 'a list) \<Rightarrow> 'b \<times> 'a list \<times> err option" where
  "jobs_and_error = (\<lambda>(b, r). (b, case r of Inl e \<Rightarrow> ([], Some e) | Inr xs \<Rightarrow> (xs, None)))"

definition store_backend :: "'r redis \<Rightarrow> codec \<Rightarrow> Config \<Rightarrow> ('r \<Rightarrow> 'r) \<Rightarrow> bool \<Rightarrow> 'r store backend" where
  "store_backend R C c env cancelled =
     \<lparr>bEnqueue = Store_Enqueue R C c,
      bClaim = (\<lambda>w limit wait st. jobs_and_error (Store_Claim R C c env cancelled w limit wait st)),
      bRecoverExpired = (\<lambda>vis w limit st. jobs_and_error (Store_RecoverExpired R C c vis w limit st)),
      bExtend = Store_Extend R c, bAck = Store_Ack R c, bRetry = Store_Retry R C c, bDeadLetter = Store_DeadLetter R C c,
      bStats = Store_Stats R c,
      bEnqueueBatch = Some (\<lambda>js st. jobs_and_error (Store_EnqueueBatch R C c js st)),
      bAckBatch = Some (Store_AckBatch R c), bExtendBatch = Some (Store_ExtendBatch R c),
      bDeregister = Some (Store_Deregister R c)\<rparr>"

section \<open>The contract of the settling operations\<close>

text \<open>
  What the worker relies on: with \<open>ok\<close> an invariant of the backend's state and \<open>holds\<close>
  saying whether a job's lease is the current one, the operations keep the invariant, report
  success only to the holder, report a lost lease only to someone else, and do not change the
  stored state \<open>data\<close> for anyone but the holder.
\<close>

locale fenced_backend =
  fixes B :: "'b backend"
    and ok :: "'b \<Rightarrow> bool"
    and holds :: "job \<Rightarrow> 'b \<Rightarrow> bool"
    and data :: "'b \<Rightarrow> 'd"
  assumes settle_ok: "ok b \<Longrightarrow> f \<in> {bAck B j, bExtend B j} \<union> range (bRetry B j) \<union> range (bDeadLetter B j) \<Longrightarrow> ok (fst (f b))"
    and settle_held: "ok b \<Longrightarrow> f \<in> {bAck B j, bExtend B j} \<union> range (bRetry B j) \<union> range (bDeadLetter B j) \<Longrightarrow>
      snd (f b) = None \<Longrightarrow> holds j b"
    and settle_lost: "ok b \<Longrightarrow> f \<in> {bAck B j, bExtend B j} \<union> range (bRetry B j) \<union> range (bDeadLetter B j) \<Longrightarrow>
      snd (f b) = Some ErrLeaseLost \<Longrightarrow> \<not> holds j b"
    and settle_stale: "ok b \<Longrightarrow> f \<in> {bAck B j, bExtend B j} \<union> range (bRetry B j) \<union> range (bDeadLetter B j) \<Longrightarrow>
      \<not> holds j b \<Longrightarrow> data (fst (f b)) = data b"

text \<open>The invariant the store keeps on its own: the queue's data are well formed.\<close>

definition store_ok :: "('r \<Rightarrow> db) \<Rightarrow> codec \<Rightarrow> Config \<Rightarrow> 'r store \<Rightarrow> bool" where
  "store_ok view C c st \<longleftrightarrow> stream_ok (Stream c) (Group c) (view (srv st))"

context store_queue
begin

lemma settling_backend:
  "{bAck (store_backend R C c env cancelled) j, bExtend (store_backend R C c env cancelled) j} \<union>
     range (bRetry (store_backend R C c env cancelled) j) \<union> range (bDeadLetter (store_backend R C c env cancelled) j) =
   settling R C c j"
  by (simp add: store_backend_def settling_def)

lemma okS_fenced:
  assumes "okS s"
  shows "okS (fst (ackScript R (Stream c) (Group c) x w n t s))" "okS (fst (extendScript R (Stream c) (Group c) x w n t s))"
    "okS (fst (retryScript R (Stream c) (RetryKey c) (retryData c) (Group c) x w n runAt i json t s))"
    "okS (fst (deadLetterScript R (Stream c) (DeadLetter c) (Group c) x w n pairs t s))"
proof -
  show "okS (fst (ackScript R (Stream c) (Group c) x w n t s))"
    using assms by (cases rule: ack.result_cases [OF assms, of x w n t]) (simp_all add: stream_ok_settled)
  show "okS (fst (extendScript R (Stream c) (Group c) x w n t s))"
    using assms by (cases rule: ext.result_cases [OF assms, of x w n t]) (simp_all add: stream_ok_xclaim)
  show "okS (fst (retryScript R (Stream c) (RetryKey c) (retryData c) (Group c) x w n runAt i json t s))"
    using assms by (cases rule: ret.result_cases [OF assms, of x w n runAt i json t]) (simp_all add: stream_ok_settled)
  show "okS (fst (deadLetterScript R (Stream c) (DeadLetter c) (Group c) x w n pairs t s))"
    using assms by (cases rule: dlq.result_cases [OF assms, of x w n pairs t]) (simp_all add: stream_ok_settled)
qed

lemma settling_okS:
  assumes "f \<in> settling R C c j" "okS (srv st)"
  shows "okS (srv (fst (f st)))"
proof -
  have call: "okS (srv (fst (fenced_call script st)))" if "okS (fst (script (srv st)))" for script
    using rt_srv [of script st] that assms(2) by (auto simp: fenced_call_rt)
  from assms(1) show ?thesis
    unfolding settling_def
    by (elim UnE insertE rangeE emptyE)
      (auto simp: Store_Ack_def Store_Extend_def Store_Retry_def Store_DeadLetter_def Let_def
        intro!: call okS_fenced [OF assms(2)])
qed

end

sublocale store_queue \<subseteq> store: fenced_backend "store_backend R C c env cancelled" "store_ok view C c"
  "\<lambda>j st. holds_lease c j (view (srv st))" srv
  for env :: "'r \<Rightarrow> 'r" and cancelled :: bool
  by unfold_locales
    (simp_all only: settling_backend store_ok_def settling_okS settling_result(1,2,3) not_False_eq_True)

context store_queue
begin

lemmas store_fenced = store.fenced_backend_axioms

end

section \<open>The contract of the leasing operations\<close>

text \<open>
  A claim or a recovery keeps the invariant and returns at most the number of jobs asked for;
  the batch operations keep the invariant and answer for every job.
\<close>

locale leasing_backend = fenced_backend B ok holds data
  for B :: "'b backend" and ok :: "'b \<Rightarrow> bool" and holds :: "job \<Rightarrow> 'b \<Rightarrow> bool" and data :: "'b \<Rightarrow> 'd" +
  fixes timeout_ok :: "int \<Rightarrow> bool"
  assumes claim_keeps: "ok b \<Longrightarrow> 1 \<le> limit \<Longrightarrow> bClaim B w limit wait b = (b', js, e) \<Longrightarrow> ok b' \<and> int (length js) \<le> limit"
    and recover_keeps: "ok b \<Longrightarrow> 1 \<le> limit \<Longrightarrow> timeout_ok vis \<Longrightarrow> bRecoverExpired B vis w limit b = (b', js, e) \<Longrightarrow>
      ok b' \<and> int (length js) \<le> limit"
    and ack_batch_keeps: "bAckBatch B = Some f \<Longrightarrow> ok b \<Longrightarrow> ok (fst (f js b)) \<and> length (snd (f js b)) = length js"
    and extend_batch_keeps: "bExtendBatch B = Some f \<Longrightarrow> ok b \<Longrightarrow> ok (fst (f js b)) \<and> length (snd (f js b)) = length js"

locale shared_store = store_queue R view kt xle C c
  for R :: "'r redis" and view :: "'r \<Rightarrow> db" and kt :: "string \<Rightarrow> ktype" and xle :: "string \<Rightarrow> string \<Rightarrow> bool"
    and C :: codec and c :: Config +
  fixes env :: "'r \<Rightarrow> 'r" and cancelled :: bool
  assumes env_ok: "stream_ok (Stream c) (Group c) (view s) \<Longrightarrow> stream_ok (Stream c) (Group c) (view (env s))"

context store_queue
begin

lemma promote_okS: "okS s \<Longrightarrow> okS (fst (promote R dec (RetryKey c) (retryData c) (Stream c) now n s))"
proof -
  have one: "okS s \<Longrightarrow> okS (promote_one R dec (RetryKey c) (retryData c) (Stream c) i s)" for i s
    by (simp add: promote_one_view stream_ok_xadd xadd_fresh split: option.split)
  have "okS s \<Longrightarrow> okS (promote_all R dec (RetryKey c) (retryData c) (Stream c) is s)" for "is" s
    by (induction "is" arbitrary: s) (simp_all add: one)
  then show "okS s \<Longrightarrow> okS (fst (promote R dec (RetryKey c) (retryData c) (Stream c) now n s))"
    by (simp add: promote_def Let_def)
qed

lemma read_okS:
  assumes "okS s" "1 \<le> n"
  shows "okS (fst (xreadgroup R (Stream c) (Group c) w n t s))"
    and "int (length (case snd (xreadgroup R (Stream c) (Group c) w n t s) of None \<Rightarrow> [] | Some es \<Rightarrow> es)) \<le> n"
  using assms read_limit [OF assms] by (simp_all add: xreadgroup_view stream_ok_xreadgroup)

lemma claim_okS:
  assumes "okS s" "1 \<le> n"
  shows "okS (fst (claimScript R dec (Stream c) (RetryKey c) (retryData c) (Group c) w n now t s))"
    and "int (length (snd (claimScript R dec (Stream c) (RetryKey c) (retryData c) (Group c) w n now t s))) \<le> n"
  using read_okS [OF promote_okS [OF assms(1), of dec now 100] assms(2), of w t]
  by (auto simp: claimScript_def Let_def split: prod.splits option.splits)

lemma prune_okS:
  assumes "okS s" shows "okS (fst (pruneConsumersScript R (Stream c) (Group c) idle t s))"
  using prune_each_frame [of "Group c" idle "xinfo_consumers R (Stream c) (Group c) t s" s] prune_spec(1) [of idle t s] assms
  unfolding stream_ok_def by (simp add: pruneConsumersScript_def)

lemma parse_entries_okS:
  "okS (srv st) \<Longrightarrow> okS (srv (fst (parse_entries R C c w es st))) \<and> length (snd (parse_entries R C c w es st)) \<le> length es"
proof (induction es arbitrary: st)
  case (Cons e es)
  obtain x fs n where e: "e = (x, fs, n)" by (cases e)
  let ?l = "\<lparr>MessageID = x, Owner = w, Token = n, Partition = 0\<rparr>"
  obtain st1 r where p: "parseOrQuarantine R C c x (flatToMap (flatten fs)) ?l st = (st1, r)"
    by (cases "parseOrQuarantine R C c x (flatToMap (flatten fs)) ?l st")
  have "okS (srv st1)"
  proof (cases "parseJob C x (flatToMap (flatten fs)) ?l")
    case (Inr j)
    with p Cons.prems show ?thesis by (simp add: parseOrQuarantine_def)
  next
    case (Inl err)
    let ?f = "deadLetterScript R (Stream c) (DeadLetter c) (Group c) x w n
      ((''reason'', ''malformed entry: '' @ Error err) # drop_key ''reason'' (flatToMap (flatten fs))) (sclk st)"
    have "st1 = fst (rt ?f st)"
      using p Inl by (simp add: parseOrQuarantine_def Let_def fenced_call_rt)
    with rt_srv [of ?f st] okS_fenced(4) [OF Cons.prems] Cons.prems show ?thesis by auto
  qed
  from Cons.IH [OF this] show ?case
    by (auto simp: e p split: prod.split option.split)
qed simp

end

context shared_store
begin

lemma claimReady_okS:
  assumes "okS (srv st)" "1 \<le> limit"
  shows "okS (srv (fst (claimReady R C c w limit st)))"
    and "snd (claimReady R C c w limit st) = Inr js \<Longrightarrow> int (length js) \<le> limit"
proof -
  define f where "f = claimScript R (cjson_decode C) (Stream c) (RetryKey c) (retryData c) (Group c) w limit
     (UnixMilli (wclk st)) (sclk st)"
  have f: "okS (fst (f (srv st)))" "int (length (snd (f (srv st)))) \<le> limit"
    using claim_okS [OF assms] by (simp_all add: f_def)
  have ok: "okS (srv (fst (rt f st)))"
    using rt_srv [of f st] f(1) assms(1) by auto
  have E: "claimReady R C c w limit st =
      (case snd (rt f st) of Inl e \<Rightarrow> (fst (rt f st), Inl (Wrapped ''claim: '' e))
       | Inr res \<Rightarrow> (case parse_entries R C c w (map (\<lambda>(x, fs). (x, fs, 1)) res) (fst (rt f st)) of (st'', js) \<Rightarrow> (st'', Inr js)))"
    by (simp add: claimReady_def f_def split: prod.split sum.split)
  note P = parse_entries_okS [OF ok, of w "map (\<lambda>(x, fs). (x, fs, 1)) (snd (f (srv st)))"]
  show "okS (srv (fst (claimReady R C c w limit st)))"
    using ok P by (cases rule: rt_cases [of f st]) (auto simp: E split: prod.split)
  show "snd (claimReady R C c w limit st) = Inr js \<Longrightarrow> int (length js) \<le> limit"
    using P f(2) by (cases rule: rt_cases [of f st]) (auto simp: E split: prod.splits)
qed

lemma claimBlocking_okS:
  assumes "okS (srv st)" "1 \<le> limit"
  shows "okS (srv (fst (claimBlocking R C c cancelled w limit st)))"
    and "snd (claimBlocking R C c cancelled w limit st) = Inr js \<Longrightarrow> int (length js) \<le> limit"
proof -
  obtain s1 q where x: "xreadgroup R (Stream c) (Group c) w limit (sclk st) (srv st) = (s1, q)"
    by (cases "xreadgroup R (Stream c) (Group c) w limit (sclk st) (srv st)")
  have s1: "okS s1" and q: "q = Some es \<Longrightarrow> int (length es) \<le> limit" for es
    using read_okS [OF assms, of w "sclk st"] by (auto simp: x)
  have P: "okS (srv st2) \<and> length js \<le> length es"
    if "parse_entries R C c w es (st\<lparr>blocks := bs, srv := s1\<rparr>) = (st2, js)" for es bs st2 js
    using parse_entries_okS [of "st\<lparr>blocks := bs, srv := s1\<rparr>" w es] that s1 by simp
  show "okS (srv (fst (claimBlocking R C c cancelled w limit st)))"
    using P s1 assms(1)
    by (auto simp: claimBlocking_def x Let_def warnStuckBlock_def split: block.split option.split prod.split list.split)
  show "snd (claimBlocking R C c cancelled w limit st) = Inr js \<Longrightarrow> int (length js) \<le> limit"
    using P q assms(2)
    by (fastforce simp: claimBlocking_def x Let_def warnStuckBlock_def split: block.splits option.splits prod.splits list.splits if_splits)
qed

lemma Claim_okS:
  assumes "okS (srv st)" "1 \<le> limit" "Store_Claim R C c env cancelled w limit wait st = (st', r)"
  shows "okS (srv st')" and "r = Inr js \<Longrightarrow> int (length js) \<le> limit"
proof -
  obtain st1 q where c: "claimReady R C c w limit st = (st1, q)" by (cases "claimReady R C c w limit st")
  have ok1: "okS (srv st1)" "q = Inr js \<Longrightarrow> int (length js) \<le> limit" for js
    using claimReady_okS [OF assms(1,2), of w] by (simp_all add: c)
  have B: "okS (srv (st1\<lparr>srv := env (srv st1)\<rparr>))"
    using env_ok [OF ok1(1)] by simp
  show "okS (srv st')"
    using assms(3) ok1 claimBlocking_okS(1) [OF B assms(2), of w]
    by (auto simp: Store_Claim_def c split: sum.splits if_splits)
  show "r = Inr js \<Longrightarrow> int (length js) \<le> limit"
    using assms(2,3) ok1(2) claimBlocking_okS(2) [OF B assms(2), of w js]
    by (auto simp: Store_Claim_def c split: sum.splits if_splits)
qed

lemma RecoverExpired_okS:
  assumes "okS (srv st)" "1 \<le> limit" "1 \<le> Milliseconds vis" "Store_RecoverExpired R C c vis w limit st = (st', r)"
  shows "okS (srv st')" and "r = Inr js \<Longrightarrow> int (length js) \<le> limit"
proof -
  define st1 where "st1 = (if prune_due c st then fst (pruneConsumers R c (st\<lparr>lastPrune := wclk st\<rparr>)) else st)"
  have ok1: "okS (srv st1)"
  proof (cases "prune_due c st")
    case True
    let ?f = "pruneConsumersScript R (Stream c) (Group c) (Milliseconds (ConsumerIdleTimeout c)) (sclk st)"
    have "srv st1 = srv (fst (rt ?f (st\<lparr>lastPrune := wclk st\<rparr>)))"
      using True by (simp add: st1_def pruneConsumers_def split: prod.split sum.split)
    moreover have "okS (fst (?f (srv st)))"
      by (rule prune_okS [OF assms(1)])
    ultimately show ?thesis
      using rt_srv [of ?f "st\<lparr>lastPrune := wclk st\<rparr>"] assms(1) by auto
  qed (simp add: st1_def assms(1))
  define f where "f = recoverScript R (Stream c) (Group c) w (Milliseconds vis) limit (recoverCursor st) (sclk st1)"
  obtain s2 cur rs where f: "f (srv st1) = (s2, Some (cur, rs))" "okS s2" "int (length rs) \<le> limit"
    using recover_spec [OF ok1 assms(3,2), of w "recoverCursor st" "sclk st1"] unfolding f_def by blast
  have ok2: "okS (srv ((fst (rt f st1))\<lparr>recoverCursor := cur\<rparr>))"
    using rt_srv [of f st1] f ok1 by auto
  obtain st3 js' where p: "parse_entries R C c w rs ((fst (rt f st1))\<lparr>recoverCursor := cur\<rparr>) = (st3, js')"
    by (cases "parse_entries R C c w rs ((fst (rt f st1))\<lparr>recoverCursor := cur\<rparr>)")
  have P: "okS (srv st3)" "length js' \<le> length rs"
    using parse_entries_okS [OF ok2, of w rs] by (simp_all add: p)
  have E: "Store_RecoverExpired R C c vis w limit st =
      (case snd (rt f st1) of
         Inl e \<Rightarrow> (fst (rt f st1), Inl e)
       | Inr None \<Rightarrow> (fst (rt f st1), Inl (ErrExternal ''script error''))
       | Inr (Some (cur, es)) \<Rightarrow>
           (case parse_entries R C c w es ((fst (rt f st1))\<lparr>recoverCursor := cur\<rparr>) of (st3, js) \<Rightarrow> (st3, Inr js)))"
    using assms(2) by (simp add: Store_RecoverExpired_def Let_def f_def st1_def [symmetric] split: prod.split sum.split option.split)
  show "okS (srv st')"
    using assms(4) P ok2 by (cases rule: rt_cases [of f st1]) (auto simp: E f p)
  show "r = Inr js \<Longrightarrow> int (length js) \<le> limit"
    using assms(4) P f(3) by (cases rule: rt_cases [of f st1]) (auto simp: E f(1) p)
qed

lemma batch_okS:
  assumes "okS (srv st)"
  shows "okS (srv (fst (Store_AckBatch R c js st)))" "length (snd (Store_AckBatch R c js st)) = length js"
    "okS (srv (fst (Store_ExtendBatch R c js st)))" "length (snd (Store_ExtendBatch R c js st)) = length js"
proof -
  have len: "length (snd (fencedBatch script js st)) = length js" for script
    by (simp add: fencedBatch_def split: prod.split sum.split)
  have fst: "fst (fencedBatch script js st) = fst (rt (script (lease_triples js)) st)" for script
    by (simp add: fencedBatch_def split: prod.split sum.split)
  show "length (snd (Store_AckBatch R c js st)) = length js" "length (snd (Store_ExtendBatch R c js st)) = length js"
    by (simp_all add: Store_AckBatch_def Store_ExtendBatch_def len)
  have "okS (fst (ackBatchScript R (Stream c) (Group c) ds t (srv st)))"
    "okS (fst (extendBatchScript R (Stream c) (Group c) ds t (srv st)))" for ds t
    unfolding ackBatch_run_each extendBatch_run_each
    by (rule run_each_invariant [where P = okS, OF assms], rule okS_fenced, assumption)+
  then show "okS (srv (fst (Store_AckBatch R c js st)))" "okS (srv (fst (Store_ExtendBatch R c js st)))"
    using rt_srv assms unfolding Store_AckBatch_def Store_ExtendBatch_def fst by metis+
qed

end

sublocale shared_store \<subseteq> shared: leasing_backend "store_backend R C c env cancelled" "store_ok view C c"
  "\<lambda>j st. holds_lease c j (view (srv st))" srv "\<lambda>vis. 1 \<le> Milliseconds vis"
proof (unfold_locales, goal_cases)
  case (1 b limit w wait b' js e)
  then show ?case
    using Claim_okS [of b limit w wait]
    by (auto simp: store_backend_def store_ok_def jobs_and_error_def split: prod.splits sum.splits)
next
  case (2 b limit vis w b' js e)
  then show ?case
    using RecoverExpired_okS [of b limit vis w]
    by (auto simp: store_backend_def store_ok_def jobs_and_error_def split: prod.splits sum.splits)
qed (auto simp: store_backend_def store_ok_def batch_okS)

context shared_store
begin

lemmas store_leasing = shared.leasing_backend_axioms

end

end
