(* ===== verification/Queue.thy ===== *)
theory Queue
  imports Backend
begin

text \<open>
  \<^verbatim>\<open>queue/queue.go\<close> and the carrier of \<^verbatim>\<open>queue/tracing.go\<close>: the producer's side. The
  JSON encoding of a payload, the pairs the trace propagator injects and the random bytes of
  identifiers are arguments, as are the readings of the clock; the metrics calls are recorded as a list of events.
\<close>

section \<open>The trace carrier\<close>

definition traceCarrier_Get :: "job \<Rightarrow> string \<Rightarrow> string" where
  "traceCarrier_Get j key = (if key = ''traceparent'' then TraceParent j else [])"

definition traceCarrier_Set :: "string \<times> string \<Rightarrow> job \<Rightarrow> job" where
  "traceCarrier_Set = (\<lambda>(key, v) j. if key = ''traceparent'' then j\<lparr>TraceParent := v\<rparr> else j)"

text \<open>Starting the enqueue span injects the trace context into the job.\<close>

definition startEnqueueSpan :: "(job \<Rightarrow> (string \<times> string) list) \<Rightarrow> job \<Rightarrow> job" where
  "startEnqueueSpan inject j = fold traceCarrier_Set (inject j) j"

section \<open>New jobs\<close>

record 'p EnqueueRequest =
  rTask :: string
  rPayload :: 'p
  rOptions :: EnqueueOptions

definition newJob ::
  "('p \<Rightarrow> err + string) \<Rightarrow> int \<Rightarrow> 8 word list \<Rightarrow> string \<Rightarrow> 'p \<Rightarrow> EnqueueOptions \<Rightarrow> err + job" where
  [go_defs]: "newJob marshalPayload now seed task payload opts =
     (case marshalPayload payload of
        Inl e \<Rightarrow> Inl e
      | Inr raw \<Rightarrow>
          (let maxAttempts = (if oMaxAttempts opts \<le> 0 then 3 else oMaxAttempts opts);
               j = \<lparr>ID = NewJobID seed, Task = task, Payload = raw, Attempt = 0, MaxAttempts = maxAttempts,
                    TraceParent = [], CreatedAt = now, AvailableAt = now + oDelay opts,
                    IdempotencyKey = oIdempotencyKey opts, Lease = no_lease\<rparr>
           in case Validate j of Some e \<Rightarrow> Inl e | None \<Rightarrow> Inr j))"

section \<open>Enqueue\<close>

record 'b queue =
  qBackend :: 'b
  qEvents :: "event list"
  qDraws :: "(8 word list \<times> int) list"

text \<open>
  \<open>qDraws\<close> lists what the next jobs draw: the random bytes of the identifier and the
  reading of the clock. Nothing is drawn for a payload that does not encode.
\<close>

definition draw :: "('p \<Rightarrow> err + string) \<Rightarrow> 'p \<Rightarrow> 'b queue \<Rightarrow> (8 word list \<times> int) \<times> 'b queue" where
  "draw marshalPayload payload q =
     (case (marshalPayload payload, qDraws q) of
        (Inr _, d # ds) \<Rightarrow> (d, q\<lparr>qDraws := ds\<rparr>)
      | _ \<Rightarrow> (([], 0), q))"

definition Queue_Enqueue ::
  "'b backend \<Rightarrow> ('p \<Rightarrow> err + string) \<Rightarrow> (job \<Rightarrow> (string \<times> string) list) \<Rightarrow> string \<Rightarrow> 'p \<Rightarrow> EnqueueOptions \<Rightarrow>
   'b queue \<Rightarrow> 'b queue \<times> (err + string)" where
  [go_defs]: "Queue_Enqueue B marshalPayload inject task payload opts q0 =
     (case draw marshalPayload payload q0 of ((seed, now), q) \<Rightarrow>
      case newJob marshalPayload now seed task payload opts of
        Inl e \<Rightarrow> (q, Inl e)
      | Inr j0 \<Rightarrow>
          (let j = startEnqueueSpan inject j0
           in case bEnqueue B j (qBackend q) of
                (b, Inl e) \<Rightarrow> (q\<lparr>qBackend := b\<rparr>, Inl e)
              | (b, Inr i) \<Rightarrow>
                  ((if i = ID j then q\<lparr>qBackend := b, qEvents := qEvents q @ [JobEnqueued j]\<rparr> else q\<lparr>qBackend := b\<rparr>), Inr i)))"

fun new_jobs ::
  "('p \<Rightarrow> err + string) \<Rightarrow> 'p EnqueueRequest list \<Rightarrow> 'b queue \<Rightarrow> 'b queue \<times> (err + job list)" where
  "new_jobs marshalPayload [] q = (q, Inr [])"
| "new_jobs marshalPayload (r # rs) q =
     (case draw marshalPayload (rPayload r) q of ((seed, now), q1) \<Rightarrow>
      case newJob marshalPayload now seed (rTask r) (rPayload r) (rOptions r) of
        Inl e \<Rightarrow> (q1, Inl e)
      | Inr j \<Rightarrow>
          (case new_jobs marshalPayload rs q1 of
             (q2, Inl e) \<Rightarrow> (q2, Inl e)
           | (q2, Inr js) \<Rightarrow> (q2, Inr (j # js))))"

text \<open>One job after the other, until one fails; the rest keep the empty identifier.\<close>

fun enqueue_each :: "'b backend \<Rightarrow> job list \<Rightarrow> 'b \<Rightarrow> 'b \<times> string list \<times> err option" where
  "enqueue_each B [] b = (b, [], None)"
| "enqueue_each B (j # js) b =
     (case bEnqueue B j b of
        (b1, Inl e) \<Rightarrow> (b1, [] # map (\<lambda>_. []) js, Some e)
      | (b1, Inr i) \<Rightarrow> (case enqueue_each B js b1 of (b2, is, e) \<Rightarrow> (b2, i # is, e)))"

text \<open>\<^verbatim>\<open>copy(ids, got)\<close> on a slice of empty identifiers.\<close>

definition copy_ids :: "nat \<Rightarrow> string list \<Rightarrow> string list" where
  "copy_ids n got = take n got @ replicate (n - length got) []"

definition share_trace :: "(job \<Rightarrow> (string \<times> string) list) \<Rightarrow> job list \<Rightarrow> job list" where
  "share_trace inject js =
     (case js of
        [] \<Rightarrow> []
      | j # rest \<Rightarrow> (let j' = startEnqueueSpan inject j in j' # map (\<lambda>k. k\<lparr>TraceParent := TraceParent j'\<rparr>) rest))"

definition Queue_EnqueueBatch ::
  "'b backend \<Rightarrow> ('p \<Rightarrow> err + string) \<Rightarrow> (job \<Rightarrow> (string \<times> string) list) \<Rightarrow> 'p EnqueueRequest list \<Rightarrow>
   'b queue \<Rightarrow> 'b queue \<times> string list \<times> err option" where
  [go_defs]: "Queue_EnqueueBatch B marshalPayload inject reqs q0 =
     (case new_jobs marshalPayload reqs q0 of
        (q, Inl e) \<Rightarrow> (q, [], Some e)
      | (q, Inr js0) \<Rightarrow>
          if js0 = [] then (q, [], None)
          else
            let js = share_trace inject js0
            in case (case bEnqueueBatch B of
                       Some f \<Rightarrow> (case f js (qBackend q) of (b, got, e) \<Rightarrow> (b, copy_ids (length js) got, e))
                     | None \<Rightarrow> enqueue_each B js (qBackend q)) of
                 (b, ids, e) \<Rightarrow>
                   (q\<lparr>qBackend := b,
                      qEvents := qEvents q @ map JobEnqueued (map fst (filter (\<lambda>(j, i). i = ID j) (zip js ids)))\<rparr>, ids, e))"

section \<open>Lemmas\<close>

lemma startEnqueueSpan_frame [simp]:
  "ID (startEnqueueSpan inject j) = ID j" "Task (startEnqueueSpan inject j) = Task j"
  "Payload (startEnqueueSpan inject j) = Payload j" "MaxAttempts (startEnqueueSpan inject j) = MaxAttempts j"
  "Attempt (startEnqueueSpan inject j) = Attempt j" "AvailableAt (startEnqueueSpan inject j) = AvailableAt j"
  "CreatedAt (startEnqueueSpan inject j) = CreatedAt j" "IdempotencyKey (startEnqueueSpan inject j) = IdempotencyKey j"
proof -
  have "ID (fold traceCarrier_Set ps j) = ID j \<and> Task (fold traceCarrier_Set ps j) = Task j \<and>
     Payload (fold traceCarrier_Set ps j) = Payload j \<and> MaxAttempts (fold traceCarrier_Set ps j) = MaxAttempts j \<and>
     Attempt (fold traceCarrier_Set ps j) = Attempt j \<and> AvailableAt (fold traceCarrier_Set ps j) = AvailableAt j \<and>
     CreatedAt (fold traceCarrier_Set ps j) = CreatedAt j \<and>
     IdempotencyKey (fold traceCarrier_Set ps j) = IdempotencyKey j" for ps
    by (induction ps arbitrary: j) (auto simp: traceCarrier_Set_def)
  then show "ID (startEnqueueSpan inject j) = ID j" "Task (startEnqueueSpan inject j) = Task j"
    "Payload (startEnqueueSpan inject j) = Payload j" "MaxAttempts (startEnqueueSpan inject j) = MaxAttempts j"
    "Attempt (startEnqueueSpan inject j) = Attempt j" "AvailableAt (startEnqueueSpan inject j) = AvailableAt j"
    "CreatedAt (startEnqueueSpan inject j) = CreatedAt j" "IdempotencyKey (startEnqueueSpan inject j) = IdempotencyKey j"
    by (simp_all add: startEnqueueSpan_def)
qed

lemma newJob_valid:
  assumes "newJob marshalPayload now seed task payload opts = Inr j"
  shows "Validate j = None" "Attempt j = 0" "1 \<le> MaxAttempts j" "Task j = task" "ID j = NewJobID seed"
    "marshalPayload payload = Inr (Payload j)" "AvailableAt j = now + oDelay opts" "CreatedAt j = now"
    "IdempotencyKey j = oIdempotencyKey opts"
  using assms by (auto simp: newJob_def Let_def Validate_def split: sum.splits option.splits if_splits)

lemma copy_ids_length [simp]: "length (copy_ids n got) = n"
  by (simp add: copy_ids_def)

lemma enqueue_each_length: "enqueue_each B js b = (b', ids, e) \<Longrightarrow> length ids = length js"
  by (induction js arbitrary: b b' ids e) (auto split: prod.splits sum.splits)

lemma share_trace_length [simp]: "length (share_trace inject js) = length js"
  by (simp add: share_trace_def Let_def split: list.split)

lemma new_jobs_length: "new_jobs m rs q = (q', Inr js) \<Longrightarrow> length js = length rs"
  by (induction rs arbitrary: q q' js) (auto split: prod.splits sum.splits)

section \<open>Properties\<close>


definition demo_opts :: EnqueueOptions where
  "demo_opts = \<lparr>oMaxAttempts = 0, oDelay = 0, oIdempotencyKey = []\<rparr>"

definition demo_queue :: "fault list \<Rightarrow> refdb store queue" where
  "demo_queue faults = \<lparr>qBackend = (demo_store empty_server)\<lparr>net := faults\<rparr>, qEvents = [], qDraws = [(replicate 16 7, 0)]\<rparr>"

definition demo_backend :: "refdb store backend" where
  "demo_backend = store_backend ref_redis ref_codec ref_config (\<lambda>s. s) False"



definition demo_request :: "string EnqueueRequest" where
  "demo_request = \<lparr>rTask = ''email'', rPayload = ''{}'', rOptions = demo_opts\<rparr>"

lemma demo_new_jobs: "\<exists>q j. new_jobs Inr [demo_request] (demo_queue faults) = (q, Inr [j])"
  by (simp add: demo_request_def demo_queue_def draw_def newJob_def Validate_def Let_def demo_opts_def)


text \<open>
  The identifiers returned with an error do not always say which jobs were stored: when the
  server carries out the transaction but its reply is lost, \<^verbatim>\<open>EnqueueBatch\<close> returns an
  error with an empty identifier for every request although the stream now holds their jobs,
  so retrying only the requests without an identifier stores them twice.
\<close>

theorem EnqueueBatch_lost_reply:
  "snd (Queue_EnqueueBatch demo_backend Inr (\<lambda>_. []) [demo_request] (demo_queue [NoReply ''timeout''])) =
      ([[]], Some (ErrExternal ''timeout'')) \<and>
   length (sLog (srv (qBackend (fst (Queue_EnqueueBatch demo_backend Inr (\<lambda>_. []) [demo_request]
     (demo_queue [NoReply ''timeout'']))))) (Stream ref_config)) = 1"
  by code_simp

end
