(* ===== verification/Worker.thy ===== *)
theory Worker
  imports Queue
begin

text \<open>
  \<^verbatim>\<open>queue/worker.go\<close>: the consumer's side. A handler is a function from the job to its
  result; the cause with which its context was cancelled by the time it returns, if it was,
  is an argument. Settling a job is one backend call, so the body of \<^verbatim>\<open>handleOne\<close> is split
  where the code hands an ack to the group-commit loop: \<open>run_job\<close> is everything before,
  \<open>after_ack\<close> what follows the answer. \<^verbatim>\<open>Run\<close> is a state machine whose steps are the
  iterations of its loop, the phases of the job goroutines, the ack loop, the heartbeat and
  the shutdown, in any interleaving.
\<close>

section \<open>Configuration\<close>

record WorkerConfig =
  wcID :: string
  Concurrency :: int
  PollInterval :: int
  PollOnly :: bool
  VisibilityTimeout :: int
  HeartbeatInterval :: int
  ShutdownTimeout :: int
  MaxDeliveries :: int
  StatsInterval :: int
  wcRetryPolicy :: RetryPolicy

text \<open>\<^verbatim>\<open>if v <= 0 { v = d }\<close>\<close>

definition or_default :: "int \<Rightarrow> int \<Rightarrow> int" where
  [simp]: "or_default d v = (if v \<le> 0 then d else v)"

definition NewWorker :: "WorkerConfig \<Rightarrow> WorkerConfig" where
  [go_defs]: "NewWorker config =
     (let c1 = config\<lparr>Concurrency := or_default 1 (Concurrency config)\<rparr>;
          c2 = c1\<lparr>PollInterval := or_default (250 * millisecond) (PollInterval c1)\<rparr>;
          c3 = c2\<lparr>VisibilityTimeout := or_default (30 * second) (VisibilityTimeout c2)\<rparr>;
          c4 = c3\<lparr>HeartbeatInterval := or_default (VisibilityTimeout c3 div 3) (HeartbeatInterval c3)\<rparr>;
          c5 = c4\<lparr>ShutdownTimeout := or_default (VisibilityTimeout c4) (ShutdownTimeout c4)\<rparr>;
          c6 = c5\<lparr>MaxDeliveries := or_default 5 (MaxDeliveries c5)\<rparr>;
          c7 = c6\<lparr>StatsInterval := or_default (5 * second) (StatsInterval c6)\<rparr>
      in c7\<lparr>wcRetryPolicy := (if BaseDelay (wcRetryPolicy c7) \<le> 0 then DefaultRetryPolicy else wcRetryPolicy c7)\<rparr>)"

type_synonym handlers = "string \<rightharpoonup> (job \<Rightarrow> JobResult)"

text \<open>A nil handler is \<^term>\<open>None\<close>.\<close>

definition Register :: "string \<Rightarrow> (job \<Rightarrow> JobResult) option \<Rightarrow> handlers \<Rightarrow> handlers \<times> err option" where
  [go_defs]: "Register task handler hs =
     (case handler of
        None \<Rightarrow> (hs, Some ErrInvalidJob)
      | Some h \<Rightarrow> if task = [] then (hs, Some ErrInvalidJob) else (hs(task \<mapsto> h), None))"

section \<open>One job\<close>

text \<open>
  What a run draws from its surroundings: the clock, the rounding and the random number of the
  backoff, and Go's quoting of a string in an error message.
\<close>

record surroundings =
  sNow :: int
  sRound :: "rat \<Rightarrow> rat"
  sRandom :: rat
  sQuote :: "string \<Rightarrow> string"

record 'b worker =
  wBackend :: 'b
  wEvents :: "event list"

definition emit :: "event \<Rightarrow> 'b worker \<Rightarrow> 'b worker" where
  "emit e w = w\<lparr>wEvents := wEvents w @ [e]\<rparr>"

definition Worker_deadLetter :: "'b backend \<Rightarrow> job \<Rightarrow> string \<Rightarrow> 'b worker \<Rightarrow> 'b worker \<times> err option" where
  [go_defs]: "Worker_deadLetter B j reason w =
     (case bDeadLetter B j reason (wBackend w) of
        (b, Some e) \<Rightarrow> (w\<lparr>wBackend := b\<rparr>, Some e)
      | (b, None) \<Rightarrow> (emit (JobDeadLettered j) (w\<lparr>wBackend := b\<rparr>), None))"

datatype outcome = Settled "err option" | NeedsAck

definition run_job ::
  "'b backend \<Rightarrow> WorkerConfig \<Rightarrow> handlers \<Rightarrow> surroundings \<Rightarrow> err option \<Rightarrow> job \<Rightarrow> 'b worker \<Rightarrow> 'b worker \<times> outcome" where
  [go_defs]: "run_job B cfg hs S cause j w =
     (if Token (Lease j) > MaxDeliveries cfg then
        (case Worker_deadLetter B j (''delivered '' @ itoa (Token (Lease j)) @ '' times without being settled'') w of
           (w', e) \<Rightarrow> (w', Settled e))
      else case hs (Task j) of
        None \<Rightarrow>
          if Token (Lease j) \<ge> MaxDeliveries cfg then
            (case Worker_deadLetter B j (Error ErrUnknownTask @ '' '' @ sQuote S (Task j) @ '' after '' @
                    itoa (Token (Lease j)) @ '' deliveries'') w of
               (w', e) \<Rightarrow> (w', Settled e))
          else (w, Settled (Some (Suffixed ErrUnknownTask ('' '' @ sQuote S (Task j)))))
      | Some h \<Rightarrow>
          (let w1 = emit (JobStarted j) w; res = h j
           in case cause of
                Some ca \<Rightarrow> (w1, Settled (Some ca))
              | None \<Rightarrow>
                  (case Err res of
                     None \<Rightarrow> (w1, NeedsAck)
                   | Some err \<Rightarrow>
                       (let w2 = emit (JobFailed j (Retryable res)) w1
                        in if \<not> Retryable res \<or> ShouldDeadLetter j then
                             (case Worker_deadLetter B j (Error err) w2 of (w', e) \<Rightarrow> (w', Settled e))
                           else
                             let nextRunAt = sNow S + NextDelay (sRound S) (sRandom S) (wcRetryPolicy cfg) (wrap64 (Attempt j + 1))
                             in case bRetry B j nextRunAt (wBackend w2) of
                                  (b, Some e) \<Rightarrow> (w2\<lparr>wBackend := b\<rparr>, Settled (Some e))
                                | (b, None) \<Rightarrow> (emit (JobRetried j) (w2\<lparr>wBackend := b\<rparr>), Settled None)))))"

definition after_ack :: "job \<Rightarrow> err option \<Rightarrow> 'b worker \<Rightarrow> 'b worker \<times> err option" where
  [go_defs]: "after_ack j e w = (case e of Some x \<Rightarrow> (w, Some x) | None \<Rightarrow> (emit (JobCompleted j) w, None))"

text \<open>\<open>ack\<close> is how the answer to an ack is obtained: the backend's \<^verbatim>\<open>Ack\<close>, or the loop's.\<close>

definition handleOne ::
  "'b backend \<Rightarrow> WorkerConfig \<Rightarrow> handlers \<Rightarrow> surroundings \<Rightarrow> (job \<Rightarrow> 'b \<Rightarrow> 'b \<times> err option) \<Rightarrow> err option \<Rightarrow>
   job \<Rightarrow> 'b worker \<Rightarrow> 'b worker \<times> err option" where
  [go_defs]: "handleOne B cfg hs S ack cause j w =
     (case run_job B cfg hs S cause j w of
        (w1, Settled e) \<Rightarrow> (w1, e)
      | (w1, NeedsAck) \<Rightarrow> (case ack j (wBackend w1) of (b, e) \<Rightarrow> after_ack j e (w1\<lparr>wBackend := b\<rparr>)))"

definition report :: "job \<Rightarrow> err option \<Rightarrow> 'b worker \<Rightarrow> 'b worker" where
  [go_defs]: "report j e w = (case e of None \<Rightarrow> w | Some x \<Rightarrow> if errors_Is x ErrLeaseLost then emit (JobLeaseLost j) w else w)"

definition process ::
  "'b backend \<Rightarrow> WorkerConfig \<Rightarrow> handlers \<Rightarrow> surroundings \<Rightarrow> (job \<Rightarrow> 'b \<Rightarrow> 'b \<times> err option) \<Rightarrow> err option \<Rightarrow>
   job \<Rightarrow> 'b worker \<Rightarrow> 'b worker" where
  [go_defs]: "process B cfg hs S ack cause j w =
     (case handleOne B cfg hs S ack cause j w of (w1, e) \<Rightarrow> report j e w1)"

section \<open>Fetching\<close>

text \<open>\<open>now\<close> is the time of the call and \<open>now'\<close> the time after recovery returned.\<close>

definition fetch ::
  "'b backend \<Rightarrow> WorkerConfig \<Rightarrow> int \<Rightarrow> int \<Rightarrow> int \<Rightarrow> int \<Rightarrow> 'b \<Rightarrow> 'b \<times> int \<times> job list \<times> err option" where
  [go_defs]: "fetch B cfg now now' limit lastRecover b =
     (let wait = (if PollOnly cfg then 0 else PollInterval cfg);
          claim = (\<lambda>b jobs last.
            if int (length jobs) < limit then
              (case bClaim B (wcID cfg) (limit - int (length jobs)) (if length jobs > 0 then 0 else wait) b of
                 (b', claimed, None) \<Rightarrow> (b', last, jobs @ claimed, None)
               | (b', claimed, Some e) \<Rightarrow> (b', last, jobs @ claimed, Some (Wrapped ''claim: '' e)))
            else (b, last, jobs, None))
      in if now - lastRecover \<ge> PollInterval cfg then
           (case bRecoverExpired B (VisibilityTimeout cfg) (wcID cfg) limit b of
              (b1, recovered, Some e) \<Rightarrow> (b1, lastRecover, recovered, Some (Wrapped ''recover expired: '' e))
            | (b1, recovered, None) \<Rightarrow>
                claim b1 recovered (if int (length recovered) < limit then now' else lastRecover))
         else claim b [] lastRecover)"

definition next_backoff :: "WorkerConfig \<Rightarrow> int \<Rightarrow> int" where
  "next_backoff cfg backoff = min (max (wrap64 (2 * backoff)) (PollInterval cfg)) (10 * second)"

section \<open>Acks and heartbeats in batches\<close>

definition maxBatch :: nat where
  "maxBatch = 256"

definition Worker_ack :: "'b backend \<Rightarrow> job \<Rightarrow> 'b \<Rightarrow> 'b \<times> err option" where
  [go_defs]: "Worker_ack B j b = bAck B j b"

fun extend_each :: "'b backend \<Rightarrow> job list \<Rightarrow> 'b \<Rightarrow> 'b \<times> err option list" where
  "extend_each B [] b = (b, [])"
| "extend_each B (j # js) b = (case bExtend B j b of (b1, e) \<Rightarrow> (case extend_each B js b1 of (b2, es) \<Rightarrow> (b2, e # es)))"

definition Worker_extend :: "'b backend \<Rightarrow> job list \<Rightarrow> 'b \<Rightarrow> 'b \<times> err option list" where
  [go_defs]: "Worker_extend B js b = (case bExtendBatch B of Some f \<Rightarrow> f js b | None \<Rightarrow> extend_each B js b)"

text \<open>The chunks of at most \<open>n\<close> elements in which the heartbeat renews the leases it holds.\<close>

fun chunks :: "nat \<Rightarrow> nat \<Rightarrow> 'a list \<Rightarrow> 'a list list" where
  "chunks 0 n xs = []"
| "chunks (Suc fuel) n xs = (if xs = [] then [] else take n xs # chunks fuel n (drop n xs))"

definition Chunk :: "nat \<Rightarrow> 'a list \<Rightarrow> 'a list list" where
  "Chunk n xs = chunks (length xs) n xs"

section \<open>What a run does\<close>

definition settle_ops :: "'b backend \<Rightarrow> job \<Rightarrow> ('b \<Rightarrow> 'b \<times> err option) set" where
  "settle_ops B j = {bAck B j} \<union> range (bRetry B j) \<union> range (bDeadLetter B j)"

text \<open>The events that say how a job was settled.\<close>

fun terminal :: "event \<Rightarrow> bool" where
  "terminal (JobCompleted j) = True"
| "terminal (JobRetried j) = True"
| "terminal (JobDeadLettered j) = True"
| "terminal _ = False"

text \<open>
  A settled run made exactly one settling call, which succeeded, and reported exactly one
  terminal event, last; an unsettled run reported none and made at most one settling call,
  whose error it returns.
\<close>

definition settled_run :: "'b backend \<Rightarrow> job \<Rightarrow> 'b worker \<Rightarrow> 'b worker \<Rightarrow> bool" where
  "settled_run B j w w' \<longleftrightarrow>
     (\<exists>evs t f. wEvents w' = wEvents w @ evs @ [t] \<and> terminal t \<and> list_all (\<lambda>e. \<not> terminal e) evs \<and>
        f \<in> settle_ops B j \<and> f (wBackend w) = (wBackend w', None))"

definition unsettled_run :: "'b backend \<Rightarrow> job \<Rightarrow> 'b worker \<Rightarrow> 'b worker \<Rightarrow> err \<Rightarrow> bool" where
  "unsettled_run B j w w' e \<longleftrightarrow>
     (\<exists>evs. wEvents w' = wEvents w @ evs \<and> list_all (\<lambda>e. \<not> terminal e) evs) \<and>
     (wBackend w' = wBackend w \<or> (\<exists>f \<in> settle_ops B j. f (wBackend w) = (wBackend w', Some e)))"

lemma settled_runI:
  "wEvents w' = wEvents w @ evs @ [t] \<Longrightarrow> terminal t \<Longrightarrow> list_all (\<lambda>e. \<not> terminal e) evs \<Longrightarrow> f \<in> settle_ops B j \<Longrightarrow>
   f (wBackend w) = (wBackend w', None) \<Longrightarrow> settled_run B j w w'"
  by (auto simp: settled_run_def)

lemma settle_opsI [simp]: "bAck B j \<in> settle_ops B j" "bRetry B j t \<in> settle_ops B j" "bDeadLetter B j r \<in> settle_ops B j"
  by (simp_all add: settle_ops_def)

lemma deadLetter_run:
  assumes "wEvents w1 = wEvents w @ evs" "wBackend w1 = wBackend w" "list_all (\<lambda>e. \<not> terminal e) evs"
    and "Worker_deadLetter B j reason w1 = (w', e)"
  shows "case e of None \<Rightarrow> settled_run B j w w' | Some x \<Rightarrow> unsettled_run B j w w' x"
proof (cases e)
  case None
  with assms(4) have d: "bDeadLetter B j reason (wBackend w1) = (wBackend w', None)" "wEvents w' = wEvents w1 @ [JobDeadLettered j]"
    by (auto simp: Worker_deadLetter_def emit_def split: prod.splits option.splits)
  show ?thesis
    unfolding None option.case
    by (rule settled_runI [where t = "JobDeadLettered j" and evs = evs and f = "bDeadLetter B j reason"])
      (use assms d in simp_all)
next
  case (Some x)
  with assms(4) have "bDeadLetter B j reason (wBackend w1) = (wBackend w', Some x)" "wEvents w' = wEvents w1"
    by (auto simp: Worker_deadLetter_def split: prod.splits option.splits)
  with assms Some settle_opsI(3) [of B j reason] show ?thesis
    unfolding unsettled_run_def option.case by fastforce
qed

lemma run_job_cases:
  assumes "run_job B cfg hs S cause j w = (w', oc)"
  obtains (settled) "oc = Settled None" "settled_run B j w w'"
  | (unsettled) x where "oc = Settled (Some x)" "unsettled_run B j w w' x"
  | (ack) h where "oc = NeedsAck" "w' = emit (JobStarted j) w" "hs (Task j) = Some h" "Err (h j) = None" "cause = None"
      "Token (Lease j) \<le> MaxDeliveries cfg"
proof -
  have dl: thesis
    if "Worker_deadLetter B j reason w1 = (w', e)" "oc = Settled e" "wEvents w1 = wEvents w @ evs" "wBackend w1 = wBackend w"
      "list_all (\<lambda>e. \<not> terminal e) evs" for reason w1 e evs
    using deadLetter_run [OF that(3,4,5,1)] that(2) settled unsettled by (cases e) auto
  consider (poison) "Token (Lease j) > MaxDeliveries cfg"
    | (unknown) "\<not> Token (Lease j) > MaxDeliveries cfg" "hs (Task j) = None"
    | (known) h where "\<not> Token (Lease j) > MaxDeliveries cfg" "hs (Task j) = Some h"
    by fastforce
  then show thesis
  proof cases
    case poison
    with assms dl [of _ w _ "[]"] show thesis
      by (auto simp: run_job_def split: prod.splits)
  next
    case unknown
    show thesis
    proof (cases "Token (Lease j) \<ge> MaxDeliveries cfg")
      case True
      with unknown assms dl [of _ w _ "[]"] show thesis
        by (auto simp: run_job_def split: prod.splits)
    next
      case False
      with unknown assms show thesis
        by (intro unsettled) (auto simp: run_job_def unsettled_run_def)
    qed
  next
    case (known h)
    let ?w1 = "emit (JobStarted j) w"
    let ?w2 = "emit (JobFailed j (Retryable (h j))) ?w1"
    consider (cancelled) ca where "cause = Some ca" | (ok) "cause = None" "Err (h j) = None"
      | (dead) err where "cause = None" "Err (h j) = Some err" "\<not> Retryable (h j) \<or> ShouldDeadLetter j"
      | (retry) err where "cause = None" "Err (h j) = Some err" "\<not> (\<not> Retryable (h j) \<or> ShouldDeadLetter j)"
      by (metis option.exhaust)
    then show thesis
    proof cases
      case (cancelled ca)
      with known assms show thesis
        by (intro unsettled) (auto simp: run_job_def unsettled_run_def emit_def Let_def)
    next
      case ok
      with known assms show thesis
        by (intro ack) (auto simp: run_job_def Let_def)
    next
      case (dead err)
      with known assms dl [of _ ?w2 _ "[JobStarted j, JobFailed j (Retryable (h j))]"] show thesis
        by (auto simp: run_job_def Let_def emit_def split: prod.splits)
    next
      case (retry err)
      define t where "t = sNow S + NextDelay (sRound S) (sRandom S) (wcRetryPolicy cfg) (wrap64 (Attempt j + 1))"
      obtain b e where b: "bRetry B j t (wBackend w) = (b, e)" by (cases "bRetry B j t (wBackend w)")
      show thesis
      proof (cases e)
        case None
        have "w' = emit (JobRetried j) (?w2\<lparr>wBackend := b\<rparr>)" "oc = Settled None"
          using known retry assms b None by (simp_all add: run_job_def Let_def t_def emit_def)
        then show thesis
          using b None
          by (intro settled settled_runI [where t = "JobRetried j" and evs = "[JobStarted j, JobFailed j (Retryable (h j))]" and f = "bRetry B j t"])
            (simp_all add: emit_def)
      next
        case (Some x)
        have "w' = ?w2\<lparr>wBackend := b\<rparr>" "oc = Settled (Some x)"
          using known retry assms b Some by (simp_all add: run_job_def Let_def t_def emit_def)
        then show thesis
          using b Some settle_opsI(2) [of B j t]
          by (intro unsettled [of x]) (auto simp: emit_def unsettled_run_def)
      qed
    qed
  qed
qed

lemma handleOne_run:
  assumes "handleOne B cfg hs S (Worker_ack B) cause j w = (w', e)"
  shows "case e of None \<Rightarrow> settled_run B j w w' | Some x \<Rightarrow> unsettled_run B j w w' x"
proof -
  obtain w1 oc where r: "run_job B cfg hs S cause j w = (w1, oc)" by (cases "run_job B cfg hs S cause j w")
  from r show ?thesis
  proof (cases rule: run_job_cases)
    case (ack h)
    obtain b a where b: "bAck B j (wBackend w) = (b, a)" by (cases "bAck B j (wBackend w)")
    show ?thesis
    proof (cases a)
      case None
      have "e = None" "w' = emit (JobCompleted j) (w1\<lparr>wBackend := b\<rparr>)"
        using assms r ack b None by (simp_all add: handleOne_def Worker_ack_def after_ack_def emit_def)
      then show ?thesis
        using b None ack(2)
        by (auto intro!: settled_runI [where t = "JobCompleted j" and evs = "[JobStarted j]" and f = "bAck B j"] simp: emit_def)
    next
      case (Some x)
      have "e = Some x" "w' = w1\<lparr>wBackend := b\<rparr>"
        using assms r ack b Some by (simp_all add: handleOne_def Worker_ack_def after_ack_def emit_def)
      then show ?thesis
        using b Some ack(2) settle_opsI(1) [of B j]
        by (auto simp: unsettled_run_def emit_def intro!: exI [of _ "[JobStarted j]"])
    qed
  qed (use assms r in \<open>auto simp: handleOne_def\<close>)
qed

text \<open>
  C21. A run settles its job at most once and reports what it did: \<^verbatim>\<open>handleOne\<close> returns
  without error if and only if it made exactly one settling call (ack, retry or dead-letter),
  that call succeeded, and it reported exactly one terminal event, as its last; otherwise it
  reported no terminal event and made at most one settling call, whose error it returns.
\<close>

theorem handleOne_settles_once:
  "case handleOne B cfg hs S (Worker_ack B) cause j w of
     (w', None) \<Rightarrow>
       (\<exists>evs t f. wEvents w' = wEvents w @ evs @ [t] \<and> terminal t \<and> list_all (\<lambda>e. \<not> terminal e) evs \<and>
          f \<in> settle_ops B j \<and> f (wBackend w) = (wBackend w', None))
   | (w', Some x) \<Rightarrow>
       (\<exists>evs. wEvents w' = wEvents w @ evs \<and> list_all (\<lambda>e. \<not> terminal e) evs) \<and>
       (wBackend w' = wBackend w \<or> (\<exists>f \<in> settle_ops B j. f (wBackend w) = (wBackend w', Some x)))"
  using handleOne_run [of B cfg hs S cause j w]
  by (auto simp: settled_run_def unsettled_run_def split: prod.split option.split)

text \<open>Which settling call belongs to which branch.\<close>

lemma run_job_known:
  assumes "Token (Lease j) \<le> MaxDeliveries cfg" "hs (Task j) = Some h"
  shows "JobStarted j \<in> set (wEvents (fst (run_job B cfg hs S cause j w)))"
  using assms
  by (auto simp: run_job_def Let_def emit_def Worker_deadLetter_def split: option.split prod.split)

context fenced_backend
begin

lemma settle_ops_fenced:
  assumes "ok b" "f \<in> settle_ops B j"
  shows "ok (fst (f b))" "snd (f b) = None \<Longrightarrow> holds j b" "\<not> holds j b \<Longrightarrow> data (fst (f b)) = data b"
proof -
  have f: "f \<in> {bAck B j, bExtend B j} \<union> range (bRetry B j) \<union> range (bDeadLetter B j)"
    using assms(2) by (auto simp: settle_ops_def)
  show "ok (fst (f b))" by (rule settle_ok [OF assms(1) f])
  show "snd (f b) = None \<Longrightarrow> holds j b" by (rule settle_held [OF assms(1) f])
  show "\<not> holds j b \<Longrightarrow> data (fst (f b)) = data b" by (rule settle_stale [OF assms(1) f])
qed

lemma handleOne_fenced:
  assumes ok: "ok (wBackend w)" and h: "handleOne B cfg hs S (Worker_ack B) cause j w = (w', e)"
  shows "ok (wBackend w')" "e = None \<Longrightarrow> holds j (wBackend w)"
    and "\<not> holds j (wBackend w) \<Longrightarrow> e \<noteq> None \<and> data (wBackend w') = data (wBackend w) \<and>
      (\<exists>evs. wEvents w' = wEvents w @ evs \<and> list_all (\<lambda>e. \<not> terminal e) evs)"
proof -
  note R = handleOne_run [OF h]
  note F = settle_ops_fenced [OF ok]
  show "ok (wBackend w')"
    using R F(1) ok by (cases e) (fastforce simp: settled_run_def unsettled_run_def)+
  show held: "e = None \<Longrightarrow> holds j (wBackend w)"
    using R F(2) by (fastforce simp: settled_run_def)
  show "\<not> holds j (wBackend w) \<Longrightarrow> e \<noteq> None \<and> data (wBackend w') = data (wBackend w) \<and>
      (\<exists>evs. wEvents w' = wEvents w @ evs \<and> list_all (\<lambda>e. \<not> terminal e) evs)"
  proof -
    assume n: "\<not> holds j (wBackend w)"
    with held obtain x where x: "e = Some x" by auto
    from R have u: "unsettled_run B j w w' x" by (simp add: x)
    then show ?thesis
      using F(3) [OF _ n] by (fastforce simp: unsettled_run_def x)
  qed
qed

end

text \<open>
  C22. A fenced worker does no harm: if, when it comes to settle, the job's lease is no longer
  the current one, \<^verbatim>\<open>handleOne\<close> on the Redis store returns an error, leaves the server
  exactly as it was and reports neither completion, retry nor dead-lettering, whatever the
  handler did and whatever the network does.
\<close>

theorem stale_run_harmless:
  assumes "store_queue R view kt xle C c" "stream_ok (Stream c) (Group c) (view (srv (wBackend w)))"
    and "\<not> holds_lease c j (view (srv (wBackend w)))"
    and "handleOne (store_backend R C c env cancelled) cfg hs S (Worker_ack (store_backend R C c env cancelled)) cause j w = (w', e)"
  shows "e \<noteq> None \<and> srv (wBackend w') = srv (wBackend w) \<and>
    (\<exists>evs. wEvents w' = wEvents w @ evs \<and> list_all (\<lambda>e. \<not> terminal e) evs)"
proof -
  have F: "fenced_backend (store_backend R C c env cancelled) (store_ok view C c) (\<lambda>j st. holds_lease c j (view (srv st))) srv"
    by (rule store_queue.store_fenced [OF assms(1)])
  show ?thesis
    using fenced_backend.handleOne_fenced(3) [OF F _ assms(4)] assms(2,3) by (simp add: store_ok_def)
qed

definition demo_worker :: "refdb store worker" where
  "demo_worker = \<lparr>wBackend = demo_store (fst demo_recover), wEvents = []\<rparr>"

definition demo_config :: WorkerConfig where
  "demo_config = NewWorker \<lparr>wcID = ''w1'', Concurrency = 0, PollInterval = 0, PollOnly = False, VisibilityTimeout = 0,
     HeartbeatInterval = 0, ShutdownTimeout = 0, MaxDeliveries = 0, StatsInterval = 0,
     wcRetryPolicy = \<lparr>BaseDelay = 0, MaxDelay = 0, Jitter = 0\<rparr>\<rparr>"

definition demo_handlers :: handlers where
  "demo_handlers = [''email'' \<mapsto> \<lambda>j. \<lparr>Retryable = False, Err = None\<rparr>]"

definition demo_surroundings :: surroundings where
  "demo_surroundings = \<lparr>sNow = 0, sRound = id, sRandom = 0, sQuote = id\<rparr>"

theorem stale_run_harmless_witness:
  "srv (wBackend (fst (handleOne demo_backend demo_config demo_handlers demo_surroundings (Worker_ack demo_backend) None
     (demo_run ''w1'' 1) demo_worker))) = fst demo_recover"
proof -
  have "\<not> holds_lease ref_config (demo_run ''w1'' 1) (ref_view (srv (wBackend demo_worker)))"
    using demo_owned(1) by (simp add: holds_lease_def demo_run_def demo_worker_def)
  moreover have "stream_ok (Stream ref_config) (Group ref_config) (ref_view (srv (wBackend demo_worker)))"
    using demo_okS by (simp add: demo_worker_def)
  ultimately have "srv (wBackend (fst (handleOne demo_backend demo_config demo_handlers demo_surroundings (Worker_ack demo_backend) None
     (demo_run ''w1'' 1) demo_worker))) = srv (wBackend demo_worker)"
    using stale_run_harmless [OF refq.store_queue_axioms, of demo_worker "demo_run ''w1'' 1" "\<lambda>s. s" False demo_config
        demo_handlers demo_surroundings None, folded demo_backend_def, OF _ _ prod.collapse [symmetric]] by blast
  then show ?thesis by (simp add: demo_worker_def)
qed

section \<open>Limits\<close>



section \<open>A run takes protocol steps\<close>

text \<open>What a job must satisfy to be written back: its own data, with the next attempt.\<close>

definition rewritable :: "job \<Rightarrow> bool" where
  "rewritable j \<longleftrightarrow> storable (j\<lparr>Attempt := wrap64 (Attempt j + 1)\<rparr>) \<and> utf8_job j"

lemma fenced_call_steps:
  assumes "step R C c (srv st, G) (fst (script (srv st)), G')"
  shows "\<exists>H \<in> {G, G'}. steps R C c (srv st, G) (srv (fst (fenced_call script st)), H)"
  using rt_steps [of R C c st G script, OF assms] by (auto simp: fenced_call_rt)

lemma fenced_call_same:
  "step R C c (srv st, G) (fst (script (srv st)), G) \<Longrightarrow> steps R C c (srv st, G) (srv (fst (fenced_call script st)), G)"
  using fenced_call_steps [of R C c st G script G] by simp

lemma Ack_steps:
  assumes "lease_of j \<in> leases G"
  shows "\<exists>G'. steps R C c (srv st, G) (srv (fst (Store_Ack R c j st)), G') \<and> accepted G' = accepted G \<and>
    acked G' \<subseteq> insert (ID j) (acked G)"
proof -
  define f where "f = ackScript R (Stream c) (Group c) (MessageID (Lease j)) (Owner (Lease j)) (Token (Lease j)) (sclk st)"
  have "(MessageID (Lease j), Owner (Lease j), Token (Lease j), ID j) \<in> leases G"
    using assms by (simp add: lease_of_def)
  then have "step R C c (srv st, G) (fst (f (srv st)), if snd (f (srv st)) = 0 then G else G\<lparr>acked := insert (ID j) (acked G)\<rparr>)"
    unfolding f_def by (rule step.ack) simp
  from fenced_call_steps [of R C c st G f, OF this] show ?thesis
    by (auto simp: Store_Ack_def f_def [symmetric] split: if_splits)
qed

text \<open>Giving a job back or burying it writes the job again, and acks nothing.\<close>

lemma rewrite_steps:
  assumes "lease_of j \<in> leases G" "rewritable j" "f \<in> range (Store_Retry R C c j) \<union> range (Store_DeadLetter R C c j)"
  shows "steps R C c (srv st, G) (srv (fst (f st)), G)"
proof -
  let ?l = "Lease j"
  have l: "(MessageID ?l, Owner ?l, Token ?l, ID j) \<in> leases G"
    using assms(1) by (simp add: lease_of_def)
  have id: "ID j \<noteq> []"
    using assms(2) by (simp add: rewritable_def storable_def)
  consider (retry) t where "f = Store_Retry R C c j t" | (dead) r where "f = Store_DeadLetter R C c j r"
    using assms(3) by auto
  then show ?thesis
  proof cases
    case (retry t)
    let ?j = "j\<lparr>Attempt := wrap64 (Attempt j + 1)\<rparr>"
    have s: "storable ?j" and u: "utf8_job ?j" and l': "(MessageID (Lease ?j), Owner (Lease ?j), Token (Lease ?j), ID ?j) \<in> leases G"
      using assms(2) l by (simp_all add: rewritable_def utf8_job_def)
    show ?thesis
      unfolding retry Store_Retry_def Let_def
      by (rule fenced_call_same, rule step.retry [OF l' s u prod.collapse [symmetric]])
  next
    case (dead r)
    define pairs where "pairs = map_put ''failedAt'' (fmt_time C (wclk st)) (map_put ''deliveries'' (itoa (Token (Lease j)))
      (map_put ''reason'' r (jobFields C j)))"
    have "distinct (map fst pairs)"
      unfolding pairs_def by (intro distinct_map_put distinct_jobFields)
    then have fld: "field pairs ''id'' = Some (ID j)"
      by (simp add: field_distinct pairs_def) (simp add: jobFields_def)
    show ?thesis
      unfolding dead Store_DeadLetter_def Let_def pairs_def [symmetric]
      by (rule fenced_call_same, rule step.dead_letter [OF l id fld prod.collapse [symmetric]])
  qed
qed

lemma settle_ops_steps:
  assumes "lease_of j \<in> leases G" "rewritable j" "f \<in> settle_ops (store_backend R C c env cancelled) j"
  shows "\<exists>G'. steps R C c (srv st, G) (srv (fst (f st)), G') \<and> accepted G' = accepted G"
proof (cases "f = Store_Ack R c j")
  case True
  then show ?thesis using Ack_steps [OF assms(1), of R C c st] by blast
next
  case False
  with assms(3) have "f \<in> range (Store_Retry R C c j) \<union> range (Store_DeadLetter R C c j)"
    by (auto simp: settle_ops_def store_backend_def)
  from rewrite_steps [OF assms(1,2) this] show ?thesis by blast
qed

lemma handleOne_steps:
  assumes "lease_of j \<in> leases G" "rewritable j"
    and "handleOne (store_backend R C c env cancelled) cfg hs S (Worker_ack (store_backend R C c env cancelled)) cause j w = (w', e)"
  shows "\<exists>G'. steps R C c (srv (wBackend w), G) (srv (wBackend w'), G') \<and> accepted G' = accepted G"
proof -
  have "wBackend w' = wBackend w \<or> (\<exists>f \<in> settle_ops (store_backend R C c env cancelled) j. wBackend w' = fst (f (wBackend w)))"
    using handleOne_run [OF assms(3)]
    by (cases e) (auto simp: settled_run_def unsettled_run_def, (metis fst_conv)+)
  then show ?thesis
    using settle_ops_steps [OF assms(1,2)] steps_refl by metis
qed

text \<open>
  C11. A worker's run is a participant of the protocol: for a job it holds a lease on, whether or
  not the lease is still current, everything \<^verbatim>\<open>handleOne\<close> does to the server through the
  Redis store is a sequence of protocol steps, so all guarantees of the protocol hold of
  systems of such workers.
\<close>

theorem handleOne_implements_protocol:
  assumes "lease_of j \<in> leases G" "rewritable j"
    and "handleOne (store_backend R C c env cancelled) cfg hs S (Worker_ack (store_backend R C c env cancelled)) cause j w = (w', e)"
  shows "\<exists>G'. steps R C c (srv (wBackend w), G) (srv (wBackend w'), G')"
  using handleOne_steps [OF assms] by blast

theorem handleOne_implements_protocol_witness:
  "\<exists>G'. steps ref_redis ref_codec ref_config (fst demo_recover, demo_ghost)
     (srv (wBackend (fst (handleOne demo_backend demo_config demo_handlers demo_surroundings (Worker_ack demo_backend) None
        (demo_run ''w2'' 2) demo_worker))), G')"
proof -
  have "lease_of (demo_run ''w2'' 2) \<in> leases demo_ghost"
    using demo_leases(2) by (simp add: lease_of_def demo_run_def)
  moreover have "rewritable (demo_run ''w2'' 2)"
    by (simp add: rewritable_def demo_run_def demo_job_def storable_def utf8_job_def is_int64_def wrap64_def time_ok_def byte_in_def)
  ultimately show ?thesis
    using handleOne_implements_protocol [of "demo_run ''w2'' 2" demo_ghost ref_redis ref_codec ref_config "\<lambda>s. s" False
        demo_config demo_handlers demo_surroundings None demo_worker, folded demo_backend_def, OF _ _ prod.collapse [symmetric]]
    by (simp add: demo_worker_def)
qed

section \<open>Configuration and backoff\<close>

lemma NewWorker_fields:
  "Concurrency (NewWorker c) = or_default 1 (Concurrency c)"
  "PollInterval (NewWorker c) = or_default (250 * millisecond) (PollInterval c)"
  "VisibilityTimeout (NewWorker c) = or_default (30 * second) (VisibilityTimeout c)"
  "HeartbeatInterval (NewWorker c) = or_default (VisibilityTimeout (NewWorker c) div 3) (HeartbeatInterval c)"
  "ShutdownTimeout (NewWorker c) = or_default (VisibilityTimeout (NewWorker c)) (ShutdownTimeout c)"
  "MaxDeliveries (NewWorker c) = or_default 5 (MaxDeliveries c)"
  "StatsInterval (NewWorker c) = or_default (5 * second) (StatsInterval c)"
  "wcRetryPolicy (NewWorker c) = (if BaseDelay (wcRetryPolicy c) \<le> 0 then DefaultRetryPolicy else wcRetryPolicy c)"
  by (simp_all add: NewWorker_def Let_def del: or_default_def)

lemma NewWorker_idle:
  "0 < Concurrency c \<Longrightarrow> 0 < PollInterval c \<Longrightarrow> 0 < VisibilityTimeout c \<Longrightarrow> 0 < HeartbeatInterval c \<Longrightarrow>
   0 < ShutdownTimeout c \<Longrightarrow> 0 < MaxDeliveries c \<Longrightarrow> 0 < StatsInterval c \<Longrightarrow> 0 < BaseDelay (wcRetryPolicy c) \<Longrightarrow> NewWorker c = c"
  by (simp add: NewWorker_def Let_def)

text \<open>
  The defaults are usable: whatever the caller leaves unset, a new worker has at least one
  slot, positive intervals and limits, a retry policy with a positive base delay, and, unless
  the caller chose it, a heartbeat that fires three times within the visibility timeout; and
  defaulting twice changes nothing once the heartbeat is positive.
\<close>

theorem NewWorker_defaults:
  "1 \<le> Concurrency (NewWorker config) \<and> 0 < PollInterval (NewWorker config) \<and> 0 < VisibilityTimeout (NewWorker config) \<and>
   0 < ShutdownTimeout (NewWorker config) \<and> 1 \<le> MaxDeliveries (NewWorker config) \<and> 0 < StatsInterval (NewWorker config) \<and>
   0 < BaseDelay (wcRetryPolicy (NewWorker config)) \<and>
   (HeartbeatInterval config \<le> 0 \<longrightarrow> 3 * HeartbeatInterval (NewWorker config) \<le> VisibilityTimeout (NewWorker config)) \<and>
   (3 \<le> VisibilityTimeout (NewWorker config) \<longrightarrow>
      0 < HeartbeatInterval (NewWorker config) \<and> NewWorker (NewWorker config) = NewWorker config)"
proof -
  let ?c = "NewWorker config"
  have p: "0 < Concurrency ?c" "0 < PollInterval ?c" "0 < VisibilityTimeout ?c" "0 < ShutdownTimeout ?c" "0 < MaxDeliveries ?c"
    "0 < StatsInterval ?c" "0 < BaseDelay (wcRetryPolicy ?c)"
    by (simp_all add: NewWorker_fields DefaultRetryPolicy_def second_def millisecond_def)
  have h: "HeartbeatInterval config \<le> 0 \<Longrightarrow> 3 * HeartbeatInterval ?c \<le> VisibilityTimeout ?c"
    "3 \<le> VisibilityTimeout ?c \<Longrightarrow> 0 < HeartbeatInterval ?c"
    by (simp_all add: NewWorker_fields(4)) (auto simp: pos_imp_zdiv_pos_iff)
  from p h NewWorker_idle [of ?c] show ?thesis by simp
qed

theorem NewWorker_defaults_witness:
  "0 < HeartbeatInterval demo_config"
  using NewWorker_defaults [of "\<lparr>wcID = ''w1'', Concurrency = 0, PollInterval = 0, PollOnly = False, VisibilityTimeout = 0,
     HeartbeatInterval = 0, ShutdownTimeout = 0, MaxDeliveries = 0, StatsInterval = 0,
     wcRetryPolicy = \<lparr>BaseDelay = 0, MaxDelay = 0, Jitter = 0\<rparr>\<rparr>"]
  by (simp add: demo_config_def [symmetric]) (simp add: demo_config_def NewWorker_def Let_def second_def)

text \<open>
  A visibility timeout of one or two nanoseconds defeats the default: the heartbeat interval
  is then rounded down to zero, with which Go's \<^verbatim>\<open>time.NewTicker\<close> panics.
\<close>

theorem NewWorker_zero_heartbeat:
  "HeartbeatInterval (NewWorker (demo_config\<lparr>VisibilityTimeout := 2, HeartbeatInterval := 0\<rparr>)) = 0"
  by (simp add: NewWorker_def Let_def demo_config_def)

lemma next_backoff_step:
  assumes "0 < PollInterval cfg" "0 \<le> b" "b \<le> 10 * second"
  shows "next_backoff cfg b = min (max (2 * b) (PollInterval cfg)) (10 * second)"
proof -
  have "wrap64 (2 * b) = 2 * b"
    using assms(2,3) by (intro wrap64_id) (simp add: is_int64_def second_def)
  then show ?thesis by (simp add: next_backoff_def)
qed

text \<open>
  A worker whose broker fails backs off exponentially: after \<open>n + 1\<close> failed fetches in a
  row it sleeps for the poll interval doubled \<open>n\<close> times, but never more than ten seconds,
  without overflow however many failures follow.
\<close>

theorem backoff_doubles:
  assumes "0 < PollInterval cfg"
  shows "(next_backoff cfg ^^ Suc n) 0 = min (PollInterval cfg * 2 ^ n) (10 * second)"
proof (induction n)
  case 0
  show ?case using assms by (simp add: next_backoff_step second_def)
next
  case (Suc n)
  define b where "b = PollInterval cfg * 2 ^ n"
  have p: "PollInterval cfg \<le> b" "0 < b" using assms by (simp_all add: b_def)
  have "(next_backoff cfg ^^ Suc (Suc n)) 0 = next_backoff cfg (min b (10 * second))"
    using Suc by (simp add: b_def)
  also have "\<dots> = min (max (2 * min b (10 * second)) (PollInterval cfg)) (10 * second)"
    using p(2) by (intro next_backoff_step assms) (simp_all add: second_def)
  also have "\<dots> = min (2 * b) (10 * second)"
    using p by (simp add: second_def min_def max_def)
  finally show ?case by (simp add: b_def algebra_simps)
qed

theorem backoff_doubles_witness:
  "(next_backoff demo_config ^^ Suc 20) 0 = 10 * second"
  using backoff_doubles [of demo_config 20]
  by (simp add: demo_config_def NewWorker_def Let_def second_def millisecond_def)

end
