(* ===== verification/System.thy ===== *)
theory System
  imports Worker
begin

text \<open>
  The queue as a whole: any number of producers and workers, each with a store of its own
  (clocks, network, cursor), working on one server through the exported operations. The
  history of such a system is an inductive relation with one rule per operation, run at any
  time, by anyone who may run it: producers enqueue jobs with identifiers nobody used before,
  workers claim and recover deliveries, run the jobs they were given, and ack those whose
  handler reported success, with their own lease, current or not. A crash is a client that
  takes no further part. The theorems are about what the clients can see: the identifiers
  their calls returned and the outcomes of their handlers.
\<close>

section \<open>Histories\<close>

record 'r world =
  server :: 'r
  produced :: "string set"
  jobs :: "job set"
  answered :: "string set"
  held :: "job set"
  succeeded :: "job set"

definition replied :: "err + 'a list \<Rightarrow> 'a set" where
  "replied r = (case r of Inl e \<Rightarrow> {} | Inr xs \<Rightarrow> set xs)"

lemma replied_simps [simp]: "replied (Inl e) = {}" "replied (Inr xs) = set xs"
  by (simp_all add: replied_def)

definition returned :: "err + 'a \<Rightarrow> 'a set" where
  "returned r = (case r of Inl e \<Rightarrow> {} | Inr x \<Rightarrow> {x})"

lemma returned_simps [simp]: "returned (Inl e) = {}" "returned (Inr x) = {x}"
  by (simp_all add: returned_def)

text \<open>
  Claiming is two round trips, the claim script and the blocking read, so it is two rules;
  a run of a job is \<open>run_job\<close>, and the ack that may follow it a rule of its own, since the
  ack loop sends it later and in batches. Where a worker only takes the messages the script
  hands to it, its limit is positive and its visibility timeout at least a millisecond.
\<close>

inductive move :: "'r redis \<Rightarrow> codec \<Rightarrow> Config \<Rightarrow> 'r world \<Rightarrow> 'r world \<Rightarrow> bool"
  for R :: "'r redis" and C :: codec and c :: Config where
  produce:
    "srv st = server X \<Longrightarrow> with_id j st = (k, st1) \<Longrightarrow>
     storable k \<Longrightarrow> utf8_job k \<Longrightarrow> ID k \<notin> produced X \<Longrightarrow> Store_Enqueue R C c j st = (st', r) \<Longrightarrow>
     move R C c X (X\<lparr>server := srv st', produced := produced X \<union> {ID k}, jobs := jobs X \<union> {k}, answered := answered X \<union> returned r\<rparr>)"
| produce_batch:
    "srv st = server X \<Longrightarrow> assign_ids js st = (ks, st1) \<Longrightarrow>
     list_all (\<lambda>k. storable k \<and> utf8_job k \<and> ID k \<notin> produced X) ks \<Longrightarrow> distinct (map ID ks) \<Longrightarrow>
     Store_EnqueueBatch R C c js st = (st', r) \<Longrightarrow>
     move R C c X (X\<lparr>server := srv st', produced := produced X \<union> ID ` set ks, jobs := jobs X \<union> set ks, answered := answered X \<union> replied r\<rparr>)"
| claim_ready:
    "srv st = server X \<Longrightarrow> 1 \<le> limit \<Longrightarrow> claimReady R C c w limit st = (st', r) \<Longrightarrow>
     move R C c X (X\<lparr>server := srv st', held := held X \<union> replied r\<rparr>)"
| claim_blocking:
    "srv st = server X \<Longrightarrow> 1 \<le> limit \<Longrightarrow> claimBlocking R C c cancelled w limit st = (st', r) \<Longrightarrow>
     move R C c X (X\<lparr>server := srv st', held := held X \<union> replied r\<rparr>)"
| recover_expired:
    "srv st = server X \<Longrightarrow> 1 \<le> Milliseconds vis \<Longrightarrow>
     Store_RecoverExpired R C c vis w limit st = (st', r) \<Longrightarrow>
     move R C c X (X\<lparr>server := srv st', held := held X \<union> replied r\<rparr>)"
| ack_one:
    "srv st = server X \<Longrightarrow> j \<in> succeeded X \<Longrightarrow> Store_Ack R c j st = (st', e) \<Longrightarrow>
     move R C c X (X\<lparr>server := srv st'\<rparr>)"
| ack_many:
    "srv st = server X \<Longrightarrow> set js \<subseteq> succeeded X \<Longrightarrow> Store_AckBatch R c js st = (st', es) \<Longrightarrow>
     move R C c X (X\<lparr>server := srv st'\<rparr>)"
| extend_one:
    "srv st = server X \<Longrightarrow> j \<in> held X \<Longrightarrow> Store_Extend R c j st = (st', e) \<Longrightarrow>
     move R C c X (X\<lparr>server := srv st'\<rparr>)"
| extend_many:
    "srv st = server X \<Longrightarrow> set js \<subseteq> held X \<Longrightarrow> Store_ExtendBatch R c js st = (st', es) \<Longrightarrow>
     move R C c X (X\<lparr>server := srv st'\<rparr>)"
| promote_some:
    "srv st = server X \<Longrightarrow> 0 \<le> limit \<Longrightarrow> promoteRetries R C c limit st = (st', r) \<Longrightarrow>
     move R C c X (X\<lparr>server := srv st'\<rparr>)"
| prune_idle:
    "srv st = server X \<Longrightarrow> pruneConsumers R c st = (st', e) \<Longrightarrow>
     move R C c X (X\<lparr>server := srv st'\<rparr>)"
| leave_group:
    "srv st = server X \<Longrightarrow> Store_Deregister R c w st = (st', e) \<Longrightarrow>
     move R C c X (X\<lparr>server := srv st'\<rparr>)"

inductive system :: "'r redis \<Rightarrow> codec \<Rightarrow> Config \<Rightarrow> 'r \<Rightarrow> 'r world \<Rightarrow> bool"
  for R :: "'r redis" and C :: codec and c :: Config and s0 :: 'r where
  start: "system R C c s0 \<lparr>server = s0, produced = {}, jobs = {}, answered = {}, held = {}, succeeded = {}\<rparr>"
| moves: "system R C c s0 X \<Longrightarrow> move R C c X Y \<Longrightarrow> system R C c s0 Y"
| run:
    "system R C c s0 X \<Longrightarrow> srv (wBackend w) = server X \<Longrightarrow> j \<in> held X \<Longrightarrow>
     run_job (store_backend R C c env cancelled) cfg hs S cause j w = (w', oc) \<Longrightarrow>
     system R C c s0 (X\<lparr>server := srv (wBackend w'), succeeded := succeeded X \<union> (if oc = NeedsAck then {j} else {})\<rparr>)"

text \<open>Each rule of a move continues a history.\<close>

lemmas system_produce = system.moves [OF _ move.produce]
  and system_produce_batch = system.moves [OF _ move.produce_batch]
  and system_claim_ready = system.moves [OF _ move.claim_ready]
  and system_claim_blocking = system.moves [OF _ move.claim_blocking]
  and system_recover_expired = system.moves [OF _ move.recover_expired]
  and system_ack_one = system.moves [OF _ move.ack_one]
  and system_ack_many = system.moves [OF _ move.ack_many]
  and system_extend_one = system.moves [OF _ move.extend_one]
  and system_extend_many = system.moves [OF _ move.extend_many]
  and system_promote_some = system.moves [OF _ move.promote_some]
  and system_prune_idle = system.moves [OF _ move.prune_idle]
  and system_leave_group = system.moves [OF _ move.leave_group]

section \<open>A history is a run of the protocol\<close>

lemma steps_grow: "steps R C c S T \<Longrightarrow> accepted (snd S) \<subseteq> accepted (snd T) \<and> leases (snd S) \<subseteq> leases (snd T)"
proof (induction rule: steps.induct)
  case (steps_snoc S T U)
  have "accepted (snd T) \<subseteq> accepted (snd U) \<and> leases (snd T) \<subseteq> leases (snd U)"
    using steps_snoc.hyps(2) by cases auto
  with steps_snoc.IH show ?case by blast
qed simp

text \<open>What the protocol has recorded, against what the clients have seen.\<close>

definition tracked :: "'r redis \<Rightarrow> codec \<Rightarrow> Config \<Rightarrow> 'r \<Rightarrow> 'r world \<Rightarrow> ghost \<Rightarrow> bool" where
  "tracked R C c s0 X G \<longleftrightarrow>
     steps R C c (s0, no_ghost) (server X, G) \<and> answered X \<subseteq> accepted G \<and> accepted G \<subseteq> produced X \<and>
     acked G \<subseteq> ID ` succeeded X \<and> succeeded X \<subseteq> held X \<and>
     (\<forall>j \<in> held X. lease_of j \<in> leases G \<and> storable j \<and> utf8_job j)"

lemma trackedD:
  assumes "tracked R C c s0 X G"
  shows "steps R C c (s0, no_ghost) (server X, G)" "accepted G \<subseteq> produced X" "succeeded X \<subseteq> held X"
    "\<And>j. j \<in> held X \<Longrightarrow> lease_of j \<in> leases G" "\<And>j. j \<in> held X \<Longrightarrow> rewritable j"
  using assms by (auto simp: tracked_def rewritable_def storable_def)

lemma tracked_moves:
  assumes "tracked R C c s0 X G" "steps R C c (server X, G) (server Y, H)"
    and "answered Y \<subseteq> answered X \<union> accepted H" "accepted H \<subseteq> produced Y"
    and "acked H \<subseteq> acked G \<union> ID ` succeeded X" "succeeded X \<subseteq> succeeded Y" "succeeded Y \<subseteq> held Y"
    and "\<And>j. j \<in> held Y \<Longrightarrow> j \<in> held X \<or> lease_of j \<in> leases H \<and> storable j \<and> utf8_job j"
  shows "tracked R C c s0 Y H"
proof -
  have g: "accepted G \<subseteq> accepted H" "leases G \<subseteq> leases H"
    using steps_grow [OF assms(2)] by auto
  have "acked G \<union> ID ` succeeded X \<subseteq> ID ` succeeded Y"
    using assms(1,6) unfolding tracked_def by blast
  with assms(5) have "acked H \<subseteq> ID ` succeeded Y"
    by blast
  moreover have "steps R C c (s0, no_ghost) (server Y, H)"
    by (rule steps_trans [OF trackedD(1) [OF assms(1)] assms(2)])
  ultimately show ?thesis
    using assms(1,3,4,7,8) g unfolding tracked_def by blast
qed

lemma tracked_same:
  assumes "tracked R C c s0 X G" "steps R C c (server X, G) (s', H)" "accepted H = accepted G"
    and "acked H \<subseteq> acked G \<union> ID ` succeeded X"
  shows "tracked R C c s0 (X\<lparr>server := s'\<rparr>) H"
  by (rule tracked_moves [OF assms(1)]) (use assms trackedD [OF assms(1)] in auto)

lemma tracked_hand_out:
  assumes "tracked R C c s0 X G" "steps R C c (server X, G) (s', H)" "accepted H = accepted G" "acked H = acked G"
    and "\<And>js. r = Inr js \<Longrightarrow> \<forall>j \<in> set js. leased_to c d H w j"
  shows "tracked R C c s0 (X\<lparr>server := s', held := held X \<union> replied r\<rparr>) H"
  by (rule tracked_moves [OF assms(1)])
    (use assms trackedD [OF assms(1)] in \<open>auto simp: replied_def leased_to_def split: sum.splits\<close>)

lemma run_job_backend:
  assumes "run_job B cfg hs S cause j w = (w', oc)"
  shows "wBackend w' = wBackend w \<or> (\<exists>reason. wBackend w' = fst (bDeadLetter B j reason (wBackend w))) \<or>
    \<not> ShouldDeadLetter j \<and> (\<exists>t. wBackend w' = fst (bRetry B j t (wBackend w)))"
proof -
  have dl: "\<exists>reason'. wBackend (fst (Worker_deadLetter B j reason v)) = fst (bDeadLetter B j reason' (wBackend v))" for reason v
    by (rule exI [of _ reason]) (simp add: Worker_deadLetter_def emit_def split: prod.split option.split)
  have "w' = fst (run_job B cfg hs S cause j w)"
    by (simp add: assms)
  then show ?thesis
    using dl [of _ w] dl [of _ "emit (JobFailed j _) (emit (JobStarted j) w)"]
    by (auto simp: run_job_def Let_def case_prod_beta emit_def split: option.splits if_splits)
qed

lemma ack_each_steps:
  assumes "\<forall>j \<in> set js. lease_of j \<in> leases G"
  shows "\<exists>G'. steps R C c (s, G) (fst (ackBatchScript R (Stream c) (Group c) (lease_triples js) t s), G') \<and>
    accepted G' = accepted G \<and> acked G' \<subseteq> acked G \<union> ID ` set js"
  using assms unfolding ackBatch_run_each
proof (induction js arbitrary: s G)
  case Nil
  then show ?case by (auto simp: lease_triples_def intro: steps_refl)
next
  case (Cons j js)
  let ?l = "Lease j"
  obtain s1 r where a: "ackScript R (Stream c) (Group c) (MessageID ?l) (Owner ?l) (Token ?l) t s = (s1, r)"
    by (cases "ackScript R (Stream c) (Group c) (MessageID ?l) (Owner ?l) (Token ?l) t s")
  define G1 where "G1 = (if r = 0 then G else G\<lparr>acked := insert (ID j) (acked G)\<rparr>)"
  have G1: "accepted G1 = accepted G" "leases G1 = leases G" "acked G1 \<subseteq> insert (ID j) (acked G)"
    by (auto simp: G1_def)
  have st: "step R C c (s, G) (s1, G1)"
    unfolding G1_def by (rule step.ack [OF _ a]) (use Cons.prems in \<open>simp add: lease_of_def\<close>)
  obtain G' where G': "accepted G' = accepted G1" "acked G' \<subseteq> acked G1 \<union> ID ` set js"
    "steps R C c (s1, G1) (fst (run_each (\<lambda>x w n. ackScript R (Stream c) (Group c) x w n t) (lease_triples js) s1), G')"
    using Cons.IH [of G1 s1] Cons.prems G1(2) by auto
  have "steps R C c (s, G) (fst (run_each (\<lambda>x w n. ackScript R (Stream c) (Group c) x w n t) (lease_triples (j # js)) s), G')"
    using steps_trans [OF steps_snoc [OF steps_refl st] G'(3)] by (simp add: lease_triples_def a case_prod_beta)
  with G' G1 show ?case
    by (intro exI [of _ G']) auto
qed

lemma extend_each_steps:
  assumes "\<forall>j \<in> set js. lease_of j \<in> leases G"
  shows "steps R C c (s, G) (fst (extendBatchScript R (Stream c) (Group c) (lease_triples js) t s), G)"
  using assms unfolding extendBatch_run_each
proof (induction js arbitrary: s)
  case Nil
  then show ?case by (simp add: lease_triples_def steps_refl)
next
  case (Cons j js)
  let ?l = "Lease j"
  obtain s1 r where a: "extendScript R (Stream c) (Group c) (MessageID ?l) (Owner ?l) (Token ?l) t s = (s1, r)"
    by (cases "extendScript R (Stream c) (Group c) (MessageID ?l) (Owner ?l) (Token ?l) t s")
  have "(MessageID ?l, Owner ?l, Token ?l, ID j) \<in> leases G"
    using Cons.prems by (simp add: lease_of_def)
  from step.extend [OF this a] have st: "step R C c (s, G) (s1, G)" .
  with Cons.IH [of s1] Cons.prems steps_trans [OF steps_snoc [OF steps_refl st]] show ?case
    by (simp add: lease_triples_def a case_prod_beta)
qed

lemma rt_steps_all:
  assumes "steps R C c (srv st, G) (fst (f (srv st)), G')"
  shows "\<exists>H \<in> {G, G'}. steps R C c (srv st, G) (srv (fst (rt f st)), H) \<and> (\<forall>a. snd (rt f st) = Inr a \<longrightarrow> H = G')"
  using assms by (cases rule: rt_cases [of f st]) (auto intro: steps_refl)

text \<open>A call whose only effect is one atomic run of protocol steps.\<close>

lemma tracked_call:
  assumes T: "tracked R C c s0 X G" and s: "srv st = server X" and "steps R C c (srv st, G) (fst (f (srv st)), H)"
    and "accepted H = accepted G" "acked H \<subseteq> acked G \<union> ID ` succeeded X" and s': "s' = srv (fst (rt f st))"
  shows "\<exists>K. tracked R C c s0 (X\<lparr>server := s'\<rparr>) K"
proof -
  obtain K where "K \<in> {G, H}" "steps R C c (server X, G) (s', K)"
    using rt_steps_all [of R C c st G f H, OF assms(3)] s s' by auto
  with tracked_same [OF T, of s' K] assms(4,5) show ?thesis by auto
qed

lemma tracked_step:
  assumes "tracked R C c s0 X G" "srv st = server X" "step R C c (srv st, G) (fst (f (srv st)), G)" "s' = srv (fst (rt f st))"
  shows "\<exists>K. tracked R C c s0 (X\<lparr>server := s'\<rparr>) K"
  by (rule tracked_call [OF assms(1,2) steps_snoc [OF steps_refl assms(3)] _ _ assms(4)]) auto

lemma call_srv:
  "srv (fst (fencedBatch script js st)) = srv (fst (rt (script (lease_triples js)) st))"
  "srv (fst (fenced_call f st)) = srv (fst (rt f st))"
  "srv (fst (pruneConsumers R c st)) =
     srv (fst (rt (pruneConsumersScript R (Stream c) (Group c) (Milliseconds (ConsumerIdleTimeout c)) (sclk st)) st))"
  "srv (fst (Store_Deregister R c w st)) = srv (fst (rt (deregisterScript R (Stream c) (Group c) w (sclk st)) st))"
  by (simp_all add: fencedBatch_def fenced_call_rt pruneConsumers_def Store_Deregister_def split: prod.split sum.split)

section \<open>Every history is tracked\<close>

context store_queue
begin

lemma dedupe_accepted:
  assumes "sys_inv C c (view s) G"
  shows "set_option (get_str R (DedupePrefix c @ key) t s) \<subseteq> accepted G"
proof
  fix v assume "v \<in> set_option (get_str R (DedupePrefix c @ key) t s)"
  then obtain e where "dStr (view s) (DedupePrefix c @ key) = Some (v, e)"
    by (auto simp: get_str_view dedupe_key split: option.splits if_splits)
  with assms show "v \<in> accepted G" by (auto simp: sys_inv_def keys_ok_def)
qed

lemma tracked_produce:
  assumes T: "tracked R C c s0 X G" and e: "empty_queue c (view s0)" and s: "srv st = server X"
    and w: "with_id j st = (k, st1)" and k: "storable k" "utf8_job k" "ID k \<notin> produced X"
    and E: "Store_Enqueue R C c j st = (st', r)"
  shows "\<exists>H. tracked R C c s0 (X\<lparr>server := srv st', produced := produced X \<union> {ID k}, jobs := jobs X \<union> {k}, answered := answered X \<union> returned r\<rparr>) H"
proof -
  have "fresh_job G (fst (with_id j st))"
    using k trackedD(2) [OF T] by (auto simp: w fresh_job_def)
  from Enqueue_steps [OF this, of R C c] obtain H where
    H: "steps R C c (server X, G) (srv st', H)" "acked H = acked G"
      "\<And>i. r = Inr i \<Longrightarrow> i \<in> accepted H" "accepted H \<subseteq> accepts R c j st \<union> accepted G"
    by (auto simp: E s)
  have "sys_inv C c (view (srv st)) G"
    unfolding s by (rule reachable_inv [OF trackedD(1) [OF T] e])
  from dedupe_accepted [OF this] have "accepts R c j st \<subseteq> insert (ID k) (accepted G)"
    unfolding accepts_def w fst_conv by blast
  with H(4) trackedD(2) [OF T] have "accepted H \<subseteq> produced X \<union> {ID k}"
    by blast
  with H(1,2,3) trackedD(3) [OF T] show ?thesis
    by (intro exI [of _ H] tracked_moves [OF T]) (auto simp: returned_def split: sum.splits)
qed

lemma tracked_produce_batch:
  assumes T: "tracked R C c s0 X G" and e: "empty_queue c (view s0)" and s: "srv st = server X"
    and a: "assign_ids js st = (ks, st1)" and k: "list_all (\<lambda>k. storable k \<and> utf8_job k \<and> ID k \<notin> produced X) ks" "distinct (map ID ks)"
    and E: "Store_EnqueueBatch R C c js st = (st', r)"
  shows "\<exists>H. tracked R C c s0 (X\<lparr>server := srv st', produced := produced X \<union> ID ` set ks, jobs := jobs X \<union> set ks, answered := answered X \<union> replied r\<rparr>) H"
proof -
  have srv: "srv st1 = server X"
    using assign_ids_frame [of js st] by (simp add: a s)
  define f where "f = tx_all R C c (wclk st1) (sclk st1) ks"
  have E': "(st', r) = (if ks = [] then (st1, Inr []) else rt f st1)"
    using E [symmetric] by (simp add: Store_EnqueueBatch_def a f_def)
  have "fresh_jobs G ks"
    using k trackedD(2) [OF T] by (induction ks) (auto simp: fresh_job_def)
  from tx_all_steps [OF reachable_inv [OF trackedD(1) [OF T] e] this, of "wclk st1" "sclk st1"] obtain G' where
    G': "steps R C c (srv st1, G) (fst (f (srv st1)), G')" "acked G' = acked G" "set (snd (f (srv st1))) \<subseteq> accepted G'"
      "accepted G' \<subseteq> ID ` set ks \<union> accepted G"
    by (auto simp: f_def srv)
  obtain H where H: "H \<in> {G, G'}" "steps R C c (server X, G) (srv st', H)" "replied r \<subseteq> accepted H"
  proof (cases "ks = []")
    case True
    with E' show thesis
      by (intro that [of G]) (simp_all add: srv steps_refl)
  next
    case False
    then have r: "st' = fst (rt f st1)" "r = snd (rt f st1)"
      using E' by (simp_all add: prod_eq_iff)
    obtain H where H: "H \<in> {G, G'}" "steps R C c (srv st1, G) (srv st', H)" "\<And>is. r = Inr is \<Longrightarrow> H = G'"
      using rt_steps_all [of R C c st1 G f G', OF G'(1)] unfolding r by blast
    have "replied r \<subseteq> accepted H"
      using H(3) G'(3) rt_Inr(2) [of f st1] by (cases r) (auto simp: r(2) [symmetric])
    with H that show thesis by (simp add: srv)
  qed
  with G' trackedD(2,3) [OF T] show ?thesis
    by (intro exI [of _ H] tracked_moves [OF T]) auto
qed

lemma tracked_run:
  assumes T: "tracked R C c s0 X G" and s: "srv (wBackend w) = server X" and j: "j \<in> held X"
    and r: "run_job (store_backend R C c env cancelled) cfg hs S cause j w = (w', oc)"
  shows "tracked R C c s0 (X\<lparr>server := srv (wBackend w'), succeeded := succeeded X \<union> (if oc = NeedsAck then {j} else {})\<rparr>) G"
proof -
  have "steps R C c (server X, G) (srv (wBackend w'), G)"
    using run_job_backend [OF r] rewrite_steps [OF trackedD(4,5) [OF T j], where R = R and C = C and c = c and st = "wBackend w"] steps_refl
    by (auto simp: s store_backend_def)
  then show ?thesis
    using trackedD(2,3) [OF T] j by (intro tracked_moves [OF T]) auto
qed

lemma move_tracked:
  assumes "move R C c X Y" "empty_queue c (view s0)" and T: "tracked R C c s0 X G"
  shows "\<exists>H. tracked R C c s0 Y H"
  using assms(1) T
proof (induction rule: move.induct)
  case (produce st X j k st1 st' r)
  then show ?case using tracked_produce [OF _ assms(2)] by blast
next
  case (produce_batch st X js ks st1 st' r)
  then show ?case using tracked_produce_batch [OF _ assms(2)] by blast
next
  case (claim_ready st X limit w st' r)
  note T = claim_ready.prems
  from claimReady_spec [of s0 st G limit w] trackedD(1) [OF T] claim_ready assms(2) show ?case
    by (auto intro!: tracked_hand_out [OF T])
next
  case (claim_blocking st X limit cancelled w st' r)
  note T = claim_blocking.prems
  from claimBlocking_spec [of s0 st G limit cancelled w] trackedD(1) [OF T] claim_blocking assms(2) show ?case
    by (auto intro!: tracked_hand_out [OF T])
next
  case (recover_expired st X vis w limit st' r)
  note T = recover_expired.prems
  from RecoverExpired_spec [of s0 st G vis w limit] trackedD(1) [OF T] recover_expired assms(2) show ?case
    by (auto intro!: tracked_hand_out [OF T])
next
  case (ack_one st X j st' e)
  note T = ack_one.prems
  have j: "j \<in> held X"
    using trackedD(3) [OF T] ack_one by blast
  from Ack_steps [OF trackedD(4) [OF T j], of R C c st] ack_one obtain H where
    "steps R C c (server X, G) (srv st', H)" "accepted H = accepted G" "acked H \<subseteq> insert (ID j) (acked G)"
    by auto
  with tracked_same [OF T] \<open>j \<in> succeeded X\<close> show ?case by blast
next
  case (ack_many st X js st' es)
  note T = ack_many.prems
  have "\<forall>j \<in> set js. lease_of j \<in> leases G"
    using trackedD(3,4) [OF T] ack_many by blast
  from ack_each_steps [OF this, of R C c "srv st" "sclk st"] obtain H where
    H: "steps R C c (srv st, G) (fst (ackBatchScript R (Stream c) (Group c) (lease_triples js) (sclk st) (srv st)), H)"
      "accepted H = accepted G" "acked H \<subseteq> acked G \<union> ID ` set js"
    by blast
  then show ?case
    using call_srv(1) [of "\<lambda>ds. ackBatchScript R (Stream c) (Group c) ds (sclk st)" js st] ack_many
    by (intro tracked_call [OF T, of st "ackBatchScript R (Stream c) (Group c) (lease_triples js) (sclk st)" H])
      (auto simp: Store_AckBatch_def)
next
  case (extend_one st X j st' e)
  note T = extend_one.prems
  let ?l = "Lease j"
  have l: "(MessageID ?l, Owner ?l, Token ?l, ID j) \<in> leases G"
    using trackedD(4) [OF T] extend_one by (simp add: lease_of_def)
  show ?case
    by (rule tracked_step [OF T, of st "extendScript R (Stream c) (Group c) (MessageID ?l) (Owner ?l) (Token ?l) (sclk st)"],
        fact, rule step.extend [OF l prod.collapse [symmetric]])
      (use extend_one call_srv(2) [of "extendScript R (Stream c) (Group c) (MessageID ?l) (Owner ?l) (Token ?l) (sclk st)" st]
        in \<open>simp add: Store_Extend_def\<close>)
next
  case (extend_many st X js st' es)
  note T = extend_many.prems
  have "\<forall>j \<in> set js. lease_of j \<in> leases G"
    using trackedD(4) [OF T] extend_many by blast
  from extend_each_steps [OF this, of R C c "srv st" "sclk st"] show ?case
    using call_srv(1) [of "\<lambda>ds. extendBatchScript R (Stream c) (Group c) ds (sclk st)" js st] extend_many
    by (intro tracked_call [OF T, of st "extendBatchScript R (Stream c) (Group c) (lease_triples js) (sclk st)" G])
      (auto simp: Store_ExtendBatch_def)
next
  case (promote_some st X limit st' r)
  note T = promote_some.prems
  show ?case
    by (rule tracked_step [OF T, of st "promoteScript R (cjson_decode C) (RetryKey c) (retryData c) (Stream c) (UnixMilli (wclk st)) limit"],
        fact, rule step.promote_due [OF promote_some.hyps(2) prod.collapse [symmetric]])
      (use promote_some in \<open>simp add: promoteRetries_def\<close>)
next
  case (prune_idle st X st' e)
  note T = prune_idle.prems
  show ?case
    by (rule tracked_step [OF T, of st "pruneConsumersScript R (Stream c) (Group c) (Milliseconds (ConsumerIdleTimeout c)) (sclk st)"],
        fact, rule step.prune [OF prod.collapse [symmetric]])
      (use prune_idle call_srv(3) [of R c st] in simp)
next
  case (leave_group st X w st' e)
  note T = leave_group.prems
  show ?case
    by (rule tracked_step [OF T, of st "deregisterScript R (Stream c) (Group c) w (sclk st)"],
        fact, rule step.deregister [OF prod.collapse [symmetric]])
      (use leave_group call_srv(4) [of R c w st] in simp)
qed

lemma system_tracked:
  assumes "system R C c s0 X" "empty_queue c (view s0)"
  shows "\<exists>G. tracked R C c s0 X G"
  using assms(1)
proof (induction rule: system.induct)
  case start
  then show ?case by (auto simp: tracked_def no_ghost_def intro: steps_refl)
next
  case (moves X Y)
  then show ?case using move_tracked [OF _ assms(2)] by blast
next
  case (run X w j env cancelled cfg hs S cause w' oc)
  then show ?case using tracked_run by blast
qed

text \<open>A delivery's token counts the deliveries of its message, from one.\<close>

lemma leased_token: "leased_to c d G w j \<Longrightarrow> stream_ok (Stream c) (Group c) d \<Longrightarrow> 1 \<le> Token (Lease j)"
  unfolding leased_to_def holds_lease_def owned_def stream_ok_def by metis

lemma handed_tokens:
  assumes "steps R C c (s0, no_ghost) (s, G)" "empty_queue c (view s0)"
    and "\<exists>H. steps R C c (s, G) (s', H) \<and> P H \<and> Q H \<and> (\<forall>js. r = Inr js \<longrightarrow> L js \<and> (\<forall>j \<in> set js. leased_to c (view s') H w j))"
    and "j \<in> replied r"
  shows "1 \<le> Token (Lease j)"
proof -
  obtain H where H: "steps R C c (s, G) (s', H)" "\<forall>js. r = Inr js \<longrightarrow> (\<forall>j \<in> set js. leased_to c (view s') H w j)"
    using assms(3) by blast
  have "leased_to c (view s') H w j"
    using H(2) assms(4) by (cases r) auto
  with leased_token reachable_okS [OF steps_trans [OF assms(1) H(1)] assms(2)] show ?thesis by blast
qed

lemma system_tokens:
  assumes "system R C c s0 X" "empty_queue c (view s0)"
  shows "\<forall>j \<in> held X. 1 \<le> Token (Lease j)"
  using assms(1)
proof (induction rule: system.induct)
  case (moves X Y)
  obtain G where "tracked R C c s0 X G"
    using system_tracked [OF moves(1) assms(2)] by blast
  note sG = trackedD(1) [OF this]
  from moves.hyps(2) show ?case
  proof cases
    case (claim_ready st limit w st' r)
    then have "steps R C c (s0, no_ghost) (srv st, G)"
      using sG by simp
    from handed_tokens [OF this assms(2) claimReady_spec [OF this assms(2) claim_ready(3), of w]] moves.IH claim_ready(1,4) show ?thesis
      by auto
  next
    case (claim_blocking st limit cancelled w st' r)
    then have "steps R C c (s0, no_ghost) (srv st, G)"
      using sG by simp
    from handed_tokens [OF this assms(2) claimBlocking_spec [OF this assms(2) claim_blocking(3), of cancelled w]] moves.IH claim_blocking(1,4) show ?thesis
      by auto
  next
    case (recover_expired st vis w limit st' r)
    then have "steps R C c (s0, no_ghost) (srv st, G)"
      using sG by simp
    from handed_tokens [OF this assms(2) RecoverExpired_spec [OF this assms(2) recover_expired(3), of w limit]] moves.IH recover_expired(1,4) show ?thesis
      by auto
  qed (use moves.IH in simp_all)
qed simp_all

end

section \<open>What the clients can rely on\<close>

text \<open>The places of a job on the server: the stream, the schedule and the dead-letter stream.\<close>

definition stored :: "Config \<Rightarrow> db \<Rightarrow> string \<Rightarrow> nat" where
  "stored c d i = copies (Stream c) d i + of_bool (dHash d (retryData c) i \<noteq> None) + copies (DeadLetter c) d i"

lemma filter_at_most_one:
  assumes "length (filter P xs) \<le> 1" "x \<in> set xs" "y \<in> set xs" "P x" "P y"
  shows "x = y"
proof -
  have "a = b" if "length zs \<le> 1" "a \<in> set zs" "b \<in> set zs" for zs and a b :: 'a
    using that by (cases zs) auto
  from this [of "filter P xs"] assms show ?thesis by simp
qed

lemma tracked_places:
  assumes "store_queue R view kt xle C c" "empty_queue c (view s0)" "tracked R C c s0 X G"
  shows "stored c (view (server X)) i + of_bool (i \<in> acked G) = of_bool (i \<in> accepted G)"
  using store_queue.reachable_inv [OF assms(1) trackedD(1) [OF assms(3)] assms(2)]
  unfolding sys_inv_def core_inv_def conserved_def places_def stored_def by (simp add: domIff)

lemma system_places:
  assumes "store_queue R view kt xle C c" "empty_queue c (view s0)" "system R C c s0 X"
  shows "i \<in> answered X \<Longrightarrow> i \<notin> ID ` succeeded X \<Longrightarrow> stored c (view (server X)) i = 1"
    and "stored c (view (server X)) i \<le> of_bool (i \<in> produced X)"
proof -
  obtain G where T: "tracked R C c s0 X G"
    using store_queue.system_tracked [OF assms(1,3,2)] by blast
  have sub: "answered X \<subseteq> accepted G" "accepted G \<subseteq> produced X" "acked G \<subseteq> ID ` succeeded X"
    using T by (simp_all add: tracked_def)
  note P = tracked_places [OF assms(1,2) T, of i]
  show "stored c (view (server X)) i = 1" if "i \<in> answered X" "i \<notin> ID ` succeeded X"
  proof -
    have "i \<in> accepted G" "i \<notin> acked G"
      using sub that by blast+
    with P show ?thesis by simp
  qed
  show "stored c (view (server X)) i \<le> of_bool (i \<in> produced X)"
    using P sub(2) by (auto simp: of_bool_def split: if_splits)
qed


text \<open>A history: one producer enqueues a job, a worker claims it, another takes it over later.\<close>

definition hist_enqueue :: "refdb store \<times> (err + string)" where
  "hist_enqueue = Store_Enqueue ref_redis ref_codec ref_config demo_job (demo_store empty_server)"

definition hist_claim :: "refdb store \<times> (err + job list)" where
  "hist_claim = claimReady ref_redis ref_codec ref_config ''w1'' 1 (demo_store (srv (fst hist_enqueue)))"

definition hist_recover :: "refdb store \<times> (err + job list)" where
  "hist_recover = Store_RecoverExpired ref_redis ref_codec ref_config second ''w2'' 1
     ((demo_store (srv (fst hist_claim)))\<lparr>sclk := 5000\<rparr>)"

definition hist_world :: "refdb world" where
  "hist_world = \<lparr>server = srv (fst hist_recover), produced = {''j1''}, jobs = {demo_job}, answered = {''j1''},
     held = replied (snd hist_claim) \<union> replied (snd hist_recover), succeeded = {}\<rparr>"

lemma demo_with_id: "with_id demo_job st = (demo_job, st)"
  by (simp add: with_id_def)

lemma demo_store_srv: "srv (demo_store s) = s"
  by (simp add: demo_store_def)

lemma hist_system: "system ref_redis ref_codec ref_config empty_server hist_world"
proof -
  let ?X = "\<lparr>server = empty_server, produced = {}, jobs = {}, answered = {}, held = {}, succeeded = {}\<rparr>"
  have r: "snd hist_enqueue = Inr ''j1''"
    by (simp add: hist_enqueue_def Store_Enqueue_def demo_with_id demo_store_def rt_def) (simp add: demo_job_def)
  have 1: "system ref_redis ref_codec ref_config empty_server (?X\<lparr>server := srv (fst hist_enqueue),
      produced := {''j1''}, jobs := {demo_job}, answered := {''j1''}\<rparr>)" (is "system _ _ _ _ ?X1")
    using system_produce [OF system.start, of "demo_store empty_server" empty_server demo_job demo_job "demo_store empty_server"
        ref_redis ref_codec ref_config "fst hist_enqueue" "snd hist_enqueue"] r
    by (simp add: demo_with_id demo_store_srv prod_eq_iff hist_enqueue_def [symmetric])
  have 2: "system ref_redis ref_codec ref_config empty_server (?X1\<lparr>server := srv (fst hist_claim), held := replied (snd hist_claim)\<rparr>)"
      (is "system _ _ _ _ ?X2")
    using system_claim_ready [OF 1, of "demo_store (srv (fst hist_enqueue))" 1 "''w1''" "fst hist_claim" "snd hist_claim"]
    by (simp add: hist_claim_def demo_store_srv)
  have "1 \<le> Milliseconds second"
    by (simp add: Milliseconds_def second_def)
  from system_recover_expired [OF 2 _ this, of "(demo_store (srv (fst hist_claim)))\<lparr>sclk := 5000\<rparr>" "''w2''" 1
      "fst hist_recover" "snd hist_recover"]
  show ?thesis
    by (simp add: hist_recover_def hist_world_def demo_store_srv)
qed



lemma hist_leases:
  "map_sum id (map lease_of) (snd hist_claim) = Inr [(''1-0'', ''w1'', 1, ''j1'')]"
  "map_sum id (map lease_of) (snd hist_recover) = Inr [(''1-0'', ''w2'', 2, ''j1'')]"
  by code_simp+


end
