(* ===== verification/Progress.thy ===== *)
theory Progress
  imports System
begin

text \<open>
  No job gets stuck: from every state a system of producers and workers can reach, each job
  that is not dead-lettered can still be run and completed, whether it waits in the stream,
  is scheduled for later, or is pending with a worker that crashed or never received the
  reply that delivered it. One more fact about the server is used, that an automatic claim
  examines the pending entry it is started at (locale \<open>scanning_queue\<close>).
\<close>

section \<open>Recovery from a given entry\<close>

locale scanning_queue = store_queue R view kt xle C c
  for R :: "'r redis" and view :: "'r \<Rightarrow> db" and kt :: "string \<Rightarrow> ktype" and xle :: "string \<Rightarrow> string \<Rightarrow> bool"
    and C :: codec and c :: Config +
  assumes scan_examines:
    "1 \<le> n \<Longrightarrow> xautoclaim R (Stream c) (Group c) w idle x n t s = (s', cur, cl) \<Longrightarrow>
     pel (dGroup (view s) (Stream c) (Group c)) x = Some p \<Longrightarrow> x \<in> ids_of (dLog (view s) (Stream c)) \<Longrightarrow>
     cur = ''0-0'' \<or> xle x cur \<and> x \<noteq> cur"

lemma r_scan_examines:
  assumes "1 \<le> n" "r_xautoclaim k g w idle x n t s = (s', cur, cl)"
    and "map_of (gPel (sGrp s k g)) x = Some p" "x \<in> ids_of (sLog s k)"
  shows "cur = ''0-0'' \<or> id_le x cur \<and> x \<noteq> cur"
proof (cases "length (r_scan k g x s) \<le> nat n")
  case True
  then show ?thesis using assms(2) by (simp add: r_xautoclaim_def Let_def)
next
  case False
  let ?xs = "r_scan k g x s"
  have n: "nat n < length ?xs" using False by simp
  have cur: "cur = ?xs ! nat n"
    using assms(2) False by (simp add: r_xautoclaim_def Let_def)
  have "?xs ! 0 \<in> set ?xs"
    by (rule nth_mem) (use n in linarith)
  then have "id_key x \<le> id_key (?xs ! 0)"
    by (simp add: r_scan_set id_le_def)
  also have "id_key (?xs ! 0) < id_key (?xs ! nat n)"
    using take_sorted [OF r_scan_sorted(1,3) n, of "?xs ! 0"] n assms(1) by (force simp: in_set_conv_nth)
  finally show ?thesis
    by (auto simp: cur id_le_def)
qed

interpretation refscan: scanning_queue ref_redis ref_view ref_kt id_le ref_codec ref_config
  by unfold_locales (use r_scan_examines in \<open>simp add: ref_redis_def\<close>)

context scanning_queue
begin

lemma recover_takes_start:
  assumes ok: "okS s" and i: "1 \<le> idle" "1 \<le> want"
    and x: "pel (dGroup (view s) (Stream c) (Group c)) x = Some p" "idle \<le> t - pTime p"
    and r: "recoverScript R (Stream c) (Group c) w idle want x t s = (s', Some (cur, rs))"
  shows "x \<in> fst ` set rs"
proof -
  obtain s1 cur1 cl where a: "xautoclaim R (Stream c) (Group c) w idle x want t s = (s1, cur1, cl)"
    by (metis prod_cases3)
  obtain qs where qs: "with_counts R (Stream c) (Group c) t s1 cl = Some qs" "map fst qs = map fst cl"
    using autoclaim_recovers [OF ok i(2) a] by blast
  note log = stream_ok_pending_in_log [OF ok x(1)]
  have "xle x x"
    using xle_total [of x x] by blast
  then have "x \<in> ids_of cl"
    using xautoclaim_scan [OF kt_stream i(2) a x(1) log] scan_examines [OF i(2) a x(1) log] x(2) by blast
  then have mem: "x \<in> fst ` set qs"
    using qs(2) by (metis list.set_map)
  have ten: "(10 :: nat) = Suc 9" by simp
  have loop: "(s', Some (cur, rs)) = (if int (length qs) \<ge> want \<or> cur1 = ''0-0'' then (s1, Some (cur1, qs))
      else recover_loop 9 R (Stream c) (Group c) w idle want t cur1 qs s1)"
    unfolding r [symmetric] recoverScript_def ten recover_loop.simps(2) by (simp add: a qs(1) Let_def)
  show ?thesis
  proof (cases "int (length qs) \<ge> want \<or> cur1 = ''0-0''")
    case True
    with loop mem show ?thesis by simp
  next
    case False
    then have "int (length qs) < want" by simp
    from recover_loop_spec [OF autoclaim_step(2) [OF ok i(2) a] i(1) this, of 9 w t cur1] loop False mem show ?thesis
      by auto
  qed
qed

end

section \<open>A pending job can be taken over and completed\<close>

text \<open>A client with a working connection, no prune due, and a cursor.\<close>

definition client :: "Config \<Rightarrow> 'r \<Rightarrow> int \<Rightarrow> int \<Rightarrow> string \<Rightarrow> 'r store" where
  "client c s t now cur =
     \<lparr>srv = s, sclk = t, wclk = now, net = [], blocks = [Served], idSeeds = [], recoverCursor = cur,
      lastPrune = now + 1 - min minute (ConsumerIdleTimeout c div 2), lastStuckWarn = 0\<rparr>"

lemma client_simps [simp]:
  "srv (client c s t now cur) = s" "sclk (client c s t now cur) = t" "wclk (client c s t now cur) = now"
  "net (client c s t now cur) = []" "blocks (client c s t now cur) = [Served]" "recoverCursor (client c s t now cur) = cur"
  "\<not> prune_due c (client c s t now cur)"
  by (simp_all add: client_def prune_due_def)

text \<open>
  A job can be completed from here: some continuation of the history, in which nobody
  produces anything, has a handler report its success and leaves the server without it.
\<close>

definition completable :: "'r redis \<Rightarrow> codec \<Rightarrow> Config \<Rightarrow> ('r \<Rightarrow> db) \<Rightarrow> 'r \<Rightarrow> 'r world \<Rightarrow> string \<Rightarrow> bool" where
  "completable R C c view s0 X i \<longleftrightarrow>
     (\<exists>Y. system R C c s0 Y \<and> produced Y = produced X \<and> i \<in> ID ` succeeded Y \<and> stored c (view (server Y)) i = 0)"

lemma completable_later:
  "completable R C c view s0 Y i \<Longrightarrow> produced Y = produced X \<Longrightarrow> completable R C c view s0 X i"
  by (auto simp: completable_def)

context scanning_queue
begin

lemma recover_returns:
  assumes r: "steps R C c (s0, no_ghost) (s, G)" "empty_queue c (view s0)"
    and x: "pel (dGroup (view s) (Stream c) (Group c)) x = Some p"
    and E: "Store_RecoverExpired R C c 1000000 w 1 (client c s (pTime p + 1) 0 x) = (st', res)"
  shows "\<exists>js j. res = Inr js \<and> j \<in> set js \<and> MessageID (Lease j) = x \<and> dLog (view (srv st')) = dLog (view s)"
proof -
  let ?st = "client c s (pTime p + 1) 0 x"
  define f where "f = recoverScript R (Stream c) (Group c) w 1 1 x (pTime p + 1)"
  have ok: "okS s"
    by (rule reachable_okS [OF r])
  obtain s2 cur rs where f: "f s = (s2, Some (cur, rs))"
      and rec: "recovers (Stream c) (Group c) w (pTime p + 1) 1 (view s) (view s2) rs"
    using recover_spec [OF ok, of 1 1 w x "pTime p + 1"] unfolding f_def by auto
  have "x \<in> fst ` set rs"
    by (rule recover_takes_start [OF ok _ _ x _ f [unfolded f_def]]) simp_all
  moreover have "step R C c (s, G) (s2, G\<lparr>leases := leases G \<union> handed w rs\<rparr>)"
    by (rule step.recover [OF _ _ f [unfolded f_def]]) simp_all
  from reachable_payloads [OF steps_snoc [OF r(1) this] r(2)] have "payloads_ok C c (view s2)" .
  then have "\<forall>(y, fs, n) \<in> set rs. parseable C fs"
    using payload_entry recovers_fences(3) [OF rec ok] by blast
  from parse_entries_ok [OF this, of R c w] have
    "\<exists>js. parse_entries R C c w rs st = (st, js) \<and> list_all2 (delivers w) rs js" for st .
  then obtain js where js: "parse_entries R C c w rs ((fst (rt f ?st))\<lparr>recoverCursor := cur\<rparr>) =
      ((fst (rt f ?st))\<lparr>recoverCursor := cur\<rparr>, js)" "list_all2 (delivers w) rs js"
    by blast
  ultimately obtain j where "j \<in> set js" "MessageID (Lease j) = x"
    by (force simp: delivers_def lease_of_def list_all2_conv_all_nth in_set_conv_nth)
  moreover have "rt f ?st = (?st\<lparr>srv := s2\<rparr>, Inr (Some (cur, rs)))"
    by (simp add: rt_def f)
  then have "Store_RecoverExpired R C c 1000000 w 1 ?st = (?st\<lparr>srv := s2, recoverCursor := cur\<rparr>, Inr js)"
    using js(1) by (simp add: Store_RecoverExpired_def Let_def Milliseconds_def flip: f_def)
  ultimately show ?thesis
    using E recoversD(1) [OF rec] by auto
qed

lemma held_completable:
  assumes X: "system R C c s0 X" and e: "empty_queue c (view s0)" and j: "j \<in> held X" "holds_lease c j (view (server X))"
  shows "completable R C c view s0 X (ID j)"
proof -
  obtain G where T: "tracked R C c s0 X G"
    using system_tracked [OF X e] by blast
  let ?st = "client c (server X) 0 0 []" and ?hs = "\<lambda>_ :: string. Some (\<lambda>_ :: job. \<lparr>Retryable = False, Err = None\<rparr>)"
  let ?cfg = "demo_config\<lparr>MaxDeliveries := Token (Lease j)\<rparr>"
  define w where "w = \<lparr>wBackend = ?st, wEvents = []\<rparr>"
  have run: "run_job (store_backend R C c id False) ?cfg ?hs demo_surroundings None j w = (emit (JobStarted j) w, NeedsAck)"
    by (simp add: run_job_def Let_def)
  define Y where "Y = X\<lparr>server := server X, succeeded := succeeded X \<union> {j}\<rparr>"
  have Y: "system R C c s0 Y"
    using system.run [OF X _ j(1) run] by (simp add: Y_def w_def emit_def)
  have TY: "tracked R C c s0 Y G"
    using tracked_run [OF T _ j(1) run] by (simp add: Y_def w_def emit_def)
  define f where "f = ackScript R (Stream c) (Group c) (MessageID (Lease j)) (Owner (Lease j)) (Token (Lease j)) 0"
  have ok: "okS (server X)"
    by (rule reachable_okS [OF trackedD(1) [OF T] e])
  have "f (server X) = (fst (f (server X)), 1)"
    using ack.held [OF ok, of "MessageID (Lease j)" "Owner (Lease j)" "Token (Lease j)" 0] j(2)
    by (simp add: holds_lease_def f_def prod_eq_iff)
  moreover have l: "(MessageID (Lease j), Owner (Lease j), Token (Lease j), ID j) \<in> leases G"
    using trackedD(4) [OF T j(1)] by (simp add: lease_of_def)
  ultimately have st: "step R C c (server X, G) (fst (f (server X)), G\<lparr>acked := insert (ID j) (acked G)\<rparr>)"
    using step.ack [OF l, of R c 0 "server X" "fst (f (server X))" 1 C] by (simp add: f_def)
  let ?Z = "Y\<lparr>server := fst (f (server X))\<rparr>"
  have "srv (fst (Store_Ack R c j ?st)) = fst (f (server X))"
    by (simp add: Store_Ack_def fenced_call_rt rt_def f_def)
  then have Z: "system R C c s0 ?Z"
    using system_ack_one [OF Y _ _ prod.collapse [symmetric], of ?st j] by (simp add: Y_def)
  have "tracked R C c s0 ?Z (G\<lparr>acked := insert (ID j) (acked G)\<rparr>)"
    by (rule tracked_same [OF TY]) (use steps_snoc [OF steps_refl st] in \<open>auto simp: Y_def\<close>)
  from tracked_places [OF store_queue_axioms e this, of "ID j"]
  have "stored c (view (server ?Z)) (ID j) = 0"
    by (cases "ID j \<in> accepted G") simp_all
  with Z show ?thesis
    by (auto simp: completable_def Y_def intro!: exI [of _ ?Z])
qed

lemma pending_completable:
  assumes X: "system R C c s0 X" and e: "empty_queue c (view s0)"
    and p: "pel (dGroup (view (server X)) (Stream c) (Group c)) x = Some p"
    and fs: "map_of (dLog (view (server X)) (Stream c)) x = Some fs" and i: "entry_job (x, fs) = i"
  shows "completable R C c view s0 X i"
proof -
  obtain G where T: "tracked R C c s0 X G"
    using system_tracked [OF X e] by blast
  let ?st = "client c (server X) (pTime p + 1) 0 x"
  obtain st' r where E: "Store_RecoverExpired R C c 1000000 ''w'' 1 ?st = (st', r)"
    by fastforce
  obtain js j where j: "r = Inr js" "j \<in> set js" "MessageID (Lease j) = x" "dLog (view (srv st')) = dLog (view (server X))"
    using recover_returns [OF trackedD(1) [OF T] e p E] by blast
  have vis: "1 \<le> Milliseconds 1000000"
    by (simp add: Milliseconds_def)
  obtain H where H: "steps R C c (server X, G) (srv st', H)" "leased_to c (view (srv st')) H ''w'' j"
    using RecoverExpired_spec [of s0 ?st G 1000000 "''w''" 1, OF _ e vis] trackedD(1) [OF T] E j(1,2) by auto
  have "sys_inv C c (view (srv st')) H"
    by (rule reachable_inv [OF steps_trans [OF trackedD(1) [OF T] H(1)] e])
  then have "leases_ok c (view (srv st')) H"
    by (simp add: sys_inv_def core_inv_def)
  then have ID: "ID j = i"
    using H(2) fs i j(3,4) by (force simp: leases_ok_def leased_to_def lease_of_def)
  let ?Y = "X\<lparr>server := srv st', held := held X \<union> replied r\<rparr>"
  have "system R C c s0 ?Y"
    by (rule system_recover_expired [OF X _ vis E]) simp
  from held_completable [OF this e, of j] H(2) j(1,2) ID have "completable R C c view s0 ?Y i"
    by (simp add: leased_to_def)
  then show ?thesis
    by (rule completable_later) simp
qed

lemma stream_completable:
  assumes X: "system R C c s0 X" and e: "empty_queue c (view s0)"
    and x: "(x, fs) \<in> set (dLog (view (server X)) (Stream c))" and i: "entry_job (x, fs) = i"
  shows "completable R C c view s0 X i"
proof -
  obtain G where T: "tracked R C c s0 X G"
    using system_tracked [OF X e] by blast
  have ok: "okS (server X)"
    by (rule reachable_okS [OF trackedD(1) [OF T] e])
  have fs: "map_of (dLog (view (server X)) (Stream c)) x = Some fs"
    using map_of_eq_Some_iff [OF stream_okD(1) [OF ok]] x by simp
  let ?u = "undelivered (dGroup (view (server X)) (Stream c) (Group c))"
  show ?thesis
  proof (cases "x \<in> set ?u")
    case False
    then have "x \<in> dom (pel (dGroup (view (server X)) (Stream c) (Group c)))"
      using stream_okD(4) [OF ok] x by force
    with pending_completable [OF X e _ fs i] show ?thesis by blast
  next
    case True
    define n where "n = int (length ?u)"
    have n: "1 \<le> n"
      using True by (cases ?u) (simp_all add: n_def)
    let ?st = "client c (server X) 0 0 []"
    obtain st' r where E: "claimBlocking R C c False ''w'' n ?st = (st', r)"
      by fastforce
    obtain s1 q where q: "xreadgroup R (Stream c) (Group c) ''w'' n 0 (srv ?st) = (s1, q)"
      by fastforce
    have P: "fst (parse_entries R C c ''w'' (map (\<lambda>(x, fs). (x, fs, 1)) (case q of None \<Rightarrow> [] | Some es \<Rightarrow> es)) v) = v" for v
      using read_spec(3) [OF _ e n q refl, of G v] trackedD(1) [OF T] by auto
    have "srv st' = s1"
      using E q P by (cases q) (auto simp: claimBlocking_def Let_def case_prod_beta)
    then have v: "view (srv st') = ev_xreadgroup (Stream c) (Group c) ''w'' n 0 (view (server X))"
      using xreadgroup_view [of "Stream c" n "Group c" "''w''" 0 "server X"] n q by simp
    let ?Y = "X\<lparr>server := srv st', held := held X \<union> replied r\<rparr>"
    have Y: "system R C c s0 ?Y"
      by (rule system_claim_blocking [OF X _ n E]) simp
    have "pel (dGroup (view (srv st')) (Stream c) (Group c)) x \<noteq> None"
      using True by (simp add: v n_def ev_defs deliver_def)
    then obtain p where "pel (dGroup (view (server ?Y)) (Stream c) (Group c)) x = Some p"
      by auto
    from pending_completable [OF Y e this _ i] fs have "completable R C c view s0 ?Y i"
      by (simp add: v ev_defs)
    then show ?thesis
      by (rule completable_later) simp
  qed
qed

lemma scheduled_completable:
  assumes X: "system R C c s0 X" and e: "empty_queue c (view s0)"
    and i: "dHash (view (server X)) (retryData c) i \<noteq> None"
  shows "completable R C c view s0 X i"
proof -
  obtain G where T: "tracked R C c s0 X G"
    using system_tracked [OF X e] by blast
  note inv = reachable_inv [OF trackedD(1) [OF T] e]
  then have q: "queue_ok (cjson_decode C) (Stream c) (Group c) (RetryKey c) (retryData c) (view (server X))"
    by (simp add: sys_inv_def core_inv_def)
  then have "dom (dZset (view (server X)) (RetryKey c)) = dom (dHash (view (server X)) (retryData c))"
    by (simp add: queue_ok_def sched_ok_def)
  with i obtain v where v: "dZset (view (server X)) (RetryKey c) i = Some v"
    by blast
  let ?due = "due (RetryKey c) v (view (server X))"
  have "finite (accepted G)"
    using steps_finite [OF trackedD(1) [OF T]] by (simp add: no_ghost_def)
  moreover have "?due \<subseteq> accepted G"
    using sys_inv_scheduled [OF inv] by (auto simp: due_def)
  ultimately have fin: "finite ?due"
    by (rule rev_finite_subset)
  define n where "n = int (card ?due) + 1"
  have n: "0 \<le> n"
    by (simp add: n_def)
  let ?st = "client c (server X) 0 (v * 1000000) []"
  define f where "f = promoteScript R (cjson_decode C) (RetryKey c) (retryData c) (Stream c) v n"
  obtain es where es: "dLog (view (fst (f (server X)))) (Stream c) = dLog (view (server X)) (Stream c) @ es"
      "distinct (map entry_job es)" "set (map entry_job es) \<subseteq> ?due"
      "int (length es) < n \<longrightarrow> set (map entry_job es) = ?due"
    using promote_log [OF q n, of v] unfolding f_def promoteScript_def by blast
  have "length es \<le> card ?due"
    using card_mono [OF fin es(3)] distinct_card [OF es(2)] by simp
  with es(4) v have "i \<in> entry_job ` set es"
    by (auto simp: n_def due_def)
  then obtain x fs where x: "(x, fs) \<in> set es" "entry_job (x, fs) = i"
    by auto
  let ?Y = "X\<lparr>server := fst (f (server X))\<rparr>"
  have "srv (fst (promoteRetries R C c n ?st)) = fst (f (server X))"
    by (simp add: promoteRetries_def rt_def UnixMilli_def f_def)
  then have "system R C c s0 ?Y"
    using system_promote_some [OF X _ _ prod.collapse [symmetric], of ?st n] by (simp add: n_def)
  from stream_completable [OF this e _ x(2)] x(1) es(1) have "completable R C c view s0 ?Y i"
    by simp
  then show ?thesis
    by (rule completable_later) simp
qed

end



end
