(* ===== verification/Integrity.thy ===== *)
theory Integrity
  imports System
begin

text \<open>
  What a delivery carries. Between the producer's \<^verbatim>\<open>Enqueue\<close> and the handler a job is
  written as stream fields or JSON, moved by the scripts, rewritten by retries and parsed back,
  in any order and any number of times. This theory shows that a worker of any history is
  handed only jobs somebody enqueued, with the data they were enqueued with: identifier, task,
  payload, limits, trace context and times are the producer's, the idempotency key is gone,
  the lease is the delivery's own, and the attempt counter has been moved by retries only,
  never to the job's limit.
\<close>

section \<open>Deliveries of a job\<close>

definition of_job :: "job \<Rightarrow> job \<Rightarrow> bool" where
  "of_job j k \<longleftrightarrow> j = k\<lparr>Attempt := Attempt j, IdempotencyKey := [], Lease := Lease j\<rparr> \<and>
     (Attempt j = Attempt k \<or> Attempt j < MaxAttempts k \<and> (Attempt k < Attempt j \<or> Attempt k = 2 ^ 63 - 1))"

definition from_jobs :: "job set \<Rightarrow> job \<Rightarrow> bool" where
  "from_jobs J j \<longleftrightarrow> (\<exists>k \<in> J. of_job j k)"

lemma of_jobD:
  assumes "of_job j k"
  shows "ID j = ID k" "Task j = Task k" "Payload j = Payload k" "MaxAttempts j = MaxAttempts k"
  using assms by (cases j; cases k; simp add: of_job_def)+

lemma of_job_enqueued: "of_job (k\<lparr>IdempotencyKey := [], Lease := l\<rparr>) k"
  by (cases k) (simp add: of_job_def)

lemma of_job_redelivered: "of_job j k \<Longrightarrow> of_job (j\<lparr>IdempotencyKey := [], Lease := l\<rparr>) k"
  by (cases j; cases k) (simp add: of_job_def)

lemma of_job_retried:
  assumes "of_job j k" "\<not> ShouldDeadLetter j" "is_int64 (Attempt j)" "is_int64 (MaxAttempts j)"
  shows "of_job (j\<lparr>Attempt := wrap64 (Attempt j + 1)\<rparr>) k"
proof -
  have m: "MaxAttempts j = MaxAttempts k" "wrap64 (Attempt j + 1) < MaxAttempts k"
    using assms(1,2) by (cases j; cases k; simp add: of_job_def ShouldDeadLetter_def Exhausted_def)+
  have "Attempt k < wrap64 (Attempt j + 1) \<or> Attempt k = 2 ^ 63 - 1"
  proof (cases "Attempt j = 2 ^ 63 - 1")
    case True
    then have "Attempt j = Attempt k"
      using assms(1,4) m(1) by (auto simp: of_job_def is_int64_def)
    with True show ?thesis by simp
  next
    case False
    then have "wrap64 (Attempt j + 1) = Attempt j + 1"
      using assms(3) by (intro wrap64_id) (simp add: is_int64_def)
    with assms(1) show ?thesis by (auto simp: of_job_def)
  qed
  moreover have "j\<lparr>Attempt := a\<rparr> = k\<lparr>Attempt := a, IdempotencyKey := [], Lease := Lease j\<rparr>" for a
    using assms(1) by (cases j; cases k) (simp add: of_job_def)
  ultimately show ?thesis
    using m(2) unfolding of_job_def by simp
qed

lemma from_jobs_mono: "J \<subseteq> K \<Longrightarrow> from_jobs J j \<Longrightarrow> from_jobs K j"
  by (auto simp: from_jobs_def)

section \<open>What is stored\<close>

definition carried :: "codec \<Rightarrow> job set \<Rightarrow> fields \<Rightarrow> bool" where
  "carried C J fs \<longleftrightarrow> (\<forall>x l. \<exists>j. parseJob C x (flatToMap (flatten fs)) l = Inr j \<and> from_jobs J j)"

lemma carried_mono: "J \<subseteq> K \<Longrightarrow> carried C J fs \<Longrightarrow> carried C K fs"
  unfolding carried_def by (meson from_jobs_mono)

text \<open>The forms in which a job is written: fields of an entry, JSON on the schedule, and a dead letter.\<close>

definition written :: "codec \<Rightarrow> job \<Rightarrow> fields set" where
  "written C j = {jobFields C j, cjson_decode C (marshal C (jobFields C j))}"

definition dead_pairs :: "codec \<Rightarrow> job \<Rightarrow> string \<Rightarrow> int \<Rightarrow> fields" where
  "dead_pairs C j reason t = map_put ''failedAt'' (fmt_time C t) (map_put ''deliveries'' (itoa (Token (Lease j))) (map_put ''reason'' reason (jobFields C j)))"

fun stored_as :: "codec \<Rightarrow> job set \<Rightarrow> place \<times> fields \<Rightarrow> bool" where
  "stored_as C J (Queued, fs) \<longleftrightarrow> carried C J fs"
| "stored_as C J (Buried, fs) \<longleftrightarrow> (\<exists>j reason t. from_jobs J j \<and> fs = dead_pairs C j reason t)"

lemma stored_as_mono: "J \<subseteq> K \<Longrightarrow> stored_as C J e \<Longrightarrow> stored_as C K e"
  by (cases "(C, J, e)" rule: stored_as.cases) (auto intro: carried_mono from_jobs_mono)

definition genuine :: "codec \<Rightarrow> Config \<Rightarrow> ('r \<Rightarrow> db) \<Rightarrow> 'r world \<Rightarrow> bool" where
  "genuine C c view X \<longleftrightarrow> (\<forall>e \<in> payloads C c (view (server X)). stored_as C (jobs X) e) \<and> (\<forall>j \<in> held X. from_jobs (jobs X) j)"

lemma genuine_moves:
  assumes "genuine C c view X" "jobs X \<subseteq> jobs Y"
    and "\<And>e. e \<in> payloads C c (view (server Y)) \<Longrightarrow> e \<in> payloads C c (view (server X)) \<or> stored_as C (jobs Y) e"
    and "\<And>j. j \<in> held Y \<Longrightarrow> j \<in> held X \<or> from_jobs (jobs Y) j"
  shows "genuine C c view Y"
  using assms unfolding genuine_def by (meson stored_as_mono from_jobs_mono)

lemma genuine_server:
  "genuine C c view X \<Longrightarrow> payloads C c (view s') \<subseteq> payloads C c (view (server X)) \<Longrightarrow> genuine C c view (X\<lparr>server := s'\<rparr>)"
  by (rule genuine_moves) auto

lemma rt_payloads:
  "payloads C c (view (fst (f (srv st)))) \<subseteq> A \<Longrightarrow> payloads C c (view (srv st)) \<subseteq> A \<Longrightarrow> payloads C c (view (srv (fst (rt f st)))) \<subseteq> A"
  using rt_srv [of f st] by auto

lemma parse_entries_carried:
  assumes "\<forall>(x, fs, n) \<in> set es. carried C J fs"
  shows "\<exists>js. parse_entries R C c w es st = (st, js) \<and> (\<forall>j \<in> set js. from_jobs J j)"
  using assms
proof (induction es)
  case (Cons e es)
  obtain x fs n where e: "e = (x, fs, n)" by (cases e)
  obtain j where "parseJob C x (flatToMap (flatten fs)) \<lparr>MessageID = x, Owner = w, Token = n, Partition = 0\<rparr> = Inr j" "from_jobs J j"
    using Cons.prems e unfolding carried_def by fastforce
  moreover obtain js where "parse_entries R C c w es st = (st, js)" "\<forall>j \<in> set js. from_jobs J j"
    using Cons by auto
  ultimately show ?case
    by (simp add: e parseOrQuarantine_def)
qed simp

context store_queue
begin

lemma carried_job:
  assumes "storable j" "utf8_job j" "\<And>l. from_jobs J (j\<lparr>IdempotencyKey := [], Lease := l\<rparr>)" "fs \<in> written C j"
  shows "carried C J fs"
proof -
  have "map_of (flatToMap (flatten (jobFields C j))) = map_of (jobFields C j)"
    by (simp add: field_distinct)
  from parseJob_cong [OF this] parse_jobFields [OF assms(1)] parse_decode_jobFields [OF assms(1,2)]
  have "parseJob C x (flatToMap (flatten fs)) l = Inr (j\<lparr>IdempotencyKey := [], Lease := l\<rparr>)" for x l
    using assms(4) by (auto simp: written_def)
  with assms(3) show ?thesis by (auto simp: carried_def)
qed

lemma carried_produced:
  assumes "storable k" "utf8_job k" "k \<in> J" "fs \<in> written C k"
  shows "carried C J fs"
  by (rule carried_job [OF assms(1,2) _ assms(4)]) (use assms(3) of_job_enqueued in \<open>auto simp: from_jobs_def\<close>)

lemma carried_retried:
  assumes "from_jobs J j" "\<not> ShouldDeadLetter j" "storable j" "utf8_job j"
    and "fs \<in> written C (j\<lparr>Attempt := wrap64 (Attempt j + 1)\<rparr>)"
  shows "carried C J fs"
proof (rule carried_job [OF _ _ _ assms(5)])
  show "storable (j\<lparr>Attempt := wrap64 (Attempt j + 1)\<rparr>)" "utf8_job (j\<lparr>Attempt := wrap64 (Attempt j + 1)\<rparr>)"
    using assms(3,4) by (simp_all add: storable_def utf8_job_def)
  show "from_jobs J (j\<lparr>Attempt := wrap64 (Attempt j + 1), IdempotencyKey := [], Lease := l\<rparr>)" for l
    using assms(1-3) of_job_retried of_job_redelivered unfolding from_jobs_def storable_def by blast
qed

section \<open>Writing\<close>

lemma tx_one_payloads: "payloads C c (view (fst (tx_one R C c now t k s))) \<subseteq> payloads C c (view s) \<union> Pair Queued ` written C k"
proof -
  have "payloads C c (view (zadd R (RetryKey c) runAt (ID k) (hset R (retryData c) (ID k) (marshal C (jobFields C k)) s)))
      \<subseteq> payloads C c (view s) \<union> Pair Queued ` written C k" for runAt
    using payloads_hset_mono [OF subset_refl, where C = C and c = c and d = "view s"] by (auto simp: zadd_view hset_view written_def)
  then show ?thesis
    using enqueue_once_payloads [of "IdempotencyKey k" "ID k" _ "marshal C (jobFields C k)" t s]
    by (auto simp: tx_one_def Let_def xadd_view payloads_xadd written_def)
qed

lemma tx_all_payloads:
  "payloads C c (view (fst (tx_all R C c now t ks s))) \<subseteq> payloads C c (view s) \<union> (\<Union>k \<in> set ks. Pair Queued ` written C k)"
proof (induction ks arbitrary: s)
  case (Cons k ks)
  from Cons.IH [of "fst (tx_one R C c now t k s)"] tx_one_payloads [of now t k s] show ?case
    by (auto simp: case_prod_beta)
qed simp

text \<open>A single enqueue writes what a transaction of one job writes.\<close>

lemma Enqueue_payloads:
  assumes "with_id j st = (k, st1)"
  shows "payloads C c (view (srv (fst (Store_Enqueue R C c j st)))) \<subseteq> payloads C c (view (srv st)) \<union> Pair Queued ` written C k"
proof -
  have srv: "srv st1 = srv st"
    using with_id_frame(1) [of j st] by (simp add: assms)
  let ?A = "payloads C c (view (srv st1)) \<union> Pair Queued ` written C k"
  have "payloads C c (view (srv (fst (enqueueOnce R C c k st1)))) \<subseteq> ?A"
    unfolding enqueueOnce_def Let_def by (rule rt_payloads) (use enqueue_once_payloads in \<open>fastforce simp: written_def\<close>)+
  moreover have "payloads C c (view (srv (fst (schedule R C c k runAt st1)))) \<subseteq> ?A" for runAt
    unfolding schedule_rt Let_def fst_conv
    by (rule rt_payloads, simp_all add: zadd_view hset_view)
      (rule subset_trans [OF payloads_hset_mono [OF subset_refl]], auto simp: written_def)
  moreover have "payloads C c (view (srv (fst (rt (xadd R (Stream c) (jobFields C k)) st1)))) \<subseteq> ?A"
    by (rule rt_payloads) (auto simp: xadd_view payloads_xadd written_def)
  ultimately show ?thesis
    unfolding Store_Enqueue_def assms srv [symmetric] by (auto simp: case_prod_beta Let_def split: sum.split option.split)
qed

section \<open>Delivering\<close>

text \<open>A reply of entries that are in the stream, parsed.\<close>

lemma parse_genuine:
  assumes "genuine C c view X" "payloads C c (view s) \<subseteq> payloads C c (view (server X))"
    and "\<And>x fs n. (x, fs, n) \<in> set es \<Longrightarrow> map_of (dLog (view s) (Stream c)) x = Some fs"
  shows "\<exists>js. parse_entries R C c w es st = (st, js) \<and> (\<forall>j \<in> set js. from_jobs (jobs X) j)"
proof (rule parse_entries_carried)
  have "carried C (jobs X) fs" if "(x, fs, n) \<in> set es" for x fs n
  proof -
    have "(Queued, fs) \<in> payloads C c (view s)"
      by (rule payloads_entry [OF map_of_SomeD [OF assms(3) [OF that]]])
    with assms(1,2) show ?thesis by (fastforce simp: genuine_def)
  qed
  then show "\<forall>(x, fs, n) \<in> set es. carried C (jobs X) fs" by blast
qed

lemma genuine_hand_out:
  assumes "genuine C c view X" "payloads C c (view s') \<subseteq> payloads C c (view (server X))" "\<forall>j \<in> replied r. from_jobs (jobs X) j"
  shows "genuine C c view (X\<lparr>server := s', held := held X \<union> replied r\<rparr>)"
  by (rule genuine_moves [OF assms(1)]) (use assms(2,3) in auto)

lemma genuine_claim_ready:
  assumes X: "genuine C c view X" and s: "srv st = server X" and n: "1 \<le> limit"
    and q: "queue_ok (cjson_decode C) (Stream c) (Group c) (RetryKey c) (retryData c) (view (server X))"
    and r: "claimReady R C c w limit st = (st', r)"
  shows "genuine C c view (X\<lparr>server := srv st', held := held X \<union> replied r\<rparr>)"
proof -
  define f where "f = claimScript R (cjson_decode C) (Stream c) (RetryKey c) (retryData c) (Group c) w limit
     (UnixMilli (wclk st)) (sclk st)"
  have f: "payloads C c (view (fst (f (srv st)))) \<subseteq> payloads C c (view (server X))"
    unfolding f_def s by (rule claim_payloads [OF q n])
  have "map_of (dLog (view (fst (f (srv st)))) (Stream c)) x = Some fs"
    if "(x, fs, m) \<in> set (map (\<lambda>(x, fs). (x, fs, 1 :: int)) (snd (f (srv st))))" for x fs m
    using claim_owned(2) [OF q n, of w "UnixMilli (wclk st)" "sclk st" "fst (f (srv st))" "snd (f (srv st))" x fs] that
    by (auto simp: f_def s)
  from parse_genuine [OF X f this, of "map (\<lambda>(x, fs). (x, fs, 1)) (snd (f (srv st)))" "\<lambda>x fs n. n" w "fst (rt f st)"] obtain js where
    js: "parse_entries R C c w (map (\<lambda>(x, fs). (x, fs, 1)) (snd (f (srv st)))) (fst (rt f st)) = (fst (rt f st), js)"
      "\<forall>j \<in> set js. from_jobs (jobs X) j"
    by blast
  have "srv st' = srv (fst (rt f st)) \<and> (\<forall>j \<in> replied r. from_jobs (jobs X) j)"
    using r js by (cases rule: rt_cases [of f st]) (auto simp: claimReady_def f_def [symmetric] case_prod_beta)
  with f show ?thesis
    using rt_payloads [of C c view f st "payloads C c (view (server X))"] by (intro genuine_hand_out [OF X]) (auto simp: s)
qed

lemma genuine_claim_blocking:
  assumes X: "genuine C c view X" and s: "srv st = server X" and n: "1 \<le> limit" and ok: "okS (server X)"
    and r: "claimBlocking R C c cancelled w limit st = (st', r)"
  shows "genuine C c view (X\<lparr>server := srv st', held := held X \<union> replied r\<rparr>)"
proof -
  obtain s1 q where x: "xreadgroup R (Stream c) (Group c) w limit (sclk st) (server X) = (s1, q)"
    by (cases "xreadgroup R (Stream c) (Group c) w limit (sclk st) (server X)")
  define es where "es = map (\<lambda>(x, fs). (x, fs, 1 :: int)) (case q of None \<Rightarrow> [] | Some es \<Rightarrow> es)"
  have f: "payloads C c (view s1) \<subseteq> payloads C c (view (server X))"
    using read_payloads [OF n, of w "sclk st" "server X"] by (simp add: x)
  have "map_of (dLog (view s1) (Stream c)) x = Some fs" if "(x, fs, m) \<in> set es" for x fs m
    using read_entries [OF ok n x] that by (auto simp: es_def)
  then have js: "\<exists>js. parse_entries R C c w es st1 = (st1, js) \<and> (\<forall>j \<in> set js. from_jobs (jobs X) j)" for st1 :: "'r store"
    by (rule parse_genuine [OF X f])
  have "srv st' \<in> {server X, s1} \<and> (\<forall>j \<in> replied r. from_jobs (jobs X) j)"
    using r js [of "st\<lparr>blocks := tl (blocks st), srv := s1\<rparr>"]
    by (auto simp: claimBlocking_def s x Let_def warnStuckBlock_def es_def split: block.splits option.splits list.splits if_splits)
  with f show ?thesis
    by (intro genuine_hand_out [OF X]) auto
qed

lemma genuine_recover:
  assumes X: "genuine C c view X" and s: "srv st = server X" and v: "1 \<le> Milliseconds vis" and ok: "okS (server X)"
    and r: "Store_RecoverExpired R C c vis w limit st = (st', r)"
  shows "genuine C c view (X\<lparr>server := srv st', held := held X \<union> replied r\<rparr>)"
proof (cases "limit \<le> 0")
  case True
  with X r s show ?thesis
    by (auto simp: Store_RecoverExpired_def intro!: genuine_hand_out)
next
  case False
  then have n: "1 \<le> limit" by simp
  let ?p = "pruneConsumersScript R (Stream c) (Group c) (Milliseconds (ConsumerIdleTimeout c)) (sclk st)"
  define st1 where "st1 = (if prune_due c st then fst (pruneConsumers R c (st\<lparr>lastPrune := wclk st\<rparr>)) else st)"
  have "srv st1 \<in> {server X, fst (?p (server X))}"
    using rt_srv [of ?p "st\<lparr>lastPrune := wclk st\<rparr>"] by (auto simp: st1_def call_srv(3) s)
  then have ok1: "okS (srv st1)" and p1: "payloads C c (view (srv st1)) \<subseteq> payloads C c (view (server X))"
    using ok prune_okS [OF ok, of "Milliseconds (ConsumerIdleTimeout c)" "sclk st"]
      prune_payloads [of "Milliseconds (ConsumerIdleTimeout c)" "sclk st" "server X"] by auto
  define f where "f = recoverScript R (Stream c) (Group c) w (Milliseconds vis) limit (recoverCursor st) (sclk st1)"
  obtain s2 cur rs where f: "f (srv st1) = (s2, Some (cur, rs))"
      and rec: "recovers (Stream c) (Group c) w (sclk st1) (Milliseconds vis) (view (srv st1)) (view s2) rs"
    using recover_spec [OF ok1 v n, of w "recoverCursor st" "sclk st1"] unfolding f_def by blast
  have p2: "payloads C c (view s2) \<subseteq> payloads C c (view (server X))"
    by (rule subset_trans [OF recover_payloads [OF rec] p1])
  obtain js where js: "parse_entries R C c w rs ((fst (rt f st1))\<lparr>recoverCursor := cur\<rparr>) = ((fst (rt f st1))\<lparr>recoverCursor := cur\<rparr>, js)"
      "\<forall>j \<in> set js. from_jobs (jobs X) j"
    using parse_genuine [OF X p2, of rs w "(fst (rt f st1))\<lparr>recoverCursor := cur\<rparr>"] recovers_fences(3) [OF rec ok1] by blast
  have "srv st' = srv (fst (rt f st1)) \<and> (\<forall>j \<in> replied r. from_jobs (jobs X) j)"
    using r False js
    by (cases rule: rt_cases [of f st1])
      (auto simp: Store_RecoverExpired_def Let_def st1_def [symmetric] f_def [symmetric] f case_prod_beta)
  with p1 p2 rt_payloads [of C c view f st1 "payloads C c (view (server X))"] show ?thesis
    by (intro genuine_hand_out [OF X]) (auto simp: f)
qed

lemma batch_payloads:
  assumes "okS s"
  shows "payloads C c (view (fst (ackBatchScript R (Stream c) (Group c) ds t s))) \<subseteq> payloads C c (view s)"
    "payloads C c (view (fst (extendBatchScript R (Stream c) (Group c) ds t s))) \<subseteq> payloads C c (view s)"
proof -
  let ?P = "\<lambda>s'. okS s' \<and> payloads C c (view s') \<subseteq> payloads C c (view s)"
  have "?P (fst (ackBatchScript R (Stream c) (Group c) ds t s))"
    unfolding ackBatch_run_each
    by (rule run_each_invariant [where P = ?P]) (use assms okS_fenced(1) fenced_payloads(1) in blast)+
  moreover have "?P (fst (extendBatchScript R (Stream c) (Group c) ds t s))"
    unfolding extendBatch_run_each
    by (rule run_each_invariant [where P = ?P]) (use assms okS_fenced(2) fenced_payloads(2) in blast)+
  ultimately show "payloads C c (view (fst (ackBatchScript R (Stream c) (Group c) ds t s))) \<subseteq> payloads C c (view s)"
    "payloads C c (view (fst (extendBatchScript R (Stream c) (Group c) ds t s))) \<subseteq> payloads C c (view s)" by simp_all
qed

section \<open>Histories keep the data\<close>

text \<open>A call that runs one script, which adds no payload.\<close>

lemma genuine_call:
  assumes "genuine C c view X" "srv st = server X" "s' = srv (fst (rt f st))"
    and "payloads C c (view (fst (f (server X)))) \<subseteq> payloads C c (view (server X))"
  shows "genuine C c view (X\<lparr>server := s'\<rparr>)"
  using rt_payloads [of C c view f st "payloads C c (view (server X))"] assms(2-4)
  by (intro genuine_server [OF assms(1)]) simp

lemma tracked_server:
  assumes "tracked R C c s0 X G" "empty_queue c (view s0)"
  shows "queue_ok (cjson_decode C) (Stream c) (Group c) (RetryKey c) (retryData c) (view (server X))" "okS (server X)"
  using reachable_inv [OF trackedD(1) [OF assms(1)] assms(2)] by (auto simp: sys_inv_def dest: core_invD)

lemma move_genuine:
  assumes "move R C c X Y" "tracked R C c s0 X G" "empty_queue c (view s0)" "genuine C c view X"
  shows "genuine C c view Y"
  supply ok = tracked_server(2) [OF assms(2,3)]
  using assms(1)
proof cases
  case (produce st j k st1 st' r)
  have "e \<in> payloads C c (view (server X)) \<or> stored_as C (jobs X \<union> {k}) e" if "e \<in> payloads C c (view (srv st'))" for e
  proof -
    have "e \<in> payloads C c (view (server X)) \<or> e \<in> Pair Queued ` written C k"
      using Enqueue_payloads [OF produce(3)] produce(2,7) that by auto
    with carried_produced [OF produce(4,5)] show ?thesis by auto
  qed
  then show ?thesis
    unfolding produce(1) by (intro genuine_moves [OF assms(4)]) auto
next
  case (produce_batch st js ks st1 st' r)
  have st': "srv st' \<in> {server X, fst (tx_all R C c (wclk st1) (sclk st1) ks (server X))}"
    using produce_batch(2,3,6) assign_ids_frame [of js st] rt_srv [of "tx_all R C c (wclk st1) (sclk st1) ks" st1]
    by (auto simp: Store_EnqueueBatch_def split: if_splits)
  have "e \<in> payloads C c (view (server X)) \<or> stored_as C (jobs X \<union> set ks) e" if "e \<in> payloads C c (view (srv st'))" for e
  proof -
    have "e \<in> payloads C c (view (server X)) \<or> (\<exists>k \<in> set ks. e \<in> Pair Queued ` written C k)"
      using subsetD [OF tx_all_payloads [of "wclk st1" "sclk st1" ks "server X"], of e] st' that by auto
    with carried_produced produce_batch(4) show ?thesis by (fastforce simp: list_all_iff)
  qed
  then show ?thesis
    unfolding produce_batch(1) by (intro genuine_moves [OF assms(4)]) auto
next
  case (claim_ready st limit w st' r)
  then show ?thesis
    using genuine_claim_ready [OF assms(4) _ _ tracked_server(1) [OF assms(2,3)]] by blast
next
  case (claim_blocking st limit cancelled w st' r)
  then show ?thesis
    using genuine_claim_blocking [OF assms(4) _ _ ok] by blast
next
  case (recover_expired st vis w limit st' r)
  then show ?thesis
    using genuine_recover [OF assms(4) _ _ ok] by blast
next
  case (ack_one st j st' e)
  let ?f = "ackScript R (Stream c) (Group c) (MessageID (Lease j)) (Owner (Lease j)) (Token (Lease j)) (sclk st)"
  show ?thesis
    unfolding ack_one(1) by (rule genuine_call [OF assms(4) ack_one(2), where f = ?f])
      (use ack_one(4) call_srv(2) [of ?f st] fenced_payloads(1) [OF ok] in \<open>simp_all add: Store_Ack_def\<close>)
next
  case (ack_many st js st' es)
  let ?f = "ackBatchScript R (Stream c) (Group c) (lease_triples js) (sclk st)"
  show ?thesis
    unfolding ack_many(1) by (rule genuine_call [OF assms(4) ack_many(2), where f = ?f])
      (use ack_many(4) call_srv(1) [of "\<lambda>ds. ackBatchScript R (Stream c) (Group c) ds (sclk st)" js st] batch_payloads(1) [OF ok] in \<open>simp_all add: Store_AckBatch_def\<close>)
next
  case (extend_one st j st' e)
  let ?f = "extendScript R (Stream c) (Group c) (MessageID (Lease j)) (Owner (Lease j)) (Token (Lease j)) (sclk st)"
  show ?thesis
    unfolding extend_one(1) by (rule genuine_call [OF assms(4) extend_one(2), where f = ?f])
      (use extend_one(4) call_srv(2) [of ?f st] fenced_payloads(2) [OF ok] in \<open>simp_all add: Store_Extend_def\<close>)
next
  case (extend_many st js st' es)
  let ?f = "extendBatchScript R (Stream c) (Group c) (lease_triples js) (sclk st)"
  show ?thesis
    unfolding extend_many(1) by (rule genuine_call [OF assms(4) extend_many(2), where f = ?f])
      (use extend_many(4) call_srv(1) [of "\<lambda>ds. extendBatchScript R (Stream c) (Group c) ds (sclk st)" js st] batch_payloads(2) [OF ok] in \<open>simp_all add: Store_ExtendBatch_def\<close>)
next
  case (promote_some st limit st' r)
  show ?thesis
    unfolding promote_some(1)
    by (rule genuine_call [OF assms(4) promote_some(2), of _ "promoteScript R (cjson_decode C) (RetryKey c) (retryData c) (Stream c) (UnixMilli (wclk st)) limit"])
      (use promote_some(4) promote_payloads in \<open>simp_all add: promoteRetries_def promoteScript_def\<close>)
next
  case (prune_idle st st' e)
  let ?f = "pruneConsumersScript R (Stream c) (Group c) (Milliseconds (ConsumerIdleTimeout c)) (sclk st)"
  show ?thesis
    unfolding prune_idle(1) by (rule genuine_call [OF assms(4) prune_idle(2), where f = ?f])
      (use prune_idle(3) call_srv(3) [of R c st] prune_payloads in \<open>simp_all\<close>)
next
  case (leave_group st w st' e)
  let ?f = "deregisterScript R (Stream c) (Group c) w (sclk st)"
  show ?thesis
    unfolding leave_group(1) by (rule genuine_call [OF assms(4) leave_group(2), where f = ?f])
      (use leave_group(3) call_srv(4) [of R c w st] deregister_payloads in \<open>simp_all\<close>)
qed

lemma run_genuine:
  assumes T: "tracked R C c s0 X G" "empty_queue c (view s0)" and X: "genuine C c view X"
    and s: "srv (wBackend w) = server X" and j: "j \<in> held X"
    and r: "run_job (store_backend R C c env cancelled) cfg hs S cause j w = (w', oc)"
  shows "genuine C c view (X\<lparr>server := srv (wBackend w'), succeeded := A\<rparr>)"
proof -
  note ok = tracked_server(2) [OF T]
  have sj: "storable j" "utf8_job j" and fj: "from_jobs (jobs X) j"
    using T(1) X j by (auto simp: tracked_def genuine_def)
  let ?n = "j\<lparr>Attempt := wrap64 (Attempt j + 1)\<rparr>" and ?P = "payloads C c (view (server X))"
  have dl: "payloads C c (view (srv (fst (Store_DeadLetter R C c j reason (wBackend w))))) \<subseteq>
      insert (Buried, dead_pairs C j reason (wclk (wBackend w))) ?P" for reason
    unfolding Store_DeadLetter_def Let_def call_srv(2) dead_pairs_def
    by (rule rt_payloads) (use fenced_payloads(3) [OF ok] s in auto)
  have rt: "payloads C c (view (srv (fst (Store_Retry R C c j t (wBackend w))))) \<subseteq>
      insert (Queued, cjson_decode C (marshal C (jobFields C ?n))) ?P" for t
    unfolding Store_Retry_def Let_def call_srv(2) by (rule rt_payloads) (use fenced_payloads(4) [OF ok] in \<open>auto simp: s\<close>)
  have "e \<in> ?P \<or> stored_as C (jobs X) e" if e: "e \<in> payloads C c (view (srv (wBackend w')))" for e
    using run_job_backend [OF r]
  proof (elim disjE conjE exE)
    assume "wBackend w' = wBackend w"
    with e s show ?thesis by simp
  next
    fix reason assume "wBackend w' = fst (bDeadLetter (store_backend R C c env cancelled) j reason (wBackend w))"
    with e dl [of reason] have "e = (Buried, dead_pairs C j reason (wclk (wBackend w))) \<or> e \<in> ?P"
      by (auto simp: store_backend_def)
    with fj show ?thesis by (metis stored_as.simps(2))
  next
    fix t assume d: "\<not> ShouldDeadLetter j" "wBackend w' = fst (bRetry (store_backend R C c env cancelled) j t (wBackend w))"
    with e rt [of t] have "e = (Queued, cjson_decode C (marshal C (jobFields C ?n))) \<or> e \<in> ?P"
      by (auto simp: store_backend_def)
    with carried_retried [OF fj d(1) sj] show ?thesis by (auto simp: written_def)
  qed
  then show ?thesis
    by (intro genuine_moves [OF X]) auto
qed

lemma system_genuine:
  assumes "system R C c s0 X" "empty_queue c (view s0)"
  shows "genuine C c view X"
  using assms(1)
proof (induction rule: system.induct)
  case start
  then show ?case
    using assms(2) by (simp add: genuine_def payloads_def empty_queue_def)
next
  case (moves X Y)
  then show ?case
    using system_tracked [OF moves(1) assms(2)] move_genuine [OF moves(2) _ assms(2)] by blast
next
  case (run X w j env cancelled cfg hs S cause w' oc)
  then show ?case
    using system_tracked [OF run(1) assms(2)] run_genuine [OF _ assms(2)] by blast
qed

end

text \<open>The identifiers of the jobs of a history are distinct.\<close>

lemma inj_on_fresh:
  assumes "inj_on f A" "inj_on f B" "\<And>x. x \<in> B \<Longrightarrow> f x \<notin> f ` A"
  shows "inj_on f (A \<union> B)"
  using assms unfolding inj_on_def by (metis Un_iff image_eqI)

lemma system_jobs:
  assumes "system R C c s0 X"
  shows "produced X = ID ` jobs X \<and> inj_on ID (jobs X) \<and> (\<forall>k \<in> jobs X. storable k)"
  using assms
proof (induction rule: system.induct)
  case (moves X Y)
  from moves.hyps(2) moves.IH show ?case
  proof cases
    case (produce st j k st1 st' r)
    with moves.IH show ?thesis by auto
  next
    case (produce_batch st js ks st1 st' r)
    then have "inj_on ID (jobs X \<union> set ks)"
      using moves.IH by (intro inj_on_fresh) (auto simp: distinct_map list_all_iff)
    with produce_batch(1,4) moves.IH show ?thesis by (auto simp: image_Un list_all_iff)
  qed simp_all
qed simp_all

lemma dead_letter_job:
  assumes "store_queue R view kt xle C c" "empty_queue c (view s0)" "system R C c s0 X" "(x, fs) \<in> set (dLog (view (server X)) (DeadLetter c))"
  shows "\<exists>k \<in> jobs X. \<exists>j reason t. of_job j k \<and> fs = dead_pairs C j reason t"
proof -
  have "(Buried, fs) \<in> payloads C c (view (server X))"
    unfolding payloads_def using assms(4) by (intro UnI2 imageI) (rule rev_image_eqI, auto)
  then have "stored_as C (jobs X) (Buried, fs)"
    using store_queue.system_genuine [OF assms(1,3,2)] unfolding genuine_def by blast
  then show ?thesis by (auto simp: from_jobs_def)
qed

text \<open>
  C6. Workers are handed what producers enqueued: in every history of the system, under any
  network faults, crashes, recoveries and retries, each delivery is of one job a producer
  enqueued, the only one of that identifier, with its task, payload, attempt limit, trace
  context and times unchanged; its attempt counter is the one it was enqueued with or one
  that retries have counted up to, below the job's limit. What the dead-letter stream holds are
  the fields of such a delivery, with the reason, the number of deliveries and the time added.
\<close>

theorem delivery_carries_job:
  assumes "store_queue R view kt xle C c" "empty_queue c (view s0)" "system R C c s0 X"
  shows "(j \<in> held X \<longrightarrow> (\<exists>k \<in> jobs X. of_job j k \<and> {k' \<in> jobs X. ID k' = ID j} = {k})) \<and>
    ((x, fs) \<in> set (dLog (view (server X)) (DeadLetter c)) \<longrightarrow>
       (\<exists>k \<in> jobs X. \<exists>j reason t. of_job j k \<and> fs = dead_pairs C j reason t))"
proof (intro conjI impI)
  assume "j \<in> held X"
  then obtain k where k: "k \<in> jobs X" "of_job j k"
    using store_queue.system_genuine [OF assms(1,3,2)] by (auto simp: genuine_def from_jobs_def)
  with of_jobD(1) [OF k(2)] system_jobs [OF assms(3)] show "\<exists>k \<in> jobs X. of_job j k \<and> {k' \<in> jobs X. ID k' = ID j} = {k}"
    by (auto simp: inj_on_def)
qed (rule dead_letter_job [OF assms])

theorem delivery_carries_job_witness:
  "\<exists>j. replied (snd hist_recover) = {j} \<and> Payload j = Payload demo_job \<and> Task j = Task demo_job"
proof -
  obtain j where j: "replied (snd hist_recover) = {j}"
    using hist_leases(2) by (cases "snd hist_recover") auto
  then have "j \<in> held hist_world"
    by (simp add: hist_world_def)
  then have "of_job j demo_job"
    using delivery_carries_job [OF refq.store_queue_axioms empty_server_queue hist_system, of j] by (auto simp: hist_world_def)
  with j of_jobD(2,3) show ?thesis by blast
qed

end
