(* ===== verification/Downstream.thy ===== *)
theory Downstream
  imports Backend
begin

text \<open>
  \<^verbatim>\<open>cmd/chaos/downstream.go\<close>: the system a job's side effect lands in, two Lua scripts over
  four Redis hashes. The hash commands are a parameter with the laws of \<open>hash_server\<close>, and so
  is Lua's \<^verbatim>\<open>tonumber\<close>, which reads a decimal integer exactly up to \<open>2 ^ 53\<close>. The scripts
  are shown to refine an abstract ledger on maps, for which the guarantee is proved: each job's
  effect is applied at most once, and never for a run that a newer one superseded.
\<close>

section \<open>The hashes\<close>

record 'h hashes =
  h_get :: "string \<Rightarrow> string \<Rightarrow> 'h \<Rightarrow> string option"
  h_set :: "string \<Rightarrow> string \<Rightarrow> string \<Rightarrow> 'h \<Rightarrow> 'h"
  h_setnx :: "string \<Rightarrow> string \<Rightarrow> string \<Rightarrow> 'h \<Rightarrow> 'h \<times> int"
  h_incrby :: "string \<Rightarrow> string \<Rightarrow> int \<Rightarrow> 'h \<Rightarrow> 'h"
  h_number :: "string \<Rightarrow> rat"

text \<open>A counter field: absent, or the decimal representation of its value.\<close>

definition counter :: "'h hashes \<Rightarrow> string \<Rightarrow> string \<Rightarrow> 'h \<Rightarrow> int" where
  "counter H k f s = (case h_get H k f s of None \<Rightarrow> 0 | Some v \<Rightarrow> (case atoi v of None \<Rightarrow> 0 | Some n \<Rightarrow> n))"

locale hash_server =
  fixes H :: "'h hashes"
  assumes get_set [simp]: "h_get H k f (h_set H k' f' v s) = (if k = k' \<and> f = f' then Some v else h_get H k f s)"
    and setnx: "h_setnx H k f v s = (if h_get H k f s = None then (h_set H k f v s, 1) else (s, 0))"
    and get_incrby: "h_get H k f s = None \<or> (\<exists>n. is_int64 n \<and> h_get H k f s = Some (itoa n)) \<Longrightarrow>
      is_int64 (counter H k f s + d) \<Longrightarrow> h_get H k f (h_incrby H k f d s) = Some (itoa (counter H k f s + d))"
    and get_incrby_other [simp]: "k \<noteq> k' \<or> f \<noteq> f' \<Longrightarrow> h_get H k f (h_incrby H k' f' d s) = h_get H k f s"
    and number: "\<bar>i\<bar> \<le> 2 ^ 53 \<Longrightarrow> h_number H (itoa i) = of_int i"

section \<open>The scripts\<close>

definition ds_fence :: "string \<Rightarrow> string" where "ds_fence prefix = prefix @ ''{ds}:fence''"
definition ds_outcomes :: "string \<Rightarrow> string" where "ds_outcomes prefix = prefix @ ''{ds}:outcomes''"
definition ds_applied :: "string \<Rightarrow> string" where "ds_applied prefix = prefix @ ''{ds}:applied''"
definition ds_effects :: "string \<Rightarrow> string" where "ds_effects prefix = prefix @ ''{ds}:effects''"

definition fence :: "'h hashes \<Rightarrow> string \<Rightarrow> string \<Rightarrow> string \<Rightarrow> 'h \<Rightarrow> 'h \<times> bool" where
  [go_defs]: "fence H prefix jobID token s =
     (let seen = h_number H (case h_get H (ds_fence prefix) jobID s of None \<Rightarrow> ''-1'' | Some v \<Rightarrow> v)
      in if h_number H token < seen then (h_incrby H (ds_outcomes prefix) ''fenced'' 1 s, False)
         else (h_set H (ds_fence prefix) jobID token s, True))"

definition beginScript :: "'h hashes \<Rightarrow> string \<Rightarrow> string \<Rightarrow> string \<Rightarrow> 'h \<Rightarrow> 'h \<times> int" where
  [go_defs]: "beginScript H prefix jobID token s =
     (case fence H prefix jobID token s of (s', ok) \<Rightarrow> if \<not> ok then (s', 0) else (s', 1))"

definition applyScript :: "'h hashes \<Rightarrow> string \<Rightarrow> string \<Rightarrow> string \<Rightarrow> string \<Rightarrow> 'h \<Rightarrow> 'h \<times> string" where
  [go_defs]: "applyScript H prefix jobID token n s =
     (case fence H prefix jobID token s of (s1, ok) \<Rightarrow>
        if \<not> ok then (s1, ''fenced'')
        else case h_setnx H (ds_applied prefix) jobID n s1 of (s2, r) \<Rightarrow>
          if r = 0 then (h_incrby H (ds_outcomes prefix) ''deduped'' 1 s2, ''deduped'')
          else (h_incrby H (ds_outcomes prefix) ''applied'' 1 (h_incrby H (ds_effects prefix) n 1 s2), ''applied''))"

text \<open>A call of a script under the next network outcome.\<close>

definition script_run :: "fault \<Rightarrow> ('h \<Rightarrow> 'h \<times> 'a) \<Rightarrow> 'h \<Rightarrow> 'h \<times> (err + 'a)" where
  "script_run nw f s =
     (case nw of
        Delivered \<Rightarrow> (fst (f s), Inr (snd (f s)))
      | Lost m \<Rightarrow> (s, Inl (ErrExternal m))
      | NoReply m \<Rightarrow> (fst (f s), Inl (ErrExternal m)))"

definition ds_begin :: "'h hashes \<Rightarrow> string \<Rightarrow> fault \<Rightarrow> job \<Rightarrow> 'h \<Rightarrow> 'h \<times> (err + bool)" where
  [go_defs]: "ds_begin H prefix nw j s =
     (case script_run nw (beginScript H prefix (ID j) (itoa (FencingToken j))) s of
        (s', Inl e) \<Rightarrow> (s', Inl e)
      | (s', Inr r) \<Rightarrow> (s', Inr (r = 1)))"

definition ds_apply :: "'h hashes \<Rightarrow> string \<Rightarrow> fault \<Rightarrow> job \<Rightarrow> int \<Rightarrow> 'h \<Rightarrow> 'h \<times> (err + string)" where
  [go_defs]: "ds_apply H prefix nw j n s =
     script_run nw (applyScript H prefix (ID j) (itoa (FencingToken j)) (itoa n)) s"

section \<open>The abstract ledger\<close>

record ledger =
  newest :: "string \<rightharpoonup> int"
  applied :: "string \<rightharpoonup> int"
  effects :: "int \<Rightarrow> int"

definition spec_fence :: "string \<Rightarrow> int \<Rightarrow> ledger \<Rightarrow> ledger \<times> bool" where
  "spec_fence i t L =
     (case newest L i of
        Some u \<Rightarrow> if t < u then (L, False) else (L\<lparr>newest := (newest L)(i \<mapsto> t)\<rparr>, True)
      | None \<Rightarrow> (L\<lparr>newest := (newest L)(i \<mapsto> t)\<rparr>, True))"

definition spec_apply :: "string \<Rightarrow> int \<Rightarrow> int \<Rightarrow> ledger \<Rightarrow> ledger \<times> string" where
  "spec_apply i t n L =
     (case spec_fence i t L of (L1, ok) \<Rightarrow>
        if \<not> ok then (L1, ''fenced'')
        else if applied L1 i \<noteq> None then (L1, ''deduped'')
        else (L1\<lparr>applied := (applied L1)(i \<mapsto> n), effects := (effects L1)(n := effects L1 n + 1)\<rparr>, ''applied''))"

text \<open>What the hashes say, as a ledger; and the values the scripts keep in them.\<close>

definition abs_ledger :: "'h hashes \<Rightarrow> string \<Rightarrow> 'h \<Rightarrow> ledger" where
  "abs_ledger H prefix s =
     \<lparr>newest = (\<lambda>i. Option.bind (h_get H (ds_fence prefix) i s) atoi),
      applied = (\<lambda>i. Option.bind (h_get H (ds_applied prefix) i s) atoi),
      effects = (\<lambda>n. counter H (ds_effects prefix) (itoa n) s)\<rparr>"

definition token_ok :: "int \<Rightarrow> bool" where
  "token_ok t \<longleftrightarrow> 0 \<le> t \<and> t < 2 ^ 53"

definition hashes_ok :: "'h hashes \<Rightarrow> string \<Rightarrow> 'h \<Rightarrow> bool" where
  "hashes_ok H prefix s \<longleftrightarrow>
     (\<forall>i v. h_get H (ds_fence prefix) i s = Some v \<longrightarrow> (\<exists>t. token_ok t \<and> v = itoa t)) \<and>
     (\<forall>i v. h_get H (ds_applied prefix) i s = Some v \<longrightarrow> (\<exists>n. is_int64 n \<and> v = itoa n)) \<and>
     (\<forall>f v. h_get H (ds_effects prefix) f s = Some v \<longrightarrow> (\<exists>n. is_int64 n \<and> v = itoa n))"

lemma ds_keys_distinct [simp]:
  "ds_fence p \<noteq> ds_outcomes p" "ds_fence p \<noteq> ds_applied p" "ds_fence p \<noteq> ds_effects p"
  "ds_outcomes p \<noteq> ds_fence p" "ds_outcomes p \<noteq> ds_applied p" "ds_outcomes p \<noteq> ds_effects p"
  "ds_applied p \<noteq> ds_fence p" "ds_applied p \<noteq> ds_outcomes p" "ds_applied p \<noteq> ds_effects p"
  "ds_effects p \<noteq> ds_fence p" "ds_effects p \<noteq> ds_outcomes p" "ds_effects p \<noteq> ds_applied p"
  by (simp_all add: ds_fence_def ds_outcomes_def ds_applied_def ds_effects_def)

lemma token_int64: "token_ok t \<Longrightarrow> is_int64 t"
  by (simp add: token_ok_def is_int64_def)

context hash_server
begin

lemma fence_spec:
  assumes "hashes_ok H p s" "token_ok t"
  shows "spec_fence i t (abs_ledger H p s) = (abs_ledger H p (fst (fence H p i (itoa t) s)), snd (fence H p i (itoa t) s))"
    and "hashes_ok H p (fst (fence H p i (itoa t) s))"
    and "counter H (ds_effects p) f (fst (fence H p i (itoa t) s)) = counter H (ds_effects p) f s"
proof -
  have num: "h_number H (itoa t) = of_int t" using assms(2) number [of t] by (simp add: token_ok_def)
  have minus: "h_number H ''-1'' = - 1"
  proof -
    have "itoa (- 1) = ''-1''" by code_simp
    with number [of "- 1"] show ?thesis by simp
  qed
  have old: "\<exists>u. token_ok u \<and> v = itoa u \<and> h_number H v = of_int u" if "h_get H (ds_fence p) i s = Some v" for v
  proof -
    from that assms(1) obtain u where "token_ok u" "v = itoa u" unfolding hashes_ok_def by blast
    with number [of u] show ?thesis by (auto simp: token_ok_def)
  qed
  note tn = token_int64 [OF assms(2)]
  show "counter H (ds_effects p) f (fst (fence H p i (itoa t) s)) = counter H (ds_effects p) f s"
    by (simp add: fence_def Let_def counter_def)
  have ok_set: "hashes_ok H p (h_set H (ds_fence p) i (itoa t) s)" and ok_inc: "hashes_ok H p (h_incrby H (ds_outcomes p) ''fenced'' 1 s)"
    using assms by (auto simp: hashes_ok_def)
  then show "hashes_ok H p (fst (fence H p i (itoa t) s))"
    by (simp add: fence_def Let_def)
  have abs_set: "abs_ledger H p (h_set H (ds_fence p) i (itoa t) s) =
      (abs_ledger H p s)\<lparr>newest := (newest (abs_ledger H p s))(i \<mapsto> t)\<rparr>"
    using tn by (auto simp: abs_ledger_def counter_def)
  have abs_inc: "abs_ledger H p (h_incrby H (ds_outcomes p) ''fenced'' 1 s) = abs_ledger H p s"
    by (simp add: abs_ledger_def counter_def)
  show "spec_fence i t (abs_ledger H p s) = (abs_ledger H p (fst (fence H p i (itoa t) s)), snd (fence H p i (itoa t) s))"
  proof (cases "h_get H (ds_fence p) i s")
    case None
    then have "fence H p i (itoa t) s = (h_set H (ds_fence p) i (itoa t) s, True)"
      using assms(2) by (simp add: fence_def num minus token_ok_def)
    moreover have "newest (abs_ledger H p s) i = None" using None by (simp add: abs_ledger_def)
    ultimately show ?thesis by (simp add: spec_fence_def abs_set)
  next
    case (Some v)
    from old [OF this] obtain u where u: "token_ok u" "v = itoa u" "h_number H v = of_int u" by blast
    have n: "newest (abs_ledger H p s) i = Some u"
      using Some u token_int64 [OF u(1)] by (simp add: abs_ledger_def)
    have "fence H p i (itoa t) s =
        (if t < u then (h_incrby H (ds_outcomes p) ''fenced'' 1 s, False) else (h_set H (ds_fence p) i (itoa t) s, True))"
      using u by (simp add: fence_def Some num)
    then show ?thesis by (simp add: spec_fence_def n abs_set abs_inc)
  qed
qed

end

section \<open>Refinement\<close>

datatype ds_call = Begin job fault | Apply job int fault

fun run_call :: "'h hashes \<Rightarrow> string \<Rightarrow> ds_call \<Rightarrow> 'h \<Rightarrow> 'h" where
  "run_call H p (Begin j nw) s = fst (ds_begin H p nw j s)"
| "run_call H p (Apply j n nw) s = fst (ds_apply H p nw j n s)"

text \<open>A call that did not reach the server leaves the ledger alone.\<close>

definition arrives :: "fault \<Rightarrow> bool" where
  "arrives nw \<longleftrightarrow> (case nw of Lost m \<Rightarrow> False | Delivered \<Rightarrow> True | NoReply m \<Rightarrow> True)"

fun spec_call :: "ds_call \<Rightarrow> ledger \<Rightarrow> ledger" where
  "spec_call (Begin j nw) L = (if arrives nw then fst (spec_fence (ID j) (FencingToken j) L) else L)"
| "spec_call (Apply j n nw) L = (if arrives nw then fst (spec_apply (ID j) (FencingToken j) n L) else L)"

lemma script_run_srv: "fst (script_run nw f s) = (if arrives nw then fst (f s) else s)"
  by (simp add: script_run_def arrives_def split: fault.split)

text \<open>The calls the chaos workers make: small attempts and deliveries, and each job with its own number.\<close>

definition small_run :: "job \<Rightarrow> bool" where
  "small_run j \<longleftrightarrow> 0 \<le> Attempt j \<and> Attempt j < 2 ^ 21 \<and> 0 \<le> Token (Lease j) \<and> Token (Lease j) < 2 ^ 32"

fun call_ok :: "string set \<Rightarrow> (string \<Rightarrow> int) \<Rightarrow> ds_call \<Rightarrow> bool" where
  "call_ok ids number_of (Begin j nw) \<longleftrightarrow> small_run j \<and> ID j \<in> ids"
| "call_ok ids number_of (Apply j n nw) \<longleftrightarrow> small_run j \<and> ID j \<in> ids \<and> n = number_of (ID j) \<and> is_int64 n"

text \<open>Every applied job is applied under its own number, and an effect was counted once for it.\<close>

definition ledger_ok :: "string set \<Rightarrow> (string \<Rightarrow> int) \<Rightarrow> ledger \<Rightarrow> bool" where
  "ledger_ok ids number_of L \<longleftrightarrow> (\<forall>i n. applied L i = Some n \<longrightarrow> i \<in> ids \<and> n = number_of i) \<and>
     (\<forall>n. effects L n = (if \<exists>i. applied L i = Some n then 1 else 0))"

lemma spec_fence_frame [simp]:
  "applied (fst (spec_fence i t L)) = applied L" "effects (fst (spec_fence i t L)) = effects L"
  by (simp_all add: spec_fence_def split: option.split)

lemma spec_apply_cases:
  obtains (same) "applied (fst (spec_apply i t n L)) = applied L" "effects (fst (spec_apply i t n L)) = effects L"
      "snd (spec_apply i t n L) \<noteq> ''applied''"
    | (new) "applied L i = None" "applied (fst (spec_apply i t n L)) = (applied L)(i \<mapsto> n)"
      "effects (fst (spec_apply i t n L)) = (effects L)(n := effects L n + 1)"
      "snd (spec_apply i t n L) = ''applied''"
  using spec_fence_frame [of i t L]
  by (cases "spec_fence i t L", cases "snd (spec_fence i t L)"; cases "applied L i = None") (auto simp: spec_apply_def)

lemma spec_call_ok:
  assumes "ledger_ok ids number_of L" "inj_on number_of ids" "call_ok ids number_of c"
  shows "ledger_ok ids number_of (spec_call c L)"
proof (cases c)
  case (Begin j nw)
  with assms(1) show ?thesis by (simp add: ledger_ok_def)
next
  case (Apply j n nw)
  with assms(3) have n: "n = number_of (ID j)" "ID j \<in> ids" by simp_all
  show ?thesis
  proof (cases rule: spec_apply_cases [of "ID j" "FencingToken j" n L])
    case same
    with assms(1) show ?thesis by (simp add: Apply ledger_ok_def)
  next
    case new
    have fresh: "applied L i \<noteq> Some n" for i
      using assms(1,2) n new(1) by (metis inj_onD ledger_ok_def option.distinct(1))
    then have none: "effects L n = 0" using assms(1) by (simp add: ledger_ok_def)
    have same: "(\<exists>i. ((applied L)(ID j \<mapsto> n)) i = Some m) \<longleftrightarrow> m = n \<or> (\<exists>i. applied L i = Some m)" for m
      using new(1) by (metis fun_upd_apply option.distinct(1) option.inject)
    have "ledger_ok ids number_of (fst (spec_apply (ID j) (FencingToken j) n L))"
      using assms(1) n fresh unfolding ledger_ok_def new(2,3) same none by auto
    with assms(1) show ?thesis by (simp add: Apply)
  qed
qed

context hash_server
begin

lemma small_token: "small_run j \<Longrightarrow> token_ok (FencingToken j)"
proof -
  assume r: "small_run j"
  then have "FencingToken j = Attempt j * 2 ^ 32 + Token (Lease j)"
    by (intro FencingToken_value) (simp_all add: small_run_def)
  with r show "token_ok (FencingToken j)" by (simp add: small_run_def token_ok_def)
qed

lemma counter_incrby:
  assumes "hashes_ok H p s" "is_int64 (counter H (ds_effects p) (itoa n) s + 1)"
  shows "counter H (ds_effects p) (itoa m) (h_incrby H (ds_effects p) (itoa n) 1 s) =
    counter H (ds_effects p) (itoa m) s + (if m = n then 1 else 0)"
    and "hashes_ok H p (h_incrby H (ds_effects p) (itoa n) 1 s)"
proof -
  have "h_get H (ds_effects p) (itoa n) s = None \<or> (\<exists>k. is_int64 k \<and> h_get H (ds_effects p) (itoa n) s = Some (itoa k))"
    using assms(1) unfolding hashes_ok_def by (metis option.exhaust)
  note own = get_incrby [OF this assms(2)]
  show "counter H (ds_effects p) (itoa m) (h_incrby H (ds_effects p) (itoa n) 1 s) =
    counter H (ds_effects p) (itoa m) s + (if m = n then 1 else 0)"
  proof (cases "m = n")
    case True
    with own assms(2) show ?thesis by (simp add: counter_def [of H _ _ "h_incrby H (ds_effects p) (itoa n) 1 s"])
  next
    case False
    then show ?thesis by (simp add: counter_def itoa_inj)
  qed
  have "\<exists>k. is_int64 k \<and> v = itoa k" if v: "h_get H (ds_effects p) f (h_incrby H (ds_effects p) (itoa n) 1 s) = Some v" for f v
  proof (cases "f = itoa n")
    case True
    with v own assms(2) show ?thesis by auto
  next
    case False
    with v assms(1) show ?thesis by (simp add: hashes_ok_def)
  qed
  with assms(1) show "hashes_ok H p (h_incrby H (ds_effects p) (itoa n) 1 s)"
    by (simp add: hashes_ok_def)
qed

lemma outcomes_frame [simp]:
  "abs_ledger H p (h_incrby H (ds_outcomes p) o' d s) = abs_ledger H p s"
  "hashes_ok H p (h_incrby H (ds_outcomes p) o' d s) = hashes_ok H p s"
  by (simp_all add: abs_ledger_def counter_def hashes_ok_def)

lemma apply_refines:
  assumes "hashes_ok H p s" "small_run j" "is_int64 n" "is_int64 (effects (abs_ledger H p s) n + 1)"
  defines "ap \<equiv> applyScript H p (ID j) (itoa (FencingToken j)) (itoa n) s"
  shows "spec_apply (ID j) (FencingToken j) n (abs_ledger H p s) = (abs_ledger H p (fst ap), snd ap)"
    and "hashes_ok H p (fst ap)"
proof -
  let ?t = "FencingToken j"
  obtain s1 ok where fe: "fence H p (ID j) (itoa ?t) s = (s1, ok)" by (cases "fence H p (ID j) (itoa ?t) s")
  note F = fence_spec(1,2) [OF assms(1) small_token [OF assms(2)], where i = "ID j", unfolded fe fst_conv snd_conv]
  define new where "new = h_get H (ds_applied p) (ID j) s1"
  have app: "applied (abs_ledger H p s1) (ID j) = Option.bind new atoi" by (simp add: abs_ledger_def new_def)
  have "\<exists>m. is_int64 m \<and> v = itoa m" if "new = Some v" for v
    using F(2) that unfolding hashes_ok_def new_def by blast
  then have app': "applied (abs_ledger H p s1) (ID j) = None \<longleftrightarrow> new = None"
    unfolding app by (cases new) force+
  define s2 where "s2 = h_set H (ds_applied p) (ID j) (itoa n) s1"
  define s3 where "s3 = h_incrby H (ds_outcomes p) ''applied'' 1 (h_incrby H (ds_effects p) (itoa n) 1 s2)"
  have ap: "ap = (if \<not> ok then (s1, ''fenced'')
      else if new \<noteq> None then (h_incrby H (ds_outcomes p) ''deduped'' 1 s1, ''deduped'') else (s3, ''applied''))"
    by (simp add: ap_def applyScript_def fe setnx new_def s2_def s3_def)
  have c2: "counter H (ds_effects p) f s2 = counter H (ds_effects p) f s1" for f
    by (simp add: counter_def s2_def)
  have cnt: "is_int64 (counter H (ds_effects p) (itoa n) s2 + 1)"
    using assms(4) fence_spec(3) [OF assms(1) small_token [OF assms(2)], where i = "ID j" and f = "itoa n"]
    by (simp add: abs_ledger_def fe c2)
  have ok2: "hashes_ok H p s2" using F(2) assms(3) by (auto simp: hashes_ok_def s2_def)
  note C = counter_incrby [OF ok2 cnt]
  have e3: "counter H (ds_effects p) (itoa m) s3 = counter H (ds_effects p) (itoa m) s1 + (if m = n then 1 else 0)" for m
    using C(1) [of m] c2 [of "itoa m"] by (simp add: s3_def counter_def)
  have g3: "h_get H (ds_fence p) i s3 = h_get H (ds_fence p) i s1"
    "h_get H (ds_applied p) i s3 = (if i = ID j then Some (itoa n) else h_get H (ds_applied p) i s1)" for i
    by (simp_all add: s3_def s2_def)
  have "abs_ledger H p s3 = (abs_ledger H p s1)\<lparr>applied := (applied (abs_ledger H p s1))(ID j \<mapsto> n),
      effects := (effects (abs_ledger H p s1))(n := effects (abs_ledger H p s1) n + 1)\<rparr>"
    using assms(3) by (auto simp: abs_ledger_def e3 g3 fun_eq_iff)
  moreover have "hashes_ok H p s3" using C(2) by (simp add: s3_def)
  ultimately show "hashes_ok H p (fst ap)"
    "spec_apply (ID j) ?t n (abs_ledger H p s) = (abs_ledger H p (fst ap), snd ap)"
    using F app' by (simp_all add: spec_apply_def ap)
qed

lemma begin_refines:
  assumes "hashes_ok H p s" "small_run j"
  shows "spec_fence (ID j) (FencingToken j) (abs_ledger H p s) =
      (abs_ledger H p (fst (beginScript H p (ID j) (itoa (FencingToken j)) s)), snd (beginScript H p (ID j) (itoa (FencingToken j)) s) = 1)"
    and "hashes_ok H p (fst (beginScript H p (ID j) (itoa (FencingToken j)) s))"
  using fence_spec(1,2) [OF assms(1) small_token [OF assms(2)], where i = "ID j"]
  by (cases "fence H p (ID j) (itoa (FencingToken j)) s"; simp add: beginScript_def)+

lemma run_call_refines:
  assumes "hashes_ok H p s" "ledger_ok ids number_of (abs_ledger H p s)" "call_ok ids number_of c"
  shows "abs_ledger H p (run_call H p c s) = spec_call c (abs_ledger H p s)" "hashes_ok H p (run_call H p c s)"
proof -
  have "abs_ledger H p (run_call H p c s) = spec_call c (abs_ledger H p s) \<and> hashes_ok H p (run_call H p c s)"
  proof (cases c)
    case (Begin j nw)
    have "run_call H p c s = fst (script_run nw (beginScript H p (ID j) (itoa (FencingToken j))) s)"
      by (simp add: Begin ds_begin_def split: prod.split sum.split)
    moreover have "small_run j" using assms(3) Begin by simp
    ultimately show ?thesis using begin_refines [OF assms(1)] assms(1) by (simp add: Begin script_run_srv)
  next
    case (Apply j n nw)
    have "is_int64 (effects (abs_ledger H p s) n + 1)"
      using assms(2) by (auto simp: ledger_ok_def is_int64_def)
    moreover have "small_run j" "is_int64 n" using assms(3) unfolding Apply by auto
    ultimately show ?thesis
      using apply_refines [OF assms(1), of j n] assms(1) by (simp add: Apply ds_apply_def script_run_srv)
  qed
  then show "abs_ledger H p (run_call H p c s) = spec_call c (abs_ledger H p s)" "hashes_ok H p (run_call H p c s)"
    by simp_all
qed

lemma run_calls_refine:
  assumes "inj_on number_of ids"
  shows "hashes_ok H p s \<Longrightarrow> ledger_ok ids number_of (abs_ledger H p s) \<Longrightarrow> list_all (call_ok ids number_of) cs \<Longrightarrow>
    abs_ledger H p (fold (run_call H p) cs s) = fold spec_call cs (abs_ledger H p s) \<and>
    hashes_ok H p (fold (run_call H p) cs s) \<and> ledger_ok ids number_of (fold spec_call cs (abs_ledger H p s))"
proof (induction cs arbitrary: s)
  case (Cons c cs)
  have c: "call_ok ids number_of c" and cs: "list_all (call_ok ids number_of) cs" using Cons.prems(3) by simp_all
  note r = run_call_refines [OF Cons.prems(1,2) c]
  have "ledger_ok ids number_of (abs_ledger H p (run_call H p c s))"
    unfolding r(1) by (rule spec_call_ok [OF Cons.prems(2) assms c])
  from Cons.IH [OF r(2) this cs] show ?case by (simp add: r(1))
qed simp

end

lemma newest_spec_fence:
  "\<exists>u. newest (fst (spec_fence i t L)) i = Some u \<and> t \<le> u"
  by (auto simp: spec_fence_def split: option.split)

lemma newest_mono:
  assumes "newest L i = Some t"
  shows "\<exists>u. newest (spec_call c L) i = Some u \<and> t \<le> u"
proof -
  have f: "\<exists>u. newest (fst (spec_fence k n L)) i = Some u \<and> t \<le> u" for k n
    using assms by (auto simp: spec_fence_def split: option.split)
  have "newest (fst (spec_apply k n m L)) = newest (fst (spec_fence k n L))" for k n m
    by (simp add: spec_apply_def split: prod.split)
  with f assms show ?thesis by (cases c) auto
qed

lemma newest_mono_fold:
  "newest L i = Some t \<Longrightarrow> \<exists>u. newest (fold spec_call cs L) i = Some u \<and> t \<le> u"
proof (induction cs arbitrary: L t)
  case (Cons c cs)
  from newest_mono [OF Cons.prems] obtain u where u: "newest (spec_call c L) i = Some u" "t \<le> u" by blast
  from Cons.IH [OF u(1)] u(2) show ?case by fastforce
qed simp

fun call_job :: "ds_call \<Rightarrow> job" where
  "call_job (Begin j nw) = j"
| "call_job (Apply j n nw) = j"

fun call_net :: "ds_call \<Rightarrow> fault" where
  "call_net (Begin j nw) = nw"
| "call_net (Apply j n nw) = nw"

lemma newest_call:
  assumes "arrives (call_net c)"
  shows "\<exists>u. newest (spec_call c L) (ID (call_job c)) = Some u \<and> FencingToken (call_job c) \<le> u"
proof -
  have "newest (fst (spec_apply k n m L)) = newest (fst (spec_fence k n L))" for k n m
    by (simp add: spec_apply_def split: prod.split)
  with assms newest_spec_fence show ?thesis by (cases c) auto
qed

lemma newest_calls:
  assumes "c \<in> set cs" "arrives (call_net c)"
  shows "\<exists>u. newest (fold spec_call cs L) (ID (call_job c)) = Some u \<and> FencingToken (call_job c) \<le> u"
proof -
  obtain xs ys where cs: "cs = xs @ c # ys" using assms(1) by (meson split_list)
  obtain u where "newest (spec_call c (fold spec_call xs L)) (ID (call_job c)) = Some u" "FencingToken (call_job c) \<le> u"
    using newest_call [OF assms(2)] by blast
  from newest_mono_fold [OF this(1), of ys] this(2) show ?thesis by (fastforce simp: cs)
qed

lemma applied_kept: "applied L i = Some n \<Longrightarrow> applied (spec_call c L) i = Some n"
proof (cases c)
  case (Apply j m nw)
  assume "applied L i = Some n"
  then show ?thesis
    by (cases rule: spec_apply_cases [of "ID j" "FencingToken j" m L]) (auto simp: Apply)
qed simp

lemma applied_kept_fold: "applied L i = Some n \<Longrightarrow> applied (fold spec_call cs L) i = Some n"
  by (induction cs arbitrary: L) (simp_all add: applied_kept)

lemma spec_apply_answered:
  "snd (spec_apply i t n L) \<noteq> ''fenced'' \<Longrightarrow> \<exists>m. applied (fst (spec_apply i t n L)) i = Some m"
  using spec_fence_frame(1) [of i t L]
  by (cases "spec_fence i t L") (auto simp: spec_apply_def split: if_splits)

text \<open>A fresh run: nothing in the downstream's hashes.\<close>

definition ds_clean :: "'h hashes \<Rightarrow> string \<Rightarrow> 'h \<Rightarrow> bool" where
  "ds_clean H p s \<longleftrightarrow> (\<forall>f. h_get H (ds_fence p) f s = None \<and> h_get H (ds_applied p) f s = None \<and> h_get H (ds_effects p) f s = None)"

lemma ds_clean_ok:
  assumes "ds_clean H p s"
  shows "hashes_ok H p s" "ledger_ok ids number_of (abs_ledger H p s)"
  using assms by (simp_all add: ds_clean_def hashes_ok_def ledger_ok_def abs_ledger_def counter_def)

context hash_server
begin

lemma clean_run:
  assumes "ds_clean H p s" "inj_on number_of ids" "list_all (call_ok ids number_of) cs"
  shows "abs_ledger H p (fold (run_call H p) cs s) = fold spec_call cs (abs_ledger H p s)"
    "hashes_ok H p (fold (run_call H p) cs s)"
    "ledger_ok ids number_of (abs_ledger H p (fold (run_call H p) cs s))"
proof -
  note r = run_calls_refine [OF assms(2) ds_clean_ok [OF assms(1)] assms(3)]
  from r show "abs_ledger H p (fold (run_call H p) cs s) = fold spec_call cs (abs_ledger H p s)"
    "hashes_ok H p (fold (run_call H p) cs s)" by blast+
  from conjunct1 [OF r] conjunct2 [OF conjunct2 [OF r]]
  show "ledger_ok ids number_of (abs_ledger H p (fold (run_call H p) cs s))" by simp
qed

lemma run_effects_once:
  assumes "ds_clean H p s" "inj_on number_of ids" "list_all (call_ok ids number_of) cs"
  shows "counter H (ds_effects p) (itoa n) (fold (run_call H p) cs s) \<in> {0, 1}"
proof -
  have "effects (abs_ledger H p (fold (run_call H p) cs s)) n \<in> {0, 1}"
    using clean_run(3) [OF assms] by (simp add: ledger_ok_def)
  then show ?thesis by (simp add: abs_ledger_def)
qed

lemma run_answered_applied:
  assumes "ds_clean H p s" "inj_on number_of ids"
    and "list_all (call_ok ids number_of) (pre @ Apply j n Delivered # post)"
    and "snd (ds_apply H p Delivered j n (fold (run_call H p) pre s)) \<noteq> Inr ''fenced''"
  shows "counter H (ds_effects p) (itoa n) (fold (run_call H p) (pre @ Apply j n Delivered # post) s) = 1"
proof -
  let ?s = "fold (run_call H p) pre s" and ?cs = "pre @ Apply j n Delivered # post"
  have pre: "list_all (call_ok ids number_of) pre" and j: "small_run j" "ID j \<in> ids" "n = number_of (ID j)" "is_int64 n"
    using assms(3) by auto
  note P = clean_run [OF assms(1,2) pre] and Q = clean_run [OF assms(1,2,3)]
  have "is_int64 (effects (abs_ledger H p ?s) n + 1)" using P(3) by (auto simp: ledger_ok_def is_int64_def)
  note A = apply_refines [OF P(2) j(1) j(4) this]
  have "snd (spec_apply (ID j) (FencingToken j) n (abs_ledger H p ?s)) \<noteq> ''fenced''"
    using assms(4) by (simp add: A(1) ds_apply_def script_run_def)
  then obtain m where "applied (fst (spec_apply (ID j) (FencingToken j) n (abs_ledger H p ?s))) (ID j) = Some m"
    using spec_apply_answered by blast
  then have "applied (abs_ledger H p (fold (run_call H p) ?cs s)) (ID j) = Some m"
    unfolding Q(1) by (simp add: P(1) [symmetric] arrives_def applied_kept_fold)
  then have "effects (abs_ledger H p (fold (run_call H p) ?cs s)) n = 1"
    using Q(3) j(3) unfolding ledger_ok_def by auto
  then show ?thesis by (simp add: abs_ledger_def)
qed

lemma run_superseded:
  assumes "ds_clean H p s" "inj_on number_of ids" "list_all (call_ok ids number_of) cs"
    and "c \<in> set cs" "arrives (call_net c)" "ID (call_job c) = ID j" "small_run j" "FencingToken j < FencingToken (call_job c)"
    and "is_int64 n"
  shows "snd (ds_begin H p Delivered j (fold (run_call H p) cs s)) = Inr False"
    and "snd (ds_apply H p Delivered j n (fold (run_call H p) cs s)) = Inr ''fenced''"
    and "abs_ledger H p (fst (ds_apply H p Delivered j n (fold (run_call H p) cs s))) = abs_ledger H p (fold (run_call H p) cs s)"
proof -
  let ?s = "fold (run_call H p) cs s"
  note P = clean_run [OF assms(1-3)]
  obtain u where "newest (abs_ledger H p ?s) (ID j) = Some u" "FencingToken j < u"
    using newest_calls [OF assms(4,5)] assms(6,8) unfolding P(1) by fastforce
  then have f: "spec_fence (ID j) (FencingToken j) (abs_ledger H p ?s) = (abs_ledger H p ?s, False)"
    by (simp add: spec_fence_def)
  then show "snd (ds_begin H p Delivered j ?s) = Inr False"
    using begin_refines(1) [OF P(2) assms(7)] by (simp add: ds_begin_def script_run_def)
  have "is_int64 (effects (abs_ledger H p ?s) n + 1)" using P(3) by (auto simp: ledger_ok_def is_int64_def)
  note A = apply_refines(1) [OF P(2) assms(7,9) this]
  from A f show "snd (ds_apply H p Delivered j n ?s) = Inr ''fenced''"
    "abs_ledger H p (fst (ds_apply H p Delivered j n ?s)) = abs_ledger H p ?s"
    by (simp_all add: spec_apply_def ds_apply_def script_run_def)
qed

end

section \<open>A reference server\<close>

type_synonym hash_map = "string \<times> string \<Rightarrow> string option"

definition map_counter :: "string \<Rightarrow> string \<Rightarrow> hash_map \<Rightarrow> int" where
  "map_counter k f m = (case m (k, f) of None \<Rightarrow> 0 | Some v \<Rightarrow> (case atoi v of None \<Rightarrow> 0 | Some n \<Rightarrow> n))"

definition ref_hashes :: "hash_map hashes" where
  "ref_hashes =
     \<lparr>h_get = (\<lambda>k f m. m (k, f)),
      h_set = (\<lambda>k f v m. m((k, f) \<mapsto> v)),
      h_setnx = (\<lambda>k f v m. if m (k, f) = None then (m((k, f) \<mapsto> v), 1) else (m, 0)),
      h_incrby = (\<lambda>k f d m. m((k, f) \<mapsto> itoa (map_counter k f m + d))),
      h_number = (\<lambda>v. case atoi v of None \<Rightarrow> 0 | Some n \<Rightarrow> of_int n)\<rparr>"

lemma ref_counter: "counter ref_hashes k f m = map_counter k f m"
  by (simp add: counter_def map_counter_def ref_hashes_def)

interpretation refhash: hash_server ref_hashes
proof (rule hash_server.intro)
  fix k f v s show "h_setnx ref_hashes k f v s = (if h_get ref_hashes k f s = None then (h_set ref_hashes k f v s, 1) else (s, 0))"
    by (simp add: ref_hashes_def)
next
  fix i :: int assume "\<bar>i\<bar> \<le> 2 ^ 53"
  then have "is_int64 i" by (simp add: is_int64_def abs_le_iff)
  then show "h_number ref_hashes (itoa i) = of_int i" by (simp add: ref_hashes_def)
qed (auto simp: ref_counter, auto simp: ref_hashes_def)

section \<open>Exactly-once effects\<close>

text \<open>
  C29. The scripts refine the abstract ledger: whatever calls the workers make, in any order and
  with any of them lost or unanswered, the hashes read as the ledger that the same calls
  produce on maps, where a run older than the newest one seen is refused and a job's effect
  is entered only when the job has none.
\<close>

theorem downstream_refines_ledger:
  assumes "hash_server H" "ds_clean H p s" "inj_on number_of ids" "list_all (call_ok ids number_of) cs"
  shows "abs_ledger H p (fold (run_call H p) cs s) = fold spec_call cs (abs_ledger H p s)"
  by (rule hash_server.clean_run(1) [OF assms])

definition demo_calls :: "ds_call list" where
  "demo_calls = [Begin (run_of 1 1) Delivered, Begin (run_of 1 2) Delivered, Apply (run_of 1 2) 7 (NoReply ''timeout''),
     Apply (run_of 1 1) 7 Delivered, Begin (run_of 2 1) Delivered, Apply (run_of 2 1) 7 Delivered]"

definition demo_hashes :: hash_map where
  "demo_hashes = (\<lambda>_. None)"

lemma demo_clean: "ds_clean ref_hashes p demo_hashes"
  by (simp add: ds_clean_def ref_hashes_def demo_hashes_def)

lemma demo_small [simp]: "0 \<le> a \<Longrightarrow> a < 2 ^ 21 \<Longrightarrow> 0 \<le> t \<Longrightarrow> t < 2 ^ 32 \<Longrightarrow> small_run (run_of a t)"
  by (simp add: small_run_def run_of_def no_lease_def)

lemma demo_calls_ok: "list_all (call_ok {''j1''} (\<lambda>_. 7)) demo_calls"
  by (simp add: demo_calls_def) (simp add: run_of_def is_int64_def)

theorem downstream_refines_ledger_witness:
  "abs_ledger ref_hashes ''c:'' (fold (run_call ref_hashes ''c:'') demo_calls demo_hashes) =
     fold spec_call demo_calls (abs_ledger ref_hashes ''c:'' demo_hashes)"
  using downstream_refines_ledger [OF refhash.hash_server_axioms demo_clean _ demo_calls_ok] by simp

text \<open>
  Every side effect lands at most once: starting from empty hashes, after any calls in which
  each job applies its own payload number, every payload number's effect count is 0 or 1.
\<close>

theorem effects_at_most_once:
  assumes "hash_server H" "ds_clean H p s" "inj_on number_of ids" "list_all (call_ok ids number_of) cs"
  shows "counter H (ds_effects p) (itoa n) (fold (run_call H p) cs s) \<in> {0, 1}"
  by (rule hash_server.run_effects_once [OF assms])

theorem effects_at_most_once_witness:
  "counter ref_hashes (ds_effects ''c:'') (itoa 7) (fold (run_call ref_hashes ''c:'') demo_calls demo_hashes) \<in> {0, 1}"
  using effects_at_most_once [OF refhash.hash_server_axioms demo_clean _ demo_calls_ok] by simp

text \<open>
  C9. A run that is told its effect was applied or deduplicated can be settled: whatever was called
  before and whatever is called afterwards, the job's effect has landed exactly once.
\<close>

theorem answered_effect_once:
  assumes "hash_server H" "ds_clean H p s" "inj_on number_of ids"
    and "list_all (call_ok ids number_of) (pre @ Apply j n Delivered # post)"
    and "snd (ds_apply H p Delivered j n (fold (run_call H p) pre s)) \<noteq> Inr ''fenced''"
  shows "counter H (ds_effects p) (itoa n) (fold (run_call H p) (pre @ Apply j n Delivered # post) s) = 1"
  by (rule hash_server.run_answered_applied [OF assms])

lemma demo_tokens:
  "FencingToken (run_of 1 1) = 4294967297" "FencingToken (run_of 1 2) = 4294967298" "FencingToken (run_of 2 1) = 8589934593"
  by (simp_all add: FencingToken_value run_of_def no_lease_def)

lemma demo_answer: "snd (ds_apply ref_hashes ''c:'' Delivered (run_of 1 1) 7 demo_hashes) = Inr ''applied''"
proof -
  have "atoi ''-1'' = Some (- 1)" by code_simp
  then show ?thesis
    by (simp add: ds_apply_def script_run_def applyScript_def fence_def demo_tokens ref_hashes_def demo_hashes_def is_int64_def)
qed

theorem answered_effect_once_witness:
  "counter ref_hashes (ds_effects ''c:'') (itoa 7)
     (fold (run_call ref_hashes ''c:'') ([] @ Apply (run_of 1 1) 7 Delivered # demo_calls) demo_hashes) = 1"
proof (rule answered_effect_once [OF refhash.hash_server_axioms demo_clean, of "\<lambda>_. 7" "{''j1''}"])
  show "list_all (call_ok {''j1''} (\<lambda>_. 7)) ([] @ Apply (run_of 1 1) 7 Delivered # demo_calls)"
    using demo_calls_ok by simp (simp add: run_of_def is_int64_def)
qed (simp_all add: demo_answer)

text \<open>
  A superseded run is refused for good: once a call of a newer run of the same job has arrived, a
  run with a smaller fencing token is told so by begin, its apply answers fenced, and the
  ledger does not change.
\<close>

theorem superseded_run_fenced:
  assumes "hash_server H" "ds_clean H p s" "inj_on number_of ids" "list_all (call_ok ids number_of) cs"
    and "c \<in> set cs" "arrives (call_net c)" "ID (call_job c) = ID j" "small_run j" "FencingToken j < FencingToken (call_job c)"
    and "is_int64 n"
  shows "snd (ds_begin H p Delivered j (fold (run_call H p) cs s)) = Inr False \<and>
    snd (ds_apply H p Delivered j n (fold (run_call H p) cs s)) = Inr ''fenced'' \<and>
    abs_ledger H p (fst (ds_apply H p Delivered j n (fold (run_call H p) cs s))) = abs_ledger H p (fold (run_call H p) cs s)"
  using hash_server.run_superseded [OF assms] by blast

theorem superseded_run_fenced_witness:
  "snd (ds_apply ref_hashes ''c:'' Delivered (run_of 1 2) 7 (fold (run_call ref_hashes ''c:'') demo_calls demo_hashes)) = Inr ''fenced''"
proof -
  have "FencingToken (run_of 1 2) < FencingToken (call_job (Begin (run_of 2 1) Delivered))" by (simp add: demo_tokens)
  moreover have "Begin (run_of 2 1) Delivered \<in> set demo_calls" by (simp add: demo_calls_def)
  moreover have "ID (call_job (Begin (run_of 2 1) Delivered)) = ID (run_of 1 2)" by (simp add: run_of_def)
  ultimately show ?thesis
    using superseded_run_fenced [OF refhash.hash_server_axioms demo_clean _ demo_calls_ok, of "Begin (run_of 2 1) Delivered" "run_of 1 2" 7 "''c:''"]
    by (simp add: arrives_def is_int64_def)
qed

end
