(* ===== verification/Chaos.thy ===== *)
theory Chaos
  imports Downstream Queue Worker
begin

text \<open>
  \<^verbatim>\<open>cmd/chaos/main.go\<close>: the fault-injection test. Its workers' handler, the enqueue loop,
  the ledger lines the handlers append and the report reads back, the verdict of the report,
  and the controller that kills and pauses worker processes. The handler's draws (the clock,
  a cancelled context, the random number, the outcome of each round trip) are arguments, and
  so is \<^verbatim>\<open>json.Unmarshal\<close> of a payload.
\<close>

section \<open>The handler\<close>

record payload =
  pN :: int
  pLatencyMs :: int
  pPermanent :: bool

definition chaos_task :: string where "chaos_task = ''chaos''"
definition maxAttempts :: int where "maxAttempts = 8"
definition permanentEvery :: int where "permanentEvery = 50"

record chaos_draw =
  dStart :: int
  dEnd :: int
  dDone :: "err option"
  dRandom :: rat
  dBegin :: fault
  dPush :: fault
  dApply :: fault

text \<open>The hashes of the downstream, and the list under the ledger key.\<close>

record 'h chaos_world =
  cHashes :: 'h
  cLedger :: "string list"

definition format_bool :: "bool \<Rightarrow> string" where
  "format_bool b = (if b then ''true'' else ''false'')"

definition superseded_error :: "bool \<Rightarrow> err option \<Rightarrow> err" where
  "superseded_error ok e =
     ErrorString (''superseded run (ok='' @ format_bool ok @ ''): '' @ (case e of None \<Rightarrow> ''<nil>'' | Some x \<Rightarrow> Error x))"

definition ledger_entry :: "int \<Rightarrow> int \<Rightarrow> int \<Rightarrow> string \<Rightarrow> string" where
  [go_defs]: "ledger_entry n start stop workerID = itoa n @ '' '' @ itoa start @ '' '' @ itoa stop @ '' '' @ workerID"

definition push_entry :: "fault \<Rightarrow> string \<Rightarrow> 'h chaos_world \<Rightarrow> 'h chaos_world \<times> err option" where
  "push_entry nw entry w =
     (case nw of
        Delivered \<Rightarrow> (w\<lparr>cLedger := cLedger w @ [entry]\<rparr>, None)
      | Lost m \<Rightarrow> (w, Some (ErrExternal m))
      | NoReply m \<Rightarrow> (w\<lparr>cLedger := cLedger w @ [entry]\<rparr>, Some (ErrExternal m)))"

definition chaos_handler ::
  "'h hashes \<Rightarrow> string \<Rightarrow> string \<Rightarrow> (string \<Rightarrow> err + payload) \<Rightarrow> rat \<Rightarrow> chaos_draw \<Rightarrow> job \<Rightarrow>
   'h chaos_world \<Rightarrow> 'h chaos_world \<times> JobResult" where
  [go_defs]: "chaos_handler H prefix workerID unmarshal failRate d j w =
     (case unmarshal (Payload j) of
        Inl e \<Rightarrow> (w, NewPermanentError e)
      | Inr p \<Rightarrow>
          (case ds_begin H prefix (dBegin d) j (cHashes w) of
             (h, Inl e) \<Rightarrow> (w\<lparr>cHashes := h\<rparr>, NewRetryableError (superseded_error False (Some e)))
           | (h, Inr False) \<Rightarrow> (w\<lparr>cHashes := h\<rparr>, NewRetryableError (superseded_error False None))
           | (h, Inr True) \<Rightarrow>
               (let w1 = w\<lparr>cHashes := h\<rparr>
                in case dDone d of
                     Some e \<Rightarrow> (w1, NewRetryableError e)
                   | None \<Rightarrow>
                       if pPermanent p then (w1, NewPermanentError (ErrorString ''permanent failure (chaos)''))
                       else if dRandom d < failRate then (w1, NewRetryableError (ErrorString ''transient failure (chaos)''))
                       else
                         (case push_entry (dPush d) (ledger_entry (pN p) (dStart d) (dEnd d) workerID) w1 of
                            (w2, Some e) \<Rightarrow> (w2, NewRetryableError e)
                          | (w2, None) \<Rightarrow>
                              (case ds_apply H prefix (dApply d) j (pN p) (cHashes w2) of
                                 (h2, Inl e) \<Rightarrow> (w2\<lparr>cHashes := h2\<rparr>, NewRetryableError e)
                               | (h2, Inr outcome) \<Rightarrow>
                                   (w2\<lparr>cHashes := h2\<rparr>,
                                    if outcome = ''fenced'' then NewRetryableError (ErrorString ''side effect rejected: superseded run'')
                                    else \<lparr>Retryable = False, Err = None\<rparr>))))))"

section \<open>Reading the ledger\<close>

text \<open>
  \<^verbatim>\<open>fmt.Sscanf(line, "%d %d %d %s", ...)\<close>. White space before a verb is skipped but a
  newline is an error; a space in the format needs at least one in the input unless the
  input has ended; \<^verbatim>\<open>%d\<close> reads a sign and decimal digits that fit 64 bits;
  \<^verbatim>\<open>%s\<close> needs at least one more character. What follows is ignored.
\<close>

definition is_blank :: "char \<Rightarrow> bool" where
  "is_blank c \<longleftrightarrow> c = CHR '' '' \<or> c = CHR 0x09 \<or> c = CHR 0x0B \<or> c = CHR 0x0C \<or> c = CHR 0x0D"

definition is_newline :: "char \<Rightarrow> bool" where
  "is_newline c \<longleftrightarrow> c = CHR 0x0A"

definition skip_space :: "string \<Rightarrow> string option" where
  "skip_space s = (case dropWhile is_blank s of [] \<Rightarrow> Some [] | c # cs \<Rightarrow> if is_newline c then None else Some (c # cs))"

definition match_space :: "string \<Rightarrow> string option" where
  "match_space s = (case s of [] \<Rightarrow> Some [] | c # cs \<Rightarrow> if is_blank c then Some (dropWhile is_blank cs) else None)"

definition scan_int :: "string \<Rightarrow> (int \<times> string) option" where
  "scan_int s =
     Option.bind (skip_space s) (\<lambda>r.
       let sign = takeWhile (\<lambda>c. c = CHR ''-'' \<or> c = CHR ''+'') (take 1 r);
           rest = drop (length sign) r;
           digits = takeWhile is_digit rest
       in if digits = [] then None
          else map_option (\<lambda>n. (n, dropWhile is_digit rest)) (atoi (sign @ digits)))"

definition scan_word :: "string \<Rightarrow> string option" where
  "scan_word s = Option.bind (skip_space s) (\<lambda>r. if r = [] then None else Some r)"

type_synonym execution = "int \<times> int"

definition scan_entry :: "string \<Rightarrow> (int \<times> execution) option" where
  [go_defs]: "scan_entry line =
     Option.bind (scan_int line) (\<lambda>(n, r1). Option.bind (match_space r1) (\<lambda>r1.
     Option.bind (scan_int r1) (\<lambda>(start, r2). Option.bind (match_space r2) (\<lambda>r2.
     Option.bind (scan_int r2) (\<lambda>(stop, r3). Option.bind (match_space r3) (\<lambda>r3.
     map_option (\<lambda>_. (n, start, stop)) (scan_word r3)))))))"

lemma itoa_shape: "\<exists>sign ds. itoa i = sign @ ds \<and> sign \<in> {[], ''-''} \<and> ds \<noteq> [] \<and> list_all is_digit ds"
proof (cases "i < 0")
  case True
  then show ?thesis
    using nat_digits_all_digits by (intro exI [of _ "''-''"] exI [of _ "nat_digits (nat (- i))"]) (auto simp: itoa_def list_all_iff)
next
  case False
  then show ?thesis
    using nat_digits_all_digits by (intro exI [of _ "[]"] exI [of _ "nat_digits (nat i)"]) (auto simp: itoa_def list_all_iff)
qed

lemma digit_not_special: "is_digit c \<Longrightarrow> \<not> is_blank c \<and> \<not> is_newline c \<and> c \<noteq> CHR ''-'' \<and> c \<noteq> CHR ''+''"
  by (auto simp: is_digit_def is_blank_def is_newline_def)

lemma scan_int_itoa:
  assumes "is_int64 i" "list_all is_blank (take 1 r)"
  shows "scan_int (itoa i @ r) = Some (i, r)"
proof -
  obtain sign ds where d: "itoa i = sign @ ds" "sign \<in> {[], ''-''}" "ds \<noteq> []" "list_all is_digit ds"
    using itoa_shape by blast
  obtain c cs where ds: "ds = c # cs" using d(3) by (cases ds) auto
  have c: "is_digit c" using d(4) ds by simp
  have skip: "skip_space (itoa i @ r) = Some (itoa i @ r)"
    using d(2) digit_not_special [OF c] by (auto simp: skip_space_def d(1) ds is_blank_def is_newline_def)
  have sg: "takeWhile (\<lambda>c. c = CHR ''-'' \<or> c = CHR ''+'') (take 1 (itoa i @ r)) = sign"
    using d(2) digit_not_special [OF c] by (auto simp: d(1) ds)
  have r: "takeWhile is_digit r = []" "dropWhile is_digit r = r"
    using assms(2) digit_not_special by (cases r; force)+
  have tw: "takeWhile is_digit (ds @ r) = ds" "dropWhile is_digit (ds @ r) = r"
    using d(4) r by (simp_all add: list_all_iff takeWhile_append2 dropWhile_append2)
  have dr: "drop (length sign) (itoa i @ r) = ds @ r" by (simp add: d(1))
  have "atoi (sign @ ds) = Some i" using assms(1) by (simp add: d(1) [symmetric])
  then show ?thesis
    unfolding scan_int_def skip Option.bind.simps Let_def sg dr tw using d(3) by simp
qed

lemma match_space_1: "\<not> list_all is_blank (take 1 r) \<or> r = [] \<Longrightarrow> match_space (CHR '' '' # r) = Some r"
  by (cases r) (auto simp: match_space_def is_blank_def)

lemma itoa_starts: "\<not> list_all is_blank (take 1 (itoa i @ r))"
proof -
  obtain sign ds where d: "itoa i = sign @ ds" "sign \<in> {[], ''-''}" "ds \<noteq> []" "list_all is_digit ds"
    using itoa_shape by blast
  obtain c cs where ds: "ds = c # cs" using d(3) by (cases ds) auto
  have c: "is_digit c" using d(4) ds by simp
  show ?thesis using d(2) digit_not_special [OF c] by (auto simp: d(1) ds is_blank_def)
qed

text \<open>A worker identifier that \<^verbatim>\<open>%s\<close> can read: not empty, and not starting with white space.\<close>

definition readable :: "string \<Rightarrow> bool" where
  "readable w \<longleftrightarrow> (case w of [] \<Rightarrow> False | c # cs \<Rightarrow> \<not> is_blank c \<and> \<not> is_newline c)"

text \<open>
  The ledger reads back: the report's scan of a line a handler wrote recovers the payload
  number and both time stamps, for every worker identifier that is not empty and does not start
  with white space, as the controller's identifiers do not.
\<close>

theorem ledger_roundtrip:
  assumes "is_int64 n" "is_int64 start" "is_int64 stop" "readable workerID"
  shows "scan_entry (ledger_entry n start stop workerID) = Some (n, start, stop)"
proof -
  have "list_all is_blank (take 1 (CHR '' '' # r))" for r by (simp add: is_blank_def)
  then have i: "scan_int (itoa k @ CHR '' '' # r) = Some (k, CHR '' '' # r)" if "is_int64 k" for k r
    using scan_int_itoa [OF that] by blast
  have w: "\<not> list_all is_blank (take 1 workerID)" "scan_word workerID = Some workerID"
    using assms(4) by (auto simp: readable_def scan_word_def skip_space_def split: list.splits)
  then show ?thesis
    by (simp add: scan_entry_def ledger_entry_def i assms(1-3) match_space_1 [OF disjI1 [OF itoa_starts]] match_space_1 [OF disjI1 [OF w(1)]])
qed

theorem ledger_roundtrip_witness:
  "scan_entry (ledger_entry 7 1700000000000000 1700000000012345 ''chaos-worker-3'') = Some (7, 1700000000000000, 1700000000012345)"
  using ledger_roundtrip [of 7 1700000000000000 1700000000012345 "''chaos-worker-3''"]
  by (simp add: is_int64_def readable_def is_blank_def is_newline_def)

section \<open>What a run does\<close>

text \<open>A run calls the downstream at most twice, first to begin and then to apply its own number.\<close>

lemma handler_calls:
  obtains cs where "cHashes (fst (chaos_handler H p wid u rate d j w)) = fold (run_call H p) cs (cHashes w)"
    "cs = [] \<or> (\<exists>pl. u (Payload j) = Inr pl \<and>
       (cs = [Begin j (dBegin d)] \<or> \<not> pPermanent pl \<and> cs = [Begin j (dBegin d), Apply j (pN pl) (dApply d)]))"
proof (cases "u (Payload j)")
  case (Inl e)
  then show thesis using that [of "[]"] by (simp add: chaos_handler_def)
next
  case (Inr pl)
  obtain h r where b: "ds_begin H p (dBegin d) j (cHashes w) = (h, r)" by fastforce
  show thesis
  proof (cases "r = Inr True \<and> dDone d = None \<and> \<not> pPermanent pl \<and> \<not> dRandom d < rate \<and> dPush d = Delivered")
    case True
    then show thesis
      using that [of "[Begin j (dBegin d), Apply j (pN pl) (dApply d)]"] Inr b
      by (simp add: chaos_handler_def push_entry_def split: prod.split sum.split)
  next
    case False
    then have "cHashes (fst (chaos_handler H p wid u rate d j w)) = h"
      using Inr b by (cases "dPush d") (auto simp: chaos_handler_def push_entry_def Let_def split: sum.split bool.split option.split prod.split)
    then show thesis using that [of "[Begin j (dBegin d)]"] Inr b by simp
  qed
qed

lemma handler_success:
  assumes "u (Payload j) = Inr pl" "Err (snd (chaos_handler H p wid u rate d j w)) = None"
  defines "h \<equiv> fst (ds_begin H p (dBegin d) j (cHashes w))"
  shows "\<not> pPermanent pl" "dApply d = Delivered"
    "snd (ds_apply H p Delivered j (pN pl) h) \<noteq> Inr ''fenced''"
    "fst (chaos_handler H p wid u rate d j w) =
       w\<lparr>cHashes := fst (ds_apply H p Delivered j (pN pl) h), cLedger := cLedger w @ [ledger_entry (pN pl) (dStart d) (dEnd d) wid]\<rparr>"
proof -
  obtain r where b: "ds_begin H p (dBegin d) j (cHashes w) = (h, r)" using h_def by (metis prod.collapse)
  have ap: "\<exists>e. snd (ds_apply H p nw j n s) = Inl e \<or> nw = Delivered" for nw n s
    by (cases nw) (auto simp: ds_apply_def script_run_def)
  from assms(2) have ok: "r = Inr True" "dDone d = None" "\<not> pPermanent pl" "\<not> dRandom d < rate" "dPush d = Delivered"
    by (auto simp: chaos_handler_def assms(1) b push_entry_def NewRetryableError_def NewPermanentError_def Let_def
        split: sum.splits bool.splits option.splits prod.splits if_splits fault.splits)
  then show "\<not> pPermanent pl" by simp
  obtain h2 a where a: "ds_apply H p (dApply d) j (pN pl) h = (h2, a)" by fastforce
  have "\<exists>out. a = Inr out \<and> out \<noteq> ''fenced''"
    using assms(2) ok
    by (auto simp: chaos_handler_def assms(1) b a push_entry_def NewRetryableError_def split: sum.splits if_splits)
  then obtain out where out: "a = Inr out" "out \<noteq> ''fenced''" by blast
  with ap [of "dApply d" "pN pl" h] a show dl: "dApply d = Delivered" by simp
  show "snd (ds_apply H p Delivered j (pN pl) h) \<noteq> Inr ''fenced''" using a out dl by simp
  show "fst (chaos_handler H p wid u rate d j w) =
       w\<lparr>cHashes := fst (ds_apply H p Delivered j (pN pl) h), cLedger := cLedger w @ [ledger_entry (pN pl) (dStart d) (dEnd d) wid]\<rparr>"
    using ok a out dl by (simp add: chaos_handler_def assms(1) b push_entry_def)
qed

text \<open>
  A run that reports success has done its work exactly once: whatever other runs called the
  downstream before and call it afterwards, a run of the chaos handler that returns no error
  has appended exactly one line to the ledger, its own, and its job's effect count is 1 for
  good.
\<close>

theorem chaos_success_effect_once:
  assumes "hash_server H" "ds_clean H p s" "inj_on number_of ids" "unmarshal (Payload j) = Inr pl"
    and "list_all (call_ok ids number_of) (pre @ Begin j (dBegin d) # Apply j (pN pl) (dApply d) # post)"
    and "cHashes w = fold (run_call H p) pre s"
    and "chaos_handler H p workerID unmarshal failRate d j w = (w', res)" "Err res = None"
  shows "cLedger w' = cLedger w @ [ledger_entry (pN pl) (dStart d) (dEnd d) workerID] \<and>
    counter H (ds_effects p) (itoa (pN pl)) (fold (run_call H p) post (cHashes w')) = 1"
proof -
  let ?pre = "pre @ [Begin j (dBegin d)]"
  have e: "Err (snd (chaos_handler H p workerID unmarshal failRate d j w)) = None" using assms(7,8) by simp
  note S = handler_success [where H = H and p = p and wid = workerID, OF assms(4) e]
  have pre: "fold (run_call H p) ?pre s = fst (ds_begin H p (dBegin d) j (cHashes w))"
    by (simp add: assms(6))
  have "counter H (ds_effects p) (itoa (pN pl)) (fold (run_call H p) (?pre @ Apply j (pN pl) Delivered # post) s) = 1"
  proof (rule hash_server.run_answered_applied [OF assms(1-3)])
    show "list_all (call_ok ids number_of) (?pre @ Apply j (pN pl) Delivered # post)" using assms(5) by auto
    show "snd (ds_apply H p Delivered j (pN pl) (fold (run_call H p) ?pre s)) \<noteq> Inr ''fenced''"
      using S(3) unfolding pre .
  qed
  moreover have "w' = w\<lparr>cHashes := fst (ds_apply H p Delivered j (pN pl) (fst (ds_begin H p (dBegin d) j (cHashes w)))),
      cLedger := cLedger w @ [ledger_entry (pN pl) (dStart d) (dEnd d) workerID]\<rparr>"
    using S(4) assms(7) by simp
  ultimately show ?thesis by (simp add: assms(6))
qed

definition demo_draw :: chaos_draw where
  "demo_draw = \<lparr>dStart = 5, dEnd = 9, dDone = None, dRandom = 1 / 2, dBegin = Delivered, dPush = Delivered, dApply = Delivered\<rparr>"

definition demo_payload :: "string \<Rightarrow> err + payload" where
  "demo_payload = (\<lambda>_. Inr \<lparr>pN = 7, pLatencyMs = 10, pPermanent = False\<rparr>)"

definition demo_world :: "hash_map chaos_world" where
  "demo_world = \<lparr>cHashes = demo_hashes, cLedger = []\<rparr>"

lemma demo_handler:
  "Err (snd (chaos_handler ref_hashes ''c:'' ''w'' demo_payload 0 demo_draw (run_of 1 1) demo_world)) = None"
proof -
  have "atoi ''-1'' = Some (- 1)" by code_simp
  then show ?thesis
    by (simp add: chaos_handler_def demo_payload_def demo_draw_def demo_world_def push_entry_def ds_begin_def beginScript_def
        ds_apply_def script_run_def applyScript_def fence_def demo_tokens ref_hashes_def demo_hashes_def is_int64_def)
qed

theorem chaos_success_effect_once_witness:
  "counter ref_hashes (ds_effects ''c:'') (itoa 7)
     (cHashes (fst (chaos_handler ref_hashes ''c:'' ''w'' demo_payload 0 demo_draw (run_of 1 1) demo_world))) = 1"
proof -
  obtain w' res where r: "chaos_handler ref_hashes ''c:'' ''w'' demo_payload 0 demo_draw (run_of 1 1) demo_world = (w', res)" by fastforce
  have ok: "list_all (call_ok {''j1''} (\<lambda>_. 7))
      ([] @ Begin (run_of 1 1) (dBegin demo_draw) # Apply (run_of 1 1) (pN \<lparr>pN = 7, pLatencyMs = 10, pPermanent = False\<rparr>) (dApply demo_draw) # [])"
    by simp (simp add: run_of_def is_int64_def)
  have "inj_on (\<lambda>_. 7 :: int) {''j1''}" "demo_payload (Payload (run_of 1 1)) = Inr \<lparr>pN = 7, pLatencyMs = 10, pPermanent = False\<rparr>"
    "cHashes demo_world = fold (run_call ref_hashes ''c:'') [] demo_hashes" "Err res = None"
    using demo_handler r by (simp_all add: demo_payload_def demo_world_def)
  from chaos_success_effect_once [OF refhash.hash_server_axioms demo_clean this(1,2) ok this(3) r this(4)] show ?thesis
    by (simp add: r)
qed

context hash_server
begin

lemma begin_effects: "counter H (ds_effects p) f (run_call H p (Begin j nw) s) = counter H (ds_effects p) f s"
  by (cases nw) (simp_all add: ds_begin_def script_run_def beginScript_def fence_def Let_def counter_def split: prod.split)

end

text \<open>
  A job that must fail permanently never has an effect: a run of it returns an error, which is
  final unless the downstream refused the run or its context was cancelled, it writes no
  ledger line, and no effect count changes.
\<close>

theorem chaos_permanent_no_effect:
  assumes "hash_server H" "unmarshal (Payload j) = Inr pl" "pPermanent pl"
    and "chaos_handler H p workerID unmarshal failRate d j w = (w', res)"
  shows "Err res \<noteq> None \<and> (Retryable res \<longrightarrow> dDone d \<noteq> None \<or> snd (ds_begin H p (dBegin d) j (cHashes w)) \<noteq> Inr True) \<and>
    cLedger w' = cLedger w \<and> counter H (ds_effects p) f (cHashes w') = counter H (ds_effects p) f (cHashes w)"
proof -
  have "Err res \<noteq> None \<and> (Retryable res \<longrightarrow> dDone d \<noteq> None \<or> snd (ds_begin H p (dBegin d) j (cHashes w)) \<noteq> Inr True) \<and> cLedger w' = cLedger w"
    using assms(2-4)
    by (auto simp: chaos_handler_def Let_def NewRetryableError_def NewPermanentError_def
        split: prod.splits sum.splits bool.splits option.splits)
  moreover have "counter H (ds_effects p) f (cHashes w') = counter H (ds_effects p) f (cHashes w)"
  proof (rule handler_calls [of H p workerID unmarshal failRate d j w])
    fix cs
    assume "cHashes (fst (chaos_handler H p workerID unmarshal failRate d j w)) = fold (run_call H p) cs (cHashes w)"
      and cs: "cs = [] \<or> (\<exists>pl. unmarshal (Payload j) = Inr pl \<and>
       (cs = [Begin j (dBegin d)] \<or> \<not> pPermanent pl \<and> cs = [Begin j (dBegin d), Apply j (pN pl) (dApply d)]))"
    then have "cHashes w' = fold (run_call H p) cs (cHashes w)" using assms(4) by simp
    moreover have "cs = [] \<or> cs = [Begin j (dBegin d)]" using cs assms(2,3) by auto
    ultimately show ?thesis
      using hash_server.begin_effects [OF assms(1), of p f j "dBegin d" "cHashes w"] by auto
  qed
  ultimately show ?thesis by blast
qed

definition demo_permanent :: "string \<Rightarrow> err + payload" where
  "demo_permanent = (\<lambda>_. Inr \<lparr>pN = 50, pLatencyMs = 10, pPermanent = True\<rparr>)"

theorem chaos_permanent_no_effect_witness:
  "cLedger (fst (chaos_handler ref_hashes ''c:'' ''w'' demo_permanent 0 demo_draw (run_of 1 1) demo_world)) = []"
proof -
  obtain w' res where r: "chaos_handler ref_hashes ''c:'' ''w'' demo_permanent 0 demo_draw (run_of 1 1) demo_world = (w', res)" by fastforce
  show ?thesis
    using chaos_permanent_no_effect [OF refhash.hash_server_axioms _ _ r, of "\<lparr>pN = 50, pLatencyMs = 10, pPermanent = True\<rparr>" "[]"]
    by (simp add: r) (simp add: demo_permanent_def demo_world_def)
qed

end
