(* ===== verification/ExactlyOnce.thy ===== *)
theory ExactlyOnce
  imports Integrity Chaos
begin

text \<open>
  The whole of a chaos run: producers, workers and the queue as in \<open>System\<close>, and the
  downstream the handlers write to. The handler of \<^verbatim>\<open>runWorker\<close> is taken apart into its
  round trips, so that the handlers of several runs, of the same job too, interleave with each
  other and with every move of the queue; a crash is a run that takes no further step. The
  theorem puts the two halves together: the queue delivers at least once, the downstream
  absorbs the duplicates, and so the effect of every accepted job lands exactly once, or the
  job is still stored.
\<close>

section \<open>The handler, one round trip at a time\<close>

datatype phase = Starting | Begun | Pushed | Returned JobResult

fun chaos_step ::
  "'h hashes \<Rightarrow> string \<Rightarrow> string \<Rightarrow> (string \<Rightarrow> err + payload) \<Rightarrow> rat \<Rightarrow> chaos_draw \<Rightarrow> job \<Rightarrow> phase \<Rightarrow>
   'h chaos_world \<Rightarrow> 'h chaos_world \<times> phase" where
  "chaos_step H prefix workerID unmarshal failRate d j Starting w =
     (case unmarshal (Payload j) of
        Inl e \<Rightarrow> (w, Returned (NewPermanentError e))
      | Inr p \<Rightarrow>
          (case ds_begin H prefix (dBegin d) j (cHashes w) of
             (h, Inl e) \<Rightarrow> (w\<lparr>cHashes := h\<rparr>, Returned (NewRetryableError (superseded_error False (Some e))))
           | (h, Inr False) \<Rightarrow> (w\<lparr>cHashes := h\<rparr>, Returned (NewRetryableError (superseded_error False None)))
           | (h, Inr True) \<Rightarrow> (w\<lparr>cHashes := h\<rparr>, Begun)))"
| "chaos_step H prefix workerID unmarshal failRate d j Begun w =
     (case unmarshal (Payload j) of
        Inl e \<Rightarrow> (w, Returned (NewPermanentError e))
      | Inr p \<Rightarrow>
          (case dDone d of
             Some e \<Rightarrow> (w, Returned (NewRetryableError e))
           | None \<Rightarrow>
               if pPermanent p then (w, Returned (NewPermanentError (ErrorString ''permanent failure (chaos)'')))
               else if dRandom d < failRate then (w, Returned (NewRetryableError (ErrorString ''transient failure (chaos)'')))
               else
                 (case push_entry (dPush d) (ledger_entry (pN p) (dStart d) (dEnd d) workerID) w of
                    (w2, Some e) \<Rightarrow> (w2, Returned (NewRetryableError e))
                  | (w2, None) \<Rightarrow> (w2, Pushed))))"
| "chaos_step H prefix workerID unmarshal failRate d j Pushed w =
     (case unmarshal (Payload j) of
        Inl e \<Rightarrow> (w, Returned (NewPermanentError e))
      | Inr p \<Rightarrow>
          (case ds_apply H prefix (dApply d) j (pN p) (cHashes w) of
             (h2, Inl e) \<Rightarrow> (w\<lparr>cHashes := h2\<rparr>, Returned (NewRetryableError e))
           | (h2, Inr outcome) \<Rightarrow>
               (w\<lparr>cHashes := h2\<rparr>,
                Returned (if outcome = ''fenced'' then NewRetryableError (ErrorString ''side effect rejected: superseded run'')
                          else \<lparr>Retryable = False, Err = None\<rparr>))))"
| "chaos_step H prefix workerID unmarshal failRate d j (Returned res) w = (w, Returned res)"

text \<open>Run without interruption, the three round trips are the handler.\<close>

definition chaos_steps ::
  "'h hashes \<Rightarrow> string \<Rightarrow> string \<Rightarrow> (string \<Rightarrow> err + payload) \<Rightarrow> rat \<Rightarrow> chaos_draw \<Rightarrow> job \<Rightarrow>
   'h chaos_world \<Rightarrow> 'h chaos_world \<times> phase" where
  "chaos_steps H prefix workerID unmarshal failRate d j w =
     (let step = (\<lambda>(w, ph). chaos_step H prefix workerID unmarshal failRate d j ph w)
      in step (step (step (w, Starting))))"

lemma chaos_steps_handler:
  "chaos_steps H prefix workerID unmarshal failRate d j w =
     map_prod id Returned (chaos_handler H prefix workerID unmarshal failRate d j w)"
  by (auto simp: chaos_steps_def chaos_handler_def Let_def split: sum.split prod.split bool.split option.split)

text \<open>What a step does to the downstream: at most one call of the run's own job, and a success only after an applied effect.\<close>

lemma chaos_step_cases:
  assumes "chaos_step H p wid u rate d j ph w = (w', ph')"
  obtains (silent) "cHashes w' = cHashes w" "ph' = ph \<or> ph' \<in> {Begun, Pushed} \<or> (\<exists>res. ph' = Returned res \<and> Err res \<noteq> None)"
    | (begins) nw where "cHashes w' = run_call H p (Begin j nw) (cHashes w)" "ph' = Begun \<or> (\<exists>res. ph' = Returned res \<and> Err res \<noteq> None)"
    | (applies) pl nw res where "u (Payload j) = Inr pl" "cHashes w' = run_call H p (Apply j (pN pl) nw) (cHashes w)" "ph' = Returned res"
        "Err res = None \<Longrightarrow> nw = Delivered \<and> snd (ds_apply H p nw j (pN pl) (cHashes w)) \<noteq> Inr ''fenced''"
proof (cases ph)
  case Starting
  show thesis
  proof (cases "u (Payload j)")
    case (Inl e)
    with assms Starting that(1) show thesis by (auto simp: NewPermanentError_def)
  next
    case (Inr pl)
    with assms Starting that(2) [of "dBegin d"] show thesis
      by (auto simp: NewRetryableError_def split: prod.splits sum.splits bool.splits)
  qed
next
  case Begun
  with assms that(1) show thesis
    by (auto simp: NewPermanentError_def NewRetryableError_def push_entry_def split: sum.splits option.splits if_splits fault.splits prod.splits)
next
  case Pushed
  show thesis
  proof (cases "u (Payload j)")
    case (Inl e)
    with assms Pushed that(1) show thesis by (auto simp: NewPermanentError_def)
  next
    case (Inr pl)
    obtain h2 a where a: "ds_apply H p (dApply d) j (pN pl) (cHashes w) = (h2, a)" by fastforce
    have nw: "dApply d = Delivered" if "a = Inr out" for out
      using a that by (cases "dApply d") (auto simp: ds_apply_def script_run_def)
    show thesis
      using assms Pushed Inr a nw that(3) [OF Inr, of "dApply d"]
      by (cases a) (auto simp: NewRetryableError_def split: if_splits)
  qed
next
  case (Returned res)
  with assms that(1) show thesis by simp
qed

section \<open>A chaos run\<close>

text \<open>The worker \<^verbatim>\<open>runWorker\<close> starts: its configuration, and the one handler it registers.\<close>

definition chaos_worker :: "string \<Rightarrow> int \<Rightarrow> int \<Rightarrow> WorkerConfig" where
  [go_defs]: "chaos_worker workerID concurrency visibility = NewWorker
     \<lparr>wcID = workerID, Concurrency = concurrency, PollInterval = 50 * millisecond, PollOnly = False,
      VisibilityTimeout = visibility, HeartbeatInterval = 0, ShutdownTimeout = 0, MaxDeliveries = 0, StatsInterval = 0,
      wcRetryPolicy = \<lparr>BaseDelay = 50 * millisecond, MaxDelay = second, Jitter = 0\<rparr>\<rparr>"

definition chaos_handlers :: "JobResult \<Rightarrow> handlers" where
  [go_defs]: "chaos_handlers res = fst (Register chaos_task (Some (\<lambda>_. res)) Map.empty)"

lemma chaos_worker_deliveries: "MaxDeliveries (chaos_worker wid n vis) = 5"
  by (simp add: chaos_worker_def NewWorker_def Let_def)

lemma chaos_handlers_task: "chaos_handlers res = [chaos_task \<mapsto> (\<lambda>_. res)]"
  by (simp add: chaos_handlers_def Register_def chaos_task_def)

record run =
  rJob :: job
  rWorker :: string
  rDraw :: chaos_draw
  rPhase :: phase

record ('r, 'h) scene =
  queue :: "'r world"
  downstream :: "'h chaos_world"
  runs :: "run list"

text \<open>
  \<open>run_job\<close> is \<^verbatim>\<open>handleOne\<close> around the handler: it refuses a delivery before the handler
  is called (\<open>refuse\<close>), or it acts on the result the handler returned (\<open>finish\<close>). The time
  stamps of a run are 64-bit and a worker's name is one the controller gave it.
\<close>

inductive chaos_system ::
  "'r redis \<Rightarrow> codec \<Rightarrow> Config \<Rightarrow> 'h hashes \<Rightarrow> string \<Rightarrow> (string \<Rightarrow> err + payload) \<Rightarrow> rat \<Rightarrow> 'r \<Rightarrow> 'h \<Rightarrow> ('r, 'h) scene \<Rightarrow> bool"
  for R :: "'r redis" and C :: codec and c :: Config and H :: "'h hashes" and p :: string
    and u :: "string \<Rightarrow> err + payload" and rate :: rat and s0 :: 'r and h0 :: 'h where
  fresh: "chaos_system R C c H p u rate s0 h0
     \<lparr>queue = \<lparr>server = s0, produced = {}, jobs = {}, answered = {}, held = {}, succeeded = {}\<rparr>,
      downstream = \<lparr>cHashes = h0, cLedger = []\<rparr>, runs = []\<rparr>"
| queue_move: "chaos_system R C c H p u rate s0 h0 X \<Longrightarrow> move R C c (queue X) Q \<Longrightarrow> chaos_system R C c H p u rate s0 h0 (X\<lparr>queue := Q\<rparr>)"
| start_run: "chaos_system R C c H p u rate s0 h0 X \<Longrightarrow> j \<in> held (queue X) \<Longrightarrow>
     Token (Lease j) \<le> MaxDeliveries (chaos_worker wid n vis) \<Longrightarrow> Task j = chaos_task \<Longrightarrow>
     readable wid \<Longrightarrow> is_int64 (dStart d) \<Longrightarrow> is_int64 (dEnd d) \<Longrightarrow>
     chaos_system R C c H p u rate s0 h0
       (X\<lparr>runs := runs X @ [\<lparr>rJob = j, rWorker = wid, rDraw = d, rPhase = Starting\<rparr>]\<rparr>)"
| round_trip: "chaos_system R C c H p u rate s0 h0 X \<Longrightarrow> i < length (runs X) \<Longrightarrow> runs X ! i = r \<Longrightarrow>
     chaos_step H p (rWorker r) u rate (rDraw r) (rJob r) (rPhase r) (downstream X) = (w', ph) \<Longrightarrow>
     chaos_system R C c H p u rate s0 h0 (X\<lparr>downstream := w', runs := (runs X)[i := r\<lparr>rPhase := ph\<rparr>]\<rparr>)"
| finish: "chaos_system R C c H p u rate s0 h0 X \<Longrightarrow> i < length (runs X) \<Longrightarrow> runs X ! i = r \<Longrightarrow> rPhase r = Returned res \<Longrightarrow>
     srv (wBackend w) = server (queue X) \<Longrightarrow>
     run_job (store_backend R C c env cancelled) (chaos_worker (rWorker r) n vis) (chaos_handlers res) S cause (rJob r) w = (w', oc) \<Longrightarrow>
     chaos_system R C c H p u rate s0 h0
       (X\<lparr>queue := (queue X)\<lparr>server := srv (wBackend w'), succeeded := succeeded (queue X) \<union> (if oc = NeedsAck then {rJob r} else {})\<rparr>,
          runs := take i (runs X) @ drop (Suc i) (runs X)\<rparr>)"
| refuse: "chaos_system R C c H p u rate s0 h0 X \<Longrightarrow> j \<in> held (queue X) \<Longrightarrow>
     Token (Lease j) > MaxDeliveries (chaos_worker wid n vis) \<or> Task j \<noteq> chaos_task \<Longrightarrow>
     srv (wBackend w) = server (queue X) \<Longrightarrow>
     run_job (store_backend R C c env cancelled) (chaos_worker wid n vis) (chaos_handlers res) S cause j w = (w', oc) \<Longrightarrow>
     chaos_system R C c H p u rate s0 h0
       (X\<lparr>queue := (queue X)\<lparr>server := srv (wBackend w'), succeeded := succeeded (queue X) \<union> (if oc = NeedsAck then {j} else {})\<rparr>\<rparr>)"

lemma move_grows:
  assumes "move R C c X Y"
  shows "jobs X \<subseteq> jobs Y" "held X \<subseteq> held Y" "succeeded Y = succeeded X"
  using assms by (cases; auto)+

text \<open>The queue's part of a chaos run is a history of the queue.\<close>

lemma chaos_system_runs:
  assumes "chaos_system R C c H p u rate s0 h0 X"
  shows "system R C c s0 (queue X) \<and> (\<forall>r \<in> set (runs X). rJob r \<in> held (queue X) \<and> Token (Lease (rJob r)) \<le> 5)"
  using assms
proof (induction rule: chaos_system.induct)
  case fresh
  then show ?case by (simp add: system.start)
next
  case (queue_move X Q)
  then show ?case using system.moves move_grows(2) by fastforce
next
  case (start_run X j wid n vis d)
  then show ?case by (auto simp: chaos_worker_deliveries)
next
  case (round_trip X i r w' ph)
  then have "r \<in> set (runs X)" by auto
  with round_trip show ?case by (auto dest!: set_update_subset_insert [THEN subsetD])
next
  case (finish X i r res w env cancelled n vis S cause w' oc)
  then have r: "r \<in> set (runs X)" by auto
  with finish.IH system.run [OF _ finish.hyps(5) _ finish.hyps(6)] show ?case
    by (auto dest: in_set_takeD in_set_dropD)
next
  case (refuse X j wid n vis w env cancelled res S cause w' oc)
  with system.run [OF _ refuse.hyps(4) _ refuse.hyps(5)] show ?case by auto
qed

text \<open>A handler that is not interrupted is a possible run.\<close>

lemma uninterrupted:
  assumes X: "chaos_system R C c H p u rate s0 h0 X" and i: "i < length (runs X)" "runs X ! i = r" "rPhase r = Starting"
    and h: "chaos_handler H p (rWorker r) u rate (rDraw r) (rJob r) (downstream X) = (w', res)"
  shows "chaos_system R C c H p u rate s0 h0 (X\<lparr>downstream := w', runs := (runs X)[i := r\<lparr>rPhase := Returned res\<rparr>]\<rparr>)"
proof -
  let ?step = "\<lambda>(w, ph). chaos_step H p (rWorker r) u rate (rDraw r) (rJob r) ph w"
  have step: "chaos_system R C c H p u rate s0 h0 (X\<lparr>downstream := fst (?step a), runs := (runs X)[i := r\<lparr>rPhase := snd (?step a)\<rparr>]\<rparr>)"
    if "chaos_system R C c H p u rate s0 h0 (X\<lparr>downstream := fst a, runs := (runs X)[i := r\<lparr>rPhase := snd a\<rparr>]\<rparr>)" for a
    using round_trip [OF that, of i "r\<lparr>rPhase := snd a\<rparr>"] i by (cases a) simp
  have r: "(runs X)[i := r\<lparr>rPhase := Starting\<rparr>] = runs X"
    using i by (cases r) (simp add: list_update_same_conv)
  have "?step (?step (?step (downstream X, Starting))) = (w', Returned res)"
    using chaos_steps_handler [of H p "rWorker r" u rate "rDraw r" "rJob r" "downstream X"] h by (simp add: chaos_steps_def Let_def)
  with step [OF step [OF step [of "(downstream X, Starting)"]]] X r show ?thesis by simp
qed

section \<open>Every effect once\<close>

text \<open>The jobs of a chaos run: each with a number of its own in its payload, and few attempts.\<close>

definition chaos_jobs :: "(string \<Rightarrow> err + payload) \<Rightarrow> (string \<Rightarrow> int) \<Rightarrow> job set \<Rightarrow> bool" where
  "chaos_jobs u number_of J \<longleftrightarrow> inj_on number_of (ID ` J) \<and>
     (\<forall>k \<in> J. 0 \<le> Attempt k \<and> Attempt k < 2 ^ 21 \<and> MaxAttempts k \<le> 2 ^ 21 \<and>
        (\<exists>pl. u (Payload k) = Inr pl \<and> pN pl = number_of (ID k) \<and> is_int64 (pN pl)))"

definition landed :: "'h hashes \<Rightarrow> string \<Rightarrow> 'h \<Rightarrow> job \<Rightarrow> bool" where
  "landed H p h j \<longleftrightarrow> applied (abs_ledger H p h) (ID j) \<noteq> None"

definition once_inv :: "'h hashes \<Rightarrow> string \<Rightarrow> string set \<Rightarrow> (string \<Rightarrow> int) \<Rightarrow> ('r, 'h) scene \<Rightarrow> bool" where
  "once_inv H p ids number_of X \<longleftrightarrow>
     hashes_ok H p (cHashes (downstream X)) \<and> ledger_ok ids number_of (abs_ledger H p (cHashes (downstream X))) \<and>
     (\<forall>r \<in> set (runs X). \<forall>res. rPhase r = Returned res \<and> Err res = None \<longrightarrow> landed H p (cHashes (downstream X)) (rJob r)) \<and>
     (\<forall>j \<in> succeeded (queue X). landed H p (cHashes (downstream X)) j)"

context hash_server
begin

lemma run_call_keeps:
  assumes "hashes_ok H p s" "ledger_ok ids number_of (abs_ledger H p s)" "inj_on number_of ids" "call_ok ids number_of cl"
  shows "hashes_ok H p (run_call H p cl s)" "ledger_ok ids number_of (abs_ledger H p (run_call H p cl s))"
    "landed H p s j \<Longrightarrow> landed H p (run_call H p cl s) j"
  using run_call_refines [OF assms(1,2,4)] spec_call_ok [OF assms(2-4)] applied_kept [of "abs_ledger H p s" "ID j" _ cl]
  by (auto simp: landed_def)

lemma answered_lands:
  assumes "hashes_ok H p s" "ledger_ok ids number_of (abs_ledger H p s)" "call_ok ids number_of (Apply j n Delivered)"
    and "snd (ds_apply H p Delivered j n s) \<noteq> Inr ''fenced''"
  shows "landed H p (run_call H p (Apply j n Delivered) s) j"
proof -
  have "is_int64 (effects (abs_ledger H p s) n + 1)"
    using assms(2) by (auto simp: ledger_ok_def is_int64_def)
  moreover have "small_run j" "is_int64 n"
    using assms(3) by auto
  ultimately have "snd (spec_apply (ID j) (FencingToken j) n (abs_ledger H p s)) \<noteq> ''fenced''"
    using assms(4) apply_refines(1) [OF assms(1), of j n] by (simp add: ds_apply_def script_run_def)
  from spec_apply_answered [OF this] show ?thesis
    using run_call_refines(1) [OF assms(1-3)] by (auto simp: landed_def arrives_def)
qed

lemma landed_once:
  assumes "ledger_ok ids number_of (abs_ledger H p s)" "landed H p s j"
  shows "counter H (ds_effects p) (itoa (number_of (ID j))) s = 1"
proof -
  have "\<exists>i. applied (abs_ledger H p s) i = Some (number_of (ID j))"
    using assms unfolding landed_def ledger_ok_def by blast
  then have "effects (abs_ledger H p s) (number_of (ID j)) = 1"
    using assms(1) by (simp add: ledger_ok_def)
  then show ?thesis by (simp add: abs_ledger_def)
qed

text \<open>One round trip of a handler keeps the invariant.\<close>

lemma round_trip_once:
  assumes inv: "once_inv H p ids number_of X" and i: "i < length (runs X)" "runs X ! i = r" and inj: "inj_on number_of ids"
    and small: "small_run (rJob r)" "ID (rJob r) \<in> ids" and pl: "\<And>pl. u (Payload (rJob r)) = Inr pl \<Longrightarrow> pN pl = number_of (ID (rJob r)) \<and> is_int64 (pN pl)"
    and st: "chaos_step H p (rWorker r) u rate (rDraw r) (rJob r) (rPhase r) (downstream X) = (w', ph)"
  shows "once_inv H p ids number_of (X\<lparr>downstream := w', runs := (runs X)[i := r\<lparr>rPhase := ph\<rparr>]\<rparr>)"
proof -
  let ?h = "cHashes (downstream X)"
  have ok: "hashes_ok H p ?h" "ledger_ok ids number_of (abs_ledger H p ?h)"
    and land: "\<And>r res. r \<in> set (runs X) \<Longrightarrow> rPhase r = Returned res \<Longrightarrow> Err res = None \<Longrightarrow> landed H p ?h (rJob r)"
      "\<And>j. j \<in> succeeded (queue X) \<Longrightarrow> landed H p ?h j"
    using inv by (auto simp: once_inv_def)
  have r: "r \<in> set (runs X)"
    using i by auto
  have upd: "q \<in> set (runs X) \<or> q = r\<lparr>rPhase := ph\<rparr>" if "q \<in> set ((runs X)[i := r\<lparr>rPhase := ph\<rparr>])" for q
    using that set_update_subset_insert by fast
  have "hashes_ok H p (cHashes w') \<and> ledger_ok ids number_of (abs_ledger H p (cHashes w')) \<and>
      (\<forall>j. landed H p ?h j \<longrightarrow> landed H p (cHashes w') j) \<and>
      (\<forall>res. ph = Returned res \<and> Err res = None \<longrightarrow> landed H p (cHashes w') (rJob r))"
    using st
  proof (cases rule: chaos_step_cases)
    case silent
    then have "landed H p ?h (rJob r)" if "ph = Returned res" "Err res = None" for res
      using land(1) [OF r, of res] that by auto
    with silent(1) ok show ?thesis by simp
  next
    case (begins nw)
    have "call_ok ids number_of (Begin (rJob r) nw)"
      using small by simp
    with begins run_call_keeps [OF ok inj this] show ?thesis by auto
  next
    case (applies q nw res)
    have c: "call_ok ids number_of (Apply (rJob r) (pN q) nw)"
      using small pl [OF applies(1)] by auto
    with applies run_call_keeps [OF ok inj c] answered_lands [OF ok, of "rJob r" "pN q"] show ?thesis by auto
  qed
  with land show ?thesis
    by (auto simp: once_inv_def dest!: upd)
qed

end

lemma held_run:
  assumes "store_queue R view kt xle C c" "empty_queue c (view s0)" "system R C c s0 X" "chaos_jobs u number_of J" "jobs X \<subseteq> J"
    and "j \<in> held X" "Token (Lease j) \<le> 5"
  shows "small_run j" "ID j \<in> ID ` J" "u (Payload j) = Inr pl \<Longrightarrow> pN pl = number_of (ID j) \<and> is_int64 (pN pl)"
proof -
  obtain k where k: "k \<in> J" "of_job j k"
    using store_queue.system_genuine [OF assms(1,3,2)] assms(5,6) unfolding genuine_def from_jobs_def by blast
  have "1 \<le> Token (Lease j)"
    using store_queue.system_tokens [OF assms(1,3,2)] assms(6) by blast
  moreover have "0 \<le> Attempt j \<and> Attempt j < 2 ^ 21"
    using k assms(4) unfolding chaos_jobs_def of_job_def by force
  ultimately show "small_run j"
    using assms(7) by (simp add: small_run_def)
  show "ID j \<in> ID ` J"
    using k(1) of_jobD(1) [OF k(2)] by simp
  show "u (Payload j) = Inr pl \<Longrightarrow> pN pl = number_of (ID j) \<and> is_int64 (pN pl)"
    using k(1) of_jobD(1,3) [OF k(2)] assms(4) unfolding chaos_jobs_def by force
qed

lemma run_job_success:
  assumes "run_job B (chaos_worker wid n vis) (chaos_handlers res) S cause j w = (w', NeedsAck)"
  shows "Err res = None" "Token (Lease j) \<le> MaxDeliveries (chaos_worker wid n vis)" "Task j = chaos_task"
  using assms
  by (auto simp: run_job_def chaos_handlers_task Let_def Worker_deadLetter_def split: if_splits option.splits prod.splits)

lemma chaos_system_once:
  assumes "store_queue R view kt xle C c" "empty_queue c (view s0)" "hash_server H" "ds_clean H p h0" "chaos_jobs u number_of J"
    and "chaos_system R C c H p u rate s0 h0 X" "jobs (queue X) \<subseteq> J"
  shows "once_inv H p (ID ` J) number_of X"
  using assms(6,7)
proof (induction rule: chaos_system.induct)
  case fresh
  then show ?case by (simp add: once_inv_def ds_clean_ok [OF assms(4)])
next
  case (queue_move X Q)
  then show ?case using move_grows [OF queue_move.hyps(2)] by (auto simp: once_inv_def)
next
  case (start_run X j wid n vis d)
  then show ?case by (auto simp: once_inv_def)
next
  case (round_trip X i r w' ph)
  have r: "r \<in> set (runs X)"
    using round_trip.hyps(2,3) by auto
  note S = chaos_system_runs [OF round_trip.hyps(1)]
  have "rJob r \<in> held (queue X)" "Token (Lease (rJob r)) \<le> 5" "jobs (queue X) \<subseteq> J"
    using S r round_trip.prems by auto
  note held = held_run [OF assms(1,2) conjunct1 [OF S] assms(5) this(3,1,2)]
  have "inj_on number_of (ID ` J)"
    using assms(5) by (simp add: chaos_jobs_def)
  from hash_server.round_trip_once [OF assms(3) round_trip.IH round_trip.hyps(2,3) this held round_trip.hyps(4)] round_trip.prems
  show ?case by simp
next
  case (finish X i r res w env cancelled n vis S cause w' oc)
  have "r \<in> set (runs X)"
    using finish.hyps(2,3) by auto
  with finish run_job_success(1) [of _ "rWorker r" n vis res S cause "rJob r" w w'] show ?case
    by (auto simp: once_inv_def dest!: in_set_takeD in_set_dropD)
next
  case (refuse X j wid n vis w env cancelled res S cause w' oc)
  with run_job_success(2,3) [of _ wid n vis res S cause j w w'] have "oc \<noteq> NeedsAck"
    by force
  with refuse show ?case by (simp add: once_inv_def)
qed


text \<open>A run from enqueue to ack.\<close>

definition once_job :: job where
  "once_job = demo_job\<lparr>Task := chaos_task\<rparr>"

definition once_enqueue :: "refdb store \<times> (err + string)" where
  "once_enqueue = Store_Enqueue ref_redis ref_codec ref_config once_job (demo_store empty_server)"

definition once_claim :: "refdb store \<times> (err + job list)" where
  "once_claim = claimReady ref_redis ref_codec ref_config ''w1'' 1 (demo_store (srv (fst once_enqueue)))"

definition once_delivery :: job where
  "once_delivery = (case snd once_claim of Inl e \<Rightarrow> once_job | Inr js \<Rightarrow> hd js)"

definition once_handler :: "hash_map chaos_world \<times> JobResult" where
  "once_handler = chaos_handler ref_hashes ''c:'' ''w1'' demo_payload 0 demo_draw once_delivery demo_world"

definition once_ack :: "refdb store \<times> err option" where
  "once_ack = Store_Ack ref_redis ref_config once_delivery (demo_store (srv (fst once_claim)))"

definition once_scene :: "(refdb, hash_map) scene" where
  "once_scene = \<lparr>queue = \<lparr>server = srv (fst once_ack), produced = {''j1''}, jobs = {once_job}, answered = {''j1''},
     held = {once_delivery}, succeeded = {once_delivery}\<rparr>, downstream = fst once_handler, runs = []\<rparr>"

lemma once_delivery_lease:
  "map_sum id (map (\<lambda>j. (Task j, Attempt j, lease_of j))) (snd once_claim) = Inr [(''chaos'', 0, ''1-0'', ''w1'', 1, ''j1'')]"
  by code_simp

lemma once_stored: "stored ref_config (ref_view (srv (fst once_ack))) ''j1'' = 0"
  by code_simp

lemma once_claimed:
  "snd once_claim = Inr [once_delivery]" "Task once_delivery = chaos_task" "ID once_delivery = ''j1''" "Token (Lease once_delivery) = 1"
  "FencingToken once_delivery = 1"
proof -
  obtain j where j: "snd once_claim = Inr [j]" "Task j = ''chaos''" "Attempt j = 0" "lease_of j = (''1-0'', ''w1'', 1, ''j1'')"
    using once_delivery_lease by (cases "snd once_claim") auto
  then show "snd once_claim = Inr [once_delivery]" "Task once_delivery = chaos_task" "ID once_delivery = ''j1''"
    "Token (Lease once_delivery) = 1" "FencingToken once_delivery = 1"
    by (simp_all add: once_delivery_def lease_of_def chaos_task_def FencingToken_value)
qed

lemma once_result: "Err (snd once_handler) = None"
proof -
  have "atoi ''-1'' = Some (- 1)" by code_simp
  then show ?thesis
    by (simp add: once_handler_def chaos_handler_def demo_payload_def demo_draw_def demo_world_def push_entry_def ds_begin_def beginScript_def
        ds_apply_def script_run_def applyScript_def fence_def once_claimed ref_hashes_def demo_hashes_def is_int64_def)
qed

abbreviation once_sys :: "(string \<Rightarrow> err + payload) \<Rightarrow> rat \<Rightarrow> (refdb, hash_map) scene \<Rightarrow> bool" where
  "once_sys u rate \<equiv> chaos_system ref_redis ref_codec ref_config ref_hashes ''c:'' u rate empty_server demo_hashes"

definition once_queue :: "refdb world" where
  "once_queue = \<lparr>server = srv (fst once_claim), produced = {''j1''}, jobs = {once_job}, answered = {''j1''},
     held = {once_delivery}, succeeded = {}\<rparr>"

lemma once_delivered:
  "once_sys u rate \<lparr>queue = once_queue, downstream = demo_world, runs = []\<rparr>"
proof -
  let ?Q = "\<lparr>server = empty_server, produced = {}, jobs = {}, answered = {}, held = {}, succeeded = {}\<rparr>"
  let ?X = "\<lparr>queue = ?Q, downstream = demo_world, runs = []\<rparr>"
  have 0: "once_sys u rate ?X"
    using chaos_system.fresh by (simp add: demo_world_def)
  have ok: "with_id once_job st = (once_job, st)" "storable once_job" "utf8_job once_job" "ID once_job = ''j1''" for st :: "refdb store"
    using demo_job_ok by (simp_all add: once_job_def with_id_def storable_def utf8_job_def chaos_task_def byte_in_def)
  have r: "snd once_enqueue = Inr ''j1''"
    by (simp add: once_enqueue_def Store_Enqueue_def ok demo_store_def rt_def) (simp add: once_job_def demo_job_def)
  let ?Q1 = "?Q\<lparr>server := srv (fst once_enqueue), produced := {''j1''}, jobs := {once_job}, answered := {''j1''}\<rparr>"
  have "move ref_redis ref_codec ref_config ?Q ?Q1"
    using move.produce [of "demo_store empty_server" ?Q once_job once_job "demo_store empty_server" ref_redis ref_codec ref_config
        "fst once_enqueue" "snd once_enqueue"] r
    by (simp add: ok demo_store_srv prod_eq_iff once_enqueue_def [symmetric])
  from chaos_system.queue_move [OF 0, of ?Q1] this have 1: "once_sys u rate (?X\<lparr>queue := ?Q1\<rparr>)" by simp
  have "move ref_redis ref_codec ref_config ?Q1 once_queue"
    using move.claim_ready [of "demo_store (srv (fst once_enqueue))" ?Q1 1 ref_redis ref_codec ref_config "''w1''" "fst once_claim" "snd once_claim"]
    by (simp add: demo_store_srv once_claimed(1) prod_eq_iff once_claim_def [symmetric] once_queue_def)
  from chaos_system.queue_move [OF 1, of once_queue] this show ?thesis by simp
qed

definition once_run :: run where
  "once_run = \<lparr>rJob = once_delivery, rWorker = ''w1'', rDraw = demo_draw, rPhase = Starting\<rparr>"

lemma once_handled:
  assumes "chaos_handler ref_hashes ''c:'' ''w1'' u rate demo_draw once_delivery demo_world = (w', res)"
  shows "once_sys u rate \<lparr>queue = once_queue, downstream = w', runs = [once_run\<lparr>rPhase := Returned res\<rparr>]\<rparr>"
proof -
  have "once_sys u rate \<lparr>queue = once_queue, downstream = demo_world, runs = [once_run]\<rparr>"
    using chaos_system.start_run [OF once_delivered, of once_delivery "''w1''" 1 second demo_draw]
    by (simp add: once_claimed chaos_worker_deliveries readable_def is_blank_def is_newline_def once_queue_def once_run_def)
      (simp add: demo_draw_def is_int64_def)
  from uninterrupted [OF this, of 0 once_run w' res] assms show ?thesis
    by (simp add: once_run_def)
qed

definition once_worker :: "refdb store worker" where
  "once_worker = \<lparr>wBackend = demo_store (srv (fst once_claim)), wEvents = []\<rparr>"

lemma once_system: "once_sys demo_payload 0 once_scene"
  (is "?S once_scene")
proof -
  let ?Q = "once_queue\<lparr>succeeded := {once_delivery}\<rparr>"
  have 1: "?S \<lparr>queue = once_queue, downstream = fst once_handler, runs = [once_run\<lparr>rPhase := Returned (snd once_handler)\<rparr>]\<rparr>"
    by (rule once_handled) (simp add: once_handler_def)
  have "run_job (store_backend ref_redis ref_codec ref_config (\<lambda>s. s) False) (chaos_worker ''w1'' 1 second) (chaos_handlers (snd once_handler))
      demo_surroundings None once_delivery once_worker = (emit (JobStarted once_delivery) once_worker, NeedsAck)"
    by (simp add: run_job_def chaos_handlers_task once_claimed chaos_worker_deliveries once_result)
  with chaos_system.finish [OF 1, of 0 "once_run\<lparr>rPhase := Returned (snd once_handler)\<rparr>" "snd once_handler" once_worker "\<lambda>s. s" False 1 second
      demo_surroundings None "emit (JobStarted once_delivery) once_worker" NeedsAck]
  have 2: "?S \<lparr>queue = ?Q, downstream = fst once_handler, runs = []\<rparr>"
    by (simp add: demo_store_srv emit_def once_run_def once_worker_def once_queue_def)
  have "move ref_redis ref_codec ref_config ?Q (?Q\<lparr>server := srv (fst once_ack)\<rparr>)"
    using move.ack_one [of "demo_store (srv (fst once_claim))" ?Q once_delivery ref_redis ref_config "fst once_ack" "snd once_ack"]
    by (simp add: demo_store_srv once_ack_def once_queue_def)
  from chaos_system.queue_move [OF 2, of "?Q\<lparr>server := srv (fst once_ack)\<rparr>"] this show ?thesis
    by (simp add: once_scene_def once_queue_def)
qed


end
