(* ===== verification/ChaosReport.thy ===== *)
theory ChaosReport
  imports Chaos
begin

text \<open>
  The report of \<^verbatim>\<open>cmd/chaos/main.go\<close>: from the ledger, the dead-letter streams, the
  downstream's effect counts and the queue's statistics it decides whether the run kept the
  queue's guarantees. The replies of the reads are arguments; \<^verbatim>\<open>log.Fatalf\<close> on an
  unreadable one is \<^term>\<open>None\<close>. The decision is shown to be exactly the guarantees the
  program documents.
\<close>

section \<open>Reading the replies\<close>

fun read_ledger :: "string list \<Rightarrow> (int \<Rightarrow> execution list) \<Rightarrow> (int \<Rightarrow> execution list) option" where
  "read_ledger [] executions = Some executions"
| "read_ledger (line # ls) executions =
     (case scan_entry line of
        None \<Rightarrow> None
      | Some (n, e) \<Rightarrow> read_ledger ls (executions(n := executions n @ [e])))"

fun read_parts :: "(err + 'm list) list \<Rightarrow> 'm list option" where
  "read_parts [] = Some []"
| "read_parts (Inl e # ps) = None"
| "read_parts (Inr msgs # ps) = map_option (\<lambda>rest. msgs @ rest) (read_parts ps)"

text \<open>A field of a stream entry, empty when it is missing.\<close>

definition value_or_empty :: "(string \<Rightarrow> string option) \<Rightarrow> string \<Rightarrow> string" where
  "value_or_empty m k = (case m k of None \<Rightarrow> [] | Some v \<Rightarrow> v)"

fun read_dead ::
  "(string \<Rightarrow> err + payload) \<Rightarrow> (string \<Rightarrow> string option) list \<Rightarrow> (int \<Rightarrow> string option) \<Rightarrow> (int \<Rightarrow> string option) option" where
  "read_dead unmarshal [] deadReason = Some deadReason"
| "read_dead unmarshal (m # ms) deadReason =
     (case unmarshal (value_or_empty m ''payload'') of
        Inl e \<Rightarrow> None
      | Inr p \<Rightarrow> read_dead unmarshal ms (deadReason(pN p \<mapsto> value_or_empty m ''reason'')))"

text \<open>The value \<^verbatim>\<open>strconv.Atoi\<close> returns next to its error: 0, or the nearest 64-bit integer.\<close>

definition Atoi_value :: "string \<Rightarrow> int" where
  "Atoi_value s =
     (case (case s of
              [] \<Rightarrow> None
            | c # cs \<Rightarrow>
                if c = CHR ''-'' then map_option uminus (unsigned_digits cs)
                else if c = CHR ''+'' then unsigned_digits cs
                else unsigned_digits s) of
        None \<Rightarrow> 0
      | Some n \<Rightarrow> max (- (2 ^ 63)) (min (2 ^ 63 - 1) n))"

lemma Atoi_value_atoi: "atoi s = Some n \<Longrightarrow> Atoi_value s = n"
  unfolding atoi_def Atoi_value_def Let_def
  by (cases s) (auto simp: is_int64_def split: option.splits if_splits)

lemma Atoi_value_itoa: "is_int64 n \<Longrightarrow> Atoi_value (itoa n) = n"
  by (rule Atoi_value_atoi) simp

fun read_effects :: "(string \<times> string) list \<Rightarrow> (int \<Rightarrow> int) \<Rightarrow> int \<Rightarrow> int" where
  "read_effects [] effects' = effects'"
| "read_effects ((k, v) # raw) effects' = read_effects raw (effects'(Atoi_value k := Atoi_value v))"

section \<open>Classifying the jobs\<close>

record summary =
  sCompleted :: int
  sDeadExpected :: int
  sDuplicates :: int
  sOverlapping :: int
  sLost :: "int list"
  sMisrouted :: "int list"
  sOtherDead :: "string \<Rightarrow> int"

definition no_summary :: summary where
  "no_summary = \<lparr>sCompleted = 0, sDeadExpected = 0, sDuplicates = 0, sOverlapping = 0, sLost = [], sMisrouted = [], sOtherDead = (\<lambda>_. 0)\<rparr>"

text \<open>Neighbours of the executions sorted by their start (equal starts in ledger order).\<close>

fun overlaps :: "execution list \<Rightarrow> bool" where
  "overlaps (a # b # rest) \<longleftrightarrow> fst b < snd a \<or> overlaps (b # rest)"
| "overlaps _ \<longleftrightarrow> False"

definition tally :: "(int \<Rightarrow> execution list) \<Rightarrow> (int \<Rightarrow> string option) \<Rightarrow> int \<Rightarrow> summary \<Rightarrow> summary" where
  [go_defs]: "tally executions deadReason i s =
     (let execs = executions i; reason = deadReason i
      in if i mod permanentEvery = 0 then
           (if reason = None \<or> execs \<noteq> [] then s\<lparr>sMisrouted := sMisrouted s @ [i]\<rparr>
            else s\<lparr>sDeadExpected := sDeadExpected s + 1\<rparr>)
         else if execs = [] \<and> reason = None then s\<lparr>sLost := sLost s @ [i]\<rparr>
         else
           let s1 = (case reason of None \<Rightarrow> s | Some r \<Rightarrow> s\<lparr>sOtherDead := (sOtherDead s)(r := sOtherDead s r + 1)\<rparr>)
           in if execs \<noteq> [] then
                s1\<lparr>sCompleted := sCompleted s1 + 1, sDuplicates := sDuplicates s1 + int (length execs) - 1,
                   sOverlapping := sOverlapping s1 + (if overlaps (sort_key fst execs) then 1 else 0)\<rparr>
              else s1)"

definition job_range :: "int \<Rightarrow> int list" where
  "job_range jobs = map int [0..<nat jobs]"

definition duplicate_effects :: "int \<Rightarrow> (int \<Rightarrow> int) \<Rightarrow> int list" where
  [go_defs]: "duplicate_effects jobs eff = filter (\<lambda>i. eff i > 1) (job_range jobs)"

definition missing_effects :: "int \<Rightarrow> (int \<Rightarrow> int) \<Rightarrow> (int \<Rightarrow> string option) \<Rightarrow> int list" where
  [go_defs]: "missing_effects jobs eff deadReason = filter (\<lambda>i. \<not> eff i > 1 \<and> eff i = 0 \<and> deadReason i = None) (job_range jobs)"

definition leftover :: "err + Stats \<Rightarrow> int" where
  [go_defs]: "leftover stats =
     (case stats of Inl e \<Rightarrow> 0 | Inr st \<Rightarrow> wrap64 (wrap64 (StreamLength st + InFlight st) + RetryScheduled st))"

definition report_failed :: "summary \<Rightarrow> int \<Rightarrow> string list \<Rightarrow> int list \<Rightarrow> int list \<Rightarrow> bool" where
  [go_defs]: "report_failed s left crashed dup missing \<longleftrightarrow>
     sLost s \<noteq> [] \<or> sMisrouted s \<noteq> [] \<or> left > 0 \<or> length crashed > 0 \<or> dup \<noteq> [] \<or> missing \<noteq> []"

definition chaos_report ::
  "(string \<Rightarrow> err + payload) \<Rightarrow> int \<Rightarrow> err + string list \<Rightarrow> (err + (string \<Rightarrow> string option) list) list \<Rightarrow>
   err + (string \<times> string) list \<Rightarrow> err + Stats \<Rightarrow> string list \<Rightarrow> (summary \<times> int) option" where
  [go_defs]: "chaos_report unmarshal jobs ledger parts raw stats crashed =
     (case ledger of Inl _ \<Rightarrow> None | Inr ls \<Rightarrow>
      case read_ledger ls (\<lambda>_. []) of None \<Rightarrow> None | Some executions \<Rightarrow>
      case read_parts parts of None \<Rightarrow> None | Some dead \<Rightarrow>
      case read_dead unmarshal dead Map.empty of None \<Rightarrow> None | Some deadReason \<Rightarrow>
        (let s = fold (tally executions deadReason) (job_range jobs) no_summary
         in case raw of Inl _ \<Rightarrow> None | Inr kvs \<Rightarrow>
              (let eff = read_effects kvs (\<lambda>_. 0)
               in Some (s, if report_failed s (leftover stats) crashed (duplicate_effects jobs eff)
                                (missing_effects jobs eff deadReason) then 1 else 0))))"

definition drained :: "err + Stats \<Rightarrow> bool" where
  [go_defs]: "drained stats \<longleftrightarrow>
     (case stats of Inl e \<Rightarrow> False | Inr st \<Rightarrow> StreamLength st = 0 \<and> InFlight st = 0 \<and> RetryScheduled st = 0)"

text \<open>A queue the controller found drained has nothing left by the report's count.\<close>

lemma drained_leftover: "drained stats \<Longrightarrow> leftover stats = 0"
  by (auto simp: drained_def leftover_def is_int64_def split: sum.splits)

section \<open>What the replies say of a job\<close>

text \<open>How many runs of a job the ledger records, and whether it was dead-lettered.\<close>

definition runs_of :: "string list \<Rightarrow> int \<Rightarrow> nat" where
  "runs_of ls i = length (filter (\<lambda>l. map_option fst (scan_entry l) = Some i) ls)"

definition dead_in :: "(string \<Rightarrow> err + payload) \<Rightarrow> (string \<Rightarrow> string option) list \<Rightarrow> int \<Rightarrow> bool" where
  "dead_in unmarshal ms i \<longleftrightarrow> list_ex (\<lambda>m. case unmarshal (value_or_empty m ''payload'') of Inl _ \<Rightarrow> False | Inr p \<Rightarrow> pN p = i) ms"

lemma read_ledger_runs: "read_ledger ls ex = Some ex' \<Longrightarrow> length (ex' i) = length (ex i) + runs_of ls i"
proof (induction ls arbitrary: ex)
  case (Cons l ls)
  then obtain n e where s: "scan_entry l = Some (n, e)" and r: "read_ledger ls (ex(n := ex n @ [e])) = Some ex'"
    by (auto split: option.splits)
  from Cons.IH [OF r] show ?case by (auto simp: runs_of_def s)
qed (simp add: runs_of_def)

lemma read_dead_dead: "read_dead u ms dr = Some dr' \<Longrightarrow> dr' i = None \<longleftrightarrow> dr i = None \<and> \<not> dead_in u ms i"
proof (induction ms arbitrary: dr)
  case (Cons m ms)
  then obtain p where s: "u (value_or_empty m ''payload'') = Inr p"
    and r: "read_dead u ms (dr(pN p \<mapsto> value_or_empty m ''reason'')) = Some dr'"
    by (auto split: sum.splits)
  from Cons.IH [OF r] show ?case by (auto simp: dead_in_def s)
qed (simp add: dead_in_def)

lemma tally_step:
  "sLost (tally ex dr i s) = sLost s @ (if i mod permanentEvery \<noteq> 0 \<and> ex i = [] \<and> dr i = None then [i] else [])"
  "sMisrouted (tally ex dr i s) = sMisrouted s @ (if i mod permanentEvery = 0 \<and> (dr i = None \<or> ex i \<noteq> []) then [i] else [])"
  "sCompleted (tally ex dr i s) = sCompleted s + (if i mod permanentEvery \<noteq> 0 \<and> ex i \<noteq> [] then 1 else 0)"
  "sDeadExpected (tally ex dr i s) = sDeadExpected s + (if i mod permanentEvery = 0 \<and> dr i \<noteq> None \<and> ex i = [] then 1 else 0)"
  "sDuplicates (tally ex dr i s) = sDuplicates s + (if i mod permanentEvery \<noteq> 0 \<and> ex i \<noteq> [] then int (length (ex i)) - 1 else 0)"
  by (simp_all add: tally_def Let_def split: option.split)

lemma tally_all:
  "sLost (fold (tally ex dr) is s) = sLost s @ filter (\<lambda>i. i mod permanentEvery \<noteq> 0 \<and> ex i = [] \<and> dr i = None) is"
  "sMisrouted (fold (tally ex dr) is s) = sMisrouted s @ filter (\<lambda>i. i mod permanentEvery = 0 \<and> (dr i = None \<or> ex i \<noteq> [])) is"
  "sCompleted (fold (tally ex dr) is s) = sCompleted s + int (length (filter (\<lambda>i. i mod permanentEvery \<noteq> 0 \<and> ex i \<noteq> []) is))"
  "sDeadExpected (fold (tally ex dr) is s) = sDeadExpected s + int (length (filter (\<lambda>i. i mod permanentEvery = 0 \<and> dr i \<noteq> None \<and> ex i = []) is))"
  "sDuplicates (fold (tally ex dr) is s) =
     sDuplicates s + sum_list (map (\<lambda>i. int (length (ex i)) - 1) (filter (\<lambda>i. i mod permanentEvery \<noteq> 0 \<and> ex i \<noteq> []) is))"
  by (induction "is" arbitrary: s) (simp_all add: tally_step)

lemma in_job_range: "i \<in> set (job_range jobs) \<longleftrightarrow> 0 \<le> i \<and> i < jobs"
  by (auto simp: job_range_def image_iff intro!: bexI [of _ "nat i"])

lemma job_range_all: "(\<forall>i \<in> set (job_range jobs). P i) \<longleftrightarrow> (\<forall>i. 0 \<le> i \<and> i < jobs \<longrightarrow> P i)"
  by (auto simp: in_job_range)

text \<open>A report that comes to a verdict has read everything.\<close>

lemma report_read:
  assumes "chaos_report u jobs ledger parts raw stats crashed = Some (s, code)"
  obtains ls ms kvs ex dr where "ledger = Inr ls" "read_parts parts = Some ms" "raw = Inr kvs"
    "s = fold (tally ex dr) (job_range jobs) no_summary"
    "\<And>i. ex i = [] \<longleftrightarrow> runs_of ls i = 0" "\<And>i. length (ex i) = runs_of ls i" "\<And>i. dr i = None \<longleftrightarrow> \<not> dead_in u ms i"
    "code = (if report_failed s (leftover stats) crashed (duplicate_effects jobs (read_effects kvs (\<lambda>_. 0)))
        (missing_effects jobs (read_effects kvs (\<lambda>_. 0)) dr) then 1 else 0)"
proof -
  from assms obtain ls ms kvs ex dr where r: "ledger = Inr ls" "read_parts parts = Some ms" "raw = Inr kvs"
    "s = fold (tally ex dr) (job_range jobs) no_summary"
    "code = (if report_failed s (leftover stats) crashed (duplicate_effects jobs (read_effects kvs (\<lambda>_. 0)))
        (missing_effects jobs (read_effects kvs (\<lambda>_. 0)) dr) then 1 else 0)"
    and l: "read_ledger ls (\<lambda>_. []) = Some ex" and d: "read_dead u ms Map.empty = Some dr"
    unfolding chaos_report_def Let_def by (auto split: sum.splits option.splits)
  have len: "length (ex i) = runs_of ls i" for i using read_ledger_runs [OF l] by simp
  then have emp: "ex i = [] \<longleftrightarrow> runs_of ls i = 0" for i by (metis length_0_conv)
  have "dr i = None \<longleftrightarrow> \<not> dead_in u ms i" for i using read_dead_dead [OF d] by simp
  with that r len emp show thesis by blast
qed

section \<open>The verdict\<close>

lemma verdict_iff:
  assumes "chaos_report unmarshal jobs (Inr ls) parts (Inr kvs) stats crashed = Some (s, code)"
    and "read_parts parts = Some ms"
  defines "eff \<equiv> read_effects kvs (\<lambda>_. 0)"
  shows "code = 0 \<longleftrightarrow> crashed = [] \<and> leftover stats \<le> 0 \<and>
    (\<forall>i. 0 \<le> i \<and> i < jobs \<longrightarrow>
       (if i mod permanentEvery = 0 then dead_in unmarshal ms i \<and> runs_of ls i = 0
        else dead_in unmarshal ms i \<or> 0 < runs_of ls i) \<and>
       eff i \<le> 1 \<and> (eff i = 0 \<longrightarrow> dead_in unmarshal ms i))"
proof -
  obtain ex dr where s: "s = fold (tally ex dr) (job_range jobs) no_summary"
    and ex: "\<And>i. ex i = [] \<longleftrightarrow> runs_of ls i = 0" and dr: "\<And>i. dr i = None \<longleftrightarrow> \<not> dead_in unmarshal ms i"
    and code: "code = (if report_failed s (leftover stats) crashed (duplicate_effects jobs eff) (missing_effects jobs eff dr) then 1 else 0)"
  proof (rule report_read [OF assms(1)])
    fix ls' ms' kvs' ex dr
    assume "Inr ls = (Inr ls' :: err + string list)" "read_parts parts = Some ms'" "Inr kvs = (Inr kvs' :: err + (string \<times> string) list)"
      "s = fold (tally ex dr) (job_range jobs) no_summary"
      "\<And>i. ex i = [] \<longleftrightarrow> runs_of ls' i = 0" "\<And>i. dr i = None \<longleftrightarrow> \<not> dead_in unmarshal ms' i"
      "code = (if report_failed s (leftover stats) crashed (duplicate_effects jobs (read_effects kvs' (\<lambda>_. 0)))
        (missing_effects jobs (read_effects kvs' (\<lambda>_. 0)) dr) then 1 else 0)"
    with assms(2) show thesis by (intro that) (simp_all add: eff_def)
  qed
  have lost: "sLost s = [] \<longleftrightarrow> (\<forall>i. 0 \<le> i \<and> i < jobs \<longrightarrow> i mod permanentEvery = 0 \<or> 0 < runs_of ls i \<or> dead_in unmarshal ms i)"
    by (simp add: s tally_all no_summary_def filter_empty_conv job_range_all ex dr)
  have mis: "sMisrouted s = [] \<longleftrightarrow> (\<forall>i. 0 \<le> i \<and> i < jobs \<longrightarrow> i mod permanentEvery \<noteq> 0 \<or> dead_in unmarshal ms i \<and> runs_of ls i = 0)"
    by (simp add: s tally_all no_summary_def filter_empty_conv job_range_all ex dr)
  have dup: "duplicate_effects jobs eff = [] \<longleftrightarrow> (\<forall>i. 0 \<le> i \<and> i < jobs \<longrightarrow> eff i \<le> 1)"
    by (simp add: duplicate_effects_def filter_empty_conv job_range_all not_less)
  have missing: "missing_effects jobs eff dr = [] \<longleftrightarrow> (\<forall>i. 0 \<le> i \<and> i < jobs \<longrightarrow> eff i = 0 \<longrightarrow> dead_in unmarshal ms i)"
    by (auto simp: missing_effects_def filter_empty_conv job_range_all dr)
  have "code = 0 \<longleftrightarrow> crashed = [] \<and> leftover stats \<le> 0 \<and> sLost s = [] \<and> sMisrouted s = [] \<and>
      duplicate_effects jobs eff = [] \<and> missing_effects jobs eff dr = []"
    by (auto simp: code report_failed_def not_less)
  moreover have "(if m then d \<and> n = 0 else d \<or> 0 < n) \<and> e \<and> e' \<longleftrightarrow> (m \<or> 0 < n \<or> d) \<and> (\<not> m \<or> d \<and> n = 0) \<and> e \<and> e'" for m d e e' and n :: nat
    by auto
  ultimately show ?thesis
    by (simp only: lost mis dup missing imp_conjR all_conj_distrib)
qed

text \<open>
  C30. The chaos test passes exactly when the guarantees hold: a report that could read its data
  exits with 0 if and only if no worker crashed on its own, nothing is left in the queue by
  the statistics it got, every job that must fail permanently was dead-lettered and has no
  completed run, every other job was completed or dead-lettered, no job's effect landed more
  than once, and every job that was not dead-lettered has an effect.
\<close>

theorem chaos_verdict_exact:
  assumes "chaos_report unmarshal jobs (Inr ls) parts (Inr kvs) stats crashed = Some (s, code)"
    and "read_parts parts = Some ms"
  defines "eff \<equiv> read_effects kvs (\<lambda>_. 0)"
  shows "code = 0 \<longleftrightarrow> crashed = [] \<and> leftover stats \<le> 0 \<and>
    (\<forall>i. 0 \<le> i \<and> i < jobs \<longrightarrow>
       (if i mod permanentEvery = 0 then dead_in unmarshal ms i \<and> runs_of ls i = 0
        else dead_in unmarshal ms i \<or> 0 < runs_of ls i) \<and>
       eff i \<le> 1 \<and> (eff i = 0 \<longrightarrow> dead_in unmarshal ms i))"
  unfolding eff_def by (rule verdict_iff [OF assms(1,2)])

definition demo_unmarshal :: "string \<Rightarrow> err + payload" where
  "demo_unmarshal raw = Inr \<lparr>pN = (if raw = ''0'' then 0 else 1), pLatencyMs = 10, pPermanent = raw = ''0''\<rparr>"

definition demo_dead :: "string \<Rightarrow> string option" where
  "demo_dead = [''payload'' \<mapsto> ''0'', ''reason'' \<mapsto> ''permanent failure (chaos)'']"

definition demo_stats :: Stats where
  "demo_stats = \<lparr>StreamLength = 0, InFlight = 0, DeadLetterDepth = 1, RetryScheduled = 0\<rparr>"

lemma demo_report:
  "map_option snd (chaos_report demo_unmarshal 2 (Inr [ledger_entry 1 5 9 ''w'']) [Inr [demo_dead]] (Inr [(''1'', ''1'')]) (Inr demo_stats) []) = Some 0"
  by code_simp

theorem chaos_verdict_exact_witness:
  "dead_in demo_unmarshal [demo_dead] 0 \<and> runs_of [ledger_entry 1 5 9 ''w''] 0 = 0 \<and> read_effects [(''1'', ''1'')] (\<lambda>_. 0) 1 \<le> 1"
proof -
  obtain s where r: "chaos_report demo_unmarshal 2 (Inr [ledger_entry 1 5 9 ''w'']) [Inr [demo_dead]] (Inr [(''1'', ''1'')])
      (Inr demo_stats) [] = Some (s, 0)"
    using demo_report by fastforce
  from chaos_verdict_exact [OF r, of "[demo_dead]"]
  have "\<forall>i. 0 \<le> i \<and> i < 2 \<longrightarrow>
       (if i mod permanentEvery = 0 then dead_in demo_unmarshal [demo_dead] i \<and> runs_of [ledger_entry 1 5 9 ''w''] i = 0
        else dead_in demo_unmarshal [demo_dead] i \<or> 0 < runs_of [ledger_entry 1 5 9 ''w''] i) \<and>
       read_effects [(''1'', ''1'')] (\<lambda>_. 0) i \<le> 1"
    by simp
  from spec [OF this, of 0] spec [OF this, of 1] show ?thesis by simp
qed

text \<open>
  The report accounts for every job once: the jobs counted as completed, expected dead, lost or
  misrouted and the other dead-lettered ones without a completed run add up to the number of
  jobs, and the duplicate runs it reports are the ledger's lines beyond the first of each
  completed job.
\<close>

theorem chaos_report_counts:
  assumes "chaos_report unmarshal jobs (Inr ls) parts (Inr kvs) stats crashed = Some (s, code)"
    and "read_parts parts = Some ms" "0 \<le> jobs"
  shows "sCompleted s + sDeadExpected s + int (length (sLost s)) + int (length (sMisrouted s)) +
      int (length (filter (\<lambda>i. i mod permanentEvery \<noteq> 0 \<and> runs_of ls i = 0 \<and> dead_in unmarshal ms i) (job_range jobs))) = jobs \<and>
    sDuplicates s = sum_list (map (\<lambda>i. int (runs_of ls i) - 1) (filter (\<lambda>i. i mod permanentEvery \<noteq> 0 \<and> 0 < runs_of ls i) (job_range jobs)))"
proof -
  obtain ex dr where s: "s = fold (tally ex dr) (job_range jobs) no_summary"
    and ex: "\<And>i. ex i = [] \<longleftrightarrow> runs_of ls i = 0" and len: "\<And>i. length (ex i) = runs_of ls i" and dr: "\<And>i. dr i = None \<longleftrightarrow> \<not> dead_in unmarshal ms i"
  proof (rule report_read [OF assms(1)])
    fix ls' ms' kvs' ex dr
    assume "Inr ls = (Inr ls' :: err + string list)" "read_parts parts = Some ms'"
      "s = fold (tally ex dr) (job_range jobs) no_summary"
      "\<And>i. ex i = [] \<longleftrightarrow> runs_of ls' i = 0" "\<And>i. length (ex i) = runs_of ls' i" "\<And>i. dr i = None \<longleftrightarrow> \<not> dead_in unmarshal ms' i"
    with assms(2) show thesis by (intro that) simp_all
  qed
  have parts_sum: "length (filter (\<lambda>i. P i \<and> A i) xs) + length (filter (\<lambda>i. \<not> P i \<and> B i \<and> \<not> A i) xs) +
      length (filter (\<lambda>i. P i \<and> \<not> A i \<and> \<not> B i) xs) + length (filter (\<lambda>i. \<not> P i \<and> (\<not> B i \<or> A i)) xs) +
      length (filter (\<lambda>i. P i \<and> \<not> A i \<and> B i) xs) = length xs" for P A B and xs :: "int list"
    by (induction xs) auto
  have "length (job_range jobs) = nat jobs" by (simp add: job_range_def)
  with parts_sum [where P = "\<lambda>i. i mod permanentEvery \<noteq> 0" and A = "\<lambda>i. 0 < runs_of ls i" and B = "\<lambda>i. dead_in unmarshal ms i" and xs = "job_range jobs"] assms(3)
  have "sCompleted s + sDeadExpected s + int (length (sLost s)) + int (length (sMisrouted s)) +
      int (length (filter (\<lambda>i. i mod permanentEvery \<noteq> 0 \<and> runs_of ls i = 0 \<and> dead_in unmarshal ms i) (job_range jobs))) = jobs"
    by (simp add: s tally_all no_summary_def ex dr)
  moreover have "sDuplicates s = sum_list (map (\<lambda>i. int (runs_of ls i) - 1) (filter (\<lambda>i. i mod permanentEvery \<noteq> 0 \<and> 0 < runs_of ls i) (job_range jobs)))"
    by (simp add: s tally_all no_summary_def ex len)
  ultimately show ?thesis by blast
qed

theorem chaos_report_counts_witness:
  "length (filter (\<lambda>i. i mod permanentEvery \<noteq> 0 \<and> runs_of [ledger_entry 1 5 9 ''w''] i = 0 \<and> dead_in demo_unmarshal [demo_dead] i) (job_range 2)) \<le> 2"
proof -
  obtain s where r: "chaos_report demo_unmarshal 2 (Inr [ledger_entry 1 5 9 ''w'']) [Inr [demo_dead]] (Inr [(''1'', ''1'')])
      (Inr demo_stats) [] = Some (s, 0)" and n: "sCompleted s = 1" "sDeadExpected s = 1"
  proof -
    have "map_option (\<lambda>(s, c). (sCompleted s, sDeadExpected s, c)) (chaos_report demo_unmarshal 2 (Inr [ledger_entry 1 5 9 ''w''])
        [Inr [demo_dead]] (Inr [(''1'', ''1'')]) (Inr demo_stats) []) = Some (1, 1, 0)"
      by code_simp
    then show thesis using that by fastforce
  qed
  from chaos_report_counts [OF r, of "[demo_dead]"] n show ?thesis by simp
qed

end
