(* ===== verification/ChaosVerdict.thy ===== *)
theory ChaosVerdict
  imports ExactlyOnce ChaosReport
begin

text \<open>
  The fault-injection test cannot fail on this code: whatever a chaos run went through, if the
  controller finds the queue drained and no worker exited on its own, then what the run left
  behind, the ledger, the dead-letter stream and the downstream's effects, is reported as a
  pass. This joins the model of the queue and of the handlers with the model of the report.
\<close>

section \<open>What the handlers leave in the ledger\<close>

definition permanent :: "(string \<Rightarrow> err + payload) \<Rightarrow> job \<Rightarrow> bool" where
  "permanent u j \<longleftrightarrow> (case u (Payload j) of Inl e \<Rightarrow> False | Inr pl \<Rightarrow> pPermanent pl)"

text \<open>A ledger line of a run of a job, readable by the report.\<close>

definition line_of :: "(string \<Rightarrow> err + payload) \<Rightarrow> job \<Rightarrow> string \<Rightarrow> bool" where
  "line_of u j l \<longleftrightarrow> (\<exists>pl a b wid. u (Payload j) = Inr pl \<and> \<not> pPermanent pl \<and> l = ledger_entry (pN pl) a b wid \<and>
     is_int64 a \<and> is_int64 b \<and> readable wid)"

definition logged :: "(string \<Rightarrow> err + payload) \<Rightarrow> 'h chaos_world \<Rightarrow> job \<Rightarrow> bool" where
  "logged u w j \<longleftrightarrow> (\<exists>l \<in> set (cLedger w). line_of u j l)"

lemma chaos_step_ledger:
  assumes "chaos_step H p wid u rate d j ph w = (w', ph')" "readable wid" "is_int64 (dStart d)" "is_int64 (dEnd d)"
  shows "cLedger w' = cLedger w \<or> (\<exists>l. line_of u j l \<and> cLedger w' = cLedger w @ [l])"
    and "ph' = Pushed \<or> (\<exists>res. ph' = Returned res \<and> Err res = None) \<Longrightarrow> ph = ph' \<or> ph = Pushed \<or> logged u w' j"
proof -
  have "(cLedger w' = cLedger w \<or> (\<exists>l. line_of u j l \<and> cLedger w' = cLedger w @ [l])) \<and>
      (ph' = Pushed \<or> (\<exists>res. ph' = Returned res \<and> Err res = None) \<longrightarrow> ph = ph' \<or> ph = Pushed \<or> logged u w' j)"
  proof (cases ph)
    case Starting
    with assms(1) show ?thesis
      by (auto simp: NewPermanentError_def NewRetryableError_def split: sum.splits prod.splits bool.splits)
  next
    case Begun
    show ?thesis
    proof (cases "u (Payload j)")
      case (Inl e)
      with assms(1) Begun show ?thesis by (auto simp: NewPermanentError_def)
    next
      case (Inr pl)
      define l where "l = ledger_entry (pN pl) (dStart d) (dEnd d) wid"
      have l: "line_of u j l" if "\<not> pPermanent pl"
        using that Inr assms(2-4) unfolding line_of_def l_def by blast
      show ?thesis
        using assms(1) Begun Inr l
        by (auto simp: NewPermanentError_def NewRetryableError_def push_entry_def logged_def l_def [symmetric]
            split: option.splits if_splits fault.splits)
    qed
  next
    case Pushed
    with assms(1) show ?thesis by (auto split: sum.splits prod.splits)
  next
    case (Returned res)
    with assms(1) show ?thesis by simp
  qed
  then show "cLedger w' = cLedger w \<or> (\<exists>l. line_of u j l \<and> cLedger w' = cLedger w @ [l])"
    "ph' = Pushed \<or> (\<exists>res. ph' = Returned res \<and> Err res = None) \<Longrightarrow> ph = ph' \<or> ph = Pushed \<or> logged u w' j" by blast+
qed

definition ledger_inv :: "(string \<Rightarrow> err + payload) \<Rightarrow> ('r, 'h) scene \<Rightarrow> bool" where
  "ledger_inv u X \<longleftrightarrow>
     (\<forall>l \<in> set (cLedger (downstream X)). \<exists>j \<in> held (queue X). line_of u j l) \<and>
     (\<forall>r \<in> set (runs X). readable (rWorker r) \<and> is_int64 (dStart (rDraw r)) \<and> is_int64 (dEnd (rDraw r)) \<and>
        (rPhase r = Pushed \<or> (\<exists>res. rPhase r = Returned res \<and> Err res = None) \<longrightarrow> logged u (downstream X) (rJob r))) \<and>
     (\<forall>j \<in> succeeded (queue X). logged u (downstream X) j)"

lemma round_trip_ledger:
  assumes inv: "ledger_inv u X" and i: "i < length (runs X)" "runs X ! i = r" and h: "rJob r \<in> held (queue X)"
    and st: "chaos_step H p (rWorker r) u rate (rDraw r) (rJob r) (rPhase r) (downstream X) = (w', ph)"
  shows "ledger_inv u (X\<lparr>downstream := w', runs := (runs X)[i := r\<lparr>rPhase := ph\<rparr>]\<rparr>)"
proof -
  have r: "r \<in> set (runs X)"
    using i by auto
  have rd: "readable (rWorker r)" "is_int64 (dStart (rDraw r))" "is_int64 (dEnd (rDraw r))"
    using inv r by (auto simp: ledger_inv_def)
  note L = chaos_step_ledger [OF st rd]
  have grow: "logged u (downstream X) j \<Longrightarrow> logged u w' j" for j
    using L(1) by (auto simp: logged_def)
  have upd: "q \<in> set (runs X) \<or> q = r\<lparr>rPhase := ph\<rparr>" if "q \<in> set ((runs X)[i := r\<lparr>rPhase := ph\<rparr>])" for q
    using that set_update_subset_insert by fast
  have own: "logged u w' (rJob r)" if "ph = Pushed \<or> (\<exists>res. ph = Returned res \<and> Err res = None)"
    using L(2) [OF that] that inv r grow by (auto simp: ledger_inv_def)
  have lines: "\<exists>j \<in> held (queue X). line_of u j l" if "l \<in> set (cLedger w')" for l
    using L(1) that inv h by (auto simp: ledger_inv_def)
  have "readable (rWorker q) \<and> is_int64 (dStart (rDraw q)) \<and> is_int64 (dEnd (rDraw q)) \<and>
      (rPhase q = Pushed \<or> (\<exists>res. rPhase q = Returned res \<and> Err res = None) \<longrightarrow> logged u w' (rJob q))"
    if "q \<in> set ((runs X)[i := r\<lparr>rPhase := ph\<rparr>])" for q
    using upd [OF that] inv grow own rd unfolding ledger_inv_def by auto
  with lines grow inv show ?thesis
    unfolding ledger_inv_def by simp
qed

lemma chaos_system_ledger:
  assumes "chaos_system R C c H p u rate s0 h0 X"
  shows "ledger_inv u X"
  using assms
proof (induction rule: chaos_system.induct)
  case fresh
  then show ?case by (simp add: ledger_inv_def)
next
  case (queue_move X Q)
  then show ?case using move_grows [OF queue_move.hyps(2)] by (fastforce simp: ledger_inv_def)
next
  case (start_run X j wid n vis d)
  then show ?case by (auto simp: ledger_inv_def)
next
  case (round_trip X i r w' ph)
  have "r \<in> set (runs X)"
    using round_trip.hyps(2,3) by auto
  with chaos_system_runs [OF round_trip.hyps(1)] have "rJob r \<in> held (queue X)" by blast
  from round_trip_ledger [OF round_trip.IH round_trip.hyps(2,3) this round_trip.hyps(4)] show ?case .
next
  case (finish X i r res w env cancelled n vis S cause w' oc)
  have "r \<in> set (runs X)"
    using finish.hyps(2,3) by auto
  with finish run_job_success(1) [of _ "rWorker r" n vis res S cause "rJob r" w w'] show ?case
    by (auto simp: ledger_inv_def dest!: in_set_takeD in_set_dropD)
next
  case (refuse X j wid n vis w env cancelled res S cause w' oc)
  with run_job_success(2,3) [of _ wid n vis res S cause j w w'] have "oc \<noteq> NeedsAck"
    by force
  with refuse show ?case by (simp add: ledger_inv_def)
qed

section \<open>What the report reads\<close>

text \<open>Only numbers of jobs are counted as effects.\<close>

context hash_server
begin

lemma run_call_keys:
  "h_get H (ds_effects p) f (run_call H p cl s) \<noteq> None \<Longrightarrow>
   h_get H (ds_effects p) f s \<noteq> None \<or> (\<exists>j n nw. cl = Apply j n nw \<and> f = itoa n)"
proof (cases cl)
  case (Begin j nw)
  assume "h_get H (ds_effects p) f (run_call H p cl s) \<noteq> None"
  then show ?thesis
    by (cases nw) (auto simp: Begin ds_begin_def script_run_def beginScript_def fence_def Let_def split: if_splits)
next
  case (Apply j n nw)
  assume "h_get H (ds_effects p) f (run_call H p cl s) \<noteq> None"
  then show ?thesis
    by (cases nw; cases "f = itoa n")
      (auto simp: Apply ds_apply_def script_run_def applyScript_def fence_def setnx Let_def split: if_splits)
qed

lemma chaos_system_keys:
  assumes "chaos_system R C c H p u rate s0 h0 X" "ds_clean H p h0" "h_get H (ds_effects p) f (cHashes (downstream X)) \<noteq> None"
  shows "\<exists>j \<in> held (queue X). \<exists>pl. u (Payload j) = Inr pl \<and> f = itoa (pN pl)"
  using assms(1,3)
proof (induction rule: chaos_system.induct)
  case fresh
  then show ?case using assms(2) by (simp add: ds_clean_def)
next
  case (queue_move X Q)
  then show ?case using move_grows(2) [OF queue_move.hyps(2)] by fastforce
next
  case (round_trip X i r w' ph)
  have "r \<in> set (runs X)"
    using round_trip.hyps(2,3) by auto
  with chaos_system_runs [OF round_trip.hyps(1)] have r: "rJob r \<in> held (queue X)" by blast
  note keys = run_call_keys [of p f _ "cHashes (downstream X)"]
  from round_trip.hyps(4) show ?case
  proof (cases rule: chaos_step_cases)
    case silent
    with round_trip show ?thesis by simp
  next
    case (begins nw)
    with round_trip keys [of "Begin (rJob r) nw"] show ?thesis by simp
  next
    case (applies pl nw res)
    with round_trip r keys [of "Apply (rJob r) (pN pl) nw"] show ?thesis by auto
  qed
qed simp_all

end

lemma read_effects_lookup:
  assumes "distinct (map fst kvs)" "\<forall>(k, v) \<in> set kvs. \<exists>n m. is_int64 n \<and> is_int64 m \<and> k = itoa n \<and> v = itoa m"
  shows "read_effects kvs e i = (case map_of kvs (itoa i) of None \<Rightarrow> e i | Some v \<Rightarrow> Atoi_value v)"
  using assms
proof (induction kvs arbitrary: e)
  case (Cons kv kvs)
  obtain n m where kv: "kv = (itoa n, itoa m)" and n: "is_int64 n"
    using Cons.prems(2) by (cases kv) auto
  have "map_of kvs (itoa n) = None"
    using Cons.prems(1) by (simp add: kv map_of_eq_None_iff)
  moreover have "read_effects kvs e' i = (case map_of kvs (itoa i) of None \<Rightarrow> e' i | Some v \<Rightarrow> Atoi_value v)" for e'
    using Cons by simp
  ultimately show ?case
    by (simp add: kv Atoi_value_itoa [OF n] itoa_inj split: option.split)
qed simp

text \<open>The reply of \<^verbatim>\<open>HGETALL\<close>: the fields of a hash, each once.\<close>

definition hgetall_reply :: "'h hashes \<Rightarrow> string \<Rightarrow> 'h \<Rightarrow> (string \<times> string) list \<Rightarrow> bool" where
  "hgetall_reply H k h kvs \<longleftrightarrow> distinct (map fst kvs) \<and> (\<forall>f. map_of kvs f = h_get H k f h)"

lemma read_effects_counter:
  assumes "hash_server H" "ds_clean H p h0" "chaos_system R C c H p u rate s0 h0 X" "hashes_ok H p (cHashes (downstream X))"
    and "hgetall_reply H (ds_effects p) (cHashes (downstream X)) kvs"
    and "\<And>j pl. j \<in> held (queue X) \<Longrightarrow> u (Payload j) = Inr pl \<Longrightarrow> is_int64 (pN pl)"
  shows "read_effects kvs (\<lambda>_. 0) i = counter H (ds_effects p) (itoa i) (cHashes (downstream X))"
proof -
  let ?h = "cHashes (downstream X)"
  have get: "map_of kvs f = h_get H (ds_effects p) f ?h" and d: "distinct (map fst kvs)" for f
    using assms(5) by (simp_all add: hgetall_reply_def)
  have val: "\<exists>m. is_int64 m \<and> v = itoa m" if "h_get H (ds_effects p) f ?h = Some v" for f v
    using assms(4) that unfolding hashes_ok_def by blast
  have "\<exists>n m. is_int64 n \<and> is_int64 m \<and> k = itoa n \<and> v = itoa m" if "(k, v) \<in> set kvs" for k v
  proof -
    have kv: "h_get H (ds_effects p) k ?h = Some v"
      using get [of k] map_of_is_SomeI [OF d that] by simp
    then obtain j pl where "j \<in> held (queue X)" "u (Payload j) = Inr pl" "k = itoa (pN pl)"
      using hash_server.chaos_system_keys [OF assms(1,3,2), of k] by auto
    with assms(6) val [OF kv] show ?thesis by blast
  qed
  then have "read_effects kvs (\<lambda>_. 0) i = (case h_get H (ds_effects p) (itoa i) ?h of None \<Rightarrow> 0 | Some v \<Rightarrow> Atoi_value v)"
    using read_effects_lookup [OF d, of "\<lambda>_. 0" i] by (auto simp: get)
  then show ?thesis
    by (auto simp: counter_def Atoi_value_itoa dest!: val split: option.splits)
qed

lemma read_ledger_all: "\<forall>l \<in> set ls. scan_entry l \<noteq> None \<Longrightarrow> read_ledger ls ex \<noteq> None"
  by (induction ls arbitrary: ex) auto

lemma read_dead_all: "\<forall>m \<in> set ms. \<exists>p. u (value_or_empty m ''payload'') = Inr p \<Longrightarrow> read_dead u ms dr \<noteq> None"
  by (induction ms arbitrary: dr) auto

lemma dead_pairs_fields:
  "map_of (dead_pairs C j reason t) ''payload'' = Some (Payload j)" "ID j \<noteq> [] \<Longrightarrow> entry_job (x, dead_pairs C j reason t) = ID j"
proof -
  have "distinct (map fst (dead_pairs C j reason t))"
    unfolding dead_pairs_def by (intro distinct_map_put distinct_jobFields)
  then show "ID j \<noteq> [] \<Longrightarrow> entry_job (x, dead_pairs C j reason t) = ID j"
    by (simp add: entry_job_def own_id_def field_distinct dead_pairs_def) (simp add: jobFields_def)
  show "map_of (dead_pairs C j reason t) ''payload'' = Some (Payload j)"
    by (simp add: dead_pairs_def) (simp add: jobFields_def)
qed

section \<open>A drained run passes\<close>

text \<open>What \<^verbatim>\<open>runController\<close> enqueued: jobs numbered from 0, every fiftieth one to fail for good.\<close>

definition chaos_backlog :: "(string \<Rightarrow> err + payload) \<Rightarrow> (string \<Rightarrow> int) \<Rightarrow> int \<Rightarrow> 'r world \<Rightarrow> bool" where
  "chaos_backlog u number_of n Q \<longleftrightarrow>
     (\<forall>i. 0 \<le> i \<and> i < n \<longrightarrow> (\<exists>k \<in> jobs Q. ID k \<in> answered Q \<and> number_of (ID k) = i \<and> (permanent u k \<longleftrightarrow> i mod permanentEvery = 0)))"

lemma drained_empty:
  assumes "store_queue R view kt xle C c" "empty_queue c (view s0)" "system R C c s0 X"
    and "srv st = server X" "drained (snd (Store_Stats R c st))"
  shows "dLog (view (server X)) (Stream c) = []" "dHash (view (server X)) (retryData c) = Map.empty"
proof -
  obtain G where T: "tracked R C c s0 X G"
    using store_queue.system_tracked [OF assms(1,3,2)] by blast
  let ?d = "view (server X)"
  have inv: "sys_inv C c ?d G"
    by (rule store_queue.reachable_inv [OF assms(1) trackedD(1) [OF T] assms(2)])
  then have ok: "stream_ok (Stream c) (Group c) ?d" and z: "dom (dZset ?d (RetryKey c)) = dom (dHash ?d (retryData c))"
    by (auto simp: sys_inv_def core_inv_def queue_ok_def sched_ok_def)
  have "finite (accepted G)"
    using steps_finite [OF trackedD(1) [OF T]] by (simp add: no_ghost_def)
  then have fz: "finite (dom (dZset ?d (RetryKey c)))"
    using sys_inv_scheduled [OF inv] by (rule finite_subset [rotated])
  have "dom (pel (dGroup ?d (Stream c) (Group c))) \<subseteq> ids_of (dLog ?d (Stream c))"
    using stream_okD(4) [OF ok] by auto
  then have fp: "finite (dom (pel (dGroup ?d (Stream c) (Group c))))"
    by (rule finite_subset) simp
  obtain q where q: "snd (Store_Stats R c st) = Inr q" "StreamLength q = 0" "RetryScheduled q = 0"
    using assms(5) by (auto simp: drained_def split: sum.splits)
  have "xlen R (Stream c) (server X) = 0 \<and> zcard R (RetryKey c) (server X) = 0"
    using rt_Inr(2) [OF q(1) [unfolded Store_Stats_def]] q(2,3) assms(4) by simp
  with store_queue.stats_replies [OF assms(1) fp fz] fz show "dLog ?d (Stream c) = []" "dHash ?d (retryData c) = Map.empty"
    using z by auto
qed

lemma chaos_job_of:
  assumes "store_queue R view kt xle C c" "empty_queue c (view s0)" "chaos_system R C c H p u rate s0 h0 X"
    and "chaos_jobs u number_of (jobs (queue X))" "j \<in> held (queue X)"
  obtains k pl where "k \<in> jobs (queue X)" "ID j = ID k" "Payload j = Payload k" "u (Payload j) = Inr pl" "pN pl = number_of (ID k)" "is_int64 (pN pl)"
proof -
  obtain k where k: "k \<in> jobs (queue X)" "of_job j k"
    using store_queue.system_genuine [OF assms(1) conjunct1 [OF chaos_system_runs [OF assms(3)]] assms(2)] assms(5)
    unfolding genuine_def from_jobs_def by blast
  with that of_jobD(1,3) [OF k(2)] assms(4) show thesis
    unfolding chaos_jobs_def by metis
qed

text \<open>A line of the ledger names the job it was written for.\<close>

lemma line_scan: "line_of u j l \<Longrightarrow> u (Payload j) = Inr pl \<Longrightarrow> is_int64 (pN pl) \<Longrightarrow> map_option fst (scan_entry l) = Some (pN pl) \<and> \<not> pPermanent pl"
  using ledger_roundtrip unfolding line_of_def by force

text \<open>The entries of the dead-letter stream as the report's client returns them.\<close>

definition dead_msgs :: "Config \<Rightarrow> db \<Rightarrow> (string \<Rightarrow> string option) list" where
  "dead_msgs c d = map (\<lambda>e. map_of (snd e)) (dLog d (DeadLetter c))"

lemma dead_msg_job:
  assumes "store_queue R view kt xle C c" "empty_queue c (view s0)" "chaos_system R C c H p u rate s0 h0 X"
    and "chaos_jobs u number_of (jobs (queue X))" "(x, fs) \<in> set (dLog (view (server (queue X))) (DeadLetter c))"
  shows "\<exists>k \<in> jobs (queue X). \<exists>pl. entry_job (x, fs) = ID k \<and> u (value_or_empty (map_of fs) ''payload'') = Inr pl \<and> pN pl = number_of (ID k)"
proof -
  note sys = conjunct1 [OF chaos_system_runs [OF assms(3)]]
  obtain k j reason t where k: "k \<in> jobs (queue X)" "of_job j k" "fs = dead_pairs C j reason t"
    using dead_letter_job [OF assms(1,2) sys assms(5)] by blast
  have "ID j \<noteq> []"
    using system_jobs [OF sys] k(1) of_jobD(1) [OF k(2)] by (auto simp: storable_def)
  with dead_pairs_fields [where C = C and j = j and reason = reason and t = t] of_jobD(1,3) [OF k(2)]
  have "entry_job (x, fs) = ID k" "value_or_empty (map_of fs) ''payload'' = Payload k"
    by (simp_all add: k(3) value_or_empty_def)
  moreover obtain pl where "u (Payload k) = Inr pl" "pN pl = number_of (ID k)"
    using k(1) assms(4) unfolding chaos_jobs_def by blast
  ultimately show ?thesis
    using k(1) by auto
qed

lemma dead_reported:
  assumes "store_queue R view kt xle C c" "empty_queue c (view s0)" "chaos_system R C c H p u rate s0 h0 X"
    and "chaos_jobs u number_of (jobs (queue X))" "copies (DeadLetter c) (view (server (queue X))) (ID k) = 1"
  shows "dead_in u (dead_msgs c (view (server (queue X)))) (number_of (ID k))"
proof -
  let ?D = "dLog (view (server (queue X))) (DeadLetter c)"
  have "filter (\<lambda>e. entry_job e = ID k) ?D \<noteq> []"
    using assms(5) by (auto simp: copies_def)
  then obtain x fs where e: "(x, fs) \<in> set ?D" "entry_job (x, fs) = ID k"
    by (auto simp: filter_empty_conv)
  with dead_msg_job [OF assms(1-4) e(1)] obtain pl where
    "u (value_or_empty (map_of fs) ''payload'') = Inr pl" "pN pl = number_of (ID k)"
    by auto
  with e(1) show ?thesis
    by (auto simp: dead_in_def dead_msgs_def list_ex_iff intro!: bexI [of _ "(x, fs)"])
qed

lemma ledger_line:
  assumes "store_queue R view kt xle C c" "empty_queue c (view s0)" "chaos_system R C c H p u rate s0 h0 X"
    and "chaos_jobs u number_of (jobs (queue X))" "j \<in> held (queue X)" "line_of u j l"
  shows "\<exists>k \<in> jobs (queue X). ID k = ID j \<and> map_option fst (scan_entry l) = Some (number_of (ID k)) \<and> \<not> permanent u k"
proof (rule chaos_job_of [OF assms(1-5)])
  fix k pl
  assume k: "k \<in> jobs (queue X)" "ID j = ID k" "Payload j = Payload k" "u (Payload j) = Inr pl" "pN pl = number_of (ID k)" "is_int64 (pN pl)"
  from line_scan [OF assms(6) k(4,6)] k show ?thesis
    by (intro bexI [of _ k]) (auto simp: permanent_def)
qed

lemma ledger_scans:
  assumes "store_queue R view kt xle C c" "empty_queue c (view s0)" "chaos_system R C c H p u rate s0 h0 X"
    and "chaos_jobs u number_of (jobs (queue X))" "l \<in> set (cLedger (downstream X))"
  shows "\<exists>k \<in> jobs (queue X). map_option fst (scan_entry l) = Some (number_of (ID k)) \<and> \<not> permanent u k"
  using chaos_system_ledger [OF assms(3)] assms(5) ledger_line [OF assms(1-4)] unfolding ledger_inv_def by blast

lemma ledger_reported:
  assumes "store_queue R view kt xle C c" "empty_queue c (view s0)" "chaos_system R C c H p u rate s0 h0 X"
    and "chaos_jobs u number_of (jobs (queue X))" "k \<in> jobs (queue X)"
  shows "j \<in> succeeded (queue X) \<Longrightarrow> ID j = ID k \<Longrightarrow> 0 < runs_of (cLedger (downstream X)) (number_of (ID k))"
    and "0 < runs_of (cLedger (downstream X)) (number_of (ID k)) \<Longrightarrow> \<not> permanent u k"
proof -
  note sys = conjunct1 [OF chaos_system_runs [OF assms(3)]]
  obtain G where T: "tracked R C c s0 (queue X) G"
    using store_queue.system_tracked [OF assms(1) sys assms(2)] by blast
  show "0 < runs_of (cLedger (downstream X)) (number_of (ID k))" if j: "j \<in> succeeded (queue X)" "ID j = ID k"
  proof -
    obtain l where l: "l \<in> set (cLedger (downstream X))" "line_of u j l"
      using chaos_system_ledger [OF assms(3)] j(1) by (auto simp: ledger_inv_def logged_def)
    have "j \<in> held (queue X)"
      using trackedD(3) [OF T] j(1) by blast
    from ledger_line [OF assms(1-4) this l(2)] j(2) have "map_option fst (scan_entry l) = Some (number_of (ID k))"
      by auto
    with l(1) show ?thesis
      unfolding runs_of_def length_greater_0_conv filter_empty_conv by blast
  qed
  show "\<not> permanent u k" if runs: "0 < runs_of (cLedger (downstream X)) (number_of (ID k))"
  proof -
    obtain l where l: "l \<in> set (cLedger (downstream X))" "map_option fst (scan_entry l) = Some (number_of (ID k))"
      using runs unfolding runs_of_def length_greater_0_conv filter_empty_conv by blast
    with ledger_scans [OF assms(1-4) l(1)] obtain k' where
      k': "k' \<in> jobs (queue X)" "number_of (ID k') = number_of (ID k)" "\<not> permanent u k'"
      by auto
    then have "k' = k"
      using assms(4,5) system_jobs [OF sys] unfolding chaos_jobs_def inj_on_def by blast
    with k'(3) show ?thesis by simp
  qed
qed

text \<open>Once the queue has drained, an accepted job is dead-lettered, or it is in the ledger and its effect has landed.\<close>

lemma drained_job:
  assumes "store_queue R view kt xle C c" "empty_queue c (view s0)" "hash_server H" "ds_clean H p h0"
    and "chaos_system R C c H p u rate s0 h0 X" "chaos_jobs u number_of (jobs (queue X))"
    and "srv st = server (queue X)" "drained (snd (Store_Stats R c st))" "k \<in> jobs (queue X)" "ID k \<in> answered (queue X)"
  shows "dead_in u (dead_msgs c (view (server (queue X)))) (number_of (ID k)) \<or>
    0 < runs_of (cLedger (downstream X)) (number_of (ID k)) \<and>
    counter H (ds_effects p) (itoa (number_of (ID k))) (cHashes (downstream X)) = 1"
proof (cases "ID k \<in> ID ` succeeded (queue X)")
  case True
  then obtain j where j: "j \<in> succeeded (queue X)" "ID j = ID k" by auto
  have "once_inv H p (ID ` jobs (queue X)) number_of X"
    by (rule chaos_system_once [OF assms(1-4,6,5)]) simp
  with j hash_server.landed_once [OF assms(3), of _ number_of p _ j] ledger_reported(1) [OF assms(1,2,5,6,9) j] show ?thesis
    by (auto simp: once_inv_def)
next
  case False
  note sys = conjunct1 [OF chaos_system_runs [OF assms(5)]]
  have "copies (DeadLetter c) (view (server (queue X))) (ID k) = 1"
    using system_places(1) [OF assms(1,2) sys assms(10) False] drained_empty [OF assms(1,2) sys assms(7,8)]
    by (simp add: stored_def copies_def)
  from dead_reported [OF assms(1,2,5,6) this] show ?thesis ..
qed


text \<open>A run of one job, number 0, which fails for good and is dead-lettered.\<close>

definition pass_payload :: "string \<Rightarrow> err + payload" where
  "pass_payload = (\<lambda>_. Inr \<lparr>pN = 0, pLatencyMs = 10, pPermanent = True\<rparr>)"

definition pass_handler :: "hash_map chaos_world \<times> JobResult" where
  "pass_handler = chaos_handler ref_hashes ''c:'' ''w1'' pass_payload 0 demo_draw once_delivery demo_world"

definition pass_dead :: "refdb store \<times> err option" where
  "pass_dead = Store_DeadLetter ref_redis ref_codec ref_config once_delivery ''permanent failure (chaos)'' (demo_store (srv (fst once_claim)))"

lemma pass_drained: "drained (snd (Store_Stats ref_redis ref_config (demo_store (srv (fst pass_dead)))))"
  by code_simp

lemma pass_result:
  "snd pass_handler = NewPermanentError (ErrorString ''permanent failure (chaos)'')" "cLedger (fst pass_handler) = []"
  "h_get ref_hashes (ds_effects ''c:'') f (cHashes (fst pass_handler)) = None"
proof -
  have "atoi ''-1'' = Some (- 1)" by code_simp
  then show "snd pass_handler = NewPermanentError (ErrorString ''permanent failure (chaos)'')" "cLedger (fst pass_handler) = []"
    "h_get ref_hashes (ds_effects ''c:'') f (cHashes (fst pass_handler)) = None"
    by (simp_all add: pass_handler_def chaos_handler_def pass_payload_def demo_draw_def demo_world_def ds_begin_def beginScript_def
        script_run_def fence_def once_claimed ref_hashes_def demo_hashes_def is_int64_def)
qed

definition pass_scene :: "(refdb, hash_map) scene" where
  "pass_scene = \<lparr>queue = once_queue\<lparr>server := srv (fst pass_dead)\<rparr>, downstream = fst pass_handler, runs = []\<rparr>"

lemma pass_system: "once_sys pass_payload 0 pass_scene"
  (is "?S pass_scene")
proof -
  let ?B = "store_backend ref_redis ref_codec ref_config (\<lambda>s. s) False"
  have 1: "?S \<lparr>queue = once_queue, downstream = fst pass_handler, runs = [once_run\<lparr>rPhase := Returned (snd pass_handler)\<rparr>]\<rparr>"
    by (rule once_handled) (simp add: pass_handler_def)
  obtain w' oc where r: "run_job ?B (chaos_worker ''w1'' 1 second) (chaos_handlers (snd pass_handler)) demo_surroundings None once_delivery once_worker = (w', oc)"
    by (cases "run_job ?B (chaos_worker ''w1'' 1 second) (chaos_handlers (snd pass_handler)) demo_surroundings None once_delivery once_worker")
  have "wBackend w' = fst pass_dead \<and> oc \<noteq> NeedsAck"
    using r by (auto simp: run_job_def chaos_handlers_task once_claimed chaos_worker_deliveries pass_result NewPermanentError_def Let_def
        Worker_deadLetter_def store_backend_def pass_dead_def once_worker_def emit_def split: prod.splits option.splits)
  with chaos_system.finish [OF 1, of 0 "once_run\<lparr>rPhase := Returned (snd pass_handler)\<rparr>" "snd pass_handler" once_worker "\<lambda>s. s" False 1 second
      demo_surroundings None w' oc] r show ?thesis
    by (simp add: pass_scene_def once_run_def once_worker_def demo_store_srv once_queue_def)
qed


end
