(* ===== verification/GoTime.thy ===== *)
theory GoTime
  imports Codec
begin

text \<open>
  The part of Go's \<^verbatim>\<open>time\<close> package the store relies on: \<^verbatim>\<open>Format\<close> and
  \<^verbatim>\<open>Parse\<close> with the layout \<^verbatim>\<open>RFC3339Nano\<close>, which \<^verbatim>\<open>jobFields\<close> and \<^verbatim>\<open>parseJob\<close>
  of \<^verbatim>\<open>redisstream/store.go\<close> use for the two times of a job. A time is its number of
  nanoseconds since 1970 in UTC. \<^verbatim>\<open>Parse\<close> first tries a parser written for this layout
  and falls back to the general layout-driven one, which is a parameter here: nothing
  \<^verbatim>\<open>Format\<close> writes reaches it. The theorem is that the two functions are inverse for
  every time whose year has four digits.
\<close>

section \<open>The calendar\<close>

definition leap :: "int \<Rightarrow> bool" where
  "leap y \<longleftrightarrow> y mod 4 = 0 \<and> (y mod 100 \<noteq> 0 \<or> y mod 400 = 0)"

text \<open>Days from the first day of the year 1 to the first day of a year.\<close>

definition year_start :: "int \<Rightarrow> int" where
  "year_start y =
     (let z = y - 1
      in 146097 * (z div 400) + 36524 * (z mod 400 div 100) + 1461 * (z mod 100 div 4) + 365 * (z mod 4))"

text \<open>The year of a day, and the day's number in it: cycles of 400, 100, 4 years and of one.\<close>

definition year_of :: "int \<Rightarrow> int \<times> nat" where
  "year_of d =
     (let a = d div 146097; d1 = d mod 146097;
          b = min 3 (d1 div 36524); d2 = d1 - 36524 * b;
          c = d2 div 1461; d3 = d2 mod 1461;
          e = min 3 (d3 div 365)
      in (1 + 400 * a + 100 * b + 4 * c + e, nat (d3 - 365 * e)))"

definition days_before :: "nat list" where
  "days_before = [0, 31, 59, 90, 120, 151, 181, 212, 243, 273, 304, 334, 365]"

definition month_start :: "bool \<Rightarrow> nat \<Rightarrow> nat" where
  "month_start lp m = days_before ! (m - 1) + of_bool (lp \<and> 3 \<le> m)"

definition days_in :: "bool \<Rightarrow> nat \<Rightarrow> nat" where
  "days_in lp m = days_before ! m - days_before ! (m - 1) + of_bool (lp \<and> m = 2)"

definition month_of :: "bool \<Rightarrow> nat \<Rightarrow> nat \<times> nat" where
  "month_of lp n =
     (if lp \<and> n = 59 then (2, 29)
      else let day = (if lp \<and> n > 59 then n - 1 else n); m = day div 31
           in if day \<ge> days_before ! (m + 1) then (m + 2, day - days_before ! (m + 1) + 1)
              else (m + 1, day - days_before ! m + 1))"

text \<open>Three cycles and a rest, or a fourth cycle that is the rest.\<close>

lemma capped_cycle:
  fixes m :: int
  assumes "0 < m" "0 \<le> x" "x \<le> 4 * m" "b = min 3 (x div m)"
  shows "0 \<le> b" "b \<le> 3" "0 \<le> x - m * b" "b < 3 \<longrightarrow> x - m * b < m" "x - m * b \<le> m"
proof -
  define q where "q = x div m"
  have x: "m * q + x mod m = x"
    unfolding q_def by (rule mult_div_mod_eq)
  have "0 \<le> q"
    using assms(1,2) by (simp add: q_def pos_imp_zdiv_nonneg_iff)
  moreover have "m * q \<le> x" "x < m * q + m"
    using x pos_mod_bound [OF assms(1), of x] pos_mod_sign [OF assms(1), of x] by linarith+
  ultimately have q: "0 \<le> q" "m * q \<le> x" "x < m * q + m"
    by blast+
  have b: "b = min 3 q"
    by (simp add: assms(4) q_def)
  then show "0 \<le> b" "b \<le> 3"
    using q(1) by simp_all
  have big: "m * 3 \<le> x" if "3 \<le> q"
    using mult_left_mono [OF that, of m] assms(1) q(2) by linarith
  show "0 \<le> x - m * b" "b < 3 \<longrightarrow> x - m * b < m" "x - m * b \<le> m"
    using big q(2,3) assms(3) by (auto simp: b min_def)
qed

lemma year_cycles:
  assumes "year_of d = (y, n)"
  obtains a b c e d1 d2 d3 where "y = 1 + 400 * a + 100 * b + 4 * c + e" "int n = d3 - 365 * e"
    "d = 146097 * a + d1" "0 \<le> d1" "d1 < 146097"
    "d1 = 36524 * b + d2" "0 \<le> b" "b \<le> 3" "0 \<le> d2" "b < 3 \<longrightarrow> d2 < 36524" "d2 \<le> 36524"
    "d2 = 1461 * c + d3" "0 \<le> c" "c \<le> 24" "0 \<le> d3" "d3 < 1461"
    "0 \<le> e" "e \<le> 3" "e < 3 \<longrightarrow> int n < 365" "int n \<le> 365"
proof -
  define a where "a = d div 146097"
  define d1 where "d1 = d mod 146097"
  define b where "b = min 3 (d1 div 36524)"
  define d2 where "d2 = d1 - 36524 * b"
  define c where "c = d2 div 1461"
  define d3 where "d3 = d2 mod 1461"
  define e where "e = min 3 (d3 div 365)"
  have "(y, n) = (1 + 400 * a + 100 * b + 4 * c + e, nat (d3 - 365 * e))"
    unfolding assms [symmetric] year_of_def Let_def a_def d1_def b_def d2_def c_def d3_def e_def by (rule refl)
  then have y: "y = 1 + 400 * a + 100 * b + 4 * c + e" and n: "n = nat (d3 - 365 * e)"
    by blast+
  have d: "d = 146097 * a + d1" and d1: "0 \<le> d1" "d1 < 146097"
    by (simp_all add: a_def d1_def)
  have b: "0 \<le> b" "b \<le> 3" "0 \<le> d2" "b < 3 \<longrightarrow> d2 < 36524" "d2 \<le> 36524"
    using capped_cycle [OF _ _ _ b_def] d1 unfolding d2_def by simp_all
  have d2: "d2 = 1461 * c + d3" and d3: "0 \<le> d3" "d3 < 1461"
    by (simp_all add: c_def d3_def)
  have c: "0 \<le> c" "c \<le> 24"
    using b d2 d3 by simp_all
  have e: "0 \<le> e" "e \<le> 3" "0 \<le> d3 - 365 * e" "e < 3 \<longrightarrow> d3 - 365 * e < 365" "d3 - 365 * e \<le> 365"
    using capped_cycle [OF _ _ _ e_def] d3 by simp_all
  have "int n = d3 - 365 * e"
    using e(3) by (simp only: n nat_0_le)
  moreover have "d1 = 36524 * b + d2"
    by (simp add: d2_def)
  ultimately show thesis
    using that [of a b c e d3 d1 d2] y d d1 b d2 d3 c e by linarith
qed

lemma year_of_start:
  assumes "year_of d = (y, n)"
  shows "year_start y + int n = d" "n < 365 + of_bool (leap y)"
proof -
  from assms obtain a b c e d1 d2 d3 where y: "y = 1 + 400 * a + 100 * b + 4 * c + e" and n: "int n = d3 - 365 * e"
    and d: "d = 146097 * a + d1" "d1 = 36524 * b + d2" "d2 = 1461 * c + d3" "d3 < 1461"
    and b: "0 \<le> b" "b \<le> 3" "b < 3 \<longrightarrow> d2 < 36524" and c: "0 \<le> c" "c \<le> 24"
    and e: "0 \<le> e" "e \<le> 3" "e < 3 \<longrightarrow> int n < 365" "int n \<le> 365"
    by (rule year_cycles)
  have bounds: "0 \<le> 100 * b + 4 * c + e" "100 * b + 4 * c + e < 400" "0 \<le> 4 * c + e" "4 * c + e < 100" "e < 4"
    using b(1,2) c e(1,2) by simp_all
  have y1: "y - 1 = 400 * a + (100 * b + 4 * c + e)" "y - 1 = 100 * (4 * a + b) + (4 * c + e)"
    "y - 1 = 4 * (100 * a + 25 * b + c) + e"
    by (simp_all add: y)
  note z = int_div_pos_eq [OF y1(1) bounds(1,2)] int_mod_pos_eq [OF y1(1) bounds(1,2)] int_mod_pos_eq [OF y1(2) bounds(3,4)]
    int_mod_pos_eq [OF y1(3) e(1) bounds(5)]
  have z': "(100 * b + 4 * c + e) div 100 = b" "(4 * c + e) div 4 = c"
    by (rule int_div_pos_eq [OF _ bounds(3,4)] int_div_pos_eq [OF _ e(1) bounds(5)], simp)+
  have "year_start y = 146097 * a + 36524 * b + 1461 * c + 365 * e"
    by (simp only: year_start_def Let_def z z')
  with n d show "year_start y + int n = d"
    by linarith
  show "n < 365 + of_bool (leap y)"
  proof (cases "e = 3 \<and> d3 = 1460")
    case True
    then have m4: "y mod 4 = 0"
      by (simp add: y)
    have "y mod 400 = 0" if "y mod 100 = 0"
    proof -
      have "y = 100 * (4 * a + b) + 4 * (c + 1)"
        using True by (simp add: y)
      moreover obtain q where "y = 100 * q"
        using \<open>y mod 100 = 0\<close> by (metis mult_div_mod_eq add.right_neutral)
      ultimately have "25 * (q - 4 * a - b) = c + 1"
        by simp
      then obtain k where "25 * k = c + 1" by blast
      with c have "c = 24" by presburger
      with True d b have "b = 3" by auto
      with \<open>c = 24\<close> True show ?thesis by (simp add: y)
    qed
    with m4 have "leap y" by (auto simp: leap_def)
    with e show ?thesis by simp
  next
    case False
    have "int n < 365"
      using False n d(4) e by (cases "e = 3") auto
    then show ?thesis by simp
  qed
qed

text \<open>The days whose year has four digits.\<close>

lemma year_of_range:
  assumes "year_of d = (y, n)" "- 366 \<le> d" "d < 3652059"
  shows "0 \<le> y" "y \<le> 9999"
proof -
  from assms(1) obtain a b c e d1 d2 d3 where y: "y = 1 + 400 * a + 100 * b + 4 * c + e" and n: "int n = d3 - 365 * e"
    and d: "d = 146097 * a + d1" "0 \<le> d1" "d1 < 146097" "d1 = 36524 * b + d2" "0 \<le> d2" "d2 = 1461 * c + d3" "0 \<le> d3" "d3 < 1461"
    and b: "0 \<le> b" "b \<le> 3" "b < 3 \<longrightarrow> d2 < 36524" and c: "0 \<le> c" "c \<le> 24"
    and e: "0 \<le> e" "e \<le> 3" "e < 3 \<longrightarrow> int n < 365"
    by (rule year_cycles)
  show "0 \<le> y"
  proof (cases "0 \<le> a")
    case True
    with y b c e show ?thesis by linarith
  next
    case False
    have "a = - 1" using False d(1,3) assms(2) by linarith
    moreover from this have "b = 3" using d(1,4) b assms(2) by (cases "b = 3") linarith+
    moreover from calculation have "c = 24" using d c assms(2) by linarith
    moreover from calculation have "e = 3" using d n e assms(2) by (cases "e = 3") linarith+
    ultimately show ?thesis by (simp add: y)
  qed
  have "0 \<le> int n" by simp
  show "y \<le> 9999"
  proof (cases "a \<le> 23")
    case True
    with y b c e show ?thesis by linarith
  next
    case False
    with d(1,2) assms(3) have "a = 24" by linarith
    moreover from this have "b \<noteq> 3 \<or> c \<noteq> 24 \<or> e \<noteq> 3"
      using d n \<open>0 \<le> int n\<close> assms(3) by auto
    ultimately show ?thesis
      using y b(1,2) c e(1,2) by auto
  qed
qed

text \<open>The twelve months, one by one.\<close>

definition month_fits :: "bool \<Rightarrow> nat \<Rightarrow> nat \<times> nat \<Rightarrow> bool" where
  "month_fits lp n = (\<lambda>(m, d). 1 \<le> m \<and> m \<le> 12 \<and> 1 \<le> d \<and> d \<le> days_in lp m \<and> d \<le> 31 \<and> month_start lp m + d = n + 1)"

lemma month_of_fits:
  assumes "n < 365 + of_bool lp"
  shows "month_fits lp n (month_of lp n)"
proof (cases "lp \<and> n = 59")
  case True
  then show ?thesis
    by (simp add: month_of_def month_fits_def days_in_def month_start_def days_before_def)
next
  case False
  define day where "day = (if lp \<and> n > 59 then n - 1 else n)"
  define m where "m = day div 31"
  have n: "n = day + of_bool (lp \<and> 59 \<le> day)" and "day < 365"
    using False assms by (auto simp: day_def)
  have r: "31 * m \<le> day" "day < 31 * m + 31"
    by (simp_all add: m_def)
  have E: "month_of lp n = (if day \<ge> days_before ! (m + 1) then (m + 2, day - days_before ! (m + 1) + 1)
      else (m + 1, day - days_before ! m + 1))"
    by (simp only: month_of_def Let_def False if_False flip: day_def m_def)
  have "m = 0 \<or> m = 1 \<or> m = 2 \<or> m = 3 \<or> m = 4 \<or> m = 5 \<or> m = 6 \<or> m = 7 \<or> m = 8 \<or> m = 9 \<or> m = 10 \<or> m = 11"
    using r \<open>day < 365\<close> by presburger
  then show ?thesis
    unfolding E using r \<open>day < 365\<close>
    by (elim disjE; simp add: month_fits_def days_in_def month_start_def days_before_def n; linarith?)
qed

lemma month_of_start:
  assumes "month_of lp n = (m, d)" "n < 365 + of_bool lp"
  shows "1 \<le> m" "m \<le> 12" "1 \<le> d" "d \<le> days_in lp m" "d \<le> 31" "month_start lp m + d = n + 1"
  using month_of_fits [OF assms(2)] by (simp_all add: month_fits_def assms(1))

section \<open>Format\<close>

text \<open>A number in at least \<open>w\<close> digits, padded with zeros.\<close>

definition pad :: "nat \<Rightarrow> nat \<Rightarrow> string" where
  "pad w n = replicate (w - length (nat_digits n)) CHR ''0'' @ nat_digits n"

definition fmt_year :: "int \<Rightarrow> string" where
  "fmt_year y = (if y < 0 then CHR ''-'' # pad 4 (nat (- y)) else pad 4 (nat y))"

text \<open>The fraction of a second, without trailing zeros, and nothing if it is zero.\<close>

definition fmt_nanos :: "nat \<Rightarrow> string" where
  "fmt_nanos ns =
     (if ns = 0 then [] else CHR ''.'' # rev (dropWhile (\<lambda>c. c = CHR ''0'') (rev (pad 9 ns))))"

definition rfc3339_nano :: "int \<Rightarrow> string" where
  "rfc3339_nano t =
     (let secs = t div 1000000000; ns = nat (t mod 1000000000);
          sod = nat (secs mod 86400)
      in case year_of (secs div 86400 + 719162) of (y, n) \<Rightarrow>
         case month_of (leap y) n of (m, d) \<Rightarrow>
           fmt_year y @ ''-'' @ pad 2 m @ ''-'' @ pad 2 d @ ''T'' @
           pad 2 (sod div 3600) @ '':'' @ pad 2 (sod div 60 mod 60) @ '':'' @ pad 2 (sod mod 60) @
           fmt_nanos ns @ ''Z'')"

section \<open>Parse\<close>

definition parse_uint :: "nat \<Rightarrow> nat \<Rightarrow> string \<Rightarrow> nat option" where
  "parse_uint lo hi s =
     (case scan_digits 0 s of None \<Rightarrow> None | Some x \<Rightarrow> if x < lo \<or> hi < x then None else Some x)"

text \<open>Nine digits of the fraction count, missing ones are zeros.\<close>

definition parse_nanos :: "string \<Rightarrow> nat" where
  "parse_nanos ds = (case scan_digits 0 (take 9 ds) of None \<Rightarrow> 0 | Some x \<Rightarrow> x * 10 ^ (9 - length (take 9 ds)))"

definition split_nanos :: "string \<Rightarrow> nat \<times> string" where
  "split_nanos s =
     (case s of
        c # d # r \<Rightarrow>
          if c = CHR ''.'' \<and> is_digit d then (parse_nanos (takeWhile is_digit (d # r)), dropWhile is_digit (d # r))
          else (0, s)
      | _ \<Rightarrow> (0, s))"

text \<open>The offset of the zone, in seconds.\<close>

definition parse_zone :: "string \<Rightarrow> int option" where
  "parse_zone s =
     (if s = ''Z'' then Some 0
      else if length s \<noteq> 6 then None
      else case (parse_uint 0 23 (take 2 (drop 1 s)), parse_uint 0 59 (take 2 (drop 4 s))) of
             (Some hr, Some mm) \<Rightarrow>
               if (s ! 0 = CHR ''-'' \<or> s ! 0 = CHR ''+'') \<and> s ! 3 = CHR '':'' then
                 Some ((if s ! 0 = CHR ''-'' then - 1 else 1) * int ((hr * 60 + mm) * 60))
               else None
           | _ \<Rightarrow> None)"

definition Date :: "int \<Rightarrow> nat \<Rightarrow> nat \<Rightarrow> nat \<Rightarrow> nat \<Rightarrow> nat \<Rightarrow> nat \<Rightarrow> int" where
  "Date y m d hour mins sec ns =
     ((year_start y + int (month_start (leap y) m) + int d - 1 - 719162) * 86400 + int (hour * 3600 + mins * 60 + sec)) *
       1000000000 + int ns"

definition parseRFC3339 :: "string \<Rightarrow> int option" where
  "parseRFC3339 s =
     (if length s < 19 then None
      else case parse_uint 0 9999 (take 4 s) of None \<Rightarrow> None | Some year \<Rightarrow>
           case parse_uint 1 12 (take 2 (drop 5 s)) of None \<Rightarrow> None | Some month \<Rightarrow>
           case parse_uint 1 (days_in (leap (int year)) month) (take 2 (drop 8 s)) of None \<Rightarrow> None | Some day \<Rightarrow>
           case parse_uint 0 23 (take 2 (drop 11 s)) of None \<Rightarrow> None | Some hour \<Rightarrow>
           case parse_uint 0 59 (take 2 (drop 14 s)) of None \<Rightarrow> None | Some mins \<Rightarrow>
           case parse_uint 0 59 (take 2 (drop 17 s)) of None \<Rightarrow> None | Some sec \<Rightarrow>
           if \<not> (s ! 4 = CHR ''-'' \<and> s ! 7 = CHR ''-'' \<and> s ! 10 = CHR ''T'' \<and> s ! 13 = CHR '':'' \<and> s ! 16 = CHR '':'') then None
           else case split_nanos (drop 19 s) of (ns, r) \<Rightarrow>
             (case parse_zone r of None \<Rightarrow> None
              | Some off \<Rightarrow> Some (Date (int year) month day hour mins sec ns - off * 1000000000)))"

definition go_parse_time :: "(string \<Rightarrow> int option) \<Rightarrow> string \<Rightarrow> int option" where
  "go_parse_time general s = (case parseRFC3339 s of Some t \<Rightarrow> Some t | None \<Rightarrow> general s)"

section \<open>Format and Parse are inverse\<close>

lemma length_nat_digits: "n < 10 ^ w \<Longrightarrow> 0 < w \<Longrightarrow> length (nat_digits n) \<le> w"
proof (induction w arbitrary: n)
  case (Suc w)
  show ?case
  proof (cases "n < 10")
    case True
    then show ?thesis by (simp add: nat_digits.simps [of n])
  next
    case False
    with Suc.prems have "n div 10 < 10 ^ w" "0 < w"
      by (auto simp: less_mult_imp_div_less mult.commute) (cases w; simp)
    with Suc.IH [of "n div 10"] False show ?thesis by (simp add: nat_digits.simps [of n])
  qed
qed simp

lemma scan_zeros: "scan_digits 0 (replicate k CHR ''0'' @ s) = scan_digits 0 s"
  by (induction k) (simp_all add: is_digit_def digit_val_def)

lemma pad_digits: "c \<in> set (pad w n) \<Longrightarrow> is_digit c"
  using nat_digits_all_digits by (auto simp: pad_def is_digit_def)

lemma scan_pad [simp]: "scan_digits 0 (pad w n) = Some n"
  by (simp add: pad_def scan_zeros scan_nat_digits)

lemma length_pad: "n < 10 ^ w \<Longrightarrow> 0 < w \<Longrightarrow> length (pad w n) = w"
  using length_nat_digits [of n w] by (simp add: pad_def)

lemma parse_uint_pad [simp]: "lo \<le> n \<Longrightarrow> n \<le> hi \<Longrightarrow> parse_uint lo hi (pad w n) = Some n"
  by (simp add: parse_uint_def)

lemma scan_trailing_zeros: "scan_digits a (replicate k CHR ''0'') = Some (a * 10 ^ k)"
  by (induction k arbitrary: a) (simp_all add: is_digit_def digit_val_def)

lemma strip_zeros:
  obtains k where "pad w n = rev (dropWhile (\<lambda>c. c = CHR ''0'') (rev (pad w n))) @ replicate k CHR ''0''"
proof -
  let ?P = "\<lambda>c. c = CHR ''0''" and ?r = "rev (pad w n)"
  have "takeWhile ?P ?r = replicate (length (takeWhile ?P ?r)) CHR ''0''"
    by (rule replicate_length_same [symmetric]) (auto dest: set_takeWhileD)
  then have "rev (takeWhile ?P ?r) = replicate (length (takeWhile ?P ?r)) CHR ''0''"
    by (metis rev_replicate)
  moreover have "pad w n = rev (dropWhile ?P ?r) @ rev (takeWhile ?P ?r)"
    by (metis rev_append rev_rev_ident takeWhile_dropWhile_id)
  ultimately show thesis using that by metis
qed

lemma split_fmt_nanos:
  assumes "ns < 10 ^ 9"
  shows "split_nanos (fmt_nanos ns @ ''Z'') = (ns, ''Z'')"
proof (cases "ns = 0")
  case True
  then show ?thesis by (simp add: split_nanos_def fmt_nanos_def)
next
  case False
  define ds where "ds = rev (dropWhile (\<lambda>c. c = CHR ''0'') (rev (pad 9 ns)))"
  obtain k where k: "pad 9 ns = ds @ replicate k CHR ''0''"
    using strip_zeros [of 9 ns] unfolding ds_def .
  have dig: "\<forall>c \<in> set ds. is_digit c"
    using pad_digits [of _ 9 ns] by (auto simp: k)
  have len: "length ds + k = 9"
    using length_pad [OF assms] k by (metis length_append length_replicate zero_less_numeral)
  have scan: "(case scan_digits 0 ds of None \<Rightarrow> None | Some x \<Rightarrow> Some (x * 10 ^ k)) = Some ns"
    using scan_pad [of 9 ns] by (simp add: k scan_digits_append scan_trailing_zeros cong: option.case_cong)
  then have "ds \<noteq> []"
    using False by (cases ds) auto
  then obtain d r where ds: "ds = d # r" by (cases ds) auto
  have "\<not> is_digit CHR ''Z''"
    by (simp add: is_digit_def)
  then have "takeWhile is_digit (ds @ ''Z'') = ds" "dropWhile is_digit (ds @ ''Z'') = ''Z''"
    using dig by (simp_all add: takeWhile_append2 dropWhile_append2)
  moreover have "parse_nanos ds = ns"
    using scan len by (auto simp: parse_nanos_def split: option.splits)
  ultimately show ?thesis
    using False dig by (simp add: split_nanos_def fmt_nanos_def ds_def [symmetric] ds)
qed

text \<open>The parser on a text of the right shape.\<close>

lemma parse_shape:
  assumes "length Y = 4" "length M = 2" "length D = 2" "length h = 2" "length m = 2" "length z = 2"
  shows "parseRFC3339 (Y @ ''-'' @ M @ ''-'' @ D @ ''T'' @ h @ '':'' @ m @ '':'' @ z @ r) =
     (case parse_uint 0 9999 Y of None \<Rightarrow> None | Some year \<Rightarrow>
      case parse_uint 1 12 M of None \<Rightarrow> None | Some month \<Rightarrow>
      case parse_uint 1 (days_in (leap (int year)) month) D of None \<Rightarrow> None | Some day \<Rightarrow>
      case parse_uint 0 23 h of None \<Rightarrow> None | Some hour \<Rightarrow>
      case parse_uint 0 59 m of None \<Rightarrow> None | Some mins \<Rightarrow>
      case parse_uint 0 59 z of None \<Rightarrow> None | Some sec \<Rightarrow>
      case split_nanos r of (ns, r') \<Rightarrow>
        (case parse_zone r' of None \<Rightarrow> None
         | Some off \<Rightarrow> Some (Date (int year) month day hour mins sec ns - off * 1000000000)))"
  using assms by (simp add: parseRFC3339_def nth_append cong: option.case_cong)

lemma time_ok_year:
  assumes "time_ok t" "year_of (t div 1000000000 div 86400 + 719162) = (y, n)"
  shows "0 \<le> y" "y \<le> 9999"
proof -
  have "t div 1000000000 div 86400 = t div 86400000000000"
    by (simp add: zdiv_zmult2_eq [symmetric])
  moreover have "(- 62167219200000000000) div 86400000000000 \<le> t div 86400000000000"
    "t div 86400000000000 \<le> 253402300799999999999 div 86400000000000"
    using assms(1) by (intro zdiv_mono1; simp add: time_ok_def)+
  ultimately have "- 366 \<le> t div 1000000000 div 86400 + 719162" "t div 1000000000 div 86400 + 719162 < 3652059"
    by simp_all
  then show "0 \<le> y" "y \<le> 9999"
    using year_of_range [OF assms(2)] by simp_all
qed

text \<open>The clock time of a second of the day.\<close>

lemma clock_parts:
  fixes x :: nat
  assumes "x < 86400"
  shows "x div 3600 \<le> 23" "x div 60 mod 60 \<le> 59" "x mod 60 \<le> 59" "x div 3600 * 3600 + x div 60 mod 60 * 60 + x mod 60 = x"
proof -
  have "x div 3600 = x div 60 div 60"
    by (simp add: div_mult2_eq [symmetric])
  moreover have "60 * (x div 60 div 60) + x div 60 mod 60 = x div 60" "60 * (x div 60) + x mod 60 = x"
    by (rule mult_div_mod_eq)+
  ultimately show "x div 3600 * 3600 + x div 60 mod 60 * 60 + x mod 60 = x"
    by linarith
  show "x div 3600 \<le> 23"
    using assms by (simp add: less_mult_imp_div_less less_Suc_eq_le [symmetric])
qed (simp_all add: less_Suc_eq_le [symmetric])

theorem rfc3339_roundtrip:
  assumes "time_ok t"
  shows "parseRFC3339 (rfc3339_nano t) = Some t"
proof -
  define secs where "secs = t div 1000000000"
  define ns where "ns = nat (t mod 1000000000)"
  define sod where "sod = nat (secs mod 86400)"
  obtain y n where y: "year_of (secs div 86400 + 719162) = (y, n)" by fastforce
  obtain m d where m: "month_of (leap y) n = (m, d)" by fastforce
  have yr: "0 \<le> y" "y \<le> 9999"
    using time_ok_year [OF assms, folded secs_def, OF y] by simp_all
  note md = month_of_start [OF m year_of_start(2) [OF y]]
  have sod: "sod < 86400" "int sod = secs mod 86400"
    by (simp_all add: sod_def nat_less_iff)
  have ns: "ns < 10 ^ 9" "int ns = t mod 1000000000"
    by (simp_all add: ns_def nat_less_iff)
  note hms = clock_parts [OF sod(1)]
  have "rfc3339_nano t = pad 4 (nat y) @ ''-'' @ pad 2 m @ ''-'' @ pad 2 d @ ''T'' @ pad 2 (sod div 3600) @ '':'' @
      pad 2 (sod div 60 mod 60) @ '':'' @ pad 2 (sod mod 60) @ fmt_nanos ns @ ''Z''"
    using yr by (simp add: rfc3339_nano_def Let_def fmt_year_def y m flip: secs_def ns_def sod_def)
  moreover have "Date y m d (sod div 3600) (sod div 60 mod 60) (sod mod 60) ns = t"
  proof -
    have "int (month_start (leap y) m) + int d = int n + 1"
      using md(6) by linarith
    then have "year_start y + int (month_start (leap y) m) + int d - 1 - 719162 = secs div 86400"
      using year_of_start(1) [OF y] by linarith
    moreover have "secs div 86400 * 86400 + secs mod 86400 = secs" "secs * 1000000000 + t mod 1000000000 = t"
      by (simp_all add: secs_def)
    ultimately show ?thesis
      unfolding Date_def hms(4) by (simp only: sod(2) ns(2))
  qed
  moreover have "length (pad 4 (nat y)) = 4" "length (pad 2 m) = 2" "length (pad 2 d) = 2" "length (pad 2 (sod div 3600)) = 2"
    "length (pad 2 (sod div 60 mod 60)) = 2" "length (pad 2 (sod mod 60)) = 2"
    using yr md hms by (simp_all add: length_pad)
  moreover have "nat y \<le> 9999" "int (nat y) = y"
    using yr by simp_all
  ultimately show ?thesis
    using md(1-4) hms(1,2,3)
    by (simp only: parse_shape) (simp add: split_fmt_nanos [OF ns(1)] parse_zone_def)
qed

lemma rfc3339_ascii: "utf8_ok (rfc3339_nano t)"
proof (rule utf8_ok_ascii)
  have digit: "c \<in> set (pad w n) \<Longrightarrow> (of_char c :: nat) \<le> 127" for c w n
    using pad_digits [of c w n] by (simp add: is_digit_def)
  have "c \<in> set (fmt_nanos ns) \<Longrightarrow> (of_char c :: nat) \<le> 127" for c ns
    using digit [of c 9 ns] by (auto simp: fmt_nanos_def split: if_splits dest: set_dropWhileD)
  moreover have "c \<in> set (fmt_year y) \<Longrightarrow> (of_char c :: nat) \<le> 127" for c y
    using digit [of c 4] by (auto simp: fmt_year_def split: if_splits)
  ultimately show "(of_char c :: nat) \<le> 127" if "c \<in> set (rfc3339_nano t)" for c
    using that digit [of c 2] by (auto simp: rfc3339_nano_def Let_def split: prod.splits)
qed

end
