(* ===== verification/GoJSON.thy ===== *)
theory GoJSON
  imports GoTime RefServer "HOL-Library.Char_ord" "HOL-Library.List_Lexorder"
begin

text \<open>
  The JSON text of a scheduled job: \<^verbatim>\<open>json.Marshal\<close> of the field map, as Go's
  \<^verbatim>\<open>encoding/json\<close> writes it (keys in order, HTML characters, control characters and
  the line separators escaped, invalid UTF-8 replaced), and the JSON grammar it has to meet. What
  is asked of the server's \<^verbatim>\<open>cjson.decode\<close> is only that it reads compact JSON objects of
  strings as the grammar says (locale \<open>json_decoder\<close>); a reader that does is given as an
  instance. With \<open>GoTime\<close> this gives the laws \<open>codec_laws\<close> the store rests on.
\<close>

section \<open>Marshalling\<close>

abbreviation quote :: char where "quote \<equiv> CHR 0x22"
abbreviation backslash :: char where "backslash \<equiv> CHR 0x5C"

definition hex_char :: "nat \<Rightarrow> char" where
  "hex_char n = (if n < 10 then char_of (48 + n) else char_of (87 + n))"

definition html_safe :: "char \<Rightarrow> bool" where
  "html_safe c \<longleftrightarrow> byte_in 32 127 c \<and> c \<notin> {quote, backslash, CHR ''<'', CHR ''>'', CHR ''&''}"

text \<open>The two-character escapes.\<close>

definition go_short :: "(char \<times> char) list" where
  "go_short = [(backslash, backslash), (quote, quote), (CHR 0x08, CHR ''b''), (CHR 0x0C, CHR ''f''), (CHR 0x0A, CHR ''n''),
     (CHR 0x0D, CHR ''r''), (CHR 0x09, CHR ''t'')]"

definition esc_byte :: "char \<Rightarrow> string" where
  "esc_byte c =
     (if html_safe c then [c]
      else case map_of go_short c of
             Some e \<Rightarrow> [backslash, e]
           | None \<Rightarrow> [backslash, CHR ''u'', CHR ''0'', CHR ''0'', hex_char (of_char c div 16), hex_char (of_char c mod 16)])"

text \<open>\<^verbatim>\<open>utf8.DecodeRune\<close>: the length of the encoded character at the front, 0 if it is invalid.\<close>

definition rune_size :: "string \<Rightarrow> nat" where
  "rune_size s =
     (case s of
        [] \<Rightarrow> 0
      | a # r \<Rightarrow>
          if byte_in 0 127 a then 1
          else if byte_in 194 223 a then (case r of b # _ \<Rightarrow> if byte_in 128 191 b then 2 else 0 | _ \<Rightarrow> 0)
          else if byte_in 224 239 a then
            (case r of
               b # c # _ \<Rightarrow>
                 if byte_in (if byte_in 224 224 a then 160 else 128) (if byte_in 237 237 a then 159 else 191) b \<and> byte_in 128 191 c
                 then 3 else 0
             | _ \<Rightarrow> 0)
          else if byte_in 240 244 a then
            (case r of
               b # c # e # _ \<Rightarrow>
                 if byte_in (if byte_in 240 240 a then 144 else 128) (if byte_in 244 244 a then 143 else 191) b \<and>
                    byte_in 128 191 c \<and> byte_in 128 191 e
                 then 4 else 0
             | _ \<Rightarrow> 0)
          else 0)"

text \<open>The line and paragraph separators U+2028 and U+2029.\<close>

definition line_sep :: "char \<Rightarrow> string \<Rightarrow> bool" where
  "line_sep a r \<longleftrightarrow> a = CHR 0xE2 \<and> (case r of b # c # _ \<Rightarrow> b = CHR 0x80 \<and> (c = CHR 0xA8 \<or> c = CHR 0xA9) | _ \<Rightarrow> False)"

fun escape :: "string \<Rightarrow> string" where
  "escape [] = []"
| "escape (a # r) =
     (if byte_in 0 127 a then esc_byte a @ escape r
      else if rune_size (a # r) = 0 then [backslash] @ ''ufffd'' @ escape r
      else if line_sep a r then [backslash] @ ''u202'' @ [hex_char (of_char (r ! 1) mod 16)] @ escape (drop 2 r)
      else a # take (rune_size (a # r) - 1) r @ escape (drop (rune_size (a # r) - 1) r))"

definition json_string :: "string \<Rightarrow> string" where
  "json_string s = [quote] @ escape s @ [quote]"

fun json_pairs :: "fields \<Rightarrow> string" where
  "json_pairs [] = []"
| "json_pairs [(k, v)] = json_string k @ '':'' @ json_string v"
| "json_pairs ((k, v) # fs) = json_string k @ '':'' @ json_string v @ '','' @ json_pairs fs"

definition json_marshal :: "fields \<Rightarrow> string" where
  "json_marshal fs = ''{'' @ json_pairs (sort_key fst fs) @ ''}''"

section \<open>The grammar\<close>

definition hex_val :: "char \<Rightarrow> nat option" where
  "hex_val c =
     (if byte_in 48 57 c then Some (of_char c - 48)
      else if byte_in 65 70 c then Some (of_char c - 55)
      else if byte_in 97 102 c then Some (of_char c - 87)
      else None)"

definition hex4 :: "char \<Rightarrow> char \<Rightarrow> char \<Rightarrow> char \<Rightarrow> nat option" where
  "hex4 a b c d =
     (case (hex_val a, hex_val b, hex_val c, hex_val d) of
        (Some w, Some x, Some y, Some z) \<Rightarrow> Some (((w * 16 + x) * 16 + y) * 16 + z)
      | _ \<Rightarrow> None)"

text \<open>UTF-8 of a code point of the basic plane.\<close>

definition utf8_enc :: "nat \<Rightarrow> string" where
  "utf8_enc n =
     (if n < 128 then [char_of n]
      else if n < 2048 then [char_of (192 + n div 64), char_of (128 + n mod 64)]
      else [char_of (224 + n div 4096), char_of (128 + n div 64 mod 64), char_of (128 + n mod 64)])"

definition json_short :: "(char \<times> char) list" where
  "json_short = [(backslash, backslash), (quote, quote), (CHR ''/'', CHR ''/''), (CHR ''b'', CHR 0x08), (CHR ''f'', CHR 0x0C),
     (CHR ''n'', CHR 0x0A), (CHR ''r'', CHR 0x0D), (CHR ''t'', CHR 0x09)]"

text \<open>The text between the quotes of a string, and the string it stands for.\<close>

inductive json_text :: "string \<Rightarrow> string \<Rightarrow> bool" where
  text_nil: "json_text [] []"
| text_plain: "json_text t v \<Longrightarrow> c \<noteq> quote \<Longrightarrow> c \<noteq> backslash \<Longrightarrow> byte_in 32 255 c \<Longrightarrow> json_text (c # t) (c # v)"
| text_short: "json_text t v \<Longrightarrow> map_of json_short e = Some c \<Longrightarrow> json_text (backslash # e # t) (c # v)"
| text_unicode:
    "json_text t v \<Longrightarrow> hex4 w x y z = Some n \<Longrightarrow> \<not> (55296 \<le> n \<and> n \<le> 57343) \<Longrightarrow>
     json_text (backslash # CHR ''u'' # w # x # y # z # t) (utf8_enc n @ v)"

inductive json_members :: "string \<Rightarrow> fields \<Rightarrow> bool" where
  member_one:
    "json_text k k' \<Longrightarrow> json_text v v' \<Longrightarrow>
     json_members ([quote] @ k @ [quote, CHR '':'', quote] @ v @ [quote]) [(k', v')]"
| member_more:
    "json_text k k' \<Longrightarrow> json_text v v' \<Longrightarrow> json_members m fs \<Longrightarrow>
     json_members ([quote] @ k @ [quote, CHR '':'', quote] @ v @ [quote, CHR '','' ] @ m) ((k', v') # fs)"

definition json_object :: "string \<Rightarrow> fields \<Rightarrow> bool" where
  "json_object s fs \<longleftrightarrow> (if fs = [] then s = ''{}'' else \<exists>m. json_members m fs \<and> s = ''{'' @ m @ ''}'')"

section \<open>Marshal writes JSON\<close>

lemma json_text_append: "json_text s v \<Longrightarrow> json_text t w \<Longrightarrow> json_text (s @ t) (v @ w)"
  by (induction rule: json_text.induct) (auto intro: json_text.intros)

lemma json_text_copy:
  "list_all (byte_in 128 255) s \<Longrightarrow> json_text s s"
proof (induction s)
  case (Cons c s)
  then show ?case
    by (intro text_plain) (auto simp: byte_in_def)
qed (rule text_nil)

lemma hex_val_digit [simp]: "n < 16 \<Longrightarrow> hex_val (hex_char n) = Some n"
  by (auto simp: hex_val_def hex_char_def byte_in_def)

lemma short_escapes: "map_of go_short c = Some e \<Longrightarrow> map_of json_short e = Some c"
  by (auto simp: go_short_def json_short_def split: if_splits)

lemma esc_byte_text:
  assumes "byte_in 0 127 c"
  shows "json_text (esc_byte c) [c]"
proof (cases "html_safe c")
  case True
  then show ?thesis
    by (auto simp: esc_byte_def html_safe_def byte_in_def intro!: text_plain text_nil)
next
  case False
  show ?thesis
  proof (cases "map_of go_short c")
    case None
    let ?n = "of_char c :: nat"
    have n: "?n < 128" using assms by (simp add: byte_in_def)
    have "hex_val CHR ''0'' = Some 0"
      by (simp add: hex_val_def byte_in_def)
    then have "hex4 CHR ''0'' CHR ''0'' (hex_char (?n div 16)) (hex_char (?n mod 16)) = Some ?n"
      using n by (simp add: hex4_def)
    from text_unicode [OF text_nil this] n show ?thesis
      using False None by (simp add: esc_byte_def utf8_enc_def)
  next
    case (Some e)
    then show ?thesis
      using False text_short [OF text_nil short_escapes [OF Some]] by (simp add: esc_byte_def)
  qed
qed

text \<open>Valid UTF-8 is a sequence of encoded characters.\<close>

lemma byte_in_high: "byte_in lo hi c \<Longrightarrow> 128 \<le> lo \<Longrightarrow> byte_in 128 255 c"
proof -
  have "(of_char c :: nat) \<le> 255"
    using nat_of_char_less_256 [of c] by linarith
  then show "byte_in lo hi c \<Longrightarrow> 128 \<le> lo \<Longrightarrow> byte_in 128 255 c"
    by (simp add: byte_in_def)
qed

definition rune_ok :: "char \<Rightarrow> string \<Rightarrow> bool" where
  "rune_ok a r \<longleftrightarrow>
     (let n = rune_size (a # r) in n \<in> {2, 3, 4} \<and> utf8_ok (drop (n - 1) r) \<and> list_all (byte_in 128 255) (a # take (n - 1) r))"

lemma utf8_rune:
  assumes "utf8_ok (a # r)" "\<not> byte_in 0 127 a"
  shows "rune_ok a r"
proof -
  consider (two) "byte_in 194 223 a" | (three) "\<not> byte_in 194 223 a" "byte_in 224 239 a"
    | (four) "\<not> byte_in 194 223 a" "\<not> byte_in 224 239 a" "byte_in 240 244 a"
    using assms by (auto split: if_splits)
  then show ?thesis
  proof cases
    case two
    with assms obtain b r' where r: "r = b # r'" "byte_in 128 191 b" "utf8_ok r'"
      by (auto split: list.splits)
    then show ?thesis
      using assms(2) two byte_in_high [OF two] byte_in_high [OF r(2)] by (simp add: rune_ok_def rune_size_def)
  next
    case three
    define lo where "lo = (if byte_in 224 224 a then 160 else 128 :: nat)"
    define hi where "hi = (if byte_in 237 237 a then 159 else 191 :: nat)"
    from three assms obtain b c r' where r: "r = b # c # r'" "byte_in lo hi b" "byte_in 128 191 c" "utf8_ok r'"
      by (auto simp flip: lo_def hi_def split: list.splits)
    have "rune_size (a # r) = 3"
      using assms(2) three r by (simp add: rune_size_def flip: lo_def hi_def)
    moreover have "byte_in 128 255 b"
      by (rule byte_in_high [OF r(2)]) (simp add: lo_def)
    ultimately show ?thesis
      using r byte_in_high [OF three(2)] byte_in_high [OF r(3)] by (simp add: rune_ok_def)
  next
    case four
    define lo where "lo = (if byte_in 240 240 a then 144 else 128 :: nat)"
    define hi where "hi = (if byte_in 244 244 a then 143 else 191 :: nat)"
    from four assms obtain b c e r' where r: "r = b # c # e # r'" "byte_in lo hi b" "byte_in 128 191 c" "byte_in 128 191 e" "utf8_ok r'"
      by (auto simp flip: lo_def hi_def split: list.splits)
    have "rune_size (a # r) = 4"
      using assms(2) four r by (simp add: rune_size_def flip: lo_def hi_def)
    moreover have "byte_in 128 255 b"
      by (rule byte_in_high [OF r(2)]) (simp add: lo_def)
    ultimately show ?thesis
      using r byte_in_high [OF four(3)] byte_in_high [OF r(3)] byte_in_high [OF r(4)] by (simp add: rune_ok_def)
  qed
qed

lemma line_sep_text:
  assumes "line_sep a r" "json_text t v"
  shows "json_text ([backslash] @ ''u202'' @ [hex_char (of_char (r ! 1) mod 16)] @ t) (a # take 2 r @ v)"
proof -
  obtain c r' where r: "a = CHR 0xE2" "r = CHR 0x80 # c # r'" "c = CHR 0xA8 \<or> c = CHR 0xA9"
    using assms(1) by (auto simp: line_sep_def split: list.splits)
  have "hex4 CHR ''2'' CHR ''0'' CHR ''2'' (hex_char (of_char c mod 16)) = Some (8192 + 32 + of_char c mod 16)"
    by (simp add: hex4_def hex_val_def [of "CHR ''2''"] hex_val_def [of "CHR ''0''"] byte_in_def)
  moreover have "char_of (226 :: nat) = CHR 0xE2" "char_of (128 :: nat) = CHR 0x80" "char_of (168 :: nat) = CHR 0xA8"
      "char_of (169 :: nat) = CHR 0xA9"
    by code_simp+
  ultimately show ?thesis
    using text_unicode [OF assms(2), of "CHR ''2''" "CHR ''0''" "CHR ''2''" "hex_char (of_char c mod 16)" "8192 + 32 + of_char c mod 16"] r(3)
    by (auto simp: r(1,2) utf8_enc_def)
qed

lemma line_sep_size: "line_sep a r \<Longrightarrow> rune_size (a # r) = 3"
  by (auto simp: line_sep_def rune_size_def byte_in_def split: list.splits)

lemma escape_text: "utf8_ok s \<Longrightarrow> json_text (escape s) s"
proof (induction s rule: escape.induct)
  case 1
  then show ?case by (simp add: text_nil)
next
  case (2 a r)
  show ?case
  proof (cases "byte_in 0 127 a")
    case True
    then have "json_text (escape r) r"
      using 2 by simp
    from json_text_append [OF esc_byte_text [OF True] this] True show ?thesis by simp
  next
    case False
    have u: "rune_size (a # r) \<in> {2, 3, 4}" "utf8_ok (drop (rune_size (a # r) - 1) r)"
        "list_all (byte_in 128 255) (a # take (rune_size (a # r) - 1) r)"
      using utf8_rune [OF "2.prems" False] by (auto simp: rune_ok_def Let_def)
    define k where "k = rune_size (a # r) - 1"
    have sz: "rune_size (a # r) \<noteq> 0"
      using u(1) by auto
    show ?thesis
    proof (cases "line_sep a r")
      case True
      have "json_text (escape (drop 2 r)) (drop 2 r)"
        using "2.IH"(3) [OF False sz True] u(2) line_sep_size [OF True] by simp
      from line_sep_text [OF True this] show ?thesis
        using False sz True by simp
    next
      case no: False
      have "json_text (escape (drop k r)) (drop k r)"
        using "2.IH"(4) [OF False sz no] u(2) by (simp add: k_def)
      from json_text_append [OF json_text_copy [OF u(3)] this [unfolded k_def]] show ?thesis
        using False sz no by (simp add: k_def)
    qed
  qed
qed

lemma json_pairs_members:
  assumes "fs \<noteq> []" "\<forall>(k, v) \<in> set fs. utf8_ok k \<and> utf8_ok v"
  shows "json_members (json_pairs fs) fs"
  using assms
proof (induction fs rule: json_pairs.induct)
  case (2 k v)
  then show ?case
    using member_one [OF escape_text escape_text, of k v] by (simp add: json_string_def)
next
  case (3 k v f fs)
  then show ?case
    using member_more [OF escape_text escape_text, of k v "json_pairs (f # fs)" "f # fs"] by (simp add: json_string_def)
qed simp

lemma marshal_object:
  assumes "\<forall>(k, v) \<in> set fs. utf8_ok k \<and> utf8_ok v"
  shows "json_object (json_marshal fs) (sort_key fst fs)"
proof (cases "sort_key fst fs = []")
  case True
  then show ?thesis by (simp add: json_object_def json_marshal_def)
next
  case False
  then show ?thesis
    using json_pairs_members [OF False] assms by (auto simp: json_object_def json_marshal_def)
qed

lemma field_sorted: "distinct (map fst fs) \<Longrightarrow> field (sort_key fst fs) = field fs"
proof -
  assume d: "distinct (map fst fs)"
  then have "distinct (map fst (sort_key fst fs))"
    by (metis mset_map mset_sort mset_eq_imp_distinct_iff)
  then show ?thesis
    using d map_of_inject_set [of "sort_key fst fs" fs] by (simp add: field_distinct)
qed

section \<open>The server's decoder\<close>

locale json_decoder =
  fixes decode :: "string \<Rightarrow> fields"
  assumes decode_object: "json_object s fs \<Longrightarrow> distinct (map fst fs) \<Longrightarrow> field (decode s) = field fs"

definition go_codec :: "(string \<Rightarrow> int option) \<Rightarrow> (string \<Rightarrow> fields) \<Rightarrow> codec" where
  "go_codec general decode =
     \<lparr>fmt_time = rfc3339_nano, parse_time = go_parse_time general, marshal = json_marshal, cjson_decode = decode\<rparr>"

sublocale json_decoder \<subseteq> go: codec_laws "go_codec general decode" for general
proof (unfold_locales, goal_cases)
  case (1 t)
  then show ?case
    using rfc3339_roundtrip by (simp add: go_codec_def go_parse_time_def)
next
  case (2 t)
  then show ?case
    by (simp add: go_codec_def rfc3339_ascii)
next
  case (3 fs)
  then have "distinct (map fst (sort_key fst fs))"
    by (metis mset_map mset_sort mset_eq_imp_distinct_iff)
  with 3 decode_object [OF marshal_object [of fs]] show ?case
    by (simp add: go_codec_def field_sorted)
qed

context json_decoder
begin

lemmas go_laws = go.codec_laws_axioms

end

section \<open>A reader of the grammar\<close>

fun read_string :: "string \<Rightarrow> (string \<times> string) option" where
  "read_string [] = None"
| "read_string (c # t) =
     (if c = quote then Some ([], t)
      else if c \<noteq> backslash then
        (if byte_in 32 255 c then map_option (\<lambda>(v, r). (c # v, r)) (read_string t) else None)
      else case t of
             [] \<Rightarrow> None
           | e # t1 \<Rightarrow>
               (case map_of json_short e of
                  Some d \<Rightarrow> map_option (\<lambda>(v, r). (d # v, r)) (read_string t1)
                | None \<Rightarrow>
                    (case t1 of
                       w # x # y # z # t2 \<Rightarrow>
                         if e \<noteq> CHR ''u'' then None
                         else (case hex4 w x y z of
                                 None \<Rightarrow> None
                               | Some n \<Rightarrow> map_option (\<lambda>(v, r). (utf8_enc n @ v, r)) (read_string t2))
                     | _ \<Rightarrow> None)))"

definition read_member :: "string \<Rightarrow> ((string \<times> string) \<times> string) option" where
  "read_member s =
     (case s of
        q # t \<Rightarrow> if q \<noteq> quote then None else
          (case read_string t of
             Some (k, a # b # t1) \<Rightarrow> if a \<noteq> CHR '':'' \<or> b \<noteq> quote then None else
               (case read_string t1 of Some (v, r) \<Rightarrow> Some ((k, v), r) | None \<Rightarrow> None)
           | _ \<Rightarrow> None)
      | [] \<Rightarrow> None)"

fun read_members :: "nat \<Rightarrow> string \<Rightarrow> fields option" where
  "read_members 0 s = None"
| "read_members (Suc n) s =
     (case read_member s of
        None \<Rightarrow> None
      | Some (kv, r) \<Rightarrow>
          if r = ''}'' then Some [kv]
          else (case r of
                  c # r' \<Rightarrow> if c = CHR '','' then map_option (\<lambda>fs. kv # fs) (read_members n r') else None
                | [] \<Rightarrow> None))"

text \<open>A text that is no object of strings is no job; the reader answers with no fields.\<close>

definition json_decode :: "string \<Rightarrow> fields" where
  "json_decode s =
     (case s of
        c # t \<Rightarrow> if c \<noteq> CHR ''{'' \<or> t = ''}'' then [] else (case read_members (length t) t of Some fs \<Rightarrow> fs | None \<Rightarrow> [])
      | [] \<Rightarrow> [])"

lemma read_text: "json_text t v \<Longrightarrow> read_string (t @ quote # r) = Some (v, r)"
proof (induction rule: json_text.induct)
  case (text_short t v e c)
  then show ?case by simp
next
  case (text_unicode t v w x y z n)
  have "map_of json_short CHR ''u'' = None"
    by (simp add: json_short_def)
  with text_unicode show ?case by simp
qed simp_all

lemma read_member_text:
  assumes "json_text k k'" "json_text v v'"
  shows "read_member (quote # k @ quote # CHR '':'' # quote # v @ quote # r) = Some ((k', v'), r)"
  using read_text [OF assms(1), of "CHR '':'' # quote # v @ quote # r"] read_text [OF assms(2), of r]
  by (simp add: read_member_def)

lemma read_members_text: "json_members m fs \<Longrightarrow> length fs \<le> n \<Longrightarrow> read_members n (m @ ''}'') = Some fs"
proof (induction arbitrary: n rule: json_members.induct)
  case (member_one k k' v v')
  then show ?case
    by (cases n) (simp_all add: read_member_text)
next
  case (member_more k k' v v' m fs)
  then obtain n' where n: "n = Suc n'" "length fs \<le> n'" by (cases n) auto
  from member_more.IH [OF n(2)] member_more.hyps(1,2) show ?case
    by (simp add: n(1) read_member_text)
qed

lemma members_length: "json_members m fs \<Longrightarrow> length fs \<le> length m"
  by (induction rule: json_members.induct) simp_all

lemma members_nonempty: "json_members m fs \<Longrightarrow> m @ ''}'' \<noteq> ''}'' \<and> fs \<noteq> []"
  by (induction rule: json_members.induct) simp_all

interpretation reader: json_decoder json_decode
proof (unfold_locales, goal_cases)
  case (1 s fs)
  show ?case
  proof (cases "fs = []")
    case True
    with 1 show ?thesis by (simp add: json_object_def json_decode_def)
  next
    case False
    with 1 obtain m where m: "json_members m fs" "s = ''{'' @ m @ ''}''"
      by (auto simp: json_object_def)
    have "read_members (Suc (length m)) (m @ ''}'') = Some fs"
      by (rule read_members_text [OF m(1)]) (use members_length [OF m(1)] in simp)
    then show ?thesis
      using members_nonempty [OF m(1)] by (simp add: json_decode_def m(2) del: read_members.simps)
  qed
qed

section \<open>The queue with Go's encodings\<close>

interpretation goq: store_queue ref_redis ref_view ref_kt id_le "go_codec general json_decode" ref_config
  for general
  by unfold_locales (rule refq.config)

text \<open>A job with a quote, a backslash, a tag, a line separator and times with nanoseconds.\<close>

definition sample_job :: job where
  "sample_job = \<lparr>ID = ''j1'', Task = ''email'', Payload = [quote, backslash, CHR ''<'', CHR 0xE2, CHR 0x80, CHR 0xA8, CHR 0x0A, quote],
     Attempt = 0, MaxAttempts = 5, TraceParent = [], CreatedAt = 951827696000120001, AvailableAt = - 1, IdempotencyKey = [],
     Lease = no_lease\<rparr>"

text \<open>
  C19. A job survives storage in the texts Go writes: what a worker parses from the entry
  written by \<^verbatim>\<open>Enqueue\<close>, with its times in RFC 3339 form, or from the JSON object the
  schedule stores and any decoder that reads JSON takes apart, is the job that was enqueued,
  to the nanosecond, under the worker's lease and without the idempotency key, which only the
  enqueue needs.
\<close>

theorem go_job_roundtrip:
  assumes "json_decoder decode" "storable j" "utf8_job j"
  shows "parseJob (go_codec general decode) x (flatToMap (flatten (jobFields (go_codec general decode) j))) l =
      Inr (j\<lparr>IdempotencyKey := [], Lease := l\<rparr>) \<and>
    parseJob (go_codec general decode) x (flatToMap (flatten (decode (json_marshal (jobFields (go_codec general decode) j))))) l =
      Inr (j\<lparr>IdempotencyKey := [], Lease := l\<rparr>)"
proof -
  let ?C = "go_codec general decode"
  have laws: "codec_laws ?C"
    by (rule json_decoder.go_laws [OF assms(1)])
  have "map_of (flatToMap (flatten (jobFields ?C j))) = map_of (jobFields ?C j)"
    by (simp add: field_distinct)
  from parseJob_cong [OF this] codec_laws.parse_jobFields [OF laws assms(2)]
    codec_laws.parse_decode_jobFields [OF laws assms(2,3)] show ?thesis
    by (simp add: go_codec_def)
qed

theorem go_job_roundtrip_witness:
  "parseJob (go_codec (\<lambda>_. None) json_decode) ''1-0''
     (flatToMap (flatten (json_decode (json_marshal (jobFields (go_codec (\<lambda>_. None) json_decode) sample_job))))) no_lease = Inr sample_job"
proof -
  have "storable sample_job" "utf8_job sample_job" "sample_job\<lparr>IdempotencyKey := [], Lease := no_lease\<rparr> = sample_job"
    by (simp_all add: sample_job_def storable_def utf8_job_def is_int64_def time_ok_def byte_in_def no_lease_def)
  then show ?thesis
    using go_job_roundtrip [OF reader.json_decoder_axioms, of sample_job "\<lambda>_. None" "''1-0''" no_lease] by simp
qed

end
