(* ===== verification/Tracing.thy ===== *)
theory Tracing
  imports Worker Queue
begin

text \<open>
  The spans of \<^verbatim>\<open>queue/tracing.go\<close> and the functions of \<^verbatim>\<open>queue/worker.go\<close> and
  \<^verbatim>\<open>queue/queue.go\<close> with their calls to \<^verbatim>\<open>setOutcome\<close>, which the other theories leave out. A
  trace context is of an opaque type \<open>'c\<close>; the propagator is a pair of functions, one that
  writes a context into a carrier and one that reads it back.
\<close>

section \<open>Spans\<close>

datatype span_kind = SpanKindProducer | SpanKindConsumer

datatype attribute = AString string | AInt int

record 'c span =
  spName :: string
  spKind :: span_kind
  spParent :: 'c
  spAttributes :: "(string \<times> attribute) list"
  spErrors :: "err list"
  spStatus :: "string option"

definition startProcessSpan :: "('c \<Rightarrow> (string \<Rightarrow> string) \<Rightarrow> 'c) \<Rightarrow> 'c \<Rightarrow> job \<Rightarrow> string \<Rightarrow> 'c span" where
  [go_defs]: "startProcessSpan extract ctx j workerID =
     \<lparr>spName = ''process '' @ Task j, spKind = SpanKindConsumer, spParent = extract ctx (traceCarrier_Get j),
      spAttributes = [(''messaging.system'', AString ''redis''), (''dtq.task'', AString (Task j)), (''dtq.job_id'', AString (ID j)),
        (''dtq.attempt'', AInt (Attempt j)), (''dtq.delivery'', AInt (Token (Lease j))), (''dtq.worker'', AString workerID)],
      spErrors = [], spStatus = None\<rparr>"

definition enqueue_span :: "'c \<Rightarrow> job \<Rightarrow> 'c span" where
  [go_defs]: "enqueue_span ctx j =
     \<lparr>spName = ''enqueue '' @ Task j, spKind = SpanKindProducer, spParent = ctx,
      spAttributes = [(''messaging.system'', AString ''redis''), (''dtq.task'', AString (Task j)), (''dtq.job_id'', AString (ID j))],
      spErrors = [], spStatus = None\<rparr>"

definition setOutcome :: "string \<Rightarrow> err option \<Rightarrow> 'c span \<Rightarrow> 'c span" where
  [go_defs]: "setOutcome oc e sp =
     (let sp1 = sp\<lparr>spAttributes := spAttributes sp @ [(''dtq.outcome'', AString oc)]\<rparr>
      in case e of None \<Rightarrow> sp1 | Some x \<Rightarrow> sp1\<lparr>spErrors := spErrors sp1 @ [x], spStatus := Some (Error x)\<rparr>)"

definition outcomes :: "'c span \<Rightarrow> attribute list" where
  "outcomes sp = map snd (filter (\<lambda>a. fst a = ''dtq.outcome'') (spAttributes sp))"

lemma outcomes_simps [simp]:
  "outcomes (setOutcome oc e sp) = outcomes sp @ [AString oc]"
  "outcomes (startProcessSpan extract ctx j wid) = []" "outcomes (enqueue_span ctx j) = []"
  by (simp_all add: outcomes_def setOutcome_def startProcessSpan_def enqueue_span_def Let_def split: option.split)

section \<open>A traced run\<close>

definition traced_deadLetter ::
  "'b backend \<Rightarrow> job \<Rightarrow> string \<Rightarrow> 'b worker \<Rightarrow> 'c span \<Rightarrow> 'b worker \<times> err option \<times> 'c span" where
  [go_defs]: "traced_deadLetter B j reason w sp =
     (case bDeadLetter B j reason (wBackend w) of
        (b, Some e) \<Rightarrow> (w\<lparr>wBackend := b\<rparr>, Some e, setOutcome ''settle_failed'' (Some e) sp)
      | (b, None) \<Rightarrow> (emit (JobDeadLettered j) (w\<lparr>wBackend := b\<rparr>), None, setOutcome ''dead_lettered'' (Some (ErrorString reason)) sp))"

definition traced_handleOne ::
  "('c \<Rightarrow> (string \<Rightarrow> string) \<Rightarrow> 'c) \<Rightarrow> 'c \<Rightarrow> 'b backend \<Rightarrow> WorkerConfig \<Rightarrow> handlers \<Rightarrow> surroundings \<Rightarrow>
   (job \<Rightarrow> 'b \<Rightarrow> 'b \<times> err option) \<Rightarrow> err option \<Rightarrow> job \<Rightarrow> 'b worker \<Rightarrow> 'b worker \<times> err option \<times> 'c span" where
  [go_defs]: "traced_handleOne extract ctx B cfg hs S ack cause j w =
     (let sp = startProcessSpan extract ctx j (wcID cfg)
      in if Token (Lease j) > MaxDeliveries cfg then
           traced_deadLetter B j (''delivered '' @ itoa (Token (Lease j)) @ '' times without being settled'') w sp
         else case hs (Task j) of
           None \<Rightarrow>
             if Token (Lease j) \<ge> MaxDeliveries cfg then
               traced_deadLetter B j (Error ErrUnknownTask @ '' '' @ sQuote S (Task j) @ '' after '' @
                 itoa (Token (Lease j)) @ '' deliveries'') w sp
             else let err = Suffixed ErrUnknownTask ('' '' @ sQuote S (Task j)) in (w, Some err, setOutcome ''skipped'' (Some err) sp)
         | Some h \<Rightarrow>
             (let w1 = emit (JobStarted j) w; res = h j
              in case cause of
                   Some ca \<Rightarrow> (w1, Some ca, setOutcome ''abandoned'' (Some ca) sp)
                 | None \<Rightarrow>
                     (case Err res of
                        None \<Rightarrow>
                          (case ack j (wBackend w1) of
                             (b, Some e) \<Rightarrow> (w1\<lparr>wBackend := b\<rparr>, Some e, setOutcome ''settle_failed'' (Some e) sp)
                           | (b, None) \<Rightarrow> (emit (JobCompleted j) (w1\<lparr>wBackend := b\<rparr>), None, setOutcome ''completed'' None sp))
                      | Some err \<Rightarrow>
                          (let w2 = emit (JobFailed j (Retryable res)) w1
                           in if \<not> Retryable res \<or> ShouldDeadLetter j then traced_deadLetter B j (Error err) w2 sp
                              else
                                let nextRunAt = sNow S + NextDelay (sRound S) (sRandom S) (wcRetryPolicy cfg) (wrap64 (Attempt j + 1))
                                in case bRetry B j nextRunAt (wBackend w2) of
                                     (b, Some e) \<Rightarrow> (w2\<lparr>wBackend := b\<rparr>, Some e, setOutcome ''settle_failed'' (Some e) sp)
                                   | (b, None) \<Rightarrow> (emit (JobRetried j) (w2\<lparr>wBackend := b\<rparr>), None, setOutcome ''retried'' (Some err) sp)))))"

text \<open>What an outcome says about the run.\<close>

fun outcome_means :: "job \<Rightarrow> string \<Rightarrow> event list \<Rightarrow> err option \<Rightarrow> bool" where
  "outcome_means j oc evs e =
     (if oc = ''completed'' then e = None \<and> evs = [JobStarted j, JobCompleted j]
      else if oc = ''retried'' then e = None \<and> evs = [JobStarted j, JobFailed j True, JobRetried j]
      else if oc = ''dead_lettered'' then e = None \<and> evs \<noteq> [] \<and> last evs = JobDeadLettered j
      else oc \<in> {''skipped'', ''abandoned'', ''settle_failed''} \<and> e \<noteq> None \<and>
        set evs \<inter> {JobCompleted j, JobRetried j, JobDeadLettered j} = {})"

text \<open>A traced result that goes with an untraced one, from a worker \<open>w\<close> and a span \<open>sp\<close>.\<close>

definition traced_as ::
  "job \<Rightarrow> 'b worker \<Rightarrow> 'c span \<Rightarrow> 'b worker \<times> err option \<times> 'c span \<Rightarrow> 'b worker \<times> err option \<Rightarrow> bool" where
  "traced_as j w sp r r0 \<longleftrightarrow>
     (\<exists>evs oc x. r = (fst r0, snd r0, setOutcome oc x sp) \<and> wEvents (fst r0) = wEvents w @ evs \<and>
        outcome_means j oc evs (snd r0) \<and> (x = None \<longleftrightarrow> oc = ''completed'') \<and> (snd r0 \<noteq> None \<longrightarrow> x = snd r0))"

lemma traced_asI:
  assumes "wEvents w' = wEvents w @ evs" "outcome_means j oc evs e" "x = None \<longleftrightarrow> oc = ''completed''" "e \<noteq> None \<Longrightarrow> x = e"
  shows "traced_as j w sp (w', e, setOutcome oc x sp) (w', e)"
  unfolding traced_as_def by (intro exI [of _ evs] exI [of _ oc] exI [of _ x]) (use assms in simp)

lemma traced_deadLetter_as:
  assumes "wEvents v = wEvents w @ evs" "set evs \<inter> {JobCompleted j, JobRetried j, JobDeadLettered j} = {}"
  shows "traced_as j w sp (traced_deadLetter B j reason v sp) (Worker_deadLetter B j reason v)"
proof (cases "bDeadLetter B j reason (wBackend v)")
  case (Pair b r)
  show ?thesis
  proof (cases r)
    case None
    with Pair assms show ?thesis
      by (auto simp: traced_deadLetter_def Worker_deadLetter_def emit_def intro!: traced_asI [of _ _ "evs @ [JobDeadLettered j]"])
  next
    case (Some e)
    with Pair assms show ?thesis
      by (simp add: traced_deadLetter_def Worker_deadLetter_def traced_asI [of _ _ evs])
  qed
qed

lemma handleOne_settled:
  "handleOne B cfg hs S ack cause j w =
     (case run_job B cfg hs S cause j w of
        (w1, Settled e) \<Rightarrow> (w1, e)
      | (w1, NeedsAck) \<Rightarrow> (case ack j (wBackend w1) of
            (b, None) \<Rightarrow> (emit (JobCompleted j) (w1\<lparr>wBackend := b\<rparr>), None) | (b, Some e) \<Rightarrow> (w1\<lparr>wBackend := b\<rparr>, Some e)))"
  by (simp add: handleOne_def after_ack_def split: prod.split outcome.split option.split)

lemma traced_handleOne_as:
  "traced_as j w (startProcessSpan extract ctx j (wcID cfg)) (traced_handleOne extract ctx B cfg hs S ack cause j w)
     (handleOne B cfg hs S ack cause j w)" (is "traced_as j w ?sp _ _")
proof -
  have dl: "traced_as j w ?sp (traced_deadLetter B j reason v ?sp) (Worker_deadLetter B j reason v)"
    if "v = w \<or> v = emit (JobFailed j b) (emit (JobStarted j) w)" for reason v b
    using that traced_deadLetter_as [of v w "[]" j] traced_deadLetter_as [of v w "[JobStarted j, JobFailed j b]" j]
    by (auto simp: emit_def)
  show ?thesis
  proof (cases "Token (Lease j) > MaxDeliveries cfg")
    case True
    then show ?thesis using dl [of w]
      by (simp add: traced_handleOne_def handleOne_settled run_job_def Let_def case_prod_beta)
  next
    case False
    show ?thesis
    proof (cases "hs (Task j)")
      case None
      then show ?thesis using False dl [of w]
        by (simp add: traced_handleOne_def handleOne_settled run_job_def Let_def case_prod_beta traced_asI [of _ _ "[]"])
    next
      case (Some h)
      note run = False Some traced_handleOne_def handleOne_settled run_job_def Let_def emit_def
      let ?w2 = "emit (JobFailed j (Retryable (h j))) (emit (JobStarted j) w)"
      let ?at = "sNow S + NextDelay (sRound S) (sRandom S) (wcRetryPolicy cfg) (wrap64 (Attempt j + 1))"
      obtain b1 r1 b2 r2 where calls: "ack j (wBackend w) = (b1, r1)" "bRetry B j ?at (wBackend w) = (b2, r2)"
        by fastforce
      consider (abandoned) ca where "cause = Some ca"
        | (acks) "cause = None" "Err (h j) = None"
        | (dead) err where "cause = None" "Err (h j) = Some err" "\<not> Retryable (h j) \<or> ShouldDeadLetter j"
        | (retries) err where "cause = None" "Err (h j) = Some err" "Retryable (h j)" "\<not> ShouldDeadLetter j"
        by (cases cause; cases "Err (h j)") blast+
      then show ?thesis
      proof cases
        case abandoned
        then show ?thesis by (simp add: run traced_asI [of _ _ "[JobStarted j]"])
      next
        case acks
        then show ?thesis
          by (cases r1) (simp_all add: run calls traced_asI [of _ _ "[JobStarted j]"] traced_asI [of _ _ "[JobStarted j, JobCompleted j]"])
      next
        case (dead err)
        with dl [of ?w2 "Retryable (h j)" "Error err"] show ?thesis
          by (simp add: run case_prod_beta)
      next
        case (retries err)
        note run = run calls retries
        show ?thesis
        proof (cases r2)
          case None
          then show ?thesis
            by (auto simp: run intro!: traced_asI [of _ _ "[JobStarted j, JobFailed j True, JobRetried j]"])
        qed (simp add: run traced_asI [of _ _ "[JobStarted j, JobFailed j True]"])
      qed
    qed
  qed
qed

text \<open>
  C24. Tracing is faithful and does not interfere: a traced run does and returns exactly what
  the run does, and its span gets exactly one outcome, which agrees with the metrics events and
  the result. It is completed, retried or dead-lettered if and only if that is how the run
  settled the job, and a run that returns an error is marked skipped, abandoned or failed.
\<close>

theorem traced_run_faithful:
  "\<exists>w' e sp evs oc. traced_handleOne extract ctx B cfg hs S ack cause j w = (w', e, sp) \<and>
     handleOne B cfg hs S ack cause j w = (w', e) \<and> wEvents w' = wEvents w @ evs \<and>
     outcomes sp = [AString oc] \<and> outcome_means j oc evs e \<and> spParent sp = extract ctx (traceCarrier_Get j) \<and>
     (spStatus sp = None \<longleftrightarrow> oc = ''completed'') \<and> (e = None \<or> spErrors sp = [the e])"
proof -
  obtain w' e where h: "handleOne B cfg hs S ack cause j w = (w', e)" by fastforce
  obtain evs oc x where
    "traced_handleOne extract ctx B cfg hs S ack cause j w = (w', e, setOutcome oc x (startProcessSpan extract ctx j (wcID cfg)))"
    "wEvents w' = wEvents w @ evs" "outcome_means j oc evs e" "x = None \<longleftrightarrow> oc = ''completed''" "e \<noteq> None \<longrightarrow> x = e"
    using traced_handleOne_as [of j w "extract" ctx cfg B hs S ack cause] by (auto simp: traced_as_def h simp del: outcome_means.simps)
  with h show ?thesis
    by (auto simp: setOutcome_def startProcessSpan_def outcomes_def Let_def simp del: outcome_means.simps split: option.split)
qed

section \<open>A traced enqueue\<close>

definition traced_Enqueue ::
  "'c \<Rightarrow> 'b backend \<Rightarrow> ('p \<Rightarrow> err + string) \<Rightarrow> (job \<Rightarrow> (string \<times> string) list) \<Rightarrow> string \<Rightarrow> 'p \<Rightarrow> EnqueueOptions \<Rightarrow>
   'b queue \<Rightarrow> 'b queue \<times> (err + string) \<times> 'c span option" where
  [go_defs]: "traced_Enqueue ctx B marshalPayload inject task payload opts q0 =
     (case draw marshalPayload payload q0 of ((seed, now), q) \<Rightarrow>
      case newJob marshalPayload now seed task payload opts of
        Inl e \<Rightarrow> (q, Inl e, None)
      | Inr j0 \<Rightarrow>
          (let j = startEnqueueSpan inject j0; sp = enqueue_span ctx j0
           in case bEnqueue B j (qBackend q) of
                (b, Inl e) \<Rightarrow> (q\<lparr>qBackend := b\<rparr>, Inl e, Some (setOutcome ''failed'' (Some e) sp))
              | (b, Inr i) \<Rightarrow>
                  if i = ID j then
                    (q\<lparr>qBackend := b, qEvents := qEvents q @ [JobEnqueued j]\<rparr>, Inr i, Some (setOutcome ''enqueued'' None sp))
                  else (q\<lparr>qBackend := b\<rparr>, Inr i, Some (setOutcome ''duplicate'' None sp))))"

text \<open>
  The producer's side of the same: a traced enqueue does and returns what the enqueue does; if
  the request is valid its span gets exactly one outcome, failed if and only if the call
  returned an error, and enqueued if and only if the job was reported as enqueued.
\<close>

theorem traced_enqueue_faithful:
  "\<exists>q' r sp. traced_Enqueue ctx B marshalPayload inject task payload opts q = (q', r, sp) \<and>
     Queue_Enqueue B marshalPayload inject task payload opts q = (q', r) \<and>
     (case sp of
        None \<Rightarrow> \<exists>e. r = Inl e \<and> qBackend q' = qBackend q \<and> qEvents q' = qEvents q
      | Some s \<Rightarrow> \<exists>oc. outcomes s = [AString oc] \<and> oc \<in> {''failed'', ''enqueued'', ''duplicate''} \<and>
          (oc = ''failed'' \<longleftrightarrow> (\<exists>e. r = Inl e)) \<and> (oc = ''enqueued'' \<longleftrightarrow> qEvents q' \<noteq> qEvents q))"
proof -
  obtain seed now q1 where d: "draw marshalPayload payload q = ((seed, now), q1)"
    by (metis prod.exhaust)
  then have q1: "qBackend q1 = qBackend q" "qEvents q1 = qEvents q"
    by (auto simp: draw_def split: sum.splits list.splits)
  show ?thesis
  proof (cases "newJob marshalPayload now seed task payload opts")
    case (Inl e)
    with d q1 show ?thesis by (simp add: traced_Enqueue_def Queue_Enqueue_def)
  next
    case (Inr j0)
    obtain b r where "bEnqueue B (startEnqueueSpan inject j0) (qBackend q1) = (b, r)"
      by fastforce
    with Inr d q1 show ?thesis
      by (cases r) (auto simp: traced_Enqueue_def Queue_Enqueue_def Let_def)
  qed
qed

section \<open>One trace from enqueue to run\<close>

text \<open>
  What the propagator promises: of the pairs it writes for a context, the one under
  \<^verbatim>\<open>traceparent\<close> identifies the context for a carrier that has only this pair.
\<close>

locale propagator =
  fixes into :: "'c \<Rightarrow> (string \<times> string) list" and from_carrier :: "'c \<Rightarrow> (string \<Rightarrow> string) \<Rightarrow> 'c" and ident :: "'c \<Rightarrow> 'i"
    and valid :: "'c \<Rightarrow> bool"
  assumes keys_distinct: "distinct (map fst (into sc))"
    and carried: "valid sc \<Longrightarrow> \<exists>v. map_of (into sc) ''traceparent'' = Some v \<and>
      (\<forall>base get. get ''traceparent'' = v \<longrightarrow> ident (from_carrier base get) = ident sc)"
begin

lemma fold_set:
  "distinct (map fst ps) \<Longrightarrow>
   TraceParent (fold traceCarrier_Set ps j) = (case map_of ps ''traceparent'' of Some v \<Rightarrow> v | None \<Rightarrow> TraceParent j)"
proof (induction ps arbitrary: j)
  case (Cons p ps)
  have "map_of ps ''traceparent'' = None" if "fst p = ''traceparent''"
    using Cons.prems that by (auto simp: map_of_eq_None_iff)
  with Cons show ?case
    by (cases p) (auto simp: traceCarrier_Set_def split: option.splits)
qed simp

lemma same_trace:
  assumes "valid sc" "TraceParent k = TraceParent (startEnqueueSpan (\<lambda>_. into sc) j)"
  shows "ident (spParent (startProcessSpan from_carrier ctx k wid)) = ident sc"
proof -
  obtain v where v: "map_of (into sc) ''traceparent'' = Some v"
      "\<And>base get. get ''traceparent'' = v \<Longrightarrow> ident (from_carrier base get) = ident sc"
    using carried [OF assms(1)] by blast
  have "traceCarrier_Get k ''traceparent'' = v"
    using assms(2) fold_set [OF keys_distinct, of sc j] by (simp add: traceCarrier_Get_def startEnqueueSpan_def v(1))
  from v(2) [of "traceCarrier_Get k", OF this] show ?thesis
    by (simp add: startProcessSpan_def)
qed

end

text \<open>The W3C format: version, 32 digits of trace, 16 of span, flags.\<close>

definition w3c_inject :: "string \<times> string \<Rightarrow> (string \<times> string) list" where
  "w3c_inject sc = [(''traceparent'', ''00-'' @ fst sc @ ''-'' @ snd sc @ ''-01'')]"

definition w3c_extract :: "string \<times> string \<Rightarrow> (string \<Rightarrow> string) \<Rightarrow> string \<times> string" where
  "w3c_extract base get = (let v = get ''traceparent'' in if length v < 55 then base else (take 32 (drop 3 v), take 16 (drop 36 v)))"

definition w3c_valid :: "string \<times> string \<Rightarrow> bool" where
  "w3c_valid sc \<longleftrightarrow> length (fst sc) = 32 \<and> length (snd sc) = 16"

interpretation w3c: propagator w3c_inject w3c_extract id w3c_valid
  by unfold_locales (auto simp: w3c_inject_def w3c_extract_def w3c_valid_def Let_def)

text \<open>
  One trace shows the whole life of a job: the parent of the span of every run, of any
  delivery of a job parsed back from what the store wrote for it, is the span that enqueued the
  job, for every propagator whose \<^verbatim>\<open>traceparent\<close> identifies a context.
\<close>

theorem run_joins_enqueue_trace:
  assumes "propagator into from_carrier ident valid" "codec_laws C" "valid sc"
    and "j = startEnqueueSpan (\<lambda>_. into sc) j0" "storable j" "utf8_job j"
    and "parseJob C x (flatToMap (flatten (cjson_decode C (marshal C (jobFields C (j\<lparr>Attempt := a\<rparr>)))))) l = Inr k" "is_int64 a"
  shows "ident (spParent (startProcessSpan from_carrier ctx k wid)) = ident sc"
proof (rule propagator.same_trace [OF assms(1,3)])
  have "storable (j\<lparr>Attempt := a\<rparr>)" "utf8_job (j\<lparr>Attempt := a\<rparr>)"
    using assms(5,6,8) by (simp_all add: storable_def utf8_job_def)
  from stored_job_parses_back [OF assms(2) this, of x l] assms(7) have "k = j\<lparr>Attempt := a, IdempotencyKey := [], Lease := l\<rparr>"
    by simp
  then show "TraceParent k = TraceParent (startEnqueueSpan (\<lambda>_. into sc) j0)"
    using assms(4) by simp
qed

definition demo_context :: "string \<times> string" where
  "demo_context = (''4bf92f3577b34da6a3ce929d0e0e4736'', ''00f067aa0ba902b7'')"

definition traced_demo :: "err + job" where
  "traced_demo = parseJob ref_codec ''1-0'' (flatToMap (flatten (cjson_decode ref_codec (marshal ref_codec (jobFields ref_codec
     ((startEnqueueSpan (\<lambda>_. w3c_inject demo_context) demo_job)\<lparr>Attempt := 2\<rparr>)))))) no_lease"

theorem run_joins_enqueue_trace_witness:
  "\<exists>k. traced_demo = Inr k \<and> spParent (startProcessSpan w3c_extract ([], []) k ''w1'') = demo_context"
proof -
  let ?j = "startEnqueueSpan (\<lambda>_. w3c_inject demo_context) demo_job"
  have ok: "storable ?j" "is_int64 2"
    using demo_job_ok(1) by (simp_all add: storable_def is_int64_def)
  have "utf8_ok (TraceParent ?j)"
    by code_simp
  then have u: "utf8_job ?j"
    using demo_job_ok(2) unfolding utf8_job_def startEnqueueSpan_frame by blast
  have "case traced_demo of Inl e \<Rightarrow> False | Inr k \<Rightarrow> True"
    by code_simp
  then obtain k where k: "traced_demo = Inr k"
    by (auto split: sum.splits)
  have "w3c_valid demo_context"
    by (simp add: w3c_valid_def demo_context_def)
  from run_joins_enqueue_trace [OF w3c.propagator_axioms ref_codec.codec_laws_axioms this refl ok(1) u k [unfolded traced_demo_def] ok(2)] k
  show ?thesis by (intro exI [of _ k]) simp
qed

end
