(* ===== verification/Sharded.thy ===== *)
theory Sharded
  imports Backend
begin

unbundle bit_operations_syntax

text \<open>
  \<^verbatim>\<open>redisstream/sharded.go\<close>: a backend spread over partitions. Every partition is a store
  with its own configuration; the keys of a partition share one hash slot, so a partition's
  \<open>srv\<close> is the part of the Redis deployment that holds its slot, and the partitions do not
  share state. The long polls are processes of their own: \<open>poller\<close> is the position of a
  partition's poll goroutine, \<open>poll_check\<close> and \<open>poll_read\<close> are its atomic steps, and a
  list of \<open>wait_event\<close>s says how they interleave with a \<^verbatim>\<open>Claim\<close> that waits.
  Goroutines that work on different partitions in parallel are run in the order of the
  argument \<open>sched\<close>.
\<close>

section \<open>State\<close>

record ShardedConfig =
  Addrs :: "string list"
  Cluster :: bool
  Partitions :: int
  Prefix :: string
  shDedupeWindow :: int
  shConsumerIdleTimeout :: int

record pollArgs =
  paWorker :: string
  paCount :: int
  paWait :: int

text \<open>A poll goroutine: not running, about to look whether it is needed, or reading.\<close>

datatype poller = NoPoller | AtTop | Reading pollArgs

record 'r sharded =
  sConfigs :: "Config list"
  sStores :: "'r store list"
  enqueueNext :: nat
  claimNext :: nat
  sClosed :: bool
  arrived :: bool
  waiting :: int
  pollers :: "poller list"
  pollWith :: pollArgs
  buffered :: "job list"
  shSeeds :: "8 word list list"

abbreviation parts :: "'r sharded \<Rightarrow> nat" where
  "parts s \<equiv> length (sStores s)"

text \<open>A call on the store of partition \<open>p\<close>.\<close>

definition with_part :: "nat \<Rightarrow> (Config \<Rightarrow> 'r store \<Rightarrow> 'r store \<times> 'a) \<Rightarrow> 'r sharded \<Rightarrow> 'r sharded \<times> 'a" where
  "with_part p f s =
     (case f (sConfigs s ! p) (sStores s ! p) of (st, x) \<Rightarrow> (s\<lparr>sStores := (sStores s)[p := st]\<rparr>, x))"

definition partition_error :: "nat \<Rightarrow> err \<Rightarrow> err" where
  "partition_error p e = Wrapped (''partition '' @ itoa (int p) @ '': '') e"

section \<open>Construction\<close>

definition sharded_defaults :: "ShardedConfig \<Rightarrow> ShardedConfig" where
  "sharded_defaults config =
     (let c1 = config\<lparr>Addrs := (if Addrs config = [] then [''localhost:6379''] else Addrs config)\<rparr>;
          c2 = c1\<lparr>Partitions := (if Partitions c1 \<le> 0 then 16 else Partitions c1)\<rparr>
      in c2\<lparr>Prefix := (if Prefix c2 = [] then ''dtq'' else Prefix c2)\<rparr>)"

definition partition_tag :: "string \<Rightarrow> nat \<Rightarrow> string" where
  "partition_tag prefix p = prefix @ '':{p'' @ itoa (int p) @ ''}:''"

definition partition_config :: "ShardedConfig \<Rightarrow> nat \<Rightarrow> Config" where
  "partition_config config p =
     (let tag = partition_tag (Prefix config) p
      in \<lparr>Addr = [], Stream = tag @ ''jobs'', Group = Prefix config @ '':workers'', RetryKey = tag @ ''retry'',
          DeadLetter = tag @ ''dead'', DedupePrefix = tag @ ''dedupe:'', DedupeWindow = shDedupeWindow config,
          ConsumerIdleTimeout = shConsumerIdleTimeout config\<rparr>)"

text \<open>The partitions are created in order until one fails; \<open>world\<close> holds their stores.\<close>

fun new_parts :: "'r redis \<Rightarrow> ShardedConfig \<Rightarrow> nat list \<Rightarrow> (nat \<Rightarrow> 'r store) \<Rightarrow> (nat \<Rightarrow> 'r store) \<times> (err + Config list)" where
  "new_parts R config [] world = (world, Inr [])"
| "new_parts R config (p # ps) world =
     (case NewWithClient R (partition_config config p) (world p) of
        (st, Inl e) \<Rightarrow> (world(p := st), Inl (partition_error p e))
      | (st, Inr c) \<Rightarrow>
          (case new_parts R config ps (world(p := st)) of
             (world', Inl e) \<Rightarrow> (world', Inl e)
           | (world', Inr cs) \<Rightarrow> (world', Inr (c # cs))))"

definition NewSharded :: "'r redis \<Rightarrow> ShardedConfig \<Rightarrow> (nat \<Rightarrow> 'r store) \<Rightarrow> (nat \<Rightarrow> 'r store) \<times> (err + 'r sharded)" where
  [go_defs]: "NewSharded R config0 world =
     (let config = sharded_defaults config0; n = nat (Partitions config)
      in case new_parts R config [0..<n] world of
           (world', Inl e) \<Rightarrow> (world', Inl e)
         | (world', Inr cs) \<Rightarrow>
             (world', Inr \<lparr>sConfigs = cs, sStores = map world' [0..<n], enqueueNext = 0, claimNext = 0, sClosed = False,
                           arrived = False, waiting = 0, pollers = replicate n NoPoller,
                           pollWith = \<lparr>paWorker = [], paCount = 0, paWait = 0\<rparr>, buffered = [], shSeeds = []\<rparr>))"

section \<open>Routing\<close>

text \<open>FNV-1a on 32 bits, as \<^verbatim>\<open>hash/fnv\<close> computes it.\<close>

definition fnv32a :: "string \<Rightarrow> 32 word" where
  "fnv32a s = fold (\<lambda>ch h. (h XOR word_of_nat (of_char ch)) * 16777619) s 2166136261"

definition route :: "job \<Rightarrow> 'r sharded \<Rightarrow> 'r sharded \<times> nat" where
  [go_defs]: "route j s =
     (if IdempotencyKey j \<noteq> [] then (s, unat (fnv32a (IdempotencyKey j)) mod parts s)
      else let n = Suc (enqueueNext s) mod 2 ^ 64 in (s\<lparr>enqueueNext := n\<rparr>, n mod parts s))"

definition partOf :: "job \<Rightarrow> 'r sharded \<Rightarrow> err + nat" where
  [go_defs]: "partOf j s =
     (let p = Partition (Lease j)
      in if p < 0 \<or> p \<ge> int (parts s)
         then Inl (ErrorString (''job '' @ ID j @ '' has unknown partition '' @ itoa p))
         else Inr (nat p))"

definition tag_job :: "nat \<Rightarrow> job \<Rightarrow> job" where
  "tag_job p j = j\<lparr>Lease := (Lease j)\<lparr>Partition := int p\<rparr>\<rparr>"

definition tag :: "job list \<Rightarrow> nat \<Rightarrow> job list" where
  [go_defs]: "tag js p = map (tag_job p) js"

section \<open>Enqueue\<close>

definition Sharded_Enqueue :: "'r redis \<Rightarrow> codec \<Rightarrow> job \<Rightarrow> 'r sharded \<Rightarrow> 'r sharded \<times> (err + string)" where
  [go_defs]: "Sharded_Enqueue R C j s = (case route j s of (s', p) \<Rightarrow> with_part p (\<lambda>c. Store_Enqueue R C c j) s')"

definition sharded_id :: "job \<Rightarrow> 'r sharded \<Rightarrow> job \<times> 'r sharded" where
  "sharded_id j s =
     (if ID j = [] then
        (case shSeeds s of
           [] \<Rightarrow> (j\<lparr>ID := NewJobID []\<rparr>, s)
         | b # bs \<Rightarrow> (j\<lparr>ID := NewJobID b\<rparr>, s\<lparr>shSeeds := bs\<rparr>))
      else (j, s))"

fun route_all :: "job list \<Rightarrow> 'r sharded \<Rightarrow> 'r sharded \<times> job list \<times> nat list" where
  "route_all [] s = (s, [], [])"
| "route_all (j0 # js) s =
     (case sharded_id j0 s of (j, s1) \<Rightarrow>
      case route j s1 of (s2, p) \<Rightarrow>
      case route_all js s2 of (s3, js', ps) \<Rightarrow> (s3, j # js', p # ps))"

text \<open>The indexes of the jobs routed to partition \<open>p\<close>.\<close>

definition group_idx :: "nat list \<Rightarrow> nat \<Rightarrow> nat list" where
  "group_idx ps p = filter (\<lambda>i. ps ! i = p) [0..<length ps]"

definition put_all :: "nat list \<Rightarrow> 'a list \<Rightarrow> 'a list \<Rightarrow> 'a list" where
  "put_all idx xs ys = fold (\<lambda>(i, x) zs. zs[i := x]) (zip idx xs) ys"

fun enqueue_groups ::
  "'r redis \<Rightarrow> codec \<Rightarrow> job list \<Rightarrow> nat list \<Rightarrow> nat list \<Rightarrow> 'r sharded \<Rightarrow> string list \<Rightarrow> err option \<Rightarrow>
   'r sharded \<times> string list \<times> err option" where
  "enqueue_groups R C jobs ps [] s ids firstErr = (s, ids, firstErr)"
| "enqueue_groups R C jobs ps (p # rest) s ids firstErr =
     (let idx = group_idx ps p
      in case with_part p (\<lambda>c. Store_EnqueueBatch R C c (map ((!) jobs) idx)) s of
           (s', Inl e) \<Rightarrow>
             enqueue_groups R C jobs ps rest s' ids (case firstErr of None \<Rightarrow> Some (partition_error p e) | Some x \<Rightarrow> Some x)
         | (s', Inr got) \<Rightarrow> enqueue_groups R C jobs ps rest s' (put_all idx got ids) firstErr)"

definition Sharded_EnqueueBatch ::
  "'r redis \<Rightarrow> codec \<Rightarrow> nat list \<Rightarrow> job list \<Rightarrow> 'r sharded \<Rightarrow> 'r sharded \<times> string list \<times> err option" where
  [go_defs]: "Sharded_EnqueueBatch R C sched jobs0 s =
     (case route_all jobs0 s of (s', jobs, ps) \<Rightarrow>
        enqueue_groups R C jobs ps (filter (\<lambda>p. p \<in> set ps) sched) s' (replicate (length jobs) []) None)"

section \<open>Claiming\<close>

definition takeBuffered :: "int \<Rightarrow> 'r sharded \<Rightarrow> 'r sharded \<times> job list" where
  [go_defs]: "takeBuffered limit s =
     (let n = nat (min limit (int (length (buffered s))))
      in if n = 0 then (s, []) else (s\<lparr>buffered := drop n (buffered s)\<rparr>, take n (buffered s)))"

text \<open>The order in which a sweep that starts at \<open>start\<close> visits the partitions.\<close>

definition sweep_order :: "nat \<Rightarrow> nat \<Rightarrow> nat list" where
  "sweep_order n start = map (\<lambda>i. (start + i) mod n) [0..<n]"

fun sweep ::
  "(int \<Rightarrow> Config \<Rightarrow> 'r store \<Rightarrow> 'r store \<times> (err + job list)) \<Rightarrow> int \<Rightarrow> nat list \<Rightarrow> job list \<Rightarrow> 'r sharded \<Rightarrow>
   'r sharded \<times> job list \<times> err option" where
  "sweep f limit [] jobs s = (s, jobs, None)"
| "sweep f limit (p # ps) jobs s =
     (if int (length jobs) < limit then
        (case with_part p (f (limit - int (length jobs))) s of
           (s', Inl e) \<Rightarrow> (s', jobs, Some (partition_error p e))
         | (s', Inr got) \<Rightarrow> sweep f limit ps (jobs @ tag got p) s')
      else (s, jobs, None))"

subsection \<open>Long polls\<close>

definition set_poller :: "nat \<Rightarrow> poller \<Rightarrow> 'r sharded \<Rightarrow> 'r sharded" where
  "set_poller p x s = s\<lparr>pollers := (pollers s)[p := x]\<rparr>"

definition poll_check :: "nat \<Rightarrow> 'r sharded \<Rightarrow> 'r sharded" where
  [go_defs]: "poll_check p s =
     (if p < length (pollers s) \<and> pollers s ! p = AtTop then
        if waiting s = 0 \<or> sClosed s then set_poller p NoPoller s else set_poller p (Reading (pollWith s)) s
      else s)"

definition poll_read :: "'r redis \<Rightarrow> codec \<Rightarrow> nat \<Rightarrow> 'r sharded \<Rightarrow> 'r sharded" where
  [go_defs]: "poll_read R C p s =
     (if p < length (pollers s) then
        case pollers s ! p of
          Reading args \<Rightarrow>
            (case with_part p (\<lambda>c. claimBlocking R C c (sClosed s) (paWorker args) (paCount args)) s of
               (s', Inl e) \<Rightarrow> set_poller p AtTop s'
             | (s', Inr got) \<Rightarrow>
                 if got = [] then set_poller p AtTop s'
                 else (set_poller p NoPoller s')\<lparr>buffered := buffered s' @ tag got p, arrived := True\<rparr>)
        | _ \<Rightarrow> s
      else s)"

datatype wait_event = Checks nat | Reads nat | Signalled

text \<open>
  The wait ends when jobs have arrived, or, at the end of the events, when the timer fires,
  the context is done or the backend is closed.
\<close>

fun wait_loop :: "'r redis \<Rightarrow> codec \<Rightarrow> int \<Rightarrow> wait_event list \<Rightarrow> 'r sharded \<Rightarrow> 'r sharded \<times> job list" where
  "wait_loop R C limit [] s = takeBuffered limit s"
| "wait_loop R C limit (Checks p # evs) s = wait_loop R C limit evs (poll_check p s)"
| "wait_loop R C limit (Reads p # evs) s = wait_loop R C limit evs (poll_read R C p s)"
| "wait_loop R C limit (Signalled # evs) s =
     (if arrived s then
        (case takeBuffered limit (s\<lparr>arrived := False\<rparr>) of
           (s', jobs) \<Rightarrow> if jobs \<noteq> [] then (s', jobs) else wait_loop R C limit evs s')
      else wait_loop R C limit evs s)"

definition start_pollers :: "string \<Rightarrow> int \<Rightarrow> int \<Rightarrow> 'r sharded \<Rightarrow> 'r sharded" where
  "start_pollers workerID limit wait s =
     s\<lparr>waiting := waiting s + 1,
       pollWith := \<lparr>paWorker = workerID, paCount = max 1 ((limit + int (parts s) - 1) div int (parts s)), paWait = wait\<rparr>,
       pollers := map (\<lambda>x. if x = NoPoller then AtTop else x) (pollers s)\<rparr>"

definition waitForJobs ::
  "'r redis \<Rightarrow> codec \<Rightarrow> wait_event list \<Rightarrow> string \<Rightarrow> int \<Rightarrow> int \<Rightarrow> 'r sharded \<Rightarrow> 'r sharded \<times> job list" where
  [go_defs]: "waitForJobs R C evs workerID limit wait s =
     (if sClosed s then (s, [])
      else case wait_loop R C limit evs (start_pollers workerID limit wait s) of
             (s', jobs) \<Rightarrow> (s'\<lparr>waiting := waiting s' - 1\<rparr>, jobs))"

definition Sharded_Claim ::
  "'r redis \<Rightarrow> codec \<Rightarrow> wait_event list \<Rightarrow> string \<Rightarrow> int \<Rightarrow> int \<Rightarrow> 'r sharded \<Rightarrow> 'r sharded \<times> job list \<times> err option" where
  [go_defs]: "Sharded_Claim R C evs workerID limit wait s0 =
     (case takeBuffered limit s0 of (s1, from_buffer) \<Rightarrow>
        let start = Suc (claimNext s1) mod 2 ^ 64;
            s2 = s1\<lparr>claimNext := start\<rparr>
        in case sweep (\<lambda>n c. claimReady R C c workerID n) limit (sweep_order (parts s2) start) from_buffer s2 of
             (s3, jobs, Some e) \<Rightarrow> (s3, jobs, Some e)
           | (s3, jobs, None) \<Rightarrow>
               if jobs \<noteq> [] \<or> wait \<le> 0 then (s3, jobs, None)
               else (case waitForJobs R C evs workerID limit wait s3 of (s4, js) \<Rightarrow> (s4, js, None)))"

definition Sharded_RecoverExpired ::
  "'r redis \<Rightarrow> codec \<Rightarrow> int \<Rightarrow> string \<Rightarrow> int \<Rightarrow> 'r sharded \<Rightarrow> 'r sharded \<times> job list \<times> err option" where
  [go_defs]: "Sharded_RecoverExpired R C visibilityTimeout workerID limit s =
     sweep (\<lambda>n c. Store_RecoverExpired R C c visibilityTimeout workerID n) limit (sweep_order (parts s) (claimNext s)) [] s"

section \<open>Settling\<close>

definition on_part :: "job \<Rightarrow> (Config \<Rightarrow> 'r store \<Rightarrow> 'r store \<times> err option) \<Rightarrow> 'r sharded \<Rightarrow> 'r sharded \<times> err option" where
  "on_part j f s = (case partOf j s of Inl e \<Rightarrow> (s, Some e) | Inr p \<Rightarrow> with_part p f s)"

definition Sharded_Extend :: "'r redis \<Rightarrow> job \<Rightarrow> 'r sharded \<Rightarrow> 'r sharded \<times> err option" where
  [go_defs]: "Sharded_Extend R j = on_part j (\<lambda>c. Store_Extend R c j)"

definition Sharded_Ack :: "'r redis \<Rightarrow> job \<Rightarrow> 'r sharded \<Rightarrow> 'r sharded \<times> err option" where
  [go_defs]: "Sharded_Ack R j = on_part j (\<lambda>c. Store_Ack R c j)"

definition Sharded_Retry :: "'r redis \<Rightarrow> codec \<Rightarrow> job \<Rightarrow> int \<Rightarrow> 'r sharded \<Rightarrow> 'r sharded \<times> err option" where
  [go_defs]: "Sharded_Retry R C j nextRunAt = on_part j (\<lambda>c. Store_Retry R C c j nextRunAt)"

definition Sharded_DeadLetter :: "'r redis \<Rightarrow> codec \<Rightarrow> job \<Rightarrow> string \<Rightarrow> 'r sharded \<Rightarrow> 'r sharded \<times> err option" where
  [go_defs]: "Sharded_DeadLetter R C j reason = on_part j (\<lambda>c. Store_DeadLetter R C c j reason)"

text \<open>
  One error per job, in the order of the jobs: an unknown partition is answered at once, the
  others by the call on their partition's group.
\<close>

definition part_indexes :: "job list \<Rightarrow> 'r sharded \<Rightarrow> nat \<Rightarrow> nat list" where
  "part_indexes jobs s p = filter (\<lambda>i. partOf (jobs ! i) s = Inr p) [0..<length jobs]"

fun run_groups ::
  "(Config \<Rightarrow> job list \<Rightarrow> 'r store \<Rightarrow> 'r store \<times> err option list) \<Rightarrow> job list \<Rightarrow> (nat \<Rightarrow> nat list) \<Rightarrow> nat list \<Rightarrow>
   'r sharded \<Rightarrow> err option list \<Rightarrow> 'r sharded \<times> err option list" where
  "run_groups f jobs idx [] s errs = (s, errs)"
| "run_groups f jobs idx (p # ps) s errs =
     (case with_part p (\<lambda>c. f c (map ((!) jobs) (idx p))) s of
        (s', es) \<Rightarrow> run_groups f jobs idx ps s' (put_all (idx p) es errs))"

definition perPartition ::
  "nat list \<Rightarrow> job list \<Rightarrow> (Config \<Rightarrow> job list \<Rightarrow> 'r store \<Rightarrow> 'r store \<times> err option list) \<Rightarrow> 'r sharded \<Rightarrow>
   'r sharded \<times> err option list" where
  [go_defs]: "perPartition sched jobs f s =
     (let errs = map (\<lambda>j. case partOf j s of Inl e \<Rightarrow> Some e | Inr _ \<Rightarrow> None) jobs;
          idx = part_indexes jobs s
      in run_groups f jobs idx (filter (\<lambda>p. idx p \<noteq> []) sched) s errs)"

definition Sharded_AckBatch :: "'r redis \<Rightarrow> nat list \<Rightarrow> job list \<Rightarrow> 'r sharded \<Rightarrow> 'r sharded \<times> err option list" where
  [go_defs]: "Sharded_AckBatch R sched jobs = perPartition sched jobs (Store_AckBatch R)"

definition is_lost :: "err option \<Rightarrow> bool" where
  "is_lost e = (case e of None \<Rightarrow> False | Some x \<Rightarrow> errors_Is x ErrLeaseLost)"

definition Sharded_ExtendBatch :: "'r redis \<Rightarrow> nat list \<Rightarrow> job list \<Rightarrow> 'r sharded \<Rightarrow> 'r sharded \<times> err option list" where
  [go_defs]: "Sharded_ExtendBatch R sched jobs s =
     (let buf = buffered s
      in case perPartition sched (jobs @ buf) (Store_ExtendBatch R) s of
           (s', errs) \<Rightarrow>
             (let lost = map (Lease \<circ> fst) (filter (\<lambda>(j, e). is_lost e) (zip buf (drop (length jobs) errs)))
              in (s'\<lparr>buffered := filter (\<lambda>j. Lease j \<notin> set lost) (buffered s')\<rparr>, take (length jobs) errs)))"

section \<open>Maintenance, statistics and shutdown\<close>

fun deregister_parts :: "'r redis \<Rightarrow> string \<Rightarrow> nat list \<Rightarrow> 'r sharded \<Rightarrow> 'r sharded \<times> err option" where
  "deregister_parts R workerID [] s = (s, None)"
| "deregister_parts R workerID (p # ps) s =
     (case with_part p (\<lambda>c. Store_Deregister R c workerID) s of
        (s', Some e) \<Rightarrow> (s', Some (partition_error p e))
      | (s', None) \<Rightarrow> deregister_parts R workerID ps s')"

definition Sharded_Deregister :: "'r redis \<Rightarrow> string \<Rightarrow> 'r sharded \<Rightarrow> 'r sharded \<times> err option" where
  [go_defs]: "Sharded_Deregister R workerID s = deregister_parts R workerID [0..<parts s] s"

fun query_parts :: "'r redis \<Rightarrow> nat list \<Rightarrow> 'r sharded \<Rightarrow> 'r sharded \<times> (err + Stats) list" where
  "query_parts R [] s = (s, [])"
| "query_parts R (p # ps) s =
     (case with_part p (Store_Stats R) s of (s1, x) \<Rightarrow> (case query_parts R ps s1 of (s2, xs) \<Rightarrow> (s2, x # xs)))"

definition add_stats :: "Stats \<Rightarrow> Stats \<Rightarrow> Stats" where
  "add_stats a b =
     \<lparr>StreamLength = StreamLength a + StreamLength b, InFlight = InFlight a + InFlight b,
      DeadLetterDepth = DeadLetterDepth a + DeadLetterDepth b, RetryScheduled = RetryScheduled a + RetryScheduled b\<rparr>"

fun sum_stats :: "nat \<Rightarrow> (err + Stats) list \<Rightarrow> Stats \<Rightarrow> err + Stats" where
  "sum_stats p [] acc = Inr acc"
| "sum_stats p (Inl e # xs) acc = Inl (partition_error p e)"
| "sum_stats p (Inr st # xs) acc = sum_stats (Suc p) xs (add_stats acc st)"

definition no_stats :: Stats where
  "no_stats = \<lparr>StreamLength = 0, InFlight = 0, DeadLetterDepth = 0, RetryScheduled = 0\<rparr>"

definition Sharded_Stats :: "'r redis \<Rightarrow> 'r sharded \<Rightarrow> 'r sharded \<times> (err + Stats)" where
  [go_defs]: "Sharded_Stats R s = (case query_parts R [0..<parts s] s of (s', xs) \<Rightarrow> (s', sum_stats 0 xs no_stats))"

text \<open>
  \<^verbatim>\<open>Close\<close> marks the backend closed and then waits until every poll goroutine has seen it.
\<close>

definition begin_close :: "'r sharded \<Rightarrow> 'r sharded" where
  [go_defs]: "begin_close s = s\<lparr>sClosed := True\<rparr>"

section \<open>The sharded backend\<close>

definition sharded_backend :: "'r redis \<Rightarrow> codec \<Rightarrow> nat list \<Rightarrow> wait_event list \<Rightarrow> 'r sharded backend" where
  "sharded_backend R C sched evs =
     \<lparr>bEnqueue = Sharded_Enqueue R C, bClaim = Sharded_Claim R C evs, bRecoverExpired = Sharded_RecoverExpired R C,
      bExtend = Sharded_Extend R, bAck = Sharded_Ack R, bRetry = Sharded_Retry R C, bDeadLetter = Sharded_DeadLetter R C,
      bStats = Sharded_Stats R, bEnqueueBatch = Some (Sharded_EnqueueBatch R C sched),
      bAckBatch = Some (Sharded_AckBatch R sched), bExtendBatch = Some (Sharded_ExtendBatch R sched),
      bDeregister = Some (Sharded_Deregister R)\<rparr>"

end
