(* ===== verification/WorkerRun.thy ===== *)
theory WorkerRun
  imports Worker
begin

text \<open>
  \<^verbatim>\<open>Worker.Run\<close> with its goroutines, as a state machine. A task is one job goroutine: it
  runs its handler, may wait for the ack loop's answer, and finishes; its cancellation cause is
  set by the heartbeat or by the shutdown timeout. The steps are the start and the end of a
  fetch, the phases of the tasks, one batch of the ack loop, the ticks and the chunks of the
  heartbeat, the statistics reporter, the shutdown, and whatever other clients do to the
  backend in between. A handler may answer differently every time it is called. The calls to
  the metrics interface are recorded in the order the steps make them; a run's
  \<^verbatim>\<open>JobStarted\<close> is recorded with its return.
\<close>

section \<open>State\<close>

datatype phase = Running | AckQueued | Finished "err option"

record task =
  tId :: nat
  tJob :: job
  tPhase :: phase
  tCause :: "err option"

text \<open>
  \<open>rRunning\<close> is the map of running jobs by lease; an entry names the task that its
  \<^verbatim>\<open>cancel\<close> cancels. \<open>rAcks\<close> is the channel of the ack loop, \<open>rHeld\<close> the chunks the
  current heartbeat has still to renew, \<open>rLimit\<close> the limit of the fetch in progress.
\<close>

record 'b run =
  rWorker :: "'b worker"
  rTasks :: "task list"
  rRunning :: "(lease \<times> nat \<times> job) list"
  rInFlight :: int
  rNextId :: nat
  rAcks :: "(nat \<times> job) list"
  rHeld :: "(nat \<times> job) list list"
  rLimit :: "int option"
  rBackoff :: int
  rLastRecover :: int
  rStopped :: bool
  rDone :: bool

definition start_run :: "'b \<Rightarrow> 'b run" where
  "start_run b = \<lparr>rWorker = \<lparr>wBackend = b, wEvents = []\<rparr>, rTasks = [], rRunning = [], rInFlight = 0, rNextId = 0,
     rAcks = [], rHeld = [], rLimit = None, rBackoff = 0, rLastRecover = zero_time, rStopped = False, rDone = False\<rparr>"

definition Run :: "WorkerConfig \<Rightarrow> 'b \<Rightarrow> err + 'b run" where
  [go_defs]: "Run cfg b = (if wcID cfg = [] then Inl (ErrorString ''worker id is required'') else Inr (start_run b))"

section \<open>Operations of the loop\<close>

definition start_job :: "job \<Rightarrow> 'b run \<Rightarrow> 'b run" where
  [go_defs]: "start_job j r =
     r\<lparr>rRunning := (Lease j, rNextId r, j) # filter (\<lambda>p. fst p \<noteq> Lease j) (rRunning r), rInFlight := rInFlight r + 1,
       rTasks := rTasks r @ [\<lparr>tId = rNextId r, tJob = j, tPhase = Running, tCause = None\<rparr>], rNextId := Suc (rNextId r)\<rparr>"

definition set_backend :: "'b \<Rightarrow> 'b run \<Rightarrow> 'b run" where
  "set_backend b r = r\<lparr>rWorker := (rWorker r)\<lparr>wBackend := b\<rparr>\<rparr>"

abbreviation backend_of :: "'b run \<Rightarrow> 'b" where
  "backend_of r \<equiv> wBackend (rWorker r)"

definition free_slots :: "WorkerConfig \<Rightarrow> 'b run \<Rightarrow> int" where
  "free_slots cfg r = Concurrency cfg - rInFlight r"

text \<open>
  One iteration that fetches up to \<open>limit\<close> jobs: start what was leased, then back off on an
  error unless the worker is stopping.
\<close>

definition iterate :: "'b backend \<Rightarrow> WorkerConfig \<Rightarrow> int \<Rightarrow> int \<Rightarrow> int \<Rightarrow> 'b run \<Rightarrow> 'b run" where
  [go_defs]: "iterate B cfg now now' limit r =
     (case fetch B cfg now now' limit (rLastRecover r) (backend_of r) of
        (b, recovered_at, jobs, e) \<Rightarrow>
          (fold start_job jobs (set_backend b r))
            \<lparr>rLimit := None, rLastRecover := recovered_at,
             rBackoff := (if e = None then 0 else if rStopped r then rBackoff r else next_backoff cfg (rBackoff r))\<rparr>)"

definition set_phase :: "nat \<Rightarrow> phase \<Rightarrow> task list \<Rightarrow> task list" where
  "set_phase i p = map (\<lambda>t. if tId t = i then t\<lparr>tPhase := p\<rparr> else t)"

text \<open>A handler returns and its run settles the job, directly or through the ack loop's channel.\<close>

definition handler_returns ::
  "'b backend \<Rightarrow> WorkerConfig \<Rightarrow> handlers \<Rightarrow> surroundings \<Rightarrow> task \<Rightarrow> 'b run \<Rightarrow> 'b run" where
  [go_defs]: "handler_returns B cfg hs S t r =
     (case run_job B cfg hs S (tCause t) (tJob t) (rWorker r) of
        (w, Settled e) \<Rightarrow> r\<lparr>rWorker := w, rTasks := set_phase (tId t) (Finished e) (rTasks r)\<rparr>
      | (w, NeedsAck) \<Rightarrow>
          (case bAckBatch B of
             None \<Rightarrow>
               (case Worker_ack B (tJob t) (wBackend w) of
                  (b, e) \<Rightarrow>
                    (case after_ack (tJob t) e (w\<lparr>wBackend := b\<rparr>) of
                       (w', e') \<Rightarrow> r\<lparr>rWorker := w', rTasks := set_phase (tId t) (Finished e') (rTasks r)\<rparr>))
           | Some _ \<Rightarrow> r\<lparr>rWorker := w, rTasks := set_phase (tId t) AckQueued (rTasks r),
                         rAcks := rAcks r @ [(tId t, tJob t)]\<rparr>))"

fun deliver_acks :: "((nat \<times> job) \<times> err option) list \<Rightarrow> 'b run \<Rightarrow> 'b run" where
  "deliver_acks [] r = r"
| "deliver_acks (((i, j), e) # rest) r =
     (case after_ack j e (rWorker r) of
        (w, e') \<Rightarrow> deliver_acks rest (r\<lparr>rWorker := w, rTasks := set_phase i (Finished e') (rTasks r)\<rparr>))"

text \<open>One round of the ack loop: a batch of \<open>n\<close> queued requests in one backend call.\<close>

definition ack_round :: "(job list \<Rightarrow> 'b \<Rightarrow> 'b \<times> err option list) \<Rightarrow> nat \<Rightarrow> 'b run \<Rightarrow> 'b run" where
  [go_defs]: "ack_round f n r =
     (let batch = take n (rAcks r)
      in case f (map snd batch) (backend_of r) of
           (b, errs) \<Rightarrow> deliver_acks (zip batch errs) ((set_backend b r)\<lparr>rAcks := drop n (rAcks r)\<rparr>))"

text \<open>The first cause wins, as in Go's contexts.\<close>

definition cancel_task :: "err \<Rightarrow> task \<Rightarrow> task" where
  "cancel_task ca t = (if tCause t = None then t\<lparr>tCause := Some ca\<rparr> else t)"

text \<open>
  A heartbeat takes the running jobs, in any order, and renews them chunk by chunk; a lost
  lease cancels the task that runs the job.
\<close>

definition lost_ids :: "(nat \<times> job) list \<Rightarrow> err option list \<Rightarrow> nat list" where
  "lost_ids batch errs =
     map (fst \<circ> fst) (filter (\<lambda>(p, e). case e of None \<Rightarrow> False | Some x \<Rightarrow> errors_Is x ErrLeaseLost) (zip batch errs))"

definition heartbeat_chunk :: "'b backend \<Rightarrow> (nat \<times> job) list \<Rightarrow> 'b run \<Rightarrow> 'b run" where
  [go_defs]: "heartbeat_chunk B batch r =
     (case Worker_extend B (map snd batch) (backend_of r) of
        (b, errs) \<Rightarrow>
          (set_backend b r)\<lparr>rHeld := tl (rHeld r),
             rTasks := map (\<lambda>t. if tId t \<in> set (lost_ids batch errs) then cancel_task ErrLeaseLost t else t) (rTasks r)\<rparr>)"

definition finish_task :: "task \<Rightarrow> err option \<Rightarrow> 'b run \<Rightarrow> 'b run" where
  [go_defs]: "finish_task t e r =
     r\<lparr>rWorker := report (tJob t) e (rWorker r), rTasks := filter (\<lambda>u. tId u \<noteq> tId t) (rTasks r),
       rRunning := filter (\<lambda>p. fst p \<noteq> Lease (tJob t)) (rRunning r), rInFlight := rInFlight r - 1\<rparr>"

definition observe_stats :: "'b backend \<Rightarrow> 'b run \<Rightarrow> 'b run" where
  [go_defs]: "observe_stats B r =
     (case bStats B (backend_of r) of
        (b, Inl e) \<Rightarrow> set_backend b r
      | (b, Inr s) \<Rightarrow> (let r' = set_backend b r in r'\<lparr>rWorker := emit (StatsObserved s) (rWorker r')\<rparr>))"

text \<open>The end of \<^verbatim>\<open>Run\<close>, once every task has finished: forget the worker.\<close>

definition leave :: "'b backend \<Rightarrow> WorkerConfig \<Rightarrow> 'b run \<Rightarrow> 'b run" where
  [go_defs]: "leave B cfg r =
     (case bDeregister B of
        None \<Rightarrow> r
      | Some f \<Rightarrow> set_backend (fst (f (wcID cfg) (backend_of r))) r)\<lparr>rDone := True\<rparr>"

section \<open>The state machine\<close>

text \<open>
  The handlers registered are a constant of the run, what they answer is not: a run of a job
  uses any \<open>hs'\<close> for the same tasks.
\<close>

inductive wstep :: "'b backend \<Rightarrow> WorkerConfig \<Rightarrow> handlers \<Rightarrow> ('b \<Rightarrow> 'b \<Rightarrow> bool) \<Rightarrow> 'b run \<Rightarrow> 'b run \<Rightarrow> bool"
  for B :: "'b backend" and cfg :: WorkerConfig and hs :: handlers and others :: "'b \<Rightarrow> 'b \<Rightarrow> bool" where
  w_fetch: "\<not> rStopped r \<Longrightarrow> rLimit r = None \<Longrightarrow> 0 < free_slots cfg r \<Longrightarrow>
    wstep B cfg hs others r (r\<lparr>rLimit := Some (free_slots cfg r)\<rparr>)"
| w_fetched: "rLimit r = Some n \<Longrightarrow> wstep B cfg hs others r (iterate B cfg now now' n r)"
| w_handler: "t \<in> set (rTasks r) \<Longrightarrow> tPhase t = Running \<Longrightarrow> dom hs' = dom hs \<Longrightarrow>
    wstep B cfg hs others r (handler_returns B cfg hs' S t r)"
| w_acks: "bAckBatch B = Some f \<Longrightarrow> 1 \<le> n \<Longrightarrow> n \<le> maxBatch \<Longrightarrow> n \<le> length (rAcks r) \<Longrightarrow>
    wstep B cfg hs others r (ack_round f n r)"
| w_finish: "t \<in> set (rTasks r) \<Longrightarrow> tPhase t = Finished e \<Longrightarrow> wstep B cfg hs others r (finish_task t e r)"
| w_tick: "\<not> rDone r \<Longrightarrow> rHeld r = [] \<Longrightarrow> mset held = mset (map snd (rRunning r)) \<Longrightarrow>
    wstep B cfg hs others r (r\<lparr>rHeld := Chunk maxBatch held\<rparr>)"
| w_heartbeat: "rHeld r = batch # rest \<Longrightarrow> wstep B cfg hs others r (heartbeat_chunk B batch r)"
| w_stats: "\<not> rDone r \<Longrightarrow> wstep B cfg hs others r (observe_stats B r)"
| w_stop: "wstep B cfg hs others r (r\<lparr>rStopped := True\<rparr>)"
| w_timeout: "rStopped r \<Longrightarrow> rLimit r = None \<Longrightarrow>
    wstep B cfg hs others r (r\<lparr>rTasks := map (cancel_task ErrShutdown) (rTasks r)\<rparr>)"
| w_leave: "rStopped r \<Longrightarrow> rLimit r = None \<Longrightarrow> rTasks r = [] \<Longrightarrow> rHeld r = [] \<Longrightarrow> \<not> rDone r \<Longrightarrow>
    wstep B cfg hs others r (leave B cfg r)"
| w_others: "others (backend_of r) b \<Longrightarrow> wstep B cfg hs others r (set_backend b r)"

inductive wreach :: "'b backend \<Rightarrow> WorkerConfig \<Rightarrow> handlers \<Rightarrow> ('b \<Rightarrow> 'b \<Rightarrow> bool) \<Rightarrow> 'b \<Rightarrow> 'b run \<Rightarrow> bool"
  for B :: "'b backend" and cfg :: WorkerConfig and hs :: handlers and others :: "'b \<Rightarrow> 'b \<Rightarrow> bool" and b0 :: 'b where
  w_init: "Run cfg b0 = Inr r \<Longrightarrow> wreach B cfg hs others b0 r"
| w_step: "wreach B cfg hs others b0 r \<Longrightarrow> wstep B cfg hs others r r' \<Longrightarrow> wreach B cfg hs others b0 r'"

section \<open>Bounded concurrency\<close>

text \<open>Task identifiers are distinct and fresh, and the counter counts the tasks.\<close>

definition tasks_ok :: "'b run \<Rightarrow> bool" where
  "tasks_ok r \<longleftrightarrow> distinct (map tId (rTasks r)) \<and> (\<forall>i \<in> set (map tId (rTasks r)). i < rNextId r) \<and>
     rInFlight r = int (length (rTasks r))"

lemma map_tId_set_phase [simp]: "map tId (set_phase i p ts) = map tId ts"
  by (simp add: set_phase_def o_def if_distrib cong: if_cong)

lemma length_set_phase [simp]: "length (set_phase i p ts) = length ts"
  by (simp add: set_phase_def)

lemma tasks_ok_cong:
  "map tId (rTasks r') = map tId (rTasks r) \<Longrightarrow> rInFlight r' = rInFlight r \<Longrightarrow> rNextId r' = rNextId r \<Longrightarrow>
   tasks_ok r' = tasks_ok r"
  unfolding tasks_ok_def by (metis length_map)

lemma tasks_ok_start:
  assumes "tasks_ok r" shows "tasks_ok (start_job j r)"
  using assms by (auto simp: tasks_ok_def start_job_def)

lemma fold_start:
  "tasks_ok r \<Longrightarrow> tasks_ok (fold start_job js r) \<and> rInFlight (fold start_job js r) = rInFlight r + int (length js) \<and>
     rWorker (fold start_job js r) = rWorker r"
proof (induction js arbitrary: r)
  case (Cons j js)
  from Cons.IH [OF tasks_ok_start [OF Cons.prems, of j]] show ?case
    by (simp add: start_job_def)
qed simp

lemma deliver_acks_tasks:
  "map tId (rTasks (deliver_acks ps r)) = map tId (rTasks r) \<and> rInFlight (deliver_acks ps r) = rInFlight r \<and>
   rNextId (deliver_acks ps r) = rNextId r \<and> rLimit (deliver_acks ps r) = rLimit r \<and>
   rStopped (deliver_acks ps r) = rStopped r \<and> wBackend (rWorker (deliver_acks ps r)) = wBackend (rWorker r)"
proof (induction ps r rule: deliver_acks.induct)
  case (2 i j e rest r)
  obtain w e' where a: "after_ack j e (rWorker r) = (w, e')" by (cases "after_ack j e (rWorker r)")
  have "wBackend w = wBackend (rWorker r)"
    using a by (auto simp: after_ack_def emit_def split: option.splits)
  with 2 [OF a [symmetric]] show ?case by (simp add: a)
qed simp

lemma length_filter_distinct:
  "distinct (map f xs) \<Longrightarrow> x \<in> set xs \<Longrightarrow> Suc (length (filter (\<lambda>y. f y \<noteq> f x) xs)) = length xs"
proof (induction xs)
  case (Cons y ys)
  show ?case
  proof (cases "x = y")
    case True
    then have "filter (\<lambda>z. f z \<noteq> f x) ys = ys"
      using Cons.prems(1) by (auto intro!: filter_True simp: image_iff)
    with True show ?thesis by simp
  next
    case False
    with Cons.prems have "x \<in> set ys" "f y \<noteq> f x" by auto
    with Cons show ?thesis by simp
  qed
qed simp

lemma tasks_ok_finish:
  assumes "tasks_ok r" "t \<in> set (rTasks r)" shows "tasks_ok (finish_task t e r)" "rInFlight (finish_task t e r) < rInFlight r"
proof -
  have "Suc (length (filter (\<lambda>u. tId u \<noteq> tId t) (rTasks r))) = length (rTasks r)"
    using assms by (intro length_filter_distinct) (simp_all add: tasks_ok_def)
  with assms(1) show "tasks_ok (finish_task t e r)"
    by (auto simp: tasks_ok_def finish_task_def distinct_map inj_on_def)
  show "rInFlight (finish_task t e r) < rInFlight r" by (simp add: finish_task_def)
qed

text \<open>The channel of the ack loop holds exactly the requests of the tasks that wait for it.\<close>

definition acks_ok :: "'b run \<Rightarrow> bool" where
  "acks_ok r \<longleftrightarrow> distinct (rAcks r) \<and>
     set (rAcks r) = (\<lambda>t. (tId t, tJob t)) ` {t \<in> set (rTasks r). tPhase t = AckQueued}"

lemma same_task: "tasks_ok r \<Longrightarrow> t \<in> set (rTasks r) \<Longrightarrow> u \<in> set (rTasks r) \<Longrightarrow> tId u = tId t \<Longrightarrow> u = t"
  by (auto simp: tasks_ok_def distinct_map inj_on_def)

lemma set_set_phase:
  assumes "tasks_ok r" "t \<in> set (rTasks r)"
  shows "set (set_phase (tId t) p (rTasks r)) = insert (t\<lparr>tPhase := p\<rparr>) (set (rTasks r) - {t})"
proof -
  have "(if tId u = tId t then u\<lparr>tPhase := p\<rparr> else u) = (if u = t then t\<lparr>tPhase := p\<rparr> else u)" if "u \<in> set (rTasks r)" for u
    using same_task [OF assms that] by auto
  then have "set (set_phase (tId t) p (rTasks r)) = (\<lambda>u. if u = t then t\<lparr>tPhase := p\<rparr> else u) ` set (rTasks r)"
    by (auto simp: set_phase_def intro!: image_cong)
  with assms(2) show ?thesis by auto
qed

lemma acks_ok_map:
  assumes "acks_ok r" "rAcks r' = rAcks r" "rTasks r' = map g (rTasks r)"
    and "\<And>t. t \<in> set (rTasks r) \<Longrightarrow> tId (g t) = tId t \<and> tJob (g t) = tJob t \<and> (tPhase (g t) = AckQueued \<longleftrightarrow> tPhase t = AckQueued)"
  shows "acks_ok r'"
proof -
  have "(\<lambda>t. (tId t, tJob t)) ` {t \<in> set (rTasks r'). tPhase t = AckQueued} =
    (\<lambda>t. (tId t, tJob t)) ` {t \<in> set (rTasks r). tPhase t = AckQueued}"
    using assms(3,4) by (force simp: image_iff)
  with assms(1,2) show ?thesis by (simp add: acks_ok_def)
qed

lemma acks_ok_cong: "rAcks r' = rAcks r \<Longrightarrow> rTasks r' = rTasks r \<Longrightarrow> acks_ok r' = acks_ok r"
  by (simp add: acks_ok_def)

lemma acks_ok_phase:
  assumes "tasks_ok r" "acks_ok r" "t \<in> set (rTasks r)" "tPhase t = Running"
    and "rTasks r' = set_phase (tId t) p (rTasks r)"
    and "p = AckQueued \<and> rAcks r' = rAcks r @ [(tId t, tJob t)] \<or> p \<noteq> AckQueued \<and> rAcks r' = rAcks r"
  shows "acks_ok r'"
proof (cases "p = AckQueued")
  case False
  with assms show ?thesis
    by (intro acks_ok_map [OF assms(2), where g = "\<lambda>u. if tId u = tId t then u\<lparr>tPhase := p\<rparr> else u"])
      (auto simp: set_phase_def dest: same_task [OF assms(1,3)])
next
  case True
  let ?q = "\<lambda>ts. (\<lambda>t. (tId t, tJob t)) ` {t \<in> set ts. tPhase t = AckQueued}"
  have "?q (rTasks r') = insert (tId t, tJob t) (?q (rTasks r))"
  proof -
    have "{u \<in> set (rTasks r'). tPhase u = AckQueued} =
        insert (t\<lparr>tPhase := AckQueued\<rparr>) {u \<in> set (rTasks r). tPhase u = AckQueued}"
      unfolding assms(5) set_set_phase [OF assms(1,3)] using assms(4) by (auto simp: True)
    then show ?thesis by simp
  qed
  moreover have "(tId t, tJob t) \<notin> ?q (rTasks r)"
    using same_task [OF assms(1,3)] assms(4) by force
  ultimately show ?thesis
    using assms(2,6) True by (auto simp: acks_ok_def)
qed

lemma acks_ok_start: "acks_ok r \<Longrightarrow> acks_ok (start_job j r)"
  by (auto simp: acks_ok_def start_job_def)

lemma acks_ok_fold_start: "acks_ok r \<Longrightarrow> acks_ok (fold start_job js r)"
  by (induction js arbitrary: r) (simp_all add: acks_ok_start)

lemma acks_ok_finish: "acks_ok r \<Longrightarrow> tasks_ok r \<Longrightarrow> t \<in> set (rTasks r) \<Longrightarrow> tPhase t = Finished e \<Longrightarrow> acks_ok (finish_task t e r)"
proof -
  assume a: "acks_ok r" "tasks_ok r" "t \<in> set (rTasks r)" "tPhase t = Finished e"
  have "{u \<in> set (rTasks r). tId u \<noteq> tId t \<and> tPhase u = AckQueued} = {u \<in> set (rTasks r). tPhase u = AckQueued}"
    using a(4) by (auto dest: same_task [OF a(2,3)])
  with a(1) show "acks_ok (finish_task t e r)" by (simp add: acks_ok_def finish_task_def conj_assoc)
qed

lemma deliver_acks_phases:
  "\<exists>e. rTasks (deliver_acks ps r) = map (\<lambda>t. if tId t \<in> fst ` fst ` set ps then t\<lparr>tPhase := Finished (e t)\<rparr> else t) (rTasks r)
     \<and> rAcks (deliver_acks ps r) = rAcks r"
proof (induction ps r rule: deliver_acks.induct)
  case (2 i j e rest r)
  obtain w e' where a: "after_ack j e (rWorker r) = (w, e')" by (cases "after_ack j e (rWorker r)")
  let ?r = "r\<lparr>rWorker := w, rTasks := set_phase i (Finished e') (rTasks r)\<rparr>"
  from 2 [OF a [symmetric]] obtain f where f:
    "rTasks (deliver_acks rest ?r) = map (\<lambda>t. if tId t \<in> fst ` fst ` set rest then t\<lparr>tPhase := Finished (f t)\<rparr> else t) (rTasks ?r)"
    "rAcks (deliver_acks rest ?r) = rAcks r" by auto
  let ?f = "\<lambda>t. if tId t \<in> fst ` fst ` set rest then f (if tId t = i then t\<lparr>tPhase := Finished e'\<rparr> else t) else e'"
  show ?case
    using f by (intro exI [of _ ?f]) (simp add: a set_phase_def)
qed simp

lemma in_batch:
  assumes "tasks_ok r" "acks_ok r" "t \<in> set (rTasks r)" "tId t \<in> fst ` set (take n (rAcks r))"
  shows "(tId t, tJob t) \<in> set (take n (rAcks r)) \<and> tPhase t = AckQueued"
proof -
  obtain j where j: "(tId t, j) \<in> set (take n (rAcks r))" using assms(4) by auto
  then have "(tId t, j) \<in> set (rAcks r)" by (rule in_set_takeD)
  then obtain u where "u \<in> set (rTasks r)" "tId u = tId t" "tJob u = j" "tPhase u = AckQueued"
    using assms(2) unfolding acks_ok_def by auto
  with same_task [OF assms(1,3)] j show ?thesis by metis
qed

lemma acks_ok_round:
  assumes "tasks_ok r" "acks_ok r" "f (map snd (take n (rAcks r))) (backend_of r) = (b, errs)"
    "length errs = length (take n (rAcks r))"
  shows "acks_ok (ack_round f n r)"
proof -
  let ?batch = "take n (rAcks r)"
  let ?r = "(set_backend b r)\<lparr>rAcks := drop n (rAcks r)\<rparr>"
  obtain e where e: "rTasks (deliver_acks (zip ?batch errs) ?r) =
      map (\<lambda>t. if tId t \<in> fst ` fst ` set (zip ?batch errs) then t\<lparr>tPhase := Finished (e t)\<rparr> else t) (rTasks r)"
    "rAcks (deliver_acks (zip ?batch errs) ?r) = drop n (rAcks r)"
    using deliver_acks_phases [of "zip ?batch errs" ?r] by (auto simp: set_backend_def)
  have "fst ` set (zip ?batch errs) = set ?batch"
    using assms(4) by (metis list.set_map map_fst_zip)
  then have z: "fst ` fst ` set (zip ?batch errs) = fst ` set ?batch" by simp
  have d: "distinct (rAcks r)" and q: "set (rAcks r) = (\<lambda>t. (tId t, tJob t)) ` {t \<in> set (rTasks r). tPhase t = AckQueued}"
    using assms(2) by (simp_all add: acks_ok_def)
  have split: "set (rAcks r) = set ?batch \<union> set (drop n (rAcks r))" "set ?batch \<inter> set (drop n (rAcks r)) = {}"
    using d set_take_disj_set_drop_if_distinct [OF d, of n n] by (metis append_take_drop_id set_append, simp)
  have inb: "tId t \<in> fst ` set ?batch \<longleftrightarrow> (tId t, tJob t) \<in> set ?batch" if "t \<in> set (rTasks r)" for t
    using in_batch [OF assms(1,2) that] by force
  have "{t \<in> set (rTasks r). tPhase t = AckQueued \<and> tId t \<notin> fst ` set ?batch} =
      {t \<in> set (rTasks r). tPhase t = AckQueued \<and> (tId t, tJob t) \<notin> set ?batch}"
    using inb by (intro Collect_cong) blast
  moreover have "set (drop n (rAcks r)) = set (rAcks r) - set ?batch" using split by blast
  ultimately have "set (drop n (rAcks r)) =
      (\<lambda>t. (tId t, tJob t)) ` {t \<in> set (rTasks r). tPhase t = AckQueued \<and> tId t \<notin> fst ` set ?batch}"
    unfolding q by auto
  moreover have "(\<lambda>t. (tId t, tJob t)) ` {t \<in> set (rTasks (ack_round f n r)). tPhase t = AckQueued} =
      (\<lambda>t. (tId t, tJob t)) ` {t \<in> set (rTasks r). tPhase t = AckQueued \<and> tId t \<notin> fst ` set ?batch}"
    using e(1) by (force simp: ack_round_def assms(3) z image_iff split: if_splits)
  ultimately show ?thesis
    using d e(2) by (simp add: acks_ok_def ack_round_def assms(3))
qed

lemma handler_tasks:
  obtains (finished) e where "rTasks (handler_returns B cfg hs S t r) = set_phase (tId t) (Finished e) (rTasks r)"
      "rAcks (handler_returns B cfg hs S t r) = rAcks r"
  | (queued) f where "bAckBatch B = Some f"
      "rTasks (handler_returns B cfg hs S t r) = set_phase (tId t) AckQueued (rTasks r)"
      "rAcks (handler_returns B cfg hs S t r) = rAcks r @ [(tId t, tJob t)]"
proof -
  have "(\<exists>e. rTasks (handler_returns B cfg hs S t r) = set_phase (tId t) (Finished e) (rTasks r) \<and>
      rAcks (handler_returns B cfg hs S t r) = rAcks r) \<or>
    (\<exists>f. bAckBatch B = Some f \<and> rTasks (handler_returns B cfg hs S t r) = set_phase (tId t) AckQueued (rTasks r) \<and>
      rAcks (handler_returns B cfg hs S t r) = rAcks r @ [(tId t, tJob t)])"
    unfolding handler_returns_def by (auto split: outcome.split option.split prod.split)
  with that show thesis by blast
qed

lemma handler_acks_ok:
  assumes "tasks_ok r" "acks_ok r" "t \<in> set (rTasks r)" "tPhase t = Running"
  shows "acks_ok (handler_returns B cfg hs S t r)"
  by (cases rule: handler_tasks [of B cfg hs S t r]) (rule acks_ok_phase [OF assms], assumption, simp)+

lemma acks_bounded:
  assumes "tasks_ok r" "acks_ok r"
  shows "length (rAcks r) \<le> length (filter (\<lambda>t. tPhase t = AckQueued) (rTasks r))"
proof -
  have "set (rAcks r) = set (map (\<lambda>t. (tId t, tJob t)) (filter (\<lambda>t. tPhase t = AckQueued) (rTasks r)))"
    using assms(2) by (simp add: acks_ok_def)
  then have "card (set (rAcks r)) \<le> length (filter (\<lambda>t. tPhase t = AckQueued) (rTasks r))"
    by (metis card_length length_map)
  moreover have "distinct (rAcks r)"
    using assms(2) by (simp add: acks_ok_def)
  ultimately show ?thesis by (simp only: distinct_card)
qed

lemma Worker_deadLetter_backend:
  "Worker_deadLetter B j reason w = (w', e) \<Longrightarrow> wBackend w' = fst (bDeadLetter B j reason (wBackend w))"
  by (auto simp: Worker_deadLetter_def emit_def split: prod.splits option.splits)

context leasing_backend
begin

lemma fetch_keeps:
  assumes "ok b" "1 \<le> limit" "timeout_ok (VisibilityTimeout cfg)" "fetch B cfg now now' limit last0 b = (b', last1, jobs, e)"
  shows "ok b' \<and> int (length jobs) \<le> limit"
proof -
  define wait where "wait = (if PollOnly cfg then 0 else PollInterval cfg)"
  define claim where "claim = (\<lambda>b (jobs :: job list) (l :: int).
            if int (length jobs) < limit then
              (case bClaim B (wcID cfg) (limit - int (length jobs)) (if length jobs > 0 then 0 else wait) b of
                 (b', claimed, None) \<Rightarrow> (b', l, jobs @ claimed, None)
               | (b', claimed, Some e) \<Rightarrow> (b', l, jobs @ claimed, Some (Wrapped ''claim: '' e)))
            else (b, l, jobs, None))"
  have cl: "ok b' \<and> int (length js') \<le> limit"
    if "ok b" "int (length js) \<le> limit" "claim b js l = (b', l', js', e)" for b js l b' l' js' e
  proof (cases "int (length js) < limit")
    case True
    obtain b1 claimed e1 where c: "bClaim B (wcID cfg) (limit - int (length js)) (if length js > 0 then 0 else wait) b = (b1, claimed, e1)"
      by (metis prod_cases3)
    have "1 \<le> limit - int (length js)" using True by simp
    from claim_keeps [OF that(1) this c] True that(3) c show ?thesis
      by (auto simp: claim_def split: option.splits)
  qed (use that in \<open>simp add: claim_def\<close>)
  obtain b1 rec e1 where r: "bRecoverExpired B (VisibilityTimeout cfg) (wcID cfg) limit b = (b1, rec, e1)"
    by (metis prod_cases3)
  note rk = recover_keeps [OF assms(1,2,3) r]
  have F: "fetch B cfg now now' limit last0 b =
      (if now - last0 \<ge> PollInterval cfg then
         (case e1 of Some e \<Rightarrow> (b1, last0, rec, Some (Wrapped ''recover expired: '' e))
          | None \<Rightarrow> claim b1 rec (if int (length rec) < limit then now' else last0))
       else claim b [] last0)"
    by (simp add: fetch_def Let_def r claim_def wait_def split: option.split)
  have "claim b1 rec l = (b', last1, jobs, e) \<Longrightarrow> ?thesis" "claim b [] l = (b', last1, jobs, e) \<Longrightarrow> ?thesis" for l
    using cl [of b1 rec l b' last1 jobs e] cl [of b "[]" l b' last1 jobs e] rk assms(1,2) by simp_all
  with assms(4) rk show ?thesis
    unfolding F by (auto split: if_splits option.splits)
qed

lemma run_job_ok:
  assumes "ok (wBackend w)" "run_job B cfg hs S cause j w = (w', oc)"
  shows "ok (wBackend w')"
  using assms(2)
proof (cases rule: run_job_cases)
  case settled
  then show ?thesis using settle_ops_fenced(1) [OF assms(1)] by (fastforce simp: settled_run_def)
next
  case (unsettled x)
  then show ?thesis using settle_ops_fenced(1) [OF assms(1)] assms(1) by (fastforce simp: unsettled_run_def)
next
  case (ack h)
  then show ?thesis using assms(1) by (simp add: emit_def)
qed

lemma extend_each_ok: "ok b \<Longrightarrow> ok (fst (extend_each B js b))"
proof (induction js arbitrary: b)
  case (Cons j js)
  have "ok (fst (bExtend B j b))"
    by (rule settle_ok [OF Cons.prems, of _ j]) simp
  from Cons.IH [OF this] show ?case by (simp split: prod.split) (metis fst_conv)
qed simp

lemma Worker_extend_ok: "ok b \<Longrightarrow> ok (fst (Worker_extend B js b))"
  using extend_batch_keeps extend_each_ok by (auto simp: Worker_extend_def split: option.split)

definition run_ok :: "WorkerConfig \<Rightarrow> 'b run \<Rightarrow> bool" where
  "run_ok cfg r \<longleftrightarrow> tasks_ok r \<and> acks_ok r \<and> ok (backend_of r) \<and> rInFlight r \<le> Concurrency cfg \<and>
     (\<forall>n. rLimit r = Some n \<longrightarrow> 1 \<le> n \<and> rInFlight r + n \<le> Concurrency cfg)"

lemma run_ok_same:
  "run_ok cfg r \<Longrightarrow> map tId (rTasks r') = map tId (rTasks r) \<Longrightarrow> rInFlight r' = rInFlight r \<Longrightarrow> rNextId r' = rNextId r \<Longrightarrow>
   ok (backend_of r') \<Longrightarrow> acks_ok r' \<Longrightarrow> rLimit r' = rLimit r \<Longrightarrow> run_ok cfg r'"
  using tasks_ok_cong [of r' r] by (simp add: run_ok_def)

lemma run_ok_frame:
  assumes "run_ok cfg r" "rTasks r' = rTasks r" "rAcks r' = rAcks r" "rInFlight r' = rInFlight r" "rNextId r' = rNextId r"
    "rLimit r' = rLimit r" "ok (backend_of r')"
  shows "run_ok cfg r'"
proof -
  have "acks_ok r'"
    using assms(1) acks_ok_cong [OF assms(3,2)] by (simp add: run_ok_def)
  with assms show ?thesis by (intro run_ok_same [OF assms(1)]) simp_all
qed

lemma iterate_ok:
  assumes "run_ok cfg r" "rLimit r = Some n" "timeout_ok (VisibilityTimeout cfg)"
  shows "run_ok cfg (iterate B cfg now now' n r)"
proof -
  obtain b l jobs e where f: "fetch B cfg now now' n (rLastRecover r) (backend_of r) = (b, l, jobs, e)"
    by (metis prod_cases4)
  have k: "ok b \<and> int (length jobs) \<le> n"
    by (rule fetch_keeps [OF _ _ assms(3) f]) (use assms in \<open>simp_all add: run_ok_def\<close>)
  have t: "tasks_ok (set_backend b r)" and a: "acks_ok (set_backend b r)"
    using assms(1) by (simp_all add: run_ok_def tasks_ok_def acks_ok_def set_backend_def)
  note F = fold_start [OF t, of jobs] and A = acks_ok_fold_start [OF a, of jobs]
  have "tasks_ok (iterate B cfg now now' n r)" "acks_ok (iterate B cfg now now' n r)"
    using F A by (simp_all add: iterate_def f tasks_ok_def acks_ok_def)
  moreover have "rInFlight (iterate B cfg now now' n r) = rInFlight r + int (length jobs)"
    "backend_of (iterate B cfg now now' n r) = b" "rLimit (iterate B cfg now now' n r) = None"
    using F by (simp_all add: iterate_def f set_backend_def)
  ultimately show ?thesis using k assms(1,2) by (simp add: run_ok_def)
qed

lemma handler_ok:
  assumes "run_ok cfg r" "t \<in> set (rTasks r)" "tPhase t = Running" shows "run_ok cfg (handler_returns B cfg hs S t r)"
proof -
  obtain w oc where j: "run_job B cfg hs S (tCause t) (tJob t) (rWorker r) = (w, oc)"
    by (cases "run_job B cfg hs S (tCause t) (tJob t) (rWorker r)")
  have w: "ok (wBackend w)"
    using run_job_ok [OF _ j] assms by (simp add: run_ok_def)
  have a: "ok (fst (bAck B (tJob t) (wBackend w)))"
    by (rule settle_ok [OF w, of _ "tJob t"]) simp
  have "acks_ok (handler_returns B cfg hs S t r)"
    using assms by (intro handler_acks_ok) (simp_all add: run_ok_def)
  then show ?thesis
    by (intro run_ok_same [OF assms(1)])
      (use w a j in \<open>auto simp: handler_returns_def Worker_ack_def after_ack_def emit_def split: outcome.split option.split prod.split\<close>)
qed

lemma ack_round_ok:
  assumes "run_ok cfg r" "bAckBatch B = Some f" "n \<le> length (rAcks r)"
  shows "run_ok cfg (ack_round f n r)"
proof -
  obtain b errs where f: "f (map snd (take n (rAcks r))) (backend_of r) = (b, errs)"
    by (cases "f (map snd (take n (rAcks r))) (backend_of r)")
  have b: "ok b" "length errs = length (take n (rAcks r))"
    using ack_batch_keeps [OF assms(2), of "backend_of r" "map snd (take n (rAcks r))"] assms(1) by (simp_all add: f run_ok_def)
  have "acks_ok (ack_round f n r)"
    using assms(1) by (intro acks_ok_round [of r f n b errs] f b(2)) (simp_all add: run_ok_def)
  with b deliver_acks_tasks [of "zip (take n (rAcks r)) errs" "(set_backend b r)\<lparr>rAcks := drop n (rAcks r)\<rparr>"] show ?thesis
    by (intro run_ok_same [OF assms(1)]) (simp_all add: ack_round_def f set_backend_def)
qed

lemma heartbeat_ok:
  assumes "run_ok cfg r" shows "run_ok cfg (heartbeat_chunk B batch r)"
proof -
  obtain b errs where e: "Worker_extend B (map snd batch) (backend_of r) = (b, errs)"
    by (cases "Worker_extend B (map snd batch) (backend_of r)")
  have "ok b"
    using Worker_extend_ok [of "backend_of r" "map snd batch"] assms by (simp add: e run_ok_def)
  moreover have "acks_ok (heartbeat_chunk B batch r)"
    by (rule acks_ok_map [of r _ "\<lambda>t. if tId t \<in> set (lost_ids batch errs) then cancel_task ErrLeaseLost t else t"])
      (use assms in \<open>simp_all add: run_ok_def heartbeat_chunk_def e set_backend_def cancel_task_def\<close>)
  ultimately show ?thesis
    by (intro run_ok_same [OF assms])
      (simp_all add: heartbeat_chunk_def e set_backend_def cancel_task_def o_def if_distrib cong: if_cong)
qed

lemma finish_ok:
  assumes "run_ok cfg r" "t \<in> set (rTasks r)" "tPhase t = Finished e" shows "run_ok cfg (finish_task t e r)"
proof -
  have t: "tasks_ok r" "acks_ok r" using assms(1) by (simp_all add: run_ok_def)
  have "ok (wBackend (report (tJob t) e (rWorker r)))"
    using assms(1) by (auto simp: run_ok_def report_def emit_def split: option.split)
  then have "ok (backend_of (finish_task t e r))" by (simp add: finish_task_def)
  moreover have "rInFlight (finish_task t e r) < rInFlight r" "rLimit (finish_task t e r) = rLimit r"
    by (simp_all add: finish_task_def)
  ultimately show ?thesis
    using tasks_ok_finish(1) [OF t(1) assms(2)] acks_ok_finish [OF t(2,1) assms(2,3)] assms(1)
    by (auto simp: run_ok_def split: option.splits)
qed

lemma wstep_ok:
  assumes "wstep B cfg hs others r r'" "run_ok cfg r" "timeout_ok (VisibilityTimeout cfg)"
    and others: "\<And>b b'. ok b \<Longrightarrow> others b b' \<Longrightarrow> ok b'" and stats: "\<And>b. ok b \<Longrightarrow> ok (fst (bStats B b))"
    and dereg: "\<And>b f w. bDeregister B = Some f \<Longrightarrow> ok b \<Longrightarrow> ok (fst (f w b))"
  shows "run_ok cfg r'"
  using assms(1)
proof (cases rule: wstep.cases)
  case w_fetch
  have "tasks_ok r'" "acks_ok r'"
    using assms(2) by (simp_all add: w_fetch run_ok_def tasks_ok_def acks_ok_def)
  then show ?thesis using assms(2) w_fetch by (simp add: run_ok_def free_slots_def)
next
  case (w_fetched n now now')
  then show ?thesis using iterate_ok [OF assms(2) _ assms(3)] by simp
next
  case (w_handler t hs' S)
  then show ?thesis using handler_ok [OF assms(2)] by simp
next
  case (w_acks f n)
  then show ?thesis using ack_round_ok [OF assms(2)] by simp
next
  case (w_finish t e)
  then show ?thesis using finish_ok [OF assms(2)] by simp
next
  case (w_tick held)
  then show ?thesis using assms(2) by (intro run_ok_frame [OF assms(2)]) (simp_all add: run_ok_def)
next
  case (w_heartbeat batch rest)
  then show ?thesis using heartbeat_ok [OF assms(2)] by simp
next
  case w_stats
  have "ok (fst (bStats B (backend_of r)))"
    using stats assms(2) by (simp add: run_ok_def)
  then show ?thesis
    unfolding w_stats
    by (intro run_ok_frame [OF assms(2)])
      (auto simp: observe_stats_def set_backend_def emit_def Let_def split: prod.split sum.split)
next
  case w_stop
  then show ?thesis using assms(2) by (intro run_ok_frame [OF assms(2)]) (simp_all add: run_ok_def)
next
  case w_timeout
  have "acks_ok r'"
    by (rule acks_ok_map [of r _ "cancel_task ErrShutdown"])
      (use assms(2) w_timeout in \<open>simp_all add: run_ok_def cancel_task_def\<close>)
  with w_timeout assms(2) show ?thesis
    by (intro run_ok_same [OF assms(2)]) (simp_all add: cancel_task_def o_def run_ok_def if_distrib cong: if_cong)
next
  case w_leave
  have "ok (backend_of r')"
    using assms(2) dereg by (auto simp: w_leave leave_def set_backend_def run_ok_def split: option.split)
  then show ?thesis
    by (intro run_ok_frame [OF assms(2)]) (simp_all add: w_leave leave_def set_backend_def split: option.split)
next
  case (w_others b)
  have "ok b" using assms(2) others [OF _ w_others(2)] by (simp add: run_ok_def)
  then show ?thesis
    by (intro run_ok_frame [OF assms(2)]) (simp_all add: w_others set_backend_def)
qed

lemma wreach_ok:
  assumes "wreach B cfg hs others b0 r" "ok b0" "0 \<le> Concurrency cfg" "timeout_ok (VisibilityTimeout cfg)"
    and "\<And>b b'. ok b \<Longrightarrow> others b b' \<Longrightarrow> ok b'" "\<And>b. ok b \<Longrightarrow> ok (fst (bStats B b))"
    and "\<And>b f w. bDeregister B = Some f \<Longrightarrow> ok b \<Longrightarrow> ok (fst (f w b))"
  shows "run_ok cfg r"
  using assms(1)
proof (induction rule: wreach.induct)
  case (w_init r)
  then show ?case using assms(2,3) by (auto simp: Run_def run_ok_def start_run_def tasks_ok_def acks_ok_def split: if_splits)
next
  case (w_step r r')
  show ?case by (rule wstep_ok [OF w_step(2,3) assms(4)]) (use assms(5-7) in blast)+
qed

end

section \<open>Draining\<close>

text \<open>What is left to do before every task has finished.\<close>

lemma fold_start_stopped: "rStopped (fold start_job js r) = rStopped r"
  by (induction js arbitrary: r) (simp_all add: start_job_def)

fun phase_work :: "phase \<Rightarrow> nat" where
  "phase_work Running = 3"
| "phase_work AckQueued = 2"
| "phase_work (Finished e) = 1"

definition drain_work :: "'b run \<Rightarrow> nat" where
  "drain_work r = sum_list (map (phase_work \<circ> tPhase) (rTasks r))"

lemma sum_list_less:
  "(\<And>x. x \<in> set xs \<Longrightarrow> f (g x) \<le> f x) \<Longrightarrow> y \<in> set xs \<Longrightarrow> f (g y) < f y \<Longrightarrow>
   sum_list (map f (map g xs)) < sum_list (map (f :: 'a \<Rightarrow> nat) xs)"
proof (induction xs)
  case (Cons x xs)
  have le: "sum_list (map f (map g xs)) \<le> sum_list (map f xs)"
    using Cons.prems(1) by (simp add: sum_list_mono)
  show ?case
  proof (cases "x = y")
    case True
    with le Cons.prems(3) show ?thesis by simp
  next
    case False
    with Cons have "sum_list (map f (map g xs)) < sum_list (map f xs)" by simp
    with Cons.prems(1) [of x] show ?thesis by simp
  qed
qed simp

lemma drain_work_map:
  "rTasks r' = map g (rTasks r) \<Longrightarrow>
   (\<And>t. t \<in> set (rTasks r) \<Longrightarrow> phase_work (tPhase (g t)) \<le> phase_work (tPhase t)) \<Longrightarrow>
   t \<in> set (rTasks r) \<Longrightarrow> phase_work (tPhase (g t)) < phase_work (tPhase t) \<Longrightarrow> drain_work r' < drain_work r"
  unfolding drain_work_def by (simp only:) (rule sum_list_less [of _ "phase_work \<circ> tPhase"]; simp)

lemma drain_work_same:
  "map tPhase (rTasks r') = map tPhase (rTasks r) \<Longrightarrow> drain_work r' = drain_work r"
  unfolding drain_work_def by (metis map_map)

lemma drain_set_phase:
  assumes "tasks_ok r" "t \<in> set (rTasks r)" "rTasks r' = set_phase (tId t) p (rTasks r)"
    and "phase_work p < phase_work (tPhase t)"
  shows "drain_work r' < drain_work r"
  by (rule drain_work_map [where g = "\<lambda>u. if tId u = tId t then u\<lparr>tPhase := p\<rparr> else u" and t = t])
    (use assms in \<open>auto simp: set_phase_def dest: same_task [OF assms(1,2)]\<close>)

lemma drain_handler:
  assumes "tasks_ok r" "t \<in> set (rTasks r)" "tPhase t = Running"
  shows "drain_work (handler_returns B cfg hs S t r) < drain_work r"
  by (cases rule: handler_tasks [of B cfg hs S t r])
    (rule drain_set_phase [OF assms(1,2)], assumption, simp add: assms(3))+

lemma drain_acks:
  assumes "tasks_ok r" "acks_ok r" "1 \<le> n" "n \<le> length (rAcks r)"
    "f (map snd (take n (rAcks r))) (backend_of r) = (b, errs)" "length errs = length (take n (rAcks r))"
  shows "drain_work (ack_round f n r) < drain_work r"
proof -
  let ?batch = "take n (rAcks r)"
  have "fst ` set (zip ?batch errs) = set ?batch"
    using assms(6) by (metis list.set_map map_fst_zip)
  then have z: "fst ` fst ` set (zip ?batch errs) = fst ` set ?batch" by simp
  obtain e where e: "rTasks (ack_round f n r) =
      map (\<lambda>t. if tId t \<in> fst ` set ?batch then t\<lparr>tPhase := Finished (e t)\<rparr> else t) (rTasks r)"
    using deliver_acks_phases [of "zip ?batch errs" "(set_backend b r)\<lparr>rAcks := drop n (rAcks r)\<rparr>"]
    by (auto simp: ack_round_def assms(5) z set_backend_def)
  obtain p where "p \<in> set ?batch"
    using assms(3,4) by (cases "rAcks r"; cases n) auto
  moreover from this have "p \<in> set (rAcks r)" by (rule in_set_takeD)
  ultimately obtain t where t: "t \<in> set (rTasks r)" "tId t \<in> fst ` set ?batch"
    using assms(2) by (force simp: acks_ok_def)
  have q: "tPhase u = AckQueued" if "u \<in> set (rTasks r)" "tId u \<in> fst ` set ?batch" for u
    using in_batch [OF assms(1,2) that] by blast
  show ?thesis
    by (rule drain_work_map [OF e, of t]) (use t q in auto)
qed

lemma drain_finish:
  assumes "t \<in> set (rTasks r)"
  shows "drain_work (finish_task t e r) < drain_work r"
proof -
  have "sum_list (map (phase_work \<circ> tPhase) (filter (\<lambda>u. tId u \<noteq> tId t) ts)) < sum_list (map (phase_work \<circ> tPhase) ts)"
    if "t \<in> set ts" for ts
  proof -
    have pos: "0 < phase_work (tPhase t)" by (cases "tPhase t") simp_all
    have le: "sum_list (map (phase_work \<circ> tPhase) (filter P xs)) \<le> sum_list (map (phase_work \<circ> tPhase) xs)" for P xs
      by (induction xs) auto
    from split_list [OF that] obtain xs ys where "ts = xs @ t # ys" by blast
    then show ?thesis
      using le [of "\<lambda>u. tId u \<noteq> tId t" xs] le [of "\<lambda>u. tId u \<noteq> tId t" ys] pos by simp
  qed
  from this [OF assms] show ?thesis by (simp add: drain_work_def finish_task_def)
qed

text \<open>The ack loop runs whenever a task waits for it.\<close>

lemma acks_need_loop:
  "wreach B cfg hs others b0 r \<Longrightarrow> rAcks r \<noteq> [] \<Longrightarrow> bAckBatch B \<noteq> None"
proof (induction rule: wreach.induct)
  case (w_init r)
  then show ?case by (auto simp: Run_def start_run_def split: if_splits)
next
  case (w_step r r')
  have start: "rAcks (fold start_job js r) = rAcks r" for js and r :: "'a run"
    by (induction js arbitrary: r) (simp_all add: start_job_def)
  from w_step(2) show ?case
  proof (cases rule: wstep.cases)
    case (w_fetched n now now')
    then show ?thesis using w_step.IH w_step.prems by (auto simp: iterate_def start set_backend_def split: prod.splits)
  next
    case (w_handler t hs' S)
    show ?thesis
      using w_step.IH w_step.prems unfolding w_handler(1)
      by (cases rule: handler_tasks [of B cfg hs' S t r]) simp_all
  next
    case (w_acks f n)
    then show ?thesis by simp
  next
    case w_leave
    then show ?thesis using w_step.IH w_step.prems by (auto simp: leave_def set_backend_def split: option.splits)
  qed (use w_step.IH w_step.prems in
      \<open>auto simp: finish_task_def heartbeat_chunk_def observe_stats_def set_backend_def Let_def split: prod.splits sum.splits\<close>)
qed

context leasing_backend
begin

lemma drain_ack_round:
  assumes "run_ok cfg r" "bAckBatch B = Some f" "1 \<le> n" "n \<le> length (rAcks r)"
  shows "drain_work (ack_round f n r) < drain_work r"
proof -
  obtain b errs where e: "f (map snd (take n (rAcks r))) (backend_of r) = (b, errs)"
    by (cases "f (map snd (take n (rAcks r))) (backend_of r)")
  have l: "length errs = length (take n (rAcks r))"
    using ack_batch_keeps [OF assms(2), of "backend_of r" "map snd (take n (rAcks r))"] assms(1) by (simp add: e run_ok_def)
  show ?thesis
    using assms(1) by (intro drain_acks [of r n f b errs] assms(3,4) e l) (simp_all add: run_ok_def)
qed

lemma drain_step:
  assumes "wstep B cfg hs others r r'" "run_ok cfg r" "rStopped r" "rLimit r = None"
  shows "rStopped r' \<and> rLimit r' = None \<and> drain_work r' \<le> drain_work r"
proof -
  from assms(2) have t: "tasks_ok r" "acks_ok r" by (simp_all add: run_ok_def)
  from assms(1) show ?thesis
  proof (cases rule: wstep.cases)
    case (w_handler u hs' S)
    with drain_handler [OF t(1), of u B cfg hs' S] assms(3,4) show ?thesis
      by (auto simp: handler_returns_def split: outcome.split option.split prod.split)
  next
    case (w_acks f n)
    have "rStopped (ack_round f n r) = rStopped r" "rLimit (ack_round f n r) = rLimit r"
      by (simp_all add: ack_round_def Let_def set_backend_def deliver_acks_tasks split: prod.split)
    with drain_ack_round [OF assms(2) w_acks(2,3,5)] assms(3,4) show ?thesis by (simp add: w_acks(1))
  next
    case (w_finish u e)
    with drain_finish [of u r e] assms(3,4) show ?thesis by (simp add: finish_task_def)
  next
    case (w_heartbeat batch rest)
    then have "drain_work r' = drain_work r"
      by (intro drain_work_same)
        (simp add: heartbeat_chunk_def cancel_task_def o_def if_distrib split: prod.split cong: if_cong)
    with w_heartbeat assms(3,4) show ?thesis
      by (simp add: heartbeat_chunk_def set_backend_def split: prod.split)
  next
    case w_timeout
    then have "drain_work r' = drain_work r"
      by (intro drain_work_same) (simp add: cancel_task_def o_def if_distrib cong: if_cong)
    with w_timeout assms(3,4) show ?thesis by simp
  qed (use assms(3,4) in \<open>auto simp: drain_work_def observe_stats_def leave_def set_backend_def Let_def
        split: prod.splits sum.splits option.splits\<close>)
qed

lemma drain_progress:
  assumes "wreach B cfg hs others b0 r" "run_ok cfg r" "rTasks r \<noteq> []"
  shows "\<exists>r'. wstep B cfg hs others' r r' \<and> drain_work r' < drain_work r"
proof -
  from assms(2) have ok: "tasks_ok r" "acks_ok r" by (simp_all add: run_ok_def)
  obtain t where t: "t \<in> set (rTasks r)" using assms(3) by (cases "rTasks r") auto
  show ?thesis
  proof (cases "tPhase t")
    case Running
    from wstep.w_handler [OF t Running refl] drain_handler [OF ok(1) t Running] show ?thesis by blast
  next
    case AckQueued
    with t ok(2) have ne: "rAcks r \<noteq> []" by (force simp: acks_ok_def)
    then obtain f where f: "bAckBatch B = Some f" using acks_need_loop [OF assms(1)] by blast
    have n: "1 \<le> length (rAcks r)" using ne by (cases "rAcks r") auto
    have "wstep B cfg hs others' r (ack_round f 1 r)"
      using n by (intro wstep.w_acks [OF f]) (simp_all add: maxBatch_def)
    with drain_ack_round [OF assms(2) f order_refl n] show ?thesis by blast
  next
    case (Finished e)
    from wstep.w_finish [OF t Finished] drain_finish [OF t] show ?thesis by blast
  qed
qed

end

section \<open>Properties\<close>

context store_queue
begin

lemma stats_deregister_ok:
  assumes "okS (srv st)"
  shows "okS (srv (fst (Store_Stats R c st)))" "okS (srv (fst (Store_Deregister R c w st)))"
proof -
  show "okS (srv (fst (Store_Stats R c st)))"
    using assms rt_srv unfolding Store_Stats_def by (metis fst_conv)
  let ?f = "deregisterScript R (Stream c) (Group c) w (sclk st)"
  have same: "pel (dGroup (view (fst (?f (srv st)))) (Stream c) (Group c)) = pel (dGroup (view (srv st)) (Stream c) (Group c))"
    by (rule deregister_pel)
  have "okS (fst (?f (srv st)))"
    using assms same delconsumer_frame unfolding stream_ok_def by (auto simp: deregisterScript_def split: if_splits)
  moreover have "fst (Store_Deregister R c w st) = fst (rt ?f st)"
    by (simp add: Store_Deregister_def split: prod.split sum.split)
  ultimately show "okS (srv (fst (Store_Deregister R c w st)))"
    using rt_srv [of ?f st] assms by auto
qed

end

text \<open>
  What the properties of this section assume of a worker: a store on a server that keeps to the
  documented behaviour, other clients that keep the stream consistent, and a configuration with
  a non-negative concurrency and a visibility timeout of at least a millisecond.
\<close>

definition worker_setting ::
  "'r redis \<Rightarrow> ('r \<Rightarrow> db) \<Rightarrow> (string \<Rightarrow> ktype) \<Rightarrow> (string \<Rightarrow> string \<Rightarrow> bool) \<Rightarrow> codec \<Rightarrow> Config \<Rightarrow> ('r \<Rightarrow> 'r) \<Rightarrow>
   WorkerConfig \<Rightarrow> ('r store \<Rightarrow> 'r store \<Rightarrow> bool) \<Rightarrow> 'r store \<Rightarrow> bool" where
  "worker_setting R view kt xle C c env cfg others b0 \<longleftrightarrow>
     shared_store R view kt xle C c env \<and> 0 \<le> Concurrency cfg \<and> 1 \<le> Milliseconds (VisibilityTimeout cfg) \<and>
     stream_ok (Stream c) (Group c) (view (srv b0)) \<and>
     (\<forall>b b'. stream_ok (Stream c) (Group c) (view (srv b)) \<longrightarrow> others b b' \<longrightarrow> stream_ok (Stream c) (Group c) (view (srv b')))"

lemma worker_setting_leasing:
  assumes "worker_setting R view kt xle C c env cfg others b0"
  shows "leasing_backend (store_backend R C c env cancelled) (store_ok view C c) (\<lambda>j st. holds_lease c j (view (srv st)))
      srv (\<lambda>vis. 1 \<le> Milliseconds vis)"
  using assms shared_store.store_leasing unfolding worker_setting_def by blast

lemma setting_run_ok:
  assumes "worker_setting R view kt xle C c env cfg others b0"
    and "wreach (store_backend R C c env cancelled) cfg hs others b0 r"
  shows "leasing_backend.run_ok (store_ok view C c) cfg r"
proof -
  have q: "store_queue R view kt xle C c"
    using assms(1) by (simp add: worker_setting_def shared_store_def)
  have s: "0 \<le> Concurrency cfg" "1 \<le> Milliseconds (VisibilityTimeout cfg)" "store_ok view C c b0"
    and o: "store_ok view C c b \<Longrightarrow> others b b' \<Longrightarrow> store_ok view C c b'" for b b'
    using assms(1) by (auto simp: worker_setting_def store_ok_def)
  show ?thesis
    by (rule leasing_backend.wreach_ok [OF worker_setting_leasing [OF assms(1)] assms(2) s(3) s(1) s(2) o])
      (use store_queue.stats_deregister_ok [OF q] in \<open>auto simp: store_ok_def store_backend_def\<close>)
qed

abbreviation alone :: "'b \<Rightarrow> 'b \<Rightarrow> bool" where
  "alone \<equiv> (\<lambda>_ _. False)"

lemma alone_step: "wstep B cfg hs alone r r' \<Longrightarrow> wstep B cfg hs others r r'"
  by (erule wstep.cases) (blast intro: wstep.intros)+

lemma setting_drains:
  assumes S: "worker_setting R view kt xle C c env cfg others b0"
    and "wreach (store_backend R C c env cancelled) cfg hs others b0 r" "rStopped r" "rLimit r = None"
  shows "\<exists>r'. (wstep (store_backend R C c env cancelled) cfg hs alone)\<^sup>*\<^sup>* r r' \<and> rStopped r' \<and> rLimit r' = None \<and> rTasks r' = []"
  using assms(2-4)
proof (induction "drain_work r" arbitrary: r rule: less_induct)
  case less
  note L = worker_setting_leasing [OF S] and ok = setting_run_ok [OF S less.prems(1)]
  show ?case
  proof (cases "rTasks r = []")
    case False
    from leasing_backend.drain_progress [OF L less.prems(1) ok this, of alone] obtain r1 where
      r1: "wstep (store_backend R C c env cancelled) cfg hs alone r r1" "drain_work r1 < drain_work r" by blast
    have c: "rStopped r1" "rLimit r1 = None"
      using leasing_backend.drain_step [OF L alone_step [OF r1(1)] ok less.prems(2,3)] by simp_all
    obtain r' where
      r': "(wstep (store_backend R C c env cancelled) cfg hs alone)\<^sup>*\<^sup>* r1 r'" "rStopped r'" "rLimit r' = None" "rTasks r' = []"
      using less.hyps [OF r1(2) w_step [OF less.prems(1) alone_step [OF r1(1)]] c] by (elim exE conjE)
    from converse_rtranclp_into_rtranclp [of "wstep _ _ _ _", OF r1(1) r'(1)] r'(2-4) show ?thesis by (intro exI conjI)
  qed (use less.prems in auto)
qed

lemma heartbeats_end:
  assumes "rStopped r" "rLimit r = None" "rTasks r = []"
  shows "\<exists>r'. (wstep B cfg hs others)\<^sup>*\<^sup>* r r' \<and> rDone r' \<and> rTasks r' = []"
  using assms
proof (induction "length (rHeld r)" arbitrary: r)
  case 0
  have "rDone (leave B cfg r)" "rTasks (leave B cfg r) = []"
    using 0 by (simp_all add: leave_def set_backend_def split: option.split)
  moreover have "\<not> rDone r \<Longrightarrow> wstep B cfg hs others r (leave B cfg r)"
    using 0 by (intro wstep.w_leave) simp_all
  ultimately show ?case using 0(4) by (cases "rDone r") auto
next
  case (Suc n)
  then obtain batch rest where h: "rHeld r = batch # rest" by (cases "rHeld r") auto
  let ?r = "heartbeat_chunk B batch r"
  have c: "rHeld ?r = rest" "rStopped ?r" "rLimit ?r = None" "rTasks ?r = []"
    using Suc.prems h by (simp_all add: heartbeat_chunk_def set_backend_def split: prod.split)
  have "n = length (rHeld ?r)" using Suc.hyps(2) h c(1) by simp
  from Suc.hyps(1) [OF this c(2-4)] obtain r' where "(wstep B cfg hs others)\<^sup>*\<^sup>* ?r r'" "rDone r'" "rTasks r' = []"
    by blast
  with wstep.w_heartbeat [OF h] show ?case by (meson converse_rtranclp_into_rtranclp)
qed


text \<open>
  C12. A worker can always shut down: from every state its goroutines can reach, once its
  context is cancelled, \<^verbatim>\<open>Run\<close> can go on to finish every job in flight, stop the
  background loops, deregister and return, without another client's help. While it drains, no
  step adds work: the tasks only move from running to waiting for an ack to finished to gone.
\<close>

theorem run_drains:
  assumes "worker_setting R view kt xle C c env cfg others b0"
    and "wreach (store_backend R C c env cancelled) cfg hs others b0 r"
  shows "(\<exists>r'. (wstep (store_backend R C c env cancelled) cfg hs alone)\<^sup>*\<^sup>* (r\<lparr>rStopped := True\<rparr>) r' \<and>
        rDone r' \<and> rTasks r' = []) \<and>
    (rStopped r \<and> rLimit r = None \<longrightarrow>
      (\<forall>r'. wstep (store_backend R C c env cancelled) cfg hs others r r' \<longrightarrow>
         rStopped r' \<and> rLimit r' = None \<and> drain_work r' \<le> drain_work r))"
proof
  let ?B = "store_backend R C c env cancelled"
  have stopped: "wreach ?B cfg hs others b0 (r\<lparr>rStopped := True\<rparr>)"
    by (rule w_step [OF assms(2) w_stop])
  obtain r1 where r1: "(wstep ?B cfg hs alone)\<^sup>*\<^sup>* (r\<lparr>rStopped := True\<rparr>) r1" "wreach ?B cfg hs others b0 r1"
    "rStopped r1" "rLimit r1 = None"
  proof (cases "rLimit r")
    case None
    with stopped that [of "r\<lparr>rStopped := True\<rparr>"] show thesis by simp
  next
    case (Some n)
    let ?r1 = "iterate ?B cfg 0 0 n (r\<lparr>rStopped := True\<rparr>)"
    have w: "wstep ?B cfg hs others' (r\<lparr>rStopped := True\<rparr>) ?r1" for others'
      by (rule w_fetched) (simp add: Some)
    have "rStopped ?r1" "rLimit ?r1 = None"
      by (simp_all add: iterate_def set_backend_def fold_start_stopped split: prod.split)
    with that [of ?r1] w_step [OF stopped w] w [of alone] show thesis by blast
  qed
  from setting_drains [OF assms(1) r1(2-4)] obtain r2 where
    r2: "(wstep ?B cfg hs alone)\<^sup>*\<^sup>* r1 r2" "rStopped r2" "rLimit r2 = None" "rTasks r2 = []" by blast
  from heartbeats_end [OF r2(2-4), of ?B cfg hs alone] obtain r3 where
    "(wstep ?B cfg hs alone)\<^sup>*\<^sup>* r2 r3" "rDone r3" "rTasks r3 = []" by blast
  with r1(1) r2(1) show "\<exists>r'. (wstep ?B cfg hs alone)\<^sup>*\<^sup>* (r\<lparr>rStopped := True\<rparr>) r' \<and> rDone r' \<and> rTasks r' = []"
    by (meson rtranclp_trans)
next
  show "rStopped r \<and> rLimit r = None \<longrightarrow>
      (\<forall>r'. wstep (store_backend R C c env cancelled) cfg hs others r r' \<longrightarrow>
         rStopped r' \<and> rLimit r' = None \<and> drain_work r' \<le> drain_work r)"
    using leasing_backend.drain_step [OF worker_setting_leasing [OF assms(1)] _ setting_run_ok [OF assms]] by blast
qed

section \<open>A worker on the reference server\<close>

lemma ref_setting: "worker_setting ref_redis ref_view ref_kt id_le ref_codec ref_config (\<lambda>s. s) demo_config alone (demo_store (fst demo_recover))"
proof -
  have "shared_store ref_redis ref_view ref_kt id_le ref_codec ref_config (\<lambda>s. s)"
    by (intro shared_store.intro refq.store_queue_axioms shared_store_axioms.intro) simp
  with demo_okS show ?thesis
    by (simp add: worker_setting_def demo_config_def NewWorker_def Let_def Milliseconds_def millisecond_def second_def)
qed

definition demo_fetching :: "refdb store run" where
  "demo_fetching = (start_run (demo_store (fst demo_recover)))\<lparr>rLimit := Some 1\<rparr>"

lemma demo_reach: "wreach demo_backend demo_config demo_handlers alone (demo_store (fst demo_recover)) demo_fetching"
proof -
  let ?r = "start_run (demo_store (fst demo_recover))"
  have "free_slots demo_config ?r = 1"
    by (simp add: free_slots_def start_run_def demo_config_def NewWorker_def Let_def)
  then have "wstep demo_backend demo_config demo_handlers alone ?r demo_fetching"
    using w_fetch [of ?r demo_config demo_backend demo_handlers alone] by (simp add: demo_fetching_def start_run_def)
  moreover have "wreach demo_backend demo_config demo_handlers alone (demo_store (fst demo_recover)) ?r"
    by (rule w_init) (simp add: Run_def demo_config_def NewWorker_def Let_def)
  ultimately show ?thesis by (blast intro: w_step)
qed


theorem run_drains_witness:
  "\<exists>r'. (wstep demo_backend demo_config demo_handlers alone)\<^sup>*\<^sup>* (demo_fetching\<lparr>rStopped := True\<rparr>) r' \<and> rDone r' \<and> rTasks r' = []"
  using run_drains [OF ref_setting demo_reach [unfolded demo_backend_def], folded demo_backend_def] by blast

end
