(* ===== verification/ShardedSpecs.thy ===== *)
theory ShardedSpecs
  imports Sharded WorkerRun
begin

text \<open>
  What the sharded backend guarantees: the fan-out of batches over partitions, the contract
  the worker relies on (an interpretation of the backend's locales on the sharded model, so
  the worker's results hold on it too), routing, the buffer of the long polls and shutdown.
\<close>

section \<open>Fan-out\<close>

lemma length_put_all [simp]: "length (put_all idx xs ys) = length ys"
proof -
  have "length (fold (\<lambda>(i, x) zs. zs[i := x]) ps ys) = length ys" for ps :: "(nat \<times> 'a) list"
    by (induction ps arbitrary: ys) auto
  then show ?thesis by (simp add: put_all_def)
qed

lemma put_all_Cons [simp]: "put_all (i # idx) (x # xs) ys = put_all idx xs (ys[i := x])"
  by (simp add: put_all_def)

lemma put_all_Nil [simp]: "put_all [] xs ys = ys" "put_all idx [] ys = ys"
  by (simp_all add: put_all_def)

lemma put_all_other: "i \<notin> set idx \<Longrightarrow> put_all idx xs ys ! i = ys ! i"
proof (induction idx arbitrary: xs ys)
  case (Cons j idx)
  then show ?case by (cases xs) simp_all
qed simp

lemma put_all_nth:
  "distinct idx \<Longrightarrow> length xs = length idx \<Longrightarrow> \<forall>i \<in> set idx. i < length ys \<Longrightarrow> k < length idx \<Longrightarrow>
   put_all idx xs ys ! (idx ! k) = xs ! k"
proof (induction idx arbitrary: xs ys k)
  case (Cons j idx)
  then obtain x xs' where xs: "xs = x # xs'" by (cases xs) auto
  show ?case
  proof (cases k)
    case 0
    with Cons.prems xs show ?thesis by (simp add: put_all_other)
  next
    case (Suc k')
    with Cons.prems xs Cons.IH [of xs' "ys[j := x]" k'] show ?thesis by simp
  qed
qed simp

lemma with_part_frame [simp]:
  "sConfigs (fst (with_part p f s)) = sConfigs s" "length (sStores (fst (with_part p f s))) = length (sStores s)"
  "enqueueNext (fst (with_part p f s)) = enqueueNext s" "claimNext (fst (with_part p f s)) = claimNext s"
  "sClosed (fst (with_part p f s)) = sClosed s" "arrived (fst (with_part p f s)) = arrived s"
  "waiting (fst (with_part p f s)) = waiting s" "pollers (fst (with_part p f s)) = pollers s"
  "pollWith (fst (with_part p f s)) = pollWith s" "buffered (fst (with_part p f s)) = buffered s"
  by (simp_all add: with_part_def split: prod.split)

lemma with_part_stores:
  "sStores (fst (with_part p f s)) = (sStores s)[p := fst (f (sConfigs s ! p) (sStores s ! p))]"
  by (simp add: with_part_def split: prod.split)

lemma with_part_result [simp]: "snd (with_part p f s) = snd (f (sConfigs s ! p) (sStores s ! p))"
  by (simp add: with_part_def split: prod.split)

text \<open>The answers of one partition's group, when the call answers for every job.\<close>

definition answers_all :: "(Config \<Rightarrow> job list \<Rightarrow> 'r store \<Rightarrow> 'r store \<times> 'a list) \<Rightarrow> bool" where
  "answers_all f \<longleftrightarrow> (\<forall>c js st. length (snd (f c js st)) = length js)"

lemma run_groups_spec:
  assumes "answers_all f" "distinct ps" "set ps \<subseteq> {..<parts s}"
    and "\<And>p. p \<in> set ps \<Longrightarrow> distinct (idx p) \<and> (\<forall>i \<in> set (idx p). i < length errs)"
    and "\<And>p q. p \<in> set ps \<Longrightarrow> q \<in> set ps \<Longrightarrow> p \<noteq> q \<Longrightarrow> set (idx p) \<inter> set (idx q) = {}"
    and "run_groups f jobs idx ps s errs = (s', errs')"
  shows "length errs' = length errs \<and> sConfigs s' = sConfigs s \<and> buffered s' = buffered s \<and> pollers s' = pollers s \<and>
      waiting s' = waiting s \<and> pollWith s' = pollWith s \<and> parts s' = parts s \<and>
    (\<forall>p < parts s. sStores s' ! p =
       (if p \<in> set ps then fst (f (sConfigs s ! p) (map ((!) jobs) (idx p)) (sStores s ! p)) else sStores s ! p)) \<and>
    (\<forall>p \<in> set ps. \<forall>k < length (idx p).
       errs' ! (idx p ! k) = snd (f (sConfigs s ! p) (map ((!) jobs) (idx p)) (sStores s ! p)) ! k) \<and>
    (\<forall>i. (\<forall>p \<in> set ps. i \<notin> set (idx p)) \<longrightarrow> errs' ! i = errs ! i)"
  using assms(2-6)
proof (induction ps arbitrary: s errs)
  case (Cons p ps)
  let ?g = "\<lambda>c. f c (map ((!) jobs) (idx p))"
  obtain s1 es where w: "with_part p ?g s = (s1, es)" by (cases "with_part p ?g s")
  define errs1 where "errs1 = put_all (idx p) es errs"
  have s1: "s1 = fst (with_part p ?g s)" and es: "es = snd (f (sConfigs s ! p) (map ((!) jobs) (idx p)) (sStores s ! p))"
    using w with_part_result [of p ?g s] by simp_all
  have len: "length es = length (idx p)"
    using assms(1) by (simp add: answers_all_def es)
  have p: "p < parts s" "p \<notin> set ps" using Cons.prems(1,2) by auto
  have same: "sStores s1 ! q = (if q = p then fst (?g (sConfigs s ! p) (sStores s ! p)) else sStores s ! q)" if "q < parts s" for q
    using that p(1) by (simp add: s1 with_part_stores nth_list_update)
  have R: "run_groups f jobs idx ps s1 errs1 = (s', errs')"
    using Cons.prems(5) w by (simp add: errs1_def)
  have d: "distinct ps" "set ps \<subseteq> {..<parts s1}"
    using Cons.prems(1,2) by (simp_all add: s1)
  have i: "distinct (idx q) \<and> (\<forall>i \<in> set (idx q). i < length errs1)" if "q \<in> set ps" for q
    using Cons.prems(3) [of q] that by (simp add: errs1_def)
  have j: "set (idx q) \<inter> set (idx q') = {}" if "q \<in> set ps" "q' \<in> set ps" "q \<noteq> q'" for q q'
    using Cons.prems(4) [of q q'] that by simp
  note IH = Cons.IH [OF d i j R]
  have frame: "sConfigs s1 = sConfigs s" "buffered s1 = buffered s" "pollers s1 = pollers s" "waiting s1 = waiting s"
    "pollWith s1 = pollWith s" "parts s1 = parts s"
    by (simp_all add: s1)
  have own: "errs' ! (idx p ! k) = es ! k" if "k < length (idx p)" for k
  proof -
    have "idx p ! k \<in> set (idx p)" using that by simp
    then have "\<forall>q \<in> set ps. idx p ! k \<notin> set (idx q)"
      using Cons.prems(4) [of p] p(2) by (metis disjoint_iff list.set_intros(1,2))
    with IH have "errs' ! (idx p ! k) = errs1 ! (idx p ! k)" by blast
    also have "\<dots> = es ! k"
      unfolding errs1_def using Cons.prems(3) [of p] len that by (intro put_all_nth) auto
    finally show ?thesis .
  qed
  have other: "errs1 ! i = errs ! i" if "i \<notin> set (idx p)" for i
    using put_all_other [OF that] by (simp add: errs1_def)
  have stores: "sStores s' ! q =
       (if q \<in> set (p # ps) then fst (f (sConfigs s ! q) (map ((!) jobs) (idx q)) (sStores s ! q)) else sStores s ! q)"
    if "q < parts s" for q
    using IH same [OF that] p that by (auto simp: frame)
  have answers: "errs' ! (idx q ! k) = snd (f (sConfigs s ! q) (map ((!) jobs) (idx q)) (sStores s ! q)) ! k"
    if "q \<in> set (p # ps)" "k < length (idx q)" for q k
  proof (cases "q = p")
    case True
    with own that show ?thesis by (simp add: es)
  next
    case False
    with that have "q \<in> set ps" by simp
    moreover from this have "q < parts s" using Cons.prems(2) by auto
    ultimately show ?thesis using IH same [of q] False that(2) by (simp add: frame)
  qed
  show ?case
    using IH stores answers other by (simp add: frame errs1_def)
qed simp

text \<open>A schedule runs every partition's goroutine once, in any order.\<close>

definition sched_ok :: "nat list \<Rightarrow> nat \<Rightarrow> bool" where
  "sched_ok sched n \<longleftrightarrow> distinct sched \<and> set sched = {..<n}"

lemma partOf_Inr: "partOf j s = Inr p \<longleftrightarrow> Partition (Lease j) = int p \<and> p < parts s"
  by (auto simp: partOf_def Let_def)

lemma part_indexes_facts:
  "distinct (part_indexes jobs s p)" "set (part_indexes jobs s p) = {i. i < length jobs \<and> partOf (jobs ! i) s = Inr p}"
  by (auto simp: part_indexes_def)

lemma part_jobs:
  "map ((!) jobs) (part_indexes jobs s p) = filter (\<lambda>j. partOf j s = Inr p) jobs"
proof -
  have "filter (\<lambda>j. partOf j s = Inr p) jobs = filter (\<lambda>j. partOf j s = Inr p) (map ((!) jobs) [0..<length jobs])"
    by (simp only: map_nth)
  then show ?thesis by (simp only: part_indexes_def filter_map o_def)
qed

lemma perPartition_spec:
  assumes "answers_all f" "sched_ok sched (parts s)" "perPartition sched jobs f s = (s', errs)"
  shows "length errs = length jobs" "sConfigs s' = sConfigs s" "buffered s' = buffered s" "pollers s' = pollers s"
      "waiting s' = waiting s" "pollWith s' = pollWith s" "parts s' = parts s"
    and "p < parts s \<Longrightarrow> sStores s' ! p =
       (if filter (\<lambda>j. partOf j s = Inr p) jobs = [] then sStores s ! p
        else fst (f (sConfigs s ! p) (filter (\<lambda>j. partOf j s = Inr p) jobs) (sStores s ! p)))"
    and "p < parts s \<Longrightarrow> k < length (part_indexes jobs s p) \<Longrightarrow>
       errs ! (part_indexes jobs s p ! k) = snd (f (sConfigs s ! p) (filter (\<lambda>j. partOf j s = Inr p) jobs) (sStores s ! p)) ! k"
    and "i < length jobs \<Longrightarrow> partOf (jobs ! i) s = Inl e \<Longrightarrow> errs ! i = Some e"
proof -
  let ?idx = "part_indexes jobs s"
  let ?ps = "filter (\<lambda>p. ?idx p \<noteq> []) sched"
  let ?errs = "map (\<lambda>j. case partOf j s of Inl e \<Rightarrow> Some e | Inr _ \<Rightarrow> None) jobs"
  have run: "run_groups f jobs ?idx ?ps s ?errs = (s', errs)"
    using assms(3) by (simp add: perPartition_def Let_def)
  have ps: "distinct ?ps" "set ?ps \<subseteq> {..<parts s}"
    using assms(2) by (auto simp: sched_ok_def)
  have i: "distinct (?idx p) \<and> (\<forall>i \<in> set (?idx p). i < length ?errs)" for p
    by (simp add: part_indexes_facts)
  have d: "p \<noteq> q \<Longrightarrow> set (?idx p) \<inter> set (?idx q) = {}" for p q
    by (auto simp: part_indexes_facts)
  note S = run_groups_spec [OF assms(1) ps i d run, unfolded part_jobs]
  from S show "length errs = length jobs" "sConfigs s' = sConfigs s" "buffered s' = buffered s" "pollers s' = pollers s"
      "waiting s' = waiting s" "pollWith s' = pollWith s" "parts s' = parts s"
    by simp_all
  have empty: "?idx p = [] \<longleftrightarrow> filter (\<lambda>j. partOf j s = Inr p) jobs = []" for p
    using part_jobs [of jobs s p] by (metis map_is_Nil_conv)
  have mem: "p \<in> set ?ps \<longleftrightarrow> filter (\<lambda>j. partOf j s = Inr p) jobs \<noteq> []" if "p < parts s" for p
    using assms(2) that empty [of p] by (auto simp: sched_ok_def)
  show "p < parts s \<Longrightarrow> sStores s' ! p =
       (if filter (\<lambda>j. partOf j s = Inr p) jobs = [] then sStores s ! p
        else fst (f (sConfigs s ! p) (filter (\<lambda>j. partOf j s = Inr p) jobs) (sStores s ! p)))"
    using S mem [of p] by auto
  show "p < parts s \<Longrightarrow> k < length (?idx p) \<Longrightarrow>
       errs ! (?idx p ! k) = snd (f (sConfigs s ! p) (filter (\<lambda>j. partOf j s = Inr p) jobs) (sStores s ! p)) ! k"
  proof -
    assume p: "p < parts s" and k: "k < length (?idx p)"
    then have "?idx p \<noteq> []" by auto
    with mem [OF p] empty have "p \<in> set ?ps" by blast
    with S k show ?thesis by blast
  qed
  show "i < length jobs \<Longrightarrow> partOf (jobs ! i) s = Inl e \<Longrightarrow> errs ! i = Some e"
  proof -
    assume i: "i < length jobs" "partOf (jobs ! i) s = Inl e"
    then have "\<forall>p \<in> set ?ps. i \<notin> set (?idx p)" by (auto simp: part_indexes_facts)
    with S i show ?thesis by simp
  qed
qed

lemma answers_all_store: "answers_all (Store_AckBatch R)" "answers_all (Store_ExtendBatch R)"
  by (simp_all add: answers_all_def Store_AckBatch_def Store_ExtendBatch_def fencedBatch_def split: prod.split sum.split)

section \<open>The contract of a backend\<close>

definition shard_ok :: "('r \<Rightarrow> db) \<Rightarrow> Config list \<Rightarrow> 'r sharded \<Rightarrow> bool" where
  "shard_ok view cs s \<longleftrightarrow> sConfigs s = cs \<and> length (sStores s) = length cs \<and> length (pollers s) = length cs \<and>
     (\<forall>p < length cs. stream_ok (Stream (cs ! p)) (Group (cs ! p)) (view (srv (sStores s ! p)))) \<and>
     (\<forall>a. Reading a \<in> set (pollers s) \<longrightarrow> 1 \<le> paCount a) \<and> (waiting s \<noteq> 0 \<longrightarrow> 1 \<le> paCount (pollWith s)) \<and>
     (\<forall>j \<in> set (buffered s). 0 \<le> Partition (Lease j) \<and> Partition (Lease j) < int (length cs))"

definition shard_holds :: "('r \<Rightarrow> db) \<Rightarrow> Config list \<Rightarrow> job \<Rightarrow> 'r sharded \<Rightarrow> bool" where
  "shard_holds view cs j s \<longleftrightarrow>
     (\<exists>p < length cs. Partition (Lease j) = int p \<and> holds_lease (cs ! p) j (view (srv (sStores s ! p))))"

definition shard_data :: "'r sharded \<Rightarrow> 'r list" where
  "shard_data s = map srv (sStores s)"

locale sharded_queue =
  fixes R :: "'r redis" and view :: "'r \<Rightarrow> db" and kt :: "string \<Rightarrow> ktype" and xle :: "string \<Rightarrow> string \<Rightarrow> bool"
    and C :: codec and cs :: "Config list" and sched :: "nat list" and evs :: "wait_event list"
  assumes part_queue: "c \<in> set cs \<Longrightarrow> store_queue R view kt xle C c"
    and some_parts: "cs \<noteq> []"
    and sched: "sched_ok sched (length cs)"
begin

abbreviation okp :: "nat \<Rightarrow> 'r store \<Rightarrow> bool" where
  "okp p st \<equiv> stream_ok (Stream (cs ! p)) (Group (cs ! p)) (view (srv st))"

lemma part_store: "p < length cs \<Longrightarrow> store_queue R view kt xle C (cs ! p)"
  by (simp add: part_queue)

lemma part_shared: "p < length cs \<Longrightarrow> shared_store R view kt xle C (cs ! p) (\<lambda>s. s)"
  by (simp add: shared_store_def shared_store_axioms_def part_queue)

lemma shard_okD:
  assumes "shard_ok view cs s"
  shows "sConfigs s = cs" "length (sStores s) = length cs" "length (pollers s) = length cs"
    "p < length cs \<Longrightarrow> okp p (sStores s ! p)" "Reading a \<in> set (pollers s) \<Longrightarrow> 1 \<le> paCount a"
    "waiting s \<noteq> 0 \<Longrightarrow> 1 \<le> paCount (pollWith s)"
  using assms by (simp_all add: shard_ok_def)

lemma with_part_ok:
  assumes "shard_ok view cs s" "p < length cs" "okp p (fst (f (cs ! p) (sStores s ! p)))"
  shows "shard_ok view cs (fst (with_part p f s))"
  using assms by (auto simp: shard_ok_def with_part_stores nth_list_update)

lemma on_part_cases:
  assumes "shard_ok view cs s"
  obtains (unknown) m where "on_part j f s = (s, Some (ErrorString m))" "\<not> shard_holds view cs j s"
  | (known) p where "p < length cs" "Partition (Lease j) = int p" "on_part j f s = with_part p f s"
      "shard_holds view cs j s \<longleftrightarrow> holds_lease (cs ! p) j (view (srv (sStores s ! p)))"
proof (cases "partOf j s")
  case (Inl e)
  then have "\<not> shard_holds view cs j s" "\<exists>m. e = ErrorString m"
    using shard_okD(2) [OF assms] by (auto simp: partOf_def Let_def shard_holds_def split: if_splits)
  with Inl unknown show thesis by (auto simp: on_part_def)
next
  case (Inr p)
  then have p: "p < length cs" "Partition (Lease j) = int p"
    using shard_okD(2) [OF assms] by (simp_all add: partOf_Inr)
  then have "shard_holds view cs j s \<longleftrightarrow> holds_lease (cs ! p) j (view (srv (sStores s ! p)))"
    by (auto simp: shard_holds_def)
  with known p Inr show thesis by (simp add: on_part_def)
qed

lemma on_part_fenced:
  assumes "shard_ok view cs s" "\<And>p. p < length cs \<Longrightarrow> f (cs ! p) \<in> settling R C (cs ! p) j"
  shows "shard_ok view cs (fst (on_part j f s))" "snd (on_part j f s) = None \<Longrightarrow> shard_holds view cs j s"
    "snd (on_part j f s) = Some ErrLeaseLost \<Longrightarrow> \<not> shard_holds view cs j s"
    "\<not> shard_holds view cs j s \<Longrightarrow> shard_data (fst (on_part j f s)) = shard_data s"
proof -
  from assms(1) show "shard_ok view cs (fst (on_part j f s))"
  proof (cases rule: on_part_cases [where j = j and f = f])
    case (known p)
    have "okp p (fst (f (cs ! p) (sStores s ! p)))"
      by (rule store_queue.settling_okS [OF part_store assms(2)]) (use known shard_okD(4) [OF assms(1)] in simp_all)
    with known with_part_ok [OF assms(1)] show ?thesis by simp
  qed (simp add: assms(1))
  have settled: "(snd (f (cs ! p) (sStores s ! p)) = None \<longrightarrow> holds_lease (cs ! p) j (view (srv (sStores s ! p)))) \<and>
      (snd (f (cs ! p) (sStores s ! p)) = Some ErrLeaseLost \<longrightarrow> \<not> holds_lease (cs ! p) j (view (srv (sStores s ! p)))) \<and>
      (\<not> holds_lease (cs ! p) j (view (srv (sStores s ! p))) \<longrightarrow> srv (fst (f (cs ! p) (sStores s ! p))) = srv (sStores s ! p))"
    if "p < length cs" for p
    using store_queue.settling_result [OF part_store [OF that] assms(2) [OF that] shard_okD(4) [OF assms(1) that]] by blast
  show "snd (on_part j f s) = None \<Longrightarrow> shard_holds view cs j s"
    using settled by (cases rule: on_part_cases [OF assms(1), of j f]) (simp_all add: shard_okD(1) [OF assms(1)])
  show "snd (on_part j f s) = Some ErrLeaseLost \<Longrightarrow> \<not> shard_holds view cs j s"
    using settled by (cases rule: on_part_cases [OF assms(1), of j f]) (simp_all add: shard_okD(1) [OF assms(1)])
  show "\<not> shard_holds view cs j s \<Longrightarrow> shard_data (fst (on_part j f s)) = shard_data s"
  proof -
    assume n: "\<not> shard_holds view cs j s"
    from assms(1) show ?thesis
    proof (cases rule: on_part_cases [where j = j and f = f])
    case (known p)
    with n settled [of p] have "srv (fst (f (cs ! p) (sStores s ! p))) = srv (sStores s ! p)" by simp
    with known shard_okD(1,2) [OF assms(1)] show ?thesis
      by (simp add: shard_data_def with_part_stores map_update list_update_same_conv)
    qed simp
  qed
qed

lemma sharded_settling:
  assumes "f \<in> {bAck (sharded_backend R C sched evs) j, bExtend (sharded_backend R C sched evs) j} \<union>
     range (bRetry (sharded_backend R C sched evs) j) \<union> range (bDeadLetter (sharded_backend R C sched evs) j)"
  shows "\<exists>g. f = on_part j g \<and> (\<forall>c. g c \<in> settling R C c j)"
proof -
  from assms consider "f = on_part j (\<lambda>c. Store_Ack R c j)" | "f = on_part j (\<lambda>c. Store_Extend R c j)"
    | t where "f = on_part j (\<lambda>c. Store_Retry R C c j t)" | r where "f = on_part j (\<lambda>c. Store_DeadLetter R C c j r)"
    by (auto simp: sharded_backend_def Sharded_Ack_def Sharded_Extend_def Sharded_Retry_def Sharded_DeadLetter_def)
  then show ?thesis
    by cases (rule exI, erule conjI, simp add: settling_def)+
qed

end

sublocale sharded_queue \<subseteq> sharded: fenced_backend "sharded_backend R C sched evs" "shard_ok view cs" "shard_holds view cs" shard_data
proof (unfold_locales, goal_cases)
  case (1 b f j)
  from sharded_settling [OF 1(2)] obtain g where "f = on_part j g" "\<And>c. g c \<in> settling R C c j" by blast
  with 1(1) on_part_fenced(1) show ?case by blast
next
  case (2 b f j)
  from sharded_settling [OF 2(2)] obtain g where "f = on_part j g" "\<And>c. g c \<in> settling R C c j" by blast
  with 2(1,3) on_part_fenced(2) show ?case by blast
next
  case (3 b f j)
  from sharded_settling [OF 3(2)] obtain g where "f = on_part j g" "\<And>c. g c \<in> settling R C c j" by blast
  with 3(1,3) on_part_fenced(3) show ?case by blast
next
  case (4 b f j)
  from sharded_settling [OF 4(2)] obtain g where "f = on_part j g" "\<And>c. g c \<in> settling R C c j" by blast
  with 4(1,3) on_part_fenced(4) show ?case by blast
qed

text \<open>Claims and recoveries keep the invariant and stay within their limit.\<close>

lemma takeBuffered_split:
  "takeBuffered limit s = (s', js) \<Longrightarrow> js @ buffered s' = buffered s \<and> (0 \<le> limit \<longrightarrow> int (length js) \<le> limit) \<and> s' = s\<lparr>buffered := buffered s'\<rparr>"
  by (auto simp: takeBuffered_def Let_def split: if_splits)

lemma takeBuffered_empty: "takeBuffered limit s = (s', []) \<Longrightarrow> s' = s"
  by (auto simp: takeBuffered_def Let_def split: if_splits)

lemma tag_partition: "j \<in> set (tag js p) \<Longrightarrow> Partition (Lease j) = int p"
  by (auto simp: tag_def tag_job_def)

lemma length_tag [simp]: "length (tag js p) = length js"
  by (simp add: tag_def)

lemma tag_Nil [simp]: "tag js p = [] \<longleftrightarrow> js = []" "tag [] p = []"
  by (simp_all add: tag_def)

context sharded_queue
begin

lemma shard_ok_fields:
  "shard_ok view cs s \<Longrightarrow> sConfigs s' = sConfigs s \<Longrightarrow> sStores s' = sStores s \<Longrightarrow> pollers s' = pollers s \<Longrightarrow>
   waiting s' = waiting s \<Longrightarrow> pollWith s' = pollWith s \<Longrightarrow> set (buffered s') \<subseteq> set (buffered s) \<Longrightarrow> shard_ok view cs s'"
  unfolding shard_ok_def by auto

lemma takeBuffered_ok:
  assumes "shard_ok view cs s" "takeBuffered limit s = (s', js)"
  shows "shard_ok view cs s'"
proof (rule shard_ok_fields [OF assms(1)])
  from takeBuffered_split [OF assms(2)] have t: "js @ buffered s' = buffered s" "s' = s\<lparr>buffered := buffered s'\<rparr>" by auto
  show "set (buffered s') \<subseteq> set (buffered s)" unfolding t(1) [symmetric] by simp
  show "sConfigs s' = sConfigs s" "sStores s' = sStores s" "pollers s' = pollers s" "waiting s' = waiting s" "pollWith s' = pollWith s"
    by (subst t(2), simp)+
qed

text \<open>What a sweep needs of the call it makes on each partition.\<close>

definition keeps_part :: "(int \<Rightarrow> Config \<Rightarrow> 'r store \<Rightarrow> 'r store \<times> (err + job list)) \<Rightarrow> bool" where
  "keeps_part f \<longleftrightarrow> (\<forall>p < length cs. \<forall>n st. 1 \<le> n \<longrightarrow> okp p st \<longrightarrow>
     okp p (fst (f n (cs ! p) st)) \<and> (\<forall>js. snd (f n (cs ! p) st) = Inr js \<longrightarrow> int (length js) \<le> n))"

lemma sweep_ok:
  assumes "keeps_part f"
  shows "shard_ok view cs s \<Longrightarrow> set ps \<subseteq> {..<length cs} \<Longrightarrow> int (length jobs) \<le> limit \<Longrightarrow>
    sweep f limit ps jobs s = (s', js, e) \<Longrightarrow> shard_ok view cs s' \<and> int (length js) \<le> limit"
proof (induction ps arbitrary: s jobs)
  case (Cons p ps)
  show ?case
  proof (cases "int (length jobs) < limit")
    case True
    let ?g = "f (limit - int (length jobs))"
    obtain s1 x where w: "with_part p ?g s = (s1, x)" by (cases "with_part p ?g s")
    have p: "p < length cs" using Cons.prems(2) by simp
    note k = assms [unfolded keeps_part_def, rule_format, OF p, of "limit - int (length jobs)" "sStores s ! p"]
    have s1: "shard_ok view cs s1"
      using with_part_ok [OF Cons.prems(1) p, of ?g] k shard_okD(4) [OF Cons.prems(1) p] True by (simp add: w)
    have x: "x = snd (?g (cs ! p) (sStores s ! p))"
      using with_part_result [of p ?g s] shard_okD(1) [OF Cons.prems(1)] by (simp add: w)
    show ?thesis
    proof (cases x)
      case (Inl err)
      with Cons.prems(3,4) w True s1 show ?thesis by auto
    next
      case (Inr got)
      then have "int (length got) \<le> limit - int (length jobs)"
        using k shard_okD(4) [OF Cons.prems(1) p] True x by simp
      with Cons.IH [of s1 "jobs @ tag got p"] Cons.prems(2,4) s1 Inr w True show ?thesis by simp
    qed
  qed (use Cons.prems in simp)
qed auto

lemma sweep_order_parts: "set (sweep_order (length cs) start) \<subseteq> {..<length cs}"
  using some_parts by (auto simp: sweep_order_def)

lemma keeps_claimReady: "keeps_part (\<lambda>n c. claimReady R C c w n)"
  unfolding keeps_part_def using shared_store.claimReady_okS [OF part_shared] by blast

lemma keeps_recover: "1 \<le> Milliseconds vis \<Longrightarrow> keeps_part (\<lambda>n c. Store_RecoverExpired R C c vis w n)"
  unfolding keeps_part_def using shared_store.RecoverExpired_okS [OF part_shared _ _ _ prod.collapse [symmetric]] by blast

lemma poll_check_ok:
  assumes "shard_ok view cs s" shows "shard_ok view cs (poll_check p s)"
proof -
  have "set ((pollers s)[p := x]) \<subseteq> insert x (set (pollers s))" for x by (rule set_update_subset_insert)
  with assms show ?thesis
    unfolding shard_ok_def poll_check_def set_poller_def by auto
qed

lemma poll_read_ok:
  assumes "shard_ok view cs s" shows "shard_ok view cs (poll_read R C p s)"
proof (cases "p < length (pollers s) \<and> (\<exists>a. pollers s ! p = Reading a)")
  case True
  then obtain a where a: "p < length (pollers s)" "pollers s ! p = Reading a" by blast
  let ?g = "\<lambda>c. claimBlocking R C c (sClosed s) (paWorker a) (paCount a)"
  obtain s1 x where w: "with_part p ?g s = (s1, x)" by (cases "with_part p ?g s")
  have p: "p < length cs" using a(1) shard_okD(3) [OF assms] by simp
  have "Reading a \<in> set (pollers s)" using a nth_mem by metis
  then have c: "1 \<le> paCount a" by (rule shard_okD(5) [OF assms])
  have "okp p (fst (?g (cs ! p) (sStores s ! p)))"
    by (rule shared_store.claimBlocking_okS(1) [OF part_shared [OF p] shard_okD(4) [OF assms p] c])
  then have s1: "shard_ok view cs s1"
    using with_part_ok [OF assms p, of ?g] by (simp add: w)
  have up: "shard_ok view cs (set_poller p y s1)" if "\<And>b. y \<noteq> Reading b" for y
  proof -
    have "set ((pollers s1)[p := y]) \<subseteq> insert y (set (pollers s1))" by (rule set_update_subset_insert)
    with s1 that show ?thesis unfolding shard_ok_def set_poller_def by auto
  qed
  have "shard_ok view cs ((set_poller p NoPoller s1)\<lparr>buffered := buffered s1 @ tag got p, arrived := True\<rparr>)" for got
    using up [of NoPoller] p by (auto simp: shard_ok_def set_poller_def dest: tag_partition)
  with up [of AtTop] show ?thesis
    using a by (simp add: poll_read_def w split: sum.split)
qed (use assms in \<open>auto simp: poll_read_def split: poller.split\<close>)

lemma wait_loop_ok:
  "shard_ok view cs s \<Longrightarrow> 0 \<le> limit \<Longrightarrow> wait_loop R C limit es s = (s', js) \<Longrightarrow> shard_ok view cs s' \<and> int (length js) \<le> limit"
proof (induction es arbitrary: s)
  case Nil
  then show ?case using takeBuffered_ok takeBuffered_split [of limit s s' js] by auto
next
  case (Cons ev es)
  show ?case
  proof (cases ev)
    case (Checks p)
    with Cons.IH [OF poll_check_ok [OF Cons.prems(1)] Cons.prems(2)] Cons.prems(3) show ?thesis by simp
  next
    case (Reads p)
    with Cons.IH [OF poll_read_ok [OF Cons.prems(1)] Cons.prems(2)] Cons.prems(3) show ?thesis by simp
  next
    case Signalled
    obtain s1 jobs where t: "takeBuffered limit (s\<lparr>arrived := False\<rparr>) = (s1, jobs)"
      by (cases "takeBuffered limit (s\<lparr>arrived := False\<rparr>)")
    have "shard_ok view cs (s\<lparr>arrived := False\<rparr>)"
      using Cons.prems(1) by (rule shard_ok_fields) simp_all
    then have "shard_ok view cs s1" by (rule takeBuffered_ok [OF _ t])
    with Cons.IH [of s] Cons.IH [of s1] Cons.prems takeBuffered_split [OF t] show ?thesis
      by (auto simp: Signalled t split: if_splits)
  qed
qed

lemma start_pollers_ok: "shard_ok view cs s \<Longrightarrow> shard_ok view cs (start_pollers w limit wait s)"
  by (auto simp: shard_ok_def start_pollers_def split: if_splits)

lemma start_pollers_count: "1 \<le> paCount (pollWith (start_pollers w limit wait s))"
  by (simp add: start_pollers_def)

lemma poll_frame [simp]: "pollWith (poll_check p s) = pollWith s" "pollWith (poll_read R C p s) = pollWith s"
  by (auto simp: poll_check_def poll_read_def set_poller_def with_part_def split: poller.split prod.split sum.split)

lemma wait_loop_pollWith: "wait_loop R C limit es s = (s', js) \<Longrightarrow> pollWith s' = pollWith s"
proof (induction es arbitrary: s)
  case Nil
  then show ?case by (auto simp: takeBuffered_def Let_def split: if_splits)
next
  case (Cons ev es)
  show ?case
  proof (cases ev)
    case Signalled
    obtain s1 jobs where t: "takeBuffered limit (s\<lparr>arrived := False\<rparr>) = (s1, jobs)"
      by (cases "takeBuffered limit (s\<lparr>arrived := False\<rparr>)")
    then have "pollWith s1 = pollWith s" by (auto simp: takeBuffered_def Let_def split: if_splits)
    with Cons.IH [of s] Cons.IH [of s1] Cons.prems show ?thesis
      by (auto simp: Signalled t split: if_splits)
  qed (use Cons in auto)
qed

lemma waitForJobs_ok:
  assumes "shard_ok view cs s" "0 \<le> limit" "waitForJobs R C es w limit wait s = (s', js)"
  shows "shard_ok view cs s' \<and> int (length js) \<le> limit"
proof (cases "sClosed s")
  case False
  let ?s = "start_pollers w limit wait s"
  obtain s1 where l: "wait_loop R C limit es ?s = (s1, js)" and s': "s' = s1\<lparr>waiting := waiting s1 - 1\<rparr>"
    using assms(3) False by (auto simp: waitForJobs_def split: prod.splits)
  from wait_loop_ok [OF start_pollers_ok [OF assms(1)] assms(2) l] wait_loop_pollWith [OF l]
    start_pollers_count [of w limit wait s] show ?thesis
    by (auto simp: s' shard_ok_def)
qed (use assms in \<open>simp add: waitForJobs_def\<close>)

lemma Claim_ok:
  assumes "shard_ok view cs s" "1 \<le> limit" "Sharded_Claim R C es w limit wait s = (s', js, e)"
  shows "shard_ok view cs s' \<and> int (length js) \<le> limit"
proof -
  obtain s1 from_buf where t: "takeBuffered limit s = (s1, from_buf)" by (cases "takeBuffered limit s")
  define start where "start = Suc (claimNext s1) mod 2 ^ 64"
  let ?s2 = "s1\<lparr>claimNext := start\<rparr>"
  have ok2: "shard_ok view cs ?s2"
    using takeBuffered_ok [OF assms(1) t] by (rule shard_ok_fields) simp_all
  have l: "int (length from_buf) \<le> limit" using takeBuffered_split [OF t] assms(2) by auto
  obtain s3 jobs err where w: "sweep (\<lambda>n c. claimReady R C c w n) limit (sweep_order (parts ?s2) start) from_buf ?s2 = (s3, jobs, err)"
    by (metis prod_cases3)
  have n: "parts ?s2 = length cs" using shard_okD(2) [OF ok2] .
  have k: "shard_ok view cs s3 \<and> int (length jobs) \<le> limit"
    by (rule sweep_ok [OF keeps_claimReady ok2 _ l w]) (simp only: n sweep_order_parts)
  then show ?thesis
    using assms(2,3) waitForJobs_ok [of s3 limit es w wait s' js] w
    by (auto simp: Sharded_Claim_def t Let_def start_def split: option.splits if_splits prod.splits)
qed

lemma RecoverExpired_ok:
  assumes "shard_ok view cs s" "1 \<le> limit" "1 \<le> Milliseconds vis" "Sharded_RecoverExpired R C vis w limit s = (s', js, e)"
  shows "shard_ok view cs s' \<and> int (length js) \<le> limit"
proof (rule sweep_ok [OF keeps_recover [OF assms(3)] assms(1)])
  show "set (sweep_order (length cs) (claimNext s)) \<subseteq> {..<length cs}" by (rule sweep_order_parts)
  show "sweep (\<lambda>n c. Store_RecoverExpired R C c vis w n) limit (sweep_order (length cs) (claimNext s)) [] s = (s', js, e)"
    using assms(4) shard_okD(2) [OF assms(1)] by (simp add: Sharded_RecoverExpired_def)
  show "int (length []) \<le> limit" using assms(2) by simp
qed

lemma perPartition_ok:
  assumes "shard_ok view cs s" "answers_all f" "perPartition sched jobs f s = (s', errs)"
    and "\<And>p js st. p < length cs \<Longrightarrow> okp p st \<Longrightarrow> okp p (fst (f (cs ! p) js st))"
  shows "shard_ok view cs s'"
proof -
  have so: "sched_ok sched (parts s)" using sched shard_okD(2) [OF assms(1)] by simp
  note P = perPartition_spec [OF assms(2) so assms(3)]
  have "okp p (sStores s' ! p)" if "p < length cs" for p
    using P(8) [of p] that assms(4) [OF that] shard_okD(4) [OF assms(1) that] shard_okD(1,2) [OF assms(1)] by simp
  with P(2-7) assms(1) show ?thesis by (simp add: shard_ok_def)
qed

lemma batches_ok:
  assumes "shard_ok view cs s"
  shows "shard_ok view cs (fst (Sharded_AckBatch R sched js s))" "length (snd (Sharded_AckBatch R sched js s)) = length js"
    "shard_ok view cs (fst (Sharded_ExtendBatch R sched js s))" "length (snd (Sharded_ExtendBatch R sched js s)) = length js"
proof -
  have so: "sched_ok sched (parts s)" using sched shard_okD(2) [OF assms] by simp
  obtain s1 e1 where a: "perPartition sched js (Store_AckBatch R) s = (s1, e1)" by (cases "perPartition sched js (Store_AckBatch R) s")
  obtain s2 e2 where b: "perPartition sched (js @ buffered s) (Store_ExtendBatch R) s = (s2, e2)"
    by (cases "perPartition sched (js @ buffered s) (Store_ExtendBatch R) s")
  have k: "okp p (fst (Store_AckBatch R (cs ! p) js st)) \<and> okp p (fst (Store_ExtendBatch R (cs ! p) js st))"
    if "p < length cs" "okp p st" for p js st
    using shared_store.batch_okS [OF part_shared [OF that(1)] that(2)] by blast
  show "shard_ok view cs (fst (Sharded_AckBatch R sched js s))"
    using perPartition_ok [OF assms answers_all_store(1) a] k by (simp add: Sharded_AckBatch_def a)
  show "length (snd (Sharded_AckBatch R sched js s)) = length js"
    using perPartition_spec(1) [OF answers_all_store(1) so a] by (simp add: Sharded_AckBatch_def a)
  have ok2: "shard_ok view cs s2"
    using perPartition_ok [OF assms answers_all_store(2) b] k by blast
  show "shard_ok view cs (fst (Sharded_ExtendBatch R sched js s))"
    by (rule shard_ok_fields [OF ok2]) (auto simp: Sharded_ExtendBatch_def b Let_def)
  show "length (snd (Sharded_ExtendBatch R sched js s)) = length js"
    using perPartition_spec(1) [OF answers_all_store(2) so b] by (simp add: Sharded_ExtendBatch_def b Let_def)
qed

end

sublocale sharded_queue \<subseteq> leasing: leasing_backend "sharded_backend R C sched evs" "shard_ok view cs" "shard_holds view cs" shard_data
  "\<lambda>vis. 1 \<le> Milliseconds vis"
proof (unfold_locales, goal_cases)
  case (1 b limit w wait b' js e)
  then show ?case using Claim_ok by (simp add: sharded_backend_def)
next
  case (2 b limit vis w b' js e)
  then show ?case using RecoverExpired_ok by (simp add: sharded_backend_def)
qed (auto simp: sharded_backend_def batches_ok)

context sharded_queue
begin

lemmas sharded_fenced = sharded.fenced_backend_axioms
lemmas sharded_leasing = leasing.leasing_backend_axioms

end

end
