(* ===== verification/Sharding.thy ===== *)
theory Sharding
  imports ShardedSpecs
begin

text \<open>
  Properties of the sharded backend: batches are fanned out and answered exactly, jobs with an
  idempotency key always meet in one partition, the partitions share no key, workers on it are
  as safe as workers on a single stream, and the long polls neither lose nor duplicate jobs and
  end when the backend is closed.
\<close>

section \<open>Batches\<close>

lemma nth_map_index:
  "length ys = length idx \<Longrightarrow> (\<And>k. k < length idx \<Longrightarrow> xs ! (idx ! k) = ys ! k) \<Longrightarrow> map ((!) xs) idx = ys"
  by (intro nth_equalityI) simp_all

text \<open>
  A batch of acks is split and answered exactly: under any order of the per-partition
  goroutines, each partition sees its own jobs in one call, in the order of the batch, and no
  partition sees another's; the answer at a job's position is the one its partition gave for
  it; and a job that names no existing partition is answered with an error and reaches none.
\<close>

theorem AckBatch_per_partition:
  assumes "sched_ok sched (parts s)" "Sharded_AckBatch R sched jobs s = (s', errs)"
  shows "length errs = length jobs \<and>
    (\<forall>p < parts s. let own = filter (\<lambda>j. Partition (Lease j) = int p) jobs
       in sStores s' ! p = (if own = [] then sStores s ! p else fst (Store_AckBatch R (sConfigs s ! p) own (sStores s ! p))) \<and>
          map ((!) errs) (part_indexes jobs s p) = snd (Store_AckBatch R (sConfigs s ! p) own (sStores s ! p))) \<and>
    (\<forall>i < length jobs. Partition (Lease (jobs ! i)) < 0 \<or> int (parts s) \<le> Partition (Lease (jobs ! i)) \<longrightarrow>
       (\<exists>m. errs ! i = Some (ErrorString m)))"
proof -
  have pp: "perPartition sched jobs (Store_AckBatch R) s = (s', errs)"
    using assms(2) by (simp add: Sharded_AckBatch_def)
  note P = perPartition_spec [OF answers_all_store(1) assms(1) pp]
  have own: "filter (\<lambda>j. partOf j s = Inr p) jobs = filter (\<lambda>j. Partition (Lease j) = int p) jobs" if "p < parts s" for p
    using that by (simp add: partOf_Inr)
  have len: "length (snd (Store_AckBatch R c js st)) = length js" for c js and st :: "'a store"
    using answers_all_store(1) [of R] by (simp add: answers_all_def)
  have ans: "map ((!) errs) (part_indexes jobs s p) =
      snd (Store_AckBatch R (sConfigs s ! p) (filter (\<lambda>j. partOf j s = Inr p) jobs) (sStores s ! p))" if "p < parts s" for p
    by (rule nth_map_index)
      (use P(9) [OF that] part_jobs [of jobs s p] in \<open>simp_all add: len flip: length_map [of "(!) jobs" "part_indexes jobs s p"]\<close>)
  have bad: "\<exists>m. errs ! i = Some (ErrorString m)"
    if "i < length jobs" "Partition (Lease (jobs ! i)) < 0 \<or> int (parts s) \<le> Partition (Lease (jobs ! i))" for i
    using P(10) [OF that(1)] that(2) by (auto simp: partOf_def Let_def)
  show ?thesis
    using P(1,8) ans own bad by (simp add: Let_def)
qed

lemma batch_length: "snd (Store_EnqueueBatch R C c js st) = Inr got \<Longrightarrow> length got = length js"
  using assign_ids_frame [of js st]
  by (auto simp: Store_EnqueueBatch_def tx_all_length rt_def split: prod.splits list.splits fault.splits if_splits)

lemma put_all_map:
  assumes "distinct idx" "length xs = length idx" "\<forall>i \<in> set idx. i < length ys"
  shows "map ((!) (put_all idx xs ys)) idx = xs"
  by (rule nth_map_index) (use assms put_all_nth [OF assms] in auto)

lemma put_all_map_other: "set idx \<inter> set idx' = {} \<Longrightarrow> map ((!) (put_all idx xs ys)) idx' = map ((!) ys) idx'"
  using put_all_other [of _ idx xs ys] by auto

text \<open>The transaction of partition \<open>p\<close> in a batch routed to \<open>ps\<close>.\<close>

definition part_tx ::
  "'r redis \<Rightarrow> codec \<Rightarrow> job list \<Rightarrow> nat list \<Rightarrow> 'r sharded \<Rightarrow> nat \<Rightarrow> 'r store \<times> (err + string list)" where
  "part_tx R C jobs ps s p = Store_EnqueueBatch R C (sConfigs s ! p) (map ((!) jobs) (group_idx ps p)) (sStores s ! p)"

lemma group_idx_facts:
  "distinct (group_idx ps p)" "i \<in> set (group_idx ps p) \<longleftrightarrow> i < length ps \<and> ps ! i = p"
  "p \<noteq> q \<Longrightarrow> set (group_idx ps p) \<inter> set (group_idx ps q) = {}"
  by (auto simp: group_idx_def)

lemma enqueue_groups_spec:
  assumes "distinct gs" "set gs \<subseteq> {..<parts s}" "length ids = length ps"
    and "enqueue_groups R C jobs ps gs s ids err = (s', ids', err')"
  shows "length ids' = length ps \<and> parts s' = parts s \<and>
    (\<forall>p < parts s. sStores s' ! p = (if p \<in> set gs then fst (part_tx R C jobs ps s p) else sStores s ! p)) \<and>
    (\<forall>p. map ((!) ids') (group_idx ps p) =
       (if p \<in> set gs then (case snd (part_tx R C jobs ps s p) of Inl e \<Rightarrow> map ((!) ids) (group_idx ps p) | Inr got \<Rightarrow> got)
        else map ((!) ids) (group_idx ps p))) \<and>
    (err' = None \<longleftrightarrow> err = None \<and> (\<forall>p \<in> set gs. \<exists>got. snd (part_tx R C jobs ps s p) = Inr got))"
  using assms
proof (induction gs arbitrary: s ids err)
  case (Cons p gs)
  let ?g = "\<lambda>c. Store_EnqueueBatch R C c (map ((!) jobs) (group_idx ps p))"
  obtain s1 x where w: "with_part p ?g s = (s1, x)" by (cases "with_part p ?g s")
  have s1: "s1 = fst (with_part p ?g s)" and x: "x = snd (part_tx R C jobs ps s p)"
    using w with_part_result [of p ?g s] by (simp_all add: part_tx_def)
  define ids1 where "ids1 = (case x of Inl e \<Rightarrow> ids | Inr got \<Rightarrow> put_all (group_idx ps p) got ids)"
  define err1 where "err1 = (case x of Inl e \<Rightarrow> (case err of None \<Rightarrow> Some (partition_error p e) | Some y \<Rightarrow> Some y) | Inr got \<Rightarrow> err)"
  have R: "enqueue_groups R C jobs ps gs s1 ids1 err1 = (s', ids', err')"
    using Cons.prems(4) by (cases x) (simp_all add: w Let_def ids1_def err1_def)
  have d: "distinct gs" "p \<notin> set gs" "set gs \<subseteq> {..<parts s1}" "p < parts s" "parts s1 = parts s"
    using Cons.prems(1,2) by (simp_all add: s1)
  have l: "length ids1 = length ps"
    using Cons.prems(3) by (simp add: ids1_def split: sum.split)
  note IH = Cons.IH [OF d(1,3) l R]
  have same: "q \<noteq> p \<Longrightarrow> part_tx R C jobs ps s1 q = part_tx R C jobs ps s q" for q
    using d(4) by (simp add: part_tx_def s1 with_part_stores)
  have st: "q < parts s \<Longrightarrow> sStores s1 ! q = (if q = p then fst (part_tx R C jobs ps s p) else sStores s ! q)" for q
    using d(4) by (simp add: part_tx_def s1 with_part_stores)
  have own: "map ((!) ids1) (group_idx ps p) = (case snd (part_tx R C jobs ps s p) of Inl e \<Rightarrow> map ((!) ids) (group_idx ps p) | Inr got \<Rightarrow> got)"
  proof (cases x)
    case (Inr got)
    then have "length got = length (group_idx ps p)"
      using batch_length [of R C "sConfigs s ! p" "map ((!) jobs) (group_idx ps p)" "sStores s ! p" got] x by (simp add: part_tx_def)
    then show ?thesis
      using Inr x Cons.prems(3) by (simp add: ids1_def put_all_map group_idx_facts)
  qed (simp_all add: ids1_def flip: x)
  have other: "q \<noteq> p \<Longrightarrow> map ((!) ids1) (group_idx ps q) = map ((!) ids) (group_idx ps q)" for q
    by (cases x) (simp_all add: ids1_def put_all_map_other [OF group_idx_facts(3)])
  have e: "err1 = None \<longleftrightarrow> err = None \<and> (\<exists>got. snd (part_tx R C jobs ps s p) = Inr got)"
    by (auto simp: err1_def simp flip: x split: sum.splits option.splits)
  have ids: "map ((!) ids') (group_idx ps q) =
       (if q \<in> set (p # gs) then (case snd (part_tx R C jobs ps s q) of Inl e \<Rightarrow> map ((!) ids) (group_idx ps q) | Inr got \<Rightarrow> got)
        else map ((!) ids) (group_idx ps q))" for q
  proof (cases "q = p")
    case True
    show ?thesis unfolding True using IH d(2) own by simp
  next
    case False
    have "map ((!) ids') (group_idx ps q) =
        (if q \<in> set gs then (case snd (part_tx R C jobs ps s1 q) of Inl e \<Rightarrow> map ((!) ids1) (group_idx ps q) | Inr got \<Rightarrow> got)
         else map ((!) ids1) (group_idx ps q))" using IH by blast
    then show ?thesis unfolding other [OF False] same [OF False] using False by simp
  qed
  have stores: "q < parts s \<Longrightarrow> sStores s' ! q = (if q \<in> set (p # gs) then fst (part_tx R C jobs ps s q) else sStores s ! q)" for q
  proof -
    assume q: "q < parts s"
    with IH d(5) have "sStores s' ! q = (if q \<in> set gs then fst (part_tx R C jobs ps s1 q) else sStores s1 ! q)" by simp
    with st [OF q] same [of q] d(2) show ?thesis by (cases "q = p") simp_all
  qed
  have err: "err' = None \<longleftrightarrow> err = None \<and> (\<forall>q \<in> set (p # gs). \<exists>got. snd (part_tx R C jobs ps s q) = Inr got)"
  proof -
    have "(\<forall>q \<in> set gs. \<exists>got. snd (part_tx R C jobs ps s1 q) = Inr got) \<longleftrightarrow> (\<forall>q \<in> set gs. \<exists>got. snd (part_tx R C jobs ps s q) = Inr got)"
      using same d(2) by metis
    with IH e show ?thesis by auto
  qed
  have "length ids' = length ps \<and> parts s' = parts s" using IH d(5) by simp
  with ids stores err show ?case by (intro conjI allI impI) blast+
qed simp

lemma route_frame [simp]:
  "sStores (fst (route j s)) = sStores s" "sConfigs (fst (route j s)) = sConfigs s"
  "sStores (snd (sharded_id j s)) = sStores s" "sConfigs (snd (sharded_id j s)) = sConfigs s"
  by (auto simp: route_def sharded_id_def Let_def split: list.split)

lemma route_less: "0 < parts s \<Longrightarrow> snd (route j s) < parts s"
  by (simp add: route_def Let_def)

lemma route_all_spec:
  "0 < parts s \<Longrightarrow> route_all js s = (s', js', ps) \<Longrightarrow>
   length js' = length js \<and> length ps = length js \<and> sStores s' = sStores s \<and> sConfigs s' = sConfigs s \<and> set ps \<subseteq> {..<parts s}"
proof (induction js arbitrary: s s' js' ps)
  case (Cons j0 js)
  obtain j s1 where a: "sharded_id j0 s = (j, s1)" by (cases "sharded_id j0 s")
  obtain s2 p where b: "route j s1 = (s2, p)" by (cases "route j s1")
  obtain s3 js1 ps1 where c: "route_all js s2 = (s3, js1, ps1)" by (metis prod_cases3)
  have 1: "sStores s1 = sStores s" "sConfigs s1 = sConfigs s"
    using route_frame(3,4) [of j0 s] by (simp_all add: a)
  have 2: "sStores s2 = sStores s" "sConfigs s2 = sConfigs s"
    using route_frame(1,2) [of j s1] 1 by (simp_all add: b)
  have "p < parts s" using route_less [of s1 j] Cons.prems(1) 1 by (simp add: b)
  with Cons.IH [OF _ c] Cons.prems 1 2 a b c show ?case by auto
qed simp

text \<open>
  A sharded batch is all or nothing per partition: under any order of the goroutines, each
  partition that has jobs in the batch gets them in one transaction, and for its requests the
  batch returns exactly the identifiers that transaction returned if it succeeded and empty
  identifiers if it failed; the batch reports an error if and only if some partition's
  transaction failed; and partitions without jobs are not touched.
\<close>

theorem EnqueueBatch_per_partition:
  assumes "0 < parts s" "sched_ok sched (parts s)" "route_all jobs0 s = (s1, jobs, ps)"
    and "Sharded_EnqueueBatch R C sched jobs0 s = (s', ids, err)"
  shows "length ids = length jobs0 \<and>
    (\<forall>p < parts s. if p \<in> set ps then
         sStores s' ! p = fst (part_tx R C jobs ps s p) \<and>
         (case snd (part_tx R C jobs ps s p) of
            Inl e \<Rightarrow> (\<forall>i < length ps. ps ! i = p \<longrightarrow> ids ! i = [])
          | Inr got \<Rightarrow> map ((!) ids) (group_idx ps p) = got)
       else sStores s' ! p = sStores s ! p) \<and>
    (err = None \<longleftrightarrow> (\<forall>p \<in> set ps. \<exists>got. snd (part_tx R C jobs ps s p) = Inr got))"
proof -
  note r = route_all_spec [OF assms(1,3)]
  let ?gs = "filter (\<lambda>p. p \<in> set ps) sched"
  have gs: "distinct ?gs" "set ?gs = set ps"
    using assms(2) r by (auto simp: sched_ok_def)
  have sub: "set ?gs \<subseteq> {..<parts s1}" using gs(2) r by auto
  have run: "enqueue_groups R C jobs ps ?gs s1 (replicate (length jobs) []) None = (s', ids, err)"
    using assms(3,4) by (simp add: Sharded_EnqueueBatch_def)
  have len: "length (replicate (length jobs) ([] :: string)) = length ps" using r by simp
  have tx: "part_tx R C jobs ps s1 p = part_tx R C jobs ps s p" for p
    using r by (simp add: part_tx_def)
  note S = enqueue_groups_spec [OF gs(1) sub len run, unfolded gs(2) tx]
  have e: "ids ! i = []" if "i < length ps" "ps ! i = p" "p \<in> set ps" "snd (part_tx R C jobs ps s p) = Inl e" for i p e
  proof -
    have "map ((!) ids) (group_idx ps p) = map ((!) (replicate (length jobs) [])) (group_idx ps p)"
      using S that(3,4) by simp
    moreover have "i \<in> set (group_idx ps p)" using that group_idx_facts by simp
    ultimately have "ids ! i = replicate (length jobs) [] ! i" by (simp add: map_eq_conv)
    with that(1) r show ?thesis by simp
  qed
  have st: "sStores s' ! p = (if p \<in> set ps then fst (part_tx R C jobs ps s p) else sStores s ! p)" if "p < parts s" for p
    using S that r by simp
  have got: "map ((!) ids) (group_idx ps p) = got" if "p \<in> set ps" "snd (part_tx R C jobs ps s p) = Inr got" for p got
    using S that by simp
  have err: "err = None \<longleftrightarrow> (\<forall>p \<in> set ps. \<exists>got. snd (part_tx R C jobs ps s p) = Inr got)"
    using S by simp
  have "length ids = length jobs0" using S r by simp
  with st got err e show ?thesis by (simp split: sum.split)
qed

section \<open>Routing\<close>

fun routes :: "job list \<Rightarrow> 'r sharded \<Rightarrow> nat list" where
  "routes [] s = []"
| "routes (j # js) s = (case route j s of (s', p) \<Rightarrow> p # routes js s')"

lemma routes_unkeyed:
  "\<forall>j \<in> set js. IdempotencyKey j = [] \<Longrightarrow> enqueueNext s + length js < 2 ^ 64 \<Longrightarrow>
   routes js s = map (\<lambda>i. (enqueueNext s + 1 + i) mod parts s) [0..<length js]"
proof (induction js arbitrary: s)
  case (Cons j js)
  then have n: "Suc (enqueueNext s) mod 2 ^ 64 = Suc (enqueueNext s)" by simp
  let ?s = "s\<lparr>enqueueNext := Suc (enqueueNext s)\<rparr>"
  have "route j s = (?s, Suc (enqueueNext s) mod parts s)"
    using Cons.prems(1) unfolding route_def Let_def n by simp
  moreover have "routes js ?s = map (\<lambda>i. (Suc (enqueueNext s) + 1 + i) mod parts s) [0..<length js]"
    using Cons.IH [of ?s] Cons.prems by simp
  moreover have "[0..<Suc (length js)] = 0 # map Suc [0..<length js]"
    by (simp only: map_Suc_upt upt_conv_Cons [OF zero_less_Suc])
  ultimately show ?case by (simp add: o_def)
qed simp

lemma window_distinct:
  assumes "0 < n" shows "distinct (map (\<lambda>i. (k + i) mod n) [0..<n])"
proof -
  have le: "i = j" if "(k + j) mod n = (k + i) mod n" "i \<le> j" "j < n" for i j
  proof -
    have "n dvd (k + j) - (k + i)" using that(1,2) by (simp add: mod_eq_dvd_iff_nat)
    then show ?thesis using that(2,3) by (auto dest: dvd_imp_le)
  qed
  have "inj_on (\<lambda>i. (k + i) mod n) {..<n}"
  proof (rule inj_onI, unfold lessThan_iff)
    fix i j assume "i < n" "j < n" and eq: "(k + i) mod n = (k + j) mod n"
    with le [OF eq [symmetric]] le [OF eq] show "i = j" by (cases "i \<le> j") linarith+
  qed
  then show ?thesis by (simp only: distinct_map distinct_upt set_upt atLeast0LessThan simp_thms)
qed

text \<open>
  Routing spreads jobs and keeps duplicates together: any \<open>n\<close> consecutive jobs without an
  idempotency key go to \<open>n\<close> different partitions, \<open>n\<close> being their number, so each gets exactly
  one; and two jobs with the same key go to the same partition whatever was enqueued in between, so the
  partition's deduplication sees both.
\<close>

theorem route_spreads:
  assumes "\<forall>j \<in> set js. IdempotencyKey j = []" "length js = parts s" "0 < parts s" "enqueueNext s + parts s < 2 ^ 64"
  shows "distinct (routes js s) \<and> set (routes js s) = {..<parts s} \<and>
    (\<forall>j j' t. IdempotencyKey j \<noteq> [] \<longrightarrow> IdempotencyKey j' = IdempotencyKey j \<longrightarrow> parts t = parts s \<longrightarrow>
       snd (route j s) = snd (route j' t) \<and> snd (route j s) < parts s)"
proof -
  have r: "routes js s = map (\<lambda>i. (enqueueNext s + 1 + i) mod parts s) [0..<parts s]"
    using routes_unkeyed [of js s] assms by simp
  have d: "distinct (routes js s)" unfolding r by (rule window_distinct [OF assms(3)])
  have sub: "set (routes js s) \<subseteq> {..<parts s}" using assms(3) by (auto simp: r)
  have "card (set (routes js s)) = length (routes js s)" by (rule distinct_card [OF d])
  then have "card (set (routes js s)) = parts s" by (simp only: r length_map length_upt diff_zero)
  with sub have "set (routes js s) = {..<parts s}" by (metis card_lessThan card_subset_eq finite_lessThan)
  with d assms(3) show ?thesis by (simp add: route_def)
qed

section \<open>Construction\<close>

lemma tag_differs:
  assumes "p \<noteq> q" shows "partition_tag prefix p @ x \<noteq> partition_tag prefix q @ y"
proof
  assume eq: "partition_tag prefix p @ x = partition_tag prefix q @ y"
  have no_brace: "CHR ''}'' \<notin> set (nat_digits n)" for n
    using nat_digits_all_digits [of "CHR ''}''" n] by (auto simp: is_digit_def)
  have t: "takeWhile (\<lambda>c. c \<noteq> CHR ''}'') (nat_digits n @ ''}:'' @ z) = nat_digits n" for n z
    using no_brace by (subst takeWhile_append2) auto
  from eq have "nat_digits p @ ''}:'' @ x = nat_digits q @ ''}:'' @ y"
    by (simp add: partition_tag_def itoa_def)
  with t [of p x] t [of q y] have "nat_digits p = nat_digits q" by simp
  with assms show False using nat_digits_inj by blast
qed

text \<open>The keys a store with configuration \<open>c\<close> uses.\<close>

definition part_keys :: "Config \<Rightarrow> string set" where
  "part_keys c = {Stream c, RetryKey c, retryData c, DeadLetter c} \<union> range ((@) (DedupePrefix c))"

lemma part_keys_tagged:
  assumes "k \<in> part_keys (config_defaults (partition_config config p))"
  shows "\<exists>x. k = partition_tag (Prefix config) p @ x"
proof -
  let ?t = "partition_tag (Prefix config) p" and ?c = "config_defaults (partition_config config p)"
  have "Stream ?c = ?t @ ''jobs''" "RetryKey ?c = ?t @ ''retry''" "DeadLetter ?c = ?t @ ''dead''" "DedupePrefix ?c = ?t @ ''dedupe:''"
    by (simp_all add: config_defaults_fields partition_config_def Let_def)
  with assms show ?thesis by (auto simp: part_keys_def retryData_def)
qed

lemma new_parts_configs:
  "new_parts R config ps world = (world', Inr cs) \<Longrightarrow> cs = map (\<lambda>p. config_defaults (partition_config config p)) ps"
  by (induction ps arbitrary: world world' cs)
    (auto simp: NewWithClient_def Let_def split: prod.splits sum.splits option.splits if_splits)

text \<open>
  A new sharded backend has the partitions it was asked for, or sixteen, with one idle
  poller each, an empty buffer and cursors at zero, and no two partitions share a key: the
  streams, schedules, dead-letter streams and deduplication keys of different partitions all
  have different names.
\<close>

theorem NewSharded_partitions:
  assumes "NewSharded R config world = (world', Inr s)"
  shows "int (parts s) = (if Partitions config \<le> 0 then 16 else Partitions config) \<and>
    length (sConfigs s) = parts s \<and> pollers s = replicate (parts s) NoPoller \<and> buffered s = [] \<and> \<not> sClosed s \<and>
    (\<forall>p < parts s. \<forall>q < parts s. p \<noteq> q \<longrightarrow> part_keys (sConfigs s ! p) \<inter> part_keys (sConfigs s ! q) = {})"
proof -
  define cfg where "cfg = sharded_defaults config"
  define n where "n = nat (Partitions cfg)"
  have n: "int n = (if Partitions config \<le> 0 then 16 else Partitions config)"
    by (simp add: n_def cfg_def sharded_defaults_def Let_def)
  obtain cs where np: "new_parts R cfg [0..<n] world = (world', Inr cs)" and s: "sConfigs s = cs" "parts s = n"
      "pollers s = replicate n NoPoller" "buffered s = []" "\<not> sClosed s"
    using assms by (auto simp: NewSharded_def Let_def cfg_def n_def split: prod.splits sum.splits)
  have cs: "cs = map (\<lambda>p. config_defaults (partition_config cfg p)) [0..<n]"
    by (rule new_parts_configs [OF np])
  have "part_keys (cs ! p) \<inter> part_keys (cs ! q) = {}" if "p < n" "q < n" "p \<noteq> q" for p q
  proof -
    have "False" if k: "k \<in> part_keys (cs ! p)" "k \<in> part_keys (cs ! q)" for k
      using part_keys_tagged [of k cfg p] part_keys_tagged [of k cfg q] k \<open>p < n\<close> \<open>q < n\<close> tag_differs [OF \<open>p \<noteq> q\<close>]
      by (auto simp: cs)
    then show ?thesis by blast
  qed
  with n s cs show ?thesis by simp
qed

section \<open>Workers on a sharded backend\<close>

text \<open>
  C25. A fenced worker does no harm on a sharded backend either: if the job's lease is no longer
  current in the partition it names, or it names none, \<^verbatim>\<open>handleOne\<close> returns an error,
  leaves the servers of all partitions exactly as they were and reports neither completion,
  retry nor dead-lettering.
\<close>

theorem sharded_stale_run_harmless:
  assumes "sharded_queue R view kt xle C cs sched" "shard_ok view cs (wBackend w)"
    and "\<not> shard_holds view cs j (wBackend w)"
    and "handleOne (sharded_backend R C sched evs) cfg hs S (Worker_ack (sharded_backend R C sched evs)) cause j w = (w', e)"
  shows "e \<noteq> None \<and> map srv (sStores (wBackend w')) = map srv (sStores (wBackend w)) \<and>
    (\<exists>new. wEvents w' = wEvents w @ new \<and> list_all (\<lambda>e. \<not> terminal e) new)"
  using fenced_backend.handleOne_fenced(3) [OF sharded_queue.sharded_fenced [OF assms(1)] assms(2,4,3)]
  by (simp add: shard_data_def)

context sharded_queue
begin

lemma deregister_ok:
  "shard_ok view cs s \<Longrightarrow> set ps \<subseteq> {..<length cs} \<Longrightarrow> shard_ok view cs (fst (deregister_parts R w ps s))"
proof (induction ps arbitrary: s)
  case (Cons p ps)
  let ?g = "\<lambda>c. Store_Deregister R c w"
  have p: "p < length cs" using Cons.prems(2) by simp
  have "okp p (fst (?g (cs ! p) (sStores s ! p)))"
    by (rule store_queue.stats_deregister_ok(2) [OF part_store [OF p] shard_okD(4) [OF Cons.prems(1) p]])
  then have "shard_ok view cs (fst (with_part p ?g s))" by (rule with_part_ok [OF Cons.prems(1) p])
  with Cons.IH Cons.prems(2) show ?case by (auto split: prod.split option.split)
qed simp

lemma query_ok:
  "shard_ok view cs s \<Longrightarrow> set ps \<subseteq> {..<length cs} \<Longrightarrow> shard_ok view cs (fst (query_parts R ps s))"
proof (induction ps arbitrary: s)
  case (Cons p ps)
  have p: "p < length cs" using Cons.prems(2) by simp
  have "okp p (fst (Store_Stats R (cs ! p) (sStores s ! p)))"
    by (rule store_queue.stats_deregister_ok(1) [OF part_store [OF p] shard_okD(4) [OF Cons.prems(1) p]])
  then have "shard_ok view cs (fst (with_part p (Store_Stats R) s))" by (rule with_part_ok [OF Cons.prems(1) p])
  with Cons.IH [of "fst (with_part p (Store_Stats R) s)"] Cons.prems(2) show ?case by (auto split: prod.split)
qed simp

lemma maintenance_ok:
  assumes "shard_ok view cs s"
  shows "shard_ok view cs (fst (Sharded_Stats R s))" "shard_ok view cs (fst (Sharded_Deregister R w s))"
proof -
  have sub: "set [0..<parts s] \<subseteq> {..<length cs}" using shard_okD(2) [OF assms] by auto
  show "shard_ok view cs (fst (Sharded_Stats R s))"
    using query_ok [OF assms sub] by (auto simp: Sharded_Stats_def split: prod.split)
  show "shard_ok view cs (fst (Sharded_Deregister R w s))"
    using deregister_ok [OF assms sub] by (simp add: Sharded_Deregister_def)
qed

end

text \<open>What the other goroutines of the process do to a sharded backend: the steps of the long polls.\<close>

inductive poll_step :: "'r redis \<Rightarrow> codec \<Rightarrow> 'r sharded \<Rightarrow> 'r sharded \<Rightarrow> bool" for R :: "'r redis" and C :: codec where
  check: "poll_step R C s (poll_check p s)"
| read: "poll_step R C s (poll_read R C p s)"

text \<open>
  The concurrency limit holds on a sharded backend as well, with its long polls running
  between any two steps of the worker and the server shared with other clients: a worker never
  runs more jobs than \<^verbatim>\<open>Concurrency\<close>, also while a fetch is under way.
\<close>

theorem sharded_run_bounded:
  assumes "sharded_queue R view kt xle C cs sched" "shard_ok view cs b0" "0 \<le> Concurrency cfg"
    and "1 \<le> Milliseconds (VisibilityTimeout cfg)"
    and "wreach (sharded_backend R C sched evs) cfg hs (poll_step R C) b0 r"
  shows "rInFlight r = int (length (rTasks r)) \<and> int (length (rTasks r)) \<le> Concurrency cfg \<and>
    (\<forall>n. rLimit r = Some n \<longrightarrow> 1 \<le> n \<and> int (length (rTasks r)) + n \<le> Concurrency cfg)"
proof -
  note L = sharded_queue.sharded_leasing [OF assms(1)]
  have "leasing_backend.run_ok (shard_ok view cs) cfg r"
  proof (rule leasing_backend.wreach_ok [OF L assms(5,2,3,4)])
    show "shard_ok view cs b \<Longrightarrow> poll_step R C b b' \<Longrightarrow> shard_ok view cs b'" for b b'
      using sharded_queue.poll_check_ok [OF assms(1)] sharded_queue.poll_read_ok [OF assms(1)] by (auto elim: poll_step.cases)
  qed (use sharded_queue.maintenance_ok [OF assms(1)] in \<open>auto simp: sharded_backend_def\<close>)
  then show ?thesis
    by (auto simp: leasing_backend.run_ok_def [OF L] tasks_ok_def)
qed

section \<open>The buffer and the long polls\<close>

lemma poll_closed:
  assumes "sClosed s" "p < length (pollers s)"
  shows "pollers (poll_check p (poll_read R C p s)) ! p = NoPoller"
    and "q \<noteq> p \<Longrightarrow> pollers (poll_check p (poll_read R C p s)) ! q = pollers s ! q"
    and "length (pollers (poll_check p (poll_read R C p s))) = length (pollers s)" "sClosed (poll_check p (poll_read R C p s))"
proof -
  define t where "t = poll_read R C p s"
  have t: "sClosed t" "length (pollers t) = length (pollers s)" "\<And>a. pollers t ! p \<noteq> Reading a" "q \<noteq> p \<Longrightarrow> pollers t ! q = pollers s ! q"
    using assms by (auto simp: t_def poll_read_def set_poller_def with_part_def split: poller.split prod.split sum.split)
  have "pollers (poll_check p t) ! p = NoPoller"
    using t assms(2) by (cases "pollers t ! p") (auto simp: poll_check_def set_poller_def)
  moreover have "q \<noteq> p \<Longrightarrow> pollers (poll_check p t) ! q = pollers t ! q" "length (pollers (poll_check p t)) = length (pollers t)"
    "sClosed (poll_check p t) = sClosed t"
    by (auto simp: poll_check_def set_poller_def)
  ultimately show "pollers (poll_check p (poll_read R C p s)) ! p = NoPoller"
    "q \<noteq> p \<Longrightarrow> pollers (poll_check p (poll_read R C p s)) ! q = pollers s ! q"
    "length (pollers (poll_check p (poll_read R C p s))) = length (pollers s)" "sClosed (poll_check p (poll_read R C p s))"
    using t by (simp_all flip: t_def)
qed

definition finish_polls :: "'r redis \<Rightarrow> codec \<Rightarrow> nat list \<Rightarrow> 'r sharded \<Rightarrow> 'r sharded" where
  "finish_polls R C = fold (\<lambda>p s. poll_check p (poll_read R C p s))"

text \<open>
  C26. Closing ends the long polls: once the backend is closed, one read and one check end any
  poller, so giving each poll goroutine those two steps, in any order of the partitions, leaves none running,
  and no later \<^verbatim>\<open>Claim\<close> starts one or waits: \<^verbatim>\<open>Close\<close> cannot wait for ever for
  goroutines that keep polling.
\<close>

theorem closed_polls_end:
  assumes "sched_ok sched (length (pollers s))"
  shows "pollers (finish_polls R C sched (begin_close s)) = replicate (length (pollers s)) NoPoller \<and>
    sClosed (finish_polls R C sched (begin_close s)) \<and>
    waitForJobs R C evs w limit wait (begin_close s) = (begin_close s, [])"
proof -
  have "sClosed t \<Longrightarrow> set ps \<subseteq> {..<length (pollers t)} \<Longrightarrow>
      length (pollers (finish_polls R C ps t)) = length (pollers t) \<and> sClosed (finish_polls R C ps t) \<and>
      (\<forall>q < length (pollers t). pollers (finish_polls R C ps t) ! q = (if q \<in> set ps then NoPoller else pollers t ! q))" for ps t
  proof (induction ps arbitrary: t)
    case (Cons p ps)
    let ?t = "poll_check p (poll_read R C p t)"
    have p: "p < length (pollers t)" using Cons.prems(2) by simp
    note c = poll_closed [OF Cons.prems(1) p, where R = R and C = C]
    have IH: "length (pollers (finish_polls R C ps ?t)) = length (pollers t)" "sClosed (finish_polls R C ps ?t)"
      "\<forall>q < length (pollers t). pollers (finish_polls R C ps ?t) ! q = (if q \<in> set ps then NoPoller else pollers ?t ! q)"
      using Cons.IH [of ?t] Cons.prems(2) c(3,4) by simp_all
    have f: "finish_polls R C (p # ps) t = finish_polls R C ps ?t" by (simp add: finish_polls_def)
    show ?case
      unfolding f using IH c(1,2) by auto
  qed (simp add: finish_polls_def)
  from this [of "begin_close s" sched] assms show ?thesis
    by (auto simp: sched_ok_def begin_close_def waitForJobs_def intro: nth_equalityI)
qed

text \<open>
  Buffered jobs keep their leases while the worker is busy: a heartbeat renews, in each
  partition and in one call, the leases of the jobs it was given together with those of the
  jobs the long polls buffered there; it answers for exactly the jobs it was given; and it drops from the
  buffer exactly the jobs whose lease was answered lost, keeping the order of the others.
\<close>

theorem ExtendBatch_renews_buffer:
  assumes "sched_ok sched (parts s)" "Sharded_ExtendBatch R sched jobs s = (s', errs)"
  shows "length errs = length jobs \<and>
    (\<forall>p < parts s. let own = filter (\<lambda>j. Partition (Lease j) = int p) (jobs @ buffered s)
       in sStores s' ! p = (if own = [] then sStores s ! p else fst (Store_ExtendBatch R (sConfigs s ! p) own (sStores s ! p)))) \<and>
    (\<exists>answers. length answers = length (buffered s) \<and>
       (\<forall>p < parts s. \<forall>k < length (part_indexes (jobs @ buffered s) s p). let i = part_indexes (jobs @ buffered s) s p ! k in
          (if i < length jobs then errs ! i else answers ! (i - length jobs)) =
          snd (Store_ExtendBatch R (sConfigs s ! p) (filter (\<lambda>j. Partition (Lease j) = int p) (jobs @ buffered s)) (sStores s ! p)) ! k) \<and>
       buffered s' = filter (\<lambda>j. \<forall>i < length (buffered s). Lease (buffered s ! i) = Lease j \<longrightarrow> \<not> is_lost (answers ! i)) (buffered s))"
proof -
  let ?all = "jobs @ buffered s"
  obtain s1 es where pp: "perPartition sched ?all (Store_ExtendBatch R) s = (s1, es)"
    by (cases "perPartition sched ?all (Store_ExtendBatch R) s")
  note P = perPartition_spec [OF answers_all_store(2) assms(1) pp]
  define answers where "answers = drop (length jobs) es"
  define lost where "lost = map (Lease \<circ> fst) (filter (\<lambda>(j, e). is_lost e) (zip (buffered s) answers))"
  have len: "length answers = length (buffered s)" "length es = length jobs + length (buffered s)"
    using P(1) by (simp_all add: answers_def)
  have s': "errs = take (length jobs) es" "sStores s' = sStores s1" "buffered s' = filter (\<lambda>j. Lease j \<notin> set lost) (buffered s)"
    using assms(2) P(3) by (auto simp: Sharded_ExtendBatch_def pp Let_def lost_def answers_def)
  have "l \<in> set lost \<longleftrightarrow> (\<exists>i < length (buffered s). Lease (buffered s ! i) = l \<and> is_lost (answers ! i))" for l
    using len(1) by (force simp: lost_def set_zip)
  then have buf: "buffered s' = filter (\<lambda>j. \<forall>i < length (buffered s). Lease (buffered s ! i) = Lease j \<longrightarrow> \<not> is_lost (answers ! i)) (buffered s)"
    unfolding s'(3) by (intro filter_cong) auto
  have own: "filter (\<lambda>j. partOf j s = Inr p) ?all = filter (\<lambda>j. Partition (Lease j) = int p) ?all" if "p < parts s" for p
    using that by (simp add: partOf_Inr)
  have split: "(if i < length jobs then errs ! i else answers ! (i - length jobs)) = es ! i" if "i < length ?all" for i
    using that len by (simp add: s'(1) answers_def)
  have ans: "let i = part_indexes ?all s p ! k in
        (if i < length jobs then errs ! i else answers ! (i - length jobs)) =
        snd (Store_ExtendBatch R (sConfigs s ! p) (filter (\<lambda>j. Partition (Lease j) = int p) ?all) (sStores s ! p)) ! k"
    if "p < parts s" "k < length (part_indexes ?all s p)" for p k
  proof -
    have "part_indexes ?all s p ! k \<in> set (part_indexes ?all s p)" using that(2) by simp
    then have "part_indexes ?all s p ! k < length ?all" by (simp only: part_indexes_facts mem_Collect_eq)
    with split [OF this] P(9) [OF that] own [OF that(1)] show ?thesis by (simp only: Let_def)
  qed
  have st: "let own = filter (\<lambda>j. Partition (Lease j) = int p) ?all
       in sStores s' ! p = (if own = [] then sStores s ! p else fst (Store_ExtendBatch R (sConfigs s ! p) own (sStores s ! p)))"
    if "p < parts s" for p
    using P(8) [OF that] own [OF that] s'(2) by (simp only: Let_def)
  show ?thesis
    using st ans len(1) buf s'(1) len(2) by (intro conjI exI [of _ answers] allI impI) simp_all
qed

section \<open>Statistics and recovery\<close>

lemma query_parts_results:
  "distinct ps \<Longrightarrow> set ps \<subseteq> {..<parts s} \<Longrightarrow>
   snd (query_parts R ps s) = map (\<lambda>p. snd (Store_Stats R (sConfigs s ! p) (sStores s ! p))) ps"
proof (induction ps arbitrary: s)
  case (Cons p ps)
  let ?s = "fst (with_part p (Store_Stats R) s)"
  have "map (\<lambda>q. snd (Store_Stats R (sConfigs ?s ! q) (sStores ?s ! q))) ps = map (\<lambda>q. snd (Store_Stats R (sConfigs s ! q) (sStores s ! q))) ps"
    using Cons.prems by (auto simp: with_part_stores nth_list_update intro!: arg_cong [where f = snd])
  moreover have "snd (query_parts R (p # ps) s) = snd (with_part p (Store_Stats R) s) # snd (query_parts R ps ?s)"
    by (simp del: with_part_result split: prod.split)
  ultimately show ?case
    using Cons.IH [of ?s] Cons.prems by simp
qed simp

lemma sum_stats_ok:
  "sum_stats k (map Inr sts) acc = Inr
     \<lparr>StreamLength = StreamLength acc + sum_list (map StreamLength sts), InFlight = InFlight acc + sum_list (map InFlight sts),
      DeadLetterDepth = DeadLetterDepth acc + sum_list (map DeadLetterDepth sts),
      RetryScheduled = RetryScheduled acc + sum_list (map RetryScheduled sts)\<rparr>"
  by (induction sts arbitrary: k acc) (simp_all add: add_stats_def)

lemma sum_stats_error:
  "sum_stats k (map Inr sts @ Inl e # rest) acc = Inl (partition_error (k + length sts) e)"
  by (induction sts arbitrary: k acc) simp_all

text \<open>
  The statistics of a sharded queue are the sums over its partitions, or the error of the
  first partition that failed, named by its number: no partition is counted twice or left out.
\<close>

theorem Sharded_Stats_sums:
  "(\<forall>st. (\<forall>p < parts s. snd (Store_Stats R (sConfigs s ! p) (sStores s ! p)) = Inr (st p)) \<longrightarrow>
      snd (Sharded_Stats R s) = Inr
        \<lparr>StreamLength = (\<Sum>p < parts s. StreamLength (st p)), InFlight = (\<Sum>p < parts s. InFlight (st p)),
         DeadLetterDepth = (\<Sum>p < parts s. DeadLetterDepth (st p)), RetryScheduled = (\<Sum>p < parts s. RetryScheduled (st p))\<rparr>) \<and>
   (\<forall>p e st. p < parts s \<and> (\<forall>q < p. snd (Store_Stats R (sConfigs s ! q) (sStores s ! q)) = Inr (st q)) \<and>
      snd (Store_Stats R (sConfigs s ! p) (sStores s ! p)) = Inl e \<longrightarrow>
      snd (Sharded_Stats R s) = Inl (partition_error p e))"
proof -
  let ?q = "\<lambda>p. snd (Store_Stats R (sConfigs s ! p) (sStores s ! p))"
  have S: "snd (Sharded_Stats R s) = sum_stats 0 (map ?q [0..<parts s]) no_stats"
  proof -
    have "snd (query_parts R [0..<parts s] s) = map ?q [0..<parts s]"
      by (rule query_parts_results) auto
    then show ?thesis by (auto simp: Sharded_Stats_def split: prod.split)
  qed
  have sums: "sum_list (map f [0..<n]) = (\<Sum>p < n. f p)" for f :: "nat \<Rightarrow> int" and n
    by (simp add: sum_list_sum_nth atLeast0LessThan)
  have "snd (Sharded_Stats R s) = Inr
        \<lparr>StreamLength = (\<Sum>p < parts s. StreamLength (st p)), InFlight = (\<Sum>p < parts s. InFlight (st p)),
         DeadLetterDepth = (\<Sum>p < parts s. DeadLetterDepth (st p)), RetryScheduled = (\<Sum>p < parts s. RetryScheduled (st p))\<rparr>"
    if "\<forall>p < parts s. ?q p = Inr (st p)" for st
  proof -
    have "map ?q [0..<parts s] = map Inr (map st [0..<parts s])" using that by simp
    then show ?thesis unfolding S using sum_stats_ok [of 0 "map st [0..<parts s]" no_stats]
      by (simp only: map_map) (simp add: no_stats_def sums o_def)
  qed
  moreover have "snd (Sharded_Stats R s) = Inl (partition_error p e)"
    if "p < parts s" "\<forall>q < p. ?q q = Inr (st q)" "?q p = Inl e" for p e st
  proof -
    have "[0..<parts s] = [0..<p] @ p # [Suc p..<parts s]"
      using that(1) upt_add_eq_append [of 0 p "parts s - p"] upt_conv_Cons [of p "parts s"] by simp
    then have "map ?q [0..<parts s] = map Inr (map st [0..<p]) @ Inl e # map ?q [Suc p..<parts s]"
      using that(2,3) by simp
    then show ?thesis by (simp only: S sum_stats_error) simp
  qed
  ultimately show ?thesis by blast
qed

text \<open>
  Recovery does not rotate: when the partition a sweep starts with has enough expired
  deliveries to fill the limit, \<^verbatim>\<open>RecoverExpired\<close> visits no other partition and leaves the
  cursor where it was, so the next recovery starts with the same partition again, and the
  worker, whose slots it filled, makes no \<^verbatim>\<open>Claim\<close> that would move the cursor.
\<close>

theorem recover_keeps_start:
  assumes "0 < limit" "0 < parts s" "p = claimNext s mod parts s" "limit \<le> int (length js)"
    and "Store_RecoverExpired R C (sConfigs s ! p) vis w limit (sStores s ! p) = (st, Inr js)"
  shows "Sharded_RecoverExpired R C vis w limit s = (s\<lparr>sStores := (sStores s)[p := st]\<rparr>, tag js p, None) \<and>
    claimNext (fst (Sharded_RecoverExpired R C vis w limit s)) = claimNext s"
proof -
  obtain rest where r: "sweep_order (parts s) (claimNext s) = p # rest"
    using assms(2,3) by (simp add: sweep_order_def upt_conv_Cons)
  have w: "with_part p (\<lambda>c. Store_RecoverExpired R C c vis w limit) s = (s\<lparr>sStores := (sStores s)[p := st]\<rparr>, Inr js)"
    using assms(5) by (simp add: with_part_def)
  have stop: "sweep f limit ps (tag js p) t = (t, tag js p, None)" for f ps and t :: "'a sharded"
    using assms(4) by (cases ps) simp_all
  have "Sharded_RecoverExpired R C vis w limit s = (s\<lparr>sStores := (sStores s)[p := st]\<rparr>, tag js p, None)"
    using assms(1) by (simp add: Sharded_RecoverExpired_def r w stop)
  then show ?thesis by simp
qed

section \<open>A sharded queue on two reference servers\<close>

lemma demo_pair_cases: "case snd r of Inl e \<Rightarrow> False | Inr x \<Rightarrow> P x \<Longrightarrow> \<exists>s x. r = (s, Inr x) \<and> P x"
  by (cases r) (auto split: sum.splits)

interpretation refshared: shared_store ref_redis ref_view ref_kt id_le ref_codec ref_config "\<lambda>s. s" False
  by unfold_locales simp

interpretation refshards: sharded_queue ref_redis ref_view ref_kt id_le ref_codec "[ref_config, ref_config]" "[1, 0]" "[]"
  by (rule sharded_queue.intro) (auto simp: sched_ok_def intro: refq.store_queue_axioms)

definition demo_shards :: "refdb \<Rightarrow> refdb sharded" where
  "demo_shards d = \<lparr>sConfigs = [ref_config, ref_config], sStores = [demo_store d, demo_store d], enqueueNext = 0, claimNext = 0,
     sClosed = False, arrived = False, waiting = 0, pollers = [NoPoller, AtTop],
     pollWith = \<lparr>paWorker = ''w1'', paCount = 1, paWait = 0\<rparr>, buffered = [demo_run ''w2'' 2], shSeeds = []\<rparr>"

lemma demo_shards_ok: "shard_ok ref_view [ref_config, ref_config] (demo_shards (fst demo_recover))"
proof -
  have "stream_ok (Stream ref_config) (Group ref_config) (ref_view (srv ([demo_store (fst demo_recover), demo_store (fst demo_recover)] ! p)))"
    if "p < 2" for p
    using that demo_okS by (auto simp: less_2_cases_iff)
  then show ?thesis
    by (auto simp: shard_ok_def demo_shards_def demo_run_def less_2_cases_iff demo_okS simp flip: numeral_2_eq_2)
qed

lemma demo_sched: "sched_ok [1, 0] (parts (demo_shards d))" "sched_ok [1, 0] (length (pollers (demo_shards d)))"
  by (auto simp: sched_ok_def demo_shards_def)

theorem AckBatch_per_partition_witness:
  "length (snd (Sharded_AckBatch ref_redis [1, 0] [demo_run ''w2'' 2, demo_run ''w1'' 1] (demo_shards (fst demo_recover)))) = 2"
  using AckBatch_per_partition [OF demo_sched(1) prod.collapse [symmetric]] by (metis length_Cons list.size(3) numeral_2_eq_2)

theorem EnqueueBatch_per_partition_witness:
  "length (fst (snd (Sharded_EnqueueBatch ref_redis ref_codec [1, 0] [demo_job, demo_job] (demo_shards empty_server)))) = 2"
proof -
  have p: "0 < parts (demo_shards empty_server)" by (simp add: demo_shards_def)
  obtain s1 js ps where r: "route_all [demo_job, demo_job] (demo_shards empty_server) = (s1, js, ps)" by (metis prod_cases3)
  obtain s' ids err where e: "Sharded_EnqueueBatch ref_redis ref_codec [1, 0] [demo_job, demo_job] (demo_shards empty_server) = (s', ids, err)"
    by (metis prod_cases3)
  from EnqueueBatch_per_partition [OF p demo_sched(1) r e] have "length ids = 2" by simp
  then show ?thesis unfolding e by simp
qed

theorem route_spreads_witness: "set (routes [demo_job, demo_job] (demo_shards empty_server)) = {..<2}"
proof -
  have j: "\<forall>j \<in> set [demo_job, demo_job]. IdempotencyKey j = []" by (simp add: demo_job_def)
  have n: "length [demo_job, demo_job] = parts (demo_shards empty_server)" "0 < parts (demo_shards empty_server)"
    "enqueueNext (demo_shards empty_server) + parts (demo_shards empty_server) < 2 ^ 64" "parts (demo_shards empty_server) = 2"
    by (simp_all add: demo_shards_def)
  from route_spreads [OF j n(1-3)] have "set (routes [demo_job, demo_job] (demo_shards empty_server)) = {..<parts (demo_shards empty_server)}"
    by blast
  then show ?thesis unfolding n(4) .
qed

theorem sharded_stale_run_harmless_witness:
  "map srv (sStores (wBackend (fst (handleOne (sharded_backend ref_redis ref_codec [1, 0] []) demo_config demo_handlers
      demo_surroundings (Worker_ack (sharded_backend ref_redis ref_codec [1, 0] [])) None (demo_run ''w1'' 1)
      \<lparr>wBackend = demo_shards (fst demo_recover), wEvents = []\<rparr>)))) = [fst demo_recover, fst demo_recover]"
proof -
  let ?w = "\<lparr>wBackend = demo_shards (fst demo_recover), wEvents = []\<rparr>"
  have ok: "shard_ok ref_view [ref_config, ref_config] (wBackend ?w)" using demo_shards_ok by simp
  have "\<not> holds_lease ref_config (demo_run ''w1'' 1) (ref_view (fst demo_recover))"
    using demo_owned(1) by (simp add: holds_lease_def demo_run_def)
  then have n: "\<not> shard_holds ref_view [ref_config, ref_config] (demo_run ''w1'' 1) (wBackend ?w)"
    by (auto simp: shard_holds_def demo_shards_def demo_run_def)
  from sharded_stale_run_harmless [OF refshards.sharded_queue_axioms ok n prod.collapse [symmetric]] show ?thesis
    by (simp add: demo_shards_def)
qed

theorem sharded_run_bounded_witness:
  "rInFlight (start_run (demo_shards (fst demo_recover))) = 0"
proof -
  have c: "0 \<le> Concurrency demo_config" "1 \<le> Milliseconds (VisibilityTimeout demo_config)"
    by (simp_all add: demo_config_def NewWorker_def Let_def Milliseconds_def second_def)
  have "wreach (sharded_backend ref_redis ref_codec [1, 0] []) demo_config demo_handlers (poll_step ref_redis ref_codec)
      (demo_shards (fst demo_recover)) (start_run (demo_shards (fst demo_recover)))"
    by (rule w_init) (simp add: Run_def demo_config_def NewWorker_def Let_def)
  from sharded_run_bounded [OF refshards.sharded_queue_axioms demo_shards_ok c this] show ?thesis
    by (simp add: start_run_def)
qed

theorem closed_polls_end_witness:
  "pollers (finish_polls ref_redis ref_codec [1, 0] (begin_close (demo_shards empty_server))) = [NoPoller, NoPoller]"
  using closed_polls_end [OF demo_sched(2) [of empty_server], of ref_redis ref_codec] by (simp add: demo_shards_def numeral_2_eq_2)

theorem ExtendBatch_renews_buffer_witness:
  "length (snd (Sharded_ExtendBatch ref_redis [1, 0] [demo_run ''w1'' 1] (demo_shards (fst demo_recover)))) = 1"
  using ExtendBatch_renews_buffer [OF demo_sched(1) prod.collapse [symmetric]] by (metis One_nat_def length_Cons list.size(3))

theorem Sharded_Stats_sums_witness:
  "snd (Sharded_Stats ref_redis (demo_shards (fst demo_recover))) = Inr
     \<lparr>StreamLength = 2, InFlight = 2, DeadLetterDepth = 0, RetryScheduled = 0\<rparr>"
proof -
  let ?s = "demo_shards (fst demo_recover)"
  let ?st = "\<lparr>StreamLength = 1, InFlight = 1, DeadLetterDepth = 0, RetryScheduled = 0\<rparr>"
  have "snd (Store_Stats ref_redis ref_config (demo_store (fst demo_recover))) = Inr ?st" by code_simp
  then have "\<forall>p < parts ?s. snd (Store_Stats ref_redis (sConfigs ?s ! p) (sStores ?s ! p)) = Inr ?st"
    by (auto simp: demo_shards_def less_Suc_eq)
  with Sharded_Stats_sums [THEN conjunct1, of ?s ref_redis, rule_format, of "\<lambda>_. ?st"] have "snd (Sharded_Stats ref_redis ?s) = Inr
      \<lparr>StreamLength = (\<Sum>p < parts ?s. StreamLength ?st), InFlight = (\<Sum>p < parts ?s. InFlight ?st),
       DeadLetterDepth = (\<Sum>p < parts ?s. DeadLetterDepth ?st), RetryScheduled = (\<Sum>p < parts ?s. RetryScheduled ?st)\<rparr>" by simp
  then show ?thesis by (simp add: demo_shards_def)
qed

theorem recover_keeps_start_witness:
  "claimNext (fst (Sharded_RecoverExpired ref_redis ref_codec (100 * millisecond) ''w2'' 1 (demo_shards (fst demo_claim)))) = 0"
proof -
  let ?s = "demo_shards (fst demo_claim)"
  have p: "0 < (1 :: int)" "0 < parts ?s" "(0 :: nat) = claimNext ?s mod parts ?s" by (simp_all add: demo_shards_def)
  have "case snd (Store_RecoverExpired ref_redis ref_codec ref_config (100 * millisecond) ''w2'' 1 (demo_store (fst demo_claim))) of
      Inl e \<Rightarrow> False | Inr js \<Rightarrow> length js = 1" by code_simp
  then obtain st js where "Store_RecoverExpired ref_redis ref_codec ref_config (100 * millisecond) ''w2'' 1 (demo_store (fst demo_claim)) = (st, Inr js)"
      "length js = 1"
    using demo_pair_cases by blast
  then have r: "Store_RecoverExpired ref_redis ref_codec (sConfigs ?s ! 0) (100 * millisecond) ''w2'' 1 (sStores ?s ! 0) = (st, Inr js)"
      "1 \<le> int (length js)"
    by (simp_all add: demo_shards_def)
  from recover_keeps_start [OF p r(2,1)] show ?thesis by (simp add: demo_shards_def)
qed

theorem NewSharded_partitions_witness:
  "case snd (NewSharded ref_redis \<lparr>Addrs = [], Cluster = False, Partitions = 2, Prefix = [], shDedupeWindow = 0, shConsumerIdleTimeout = 0\<rparr>
      (\<lambda>_. demo_store empty_server)) of
     Inl e \<Rightarrow> False | Inr s \<Rightarrow> part_keys (sConfigs s ! 0) \<inter> part_keys (sConfigs s ! 1) = {}"
proof -
  let ?n = "NewSharded ref_redis \<lparr>Addrs = [], Cluster = False, Partitions = 2, Prefix = [], shDedupeWindow = 0, shConsumerIdleTimeout = 0\<rparr>
      (\<lambda>_. demo_store empty_server)"
  have "case snd ?n of Inl e \<Rightarrow> False | Inr s \<Rightarrow> True" by code_simp
  then obtain w s where n: "?n = (w, Inr s)" using demo_pair_cases by blast
  from NewSharded_partitions [OF n] show ?thesis by (simp add: n)
qed

end
