(* ===== verification/PromMetrics.thy ===== *)
theory PromMetrics
  imports Backend
begin

text \<open>
  \<^verbatim>\<open>prommetrics/metrics.go\<close>: the Prometheus implementation of the metrics interface. What
  the collectors do is the client library's business; the model records the calls made to
  them. Its own state is the map of start times, the sweep clock and the set of tasks whose
  series exist. Every callback is given the readings of the clock it makes.
\<close>

section \<open>State\<close>

datatype series =
    enqueued | started | completed | failed bool | retried | deadLettered | leaseLost
  | duration | pickup | endToEnd

datatype gauge = streamLength | inFlight | deadLetterDepth | retryScheduled

datatype call =
    Touch series string
  | Inc series string
  | Observe series string int
  | SetGauge gauge int

text \<open>\<^verbatim>\<open>startKey\<close>: the job and its message.\<close>

type_synonym startKey = "string \<times> string"

record prom =
  calls :: "call list"
  startTimes :: "startKey \<rightharpoonup> int"
  staleAfter :: int
  sweepEvery :: int
  lastSweep :: int
  initialized :: "string set"

definition keyOf :: "job \<Rightarrow> startKey" where
  [go_defs]: "keyOf j = (ID j, MessageID (Lease j))"

definition NewMetrics :: "int \<Rightarrow> prom" where
  [go_defs]: "NewMetrics now =
     \<lparr>calls = [], startTimes = Map.empty, staleAfter = hour, sweepEvery = minute, lastSweep = now, initialized = {}\<rparr>"

definition emit_calls :: "call list \<Rightarrow> prom \<Rightarrow> prom" where
  "emit_calls cs m = m\<lparr>calls := calls m @ cs\<rparr>"

section \<open>Callbacks\<close>

definition initTask :: "string \<Rightarrow> prom \<Rightarrow> prom" where
  [go_defs]: "initTask t m =
     (if t \<in> initialized m then m
      else emit_calls [Touch completed t, Touch (failed True) t, Touch (failed False) t, Touch retried t,
             Touch deadLettered t, Touch leaseLost t] (m\<lparr>initialized := insert t (initialized m)\<rparr>))"

definition sweepStale :: "int \<Rightarrow> prom \<Rightarrow> prom" where
  [go_defs]: "sweepStale now m =
     (if now - lastSweep m < sweepEvery m then m
      else m\<lparr>lastSweep := now,
             startTimes := (\<lambda>k. case startTimes m k of
                None \<Rightarrow> None
              | Some t \<Rightarrow> if now - t > staleAfter m then None else Some t)\<rparr>)"

definition cb_JobEnqueued :: "job \<Rightarrow> prom \<Rightarrow> prom" where
  [go_defs]: "cb_JobEnqueued j m = emit_calls [Inc enqueued (Task j)] m"

definition cb_JobStarted :: "int \<Rightarrow> int \<Rightarrow> job \<Rightarrow> prom \<Rightarrow> prom" where
  [go_defs]: "cb_JobStarted now now' j m =
     (let m1 = initTask (Task j) m;
          m2 = sweepStale now (m1\<lparr>startTimes := (startTimes m1)(keyOf j \<mapsto> now)\<rparr>);
          m3 = (if Attempt j = 0 \<and> Token (Lease j) = 1 then emit_calls [Observe pickup (Task j) (now' - AvailableAt j)] m2 else m2)
      in emit_calls [Inc started (Task j)] m3)"

text \<open>A run that ended is timed once: its start time is taken out of the map.\<close>

definition observe_duration :: "int \<Rightarrow> job \<Rightarrow> prom \<Rightarrow> prom" where
  [go_defs]: "observe_duration now j m =
     (case startTimes m (keyOf j) of
        None \<Rightarrow> m
      | Some start \<Rightarrow> emit_calls [Observe duration (Task j) (now - start)] (m\<lparr>startTimes := (startTimes m)(keyOf j := None)\<rparr>))"

definition cb_JobCompleted :: "int \<Rightarrow> int \<Rightarrow> job \<Rightarrow> prom \<Rightarrow> prom" where
  [go_defs]: "cb_JobCompleted now now' j m =
     emit_calls [Inc completed (Task j), Observe endToEnd (Task j) (now' - CreatedAt j)] (observe_duration now j m)"

definition cb_JobFailed :: "job \<Rightarrow> bool \<Rightarrow> prom \<Rightarrow> prom" where
  [go_defs]: "cb_JobFailed j retryable m = emit_calls [Inc (failed retryable) (Task j)] m"

definition cb_JobRetried :: "int \<Rightarrow> job \<Rightarrow> prom \<Rightarrow> prom" where
  [go_defs]: "cb_JobRetried now j m = emit_calls [Inc retried (Task j)] (observe_duration now j m)"

definition cb_JobDeadLettered :: "int \<Rightarrow> job \<Rightarrow> prom \<Rightarrow> prom" where
  [go_defs]: "cb_JobDeadLettered now j m = emit_calls [Inc deadLettered (Task j)] (observe_duration now j m)"

definition cb_JobLeaseLost :: "job \<Rightarrow> prom \<Rightarrow> prom" where
  [go_defs]: "cb_JobLeaseLost j m =
     emit_calls [Inc leaseLost (Task j)] (m\<lparr>startTimes := (startTimes m)(keyOf j := None)\<rparr>)"

definition cb_StatsObserved :: "Stats \<Rightarrow> prom \<Rightarrow> prom" where
  [go_defs]: "cb_StatsObserved s m =
     emit_calls [SetGauge streamLength (StreamLength s), SetGauge inFlight (InFlight s),
       SetGauge deadLetterDepth (DeadLetterDepth s), SetGauge retryScheduled (RetryScheduled s)] m"

text \<open>An event of the worker or the queue, at the two readings of the clock.\<close>

fun callback :: "event \<Rightarrow> int \<Rightarrow> int \<Rightarrow> prom \<Rightarrow> prom" where
  "callback (JobEnqueued j) now now' m = cb_JobEnqueued j m"
| "callback (JobStarted j) now now' m = cb_JobStarted now now' j m"
| "callback (JobCompleted j) now now' m = cb_JobCompleted now now' j m"
| "callback (JobFailed j r) now now' m = cb_JobFailed j r m"
| "callback (JobRetried j) now now' m = cb_JobRetried now j m"
| "callback (JobDeadLettered j) now now' m = cb_JobDeadLettered now j m"
| "callback (JobLeaseLost j) now now' m = cb_JobLeaseLost j m"
| "callback (StatsObserved s) now now' m = cb_StatsObserved s m"

definition replay :: "(event \<times> int \<times> int) list \<Rightarrow> prom \<Rightarrow> prom" where
  "replay = fold (\<lambda>(ev, now, now'). callback ev now now')"

section \<open>Counters\<close>

text \<open>The counter an event increments, and the task it is labelled with.\<close>

fun counts_as :: "event \<Rightarrow> (series \<times> string) option" where
  "counts_as (JobEnqueued j) = Some (enqueued, Task j)"
| "counts_as (JobStarted j) = Some (started, Task j)"
| "counts_as (JobCompleted j) = Some (completed, Task j)"
| "counts_as (JobFailed j r) = Some (failed r, Task j)"
| "counts_as (JobRetried j) = Some (retried, Task j)"
| "counts_as (JobDeadLettered j) = Some (deadLettered, Task j)"
| "counts_as (JobLeaseLost j) = Some (leaseLost, Task j)"
| "counts_as (StatsObserved s) = None"

definition incs :: "series \<Rightarrow> string \<Rightarrow> prom \<Rightarrow> nat" where
  "incs x t m = length (filter (\<lambda>c. c = Inc x t) (calls m))"

lemma incs_emit: "incs x t (emit_calls cs m) = incs x t m + length (filter (\<lambda>c. c = Inc x t) cs)"
  by (simp add: incs_def emit_calls_def)

lemma incs_frame [simp]:
  "incs x t (sweepStale now m) = incs x t m" "incs x t (m\<lparr>startTimes := st\<rparr>) = incs x t m" "incs x t (m\<lparr>initialized := i\<rparr>) = incs x t m"
  by (simp_all add: incs_def sweepStale_def)

lemma incs_parts [simp]: "incs x t (initTask u m) = incs x t m" "incs x t (observe_duration now j m) = incs x t m"
  by (simp_all add: initTask_def observe_duration_def incs_emit split: option.split)

lemma incs_callback: "incs x t (callback ev now now' m) = incs x t m + (if counts_as ev = Some (x, t) then 1 else 0)"
  by (cases ev)
    (auto simp: cb_JobEnqueued_def cb_JobStarted_def cb_JobCompleted_def cb_JobFailed_def cb_JobRetried_def
      cb_JobDeadLettered_def cb_JobLeaseLost_def cb_StatsObserved_def Let_def incs_emit)

text \<open>
  Every counter counts its events: after any sequence of callbacks, each counter has been
  incremented, for each task, exactly as often as its event occurred for a job of that task.
\<close>

theorem counters_exact:
  "incs x t (replay evs m) = incs x t m + length (filter (\<lambda>(ev, _). counts_as ev = Some (x, t)) evs)"
  by (induction evs arbitrary: m) (auto simp: replay_def incs_callback)

section \<open>Start times\<close>

definition tracked :: "prom \<Rightarrow> bool" where
  "tracked m \<longleftrightarrow> 0 \<le> staleAfter m \<and> (\<forall>k t. startTimes m k = Some t \<longrightarrow> lastSweep m - t \<le> staleAfter m)"

text \<open>The clock does not run backwards.\<close>

fun clock_ok :: "int \<Rightarrow> (event \<times> int \<times> int) list \<Rightarrow> bool" where
  "clock_ok t [] = True"
| "clock_ok t ((ev, now, now') # evs) \<longleftrightarrow> t \<le> now \<and> clock_ok now evs"

lemma observe_duration_frame [simp]:
  "staleAfter (observe_duration now j m) = staleAfter m" "lastSweep (observe_duration now j m) = lastSweep m"
  "sweepEvery (observe_duration now j m) = sweepEvery m"
  "startTimes (observe_duration now j m) = (startTimes m)(keyOf j := None)"
  by (auto simp: observe_duration_def emit_calls_def fun_eq_iff split: option.split)

lemma initTask_frame [simp]:
  "startTimes (initTask t m) = startTimes m" "staleAfter (initTask t m) = staleAfter m" "lastSweep (initTask t m) = lastSweep m"
  "sweepEvery (initTask t m) = sweepEvery m"
  by (simp_all add: initTask_def emit_calls_def)

lemma emit_frame [simp]:
  "startTimes (emit_calls cs m) = startTimes m" "staleAfter (emit_calls cs m) = staleAfter m" "lastSweep (emit_calls cs m) = lastSweep m"
  "sweepEvery (emit_calls cs m) = sweepEvery m"
  by (simp_all add: emit_calls_def)

lemma started_frame:
  "startTimes (cb_JobStarted now now' j m) = startTimes (sweepStale now (m\<lparr>startTimes := (startTimes m)(keyOf j \<mapsto> now)\<rparr>))"
  "lastSweep (cb_JobStarted now now' j m) = lastSweep (sweepStale now (m\<lparr>startTimes := (startTimes m)(keyOf j \<mapsto> now)\<rparr>))"
  "staleAfter (cb_JobStarted now now' j m) = staleAfter m" "sweepEvery (cb_JobStarted now now' j m) = sweepEvery m"
  by (auto simp: cb_JobStarted_def Let_def sweepStale_def fun_eq_iff split: option.split)

lemma callback_tracked:
  assumes "tracked m" "lastSweep m \<le> now"
  shows "tracked (callback ev now now' m) \<and> lastSweep (callback ev now now' m) \<le> now"
proof (cases ev)
  case (JobStarted j)
  then show ?thesis
    using assms by (auto simp: tracked_def started_frame sweepStale_def split: if_splits option.splits)
qed (use assms in \<open>auto simp: tracked_def cb_JobEnqueued_def cb_JobCompleted_def cb_JobFailed_def cb_JobRetried_def
       cb_JobDeadLettered_def cb_JobLeaseLost_def cb_StatsObserved_def split: if_splits\<close>)

lemma replay_tracked:
  "tracked m \<Longrightarrow> lastSweep m \<le> t \<Longrightarrow> clock_ok t evs \<Longrightarrow> tracked (replay evs m)"
proof (induction evs arbitrary: m t)
  case (Cons e evs)
  obtain ev now now' where e: "e = (ev, now, now')" by (cases e)
  have "lastSweep m \<le> now" "clock_ok now evs" using Cons.prems(2,3) by (simp_all add: e)
  with callback_tracked [OF Cons.prems(1), of now ev now'] Cons.IH [of "callback ev now now' m" now] show ?case
    by (simp add: e replay_def)
qed (simp add: replay_def)

lemma replay_sweepEvery: "sweepEvery (replay evs m) = sweepEvery m \<and> staleAfter (replay evs m) = staleAfter m"
proof (induction evs arbitrary: m)
  case (Cons e evs)
  obtain ev now now' where e: "e = (ev, now, now')" by (cases e)
  have "sweepEvery (callback ev now now' m) = sweepEvery m \<and> staleAfter (callback ev now now' m) = staleAfter m"
    by (cases ev) (simp_all add: started_frame cb_JobEnqueued_def cb_JobCompleted_def cb_JobFailed_def cb_JobRetried_def
       cb_JobDeadLettered_def cb_JobLeaseLost_def cb_StatsObserved_def)
  with Cons.IH show ?case by (simp add: e replay_def)
qed (simp add: replay_def)

text \<open>
  C40. Abandoned runs do not pile up: whatever callbacks came before, right after a job starts
  no start time is kept that is older than the hour allowed plus the minute between two sweeps,
  as long as the clock does not run backwards; so runs that end without a terminal callback
  are forgotten.
\<close>

theorem start_times_bounded:
  assumes "clock_ok t0 (evs @ [(JobStarted j, now, now')])"
    and "startTimes (replay (evs @ [(JobStarted j, now, now')]) (NewMetrics t0)) k = Some t"
  shows "now - t < hour + minute"
proof -
  define m where "m = replay evs (NewMetrics t0)"
  have "tracked (NewMetrics t0)"
    by (simp add: tracked_def NewMetrics_def hour_def minute_def second_def)
  moreover have "clock_ok t0 evs"
    using assms(1) by (induction evs arbitrary: t0) auto
  ultimately have tr: "tracked m"
    using replay_tracked [of "NewMetrics t0" t0 evs] by (simp add: m_def NewMetrics_def)
  have every: "sweepEvery m = minute" "staleAfter m = hour"
    using replay_sweepEvery [of evs "NewMetrics t0"] by (simp_all add: m_def NewMetrics_def)
  have s: "startTimes (sweepStale now (m\<lparr>startTimes := (startTimes m)(keyOf j \<mapsto> now)\<rparr>)) k = Some t"
    using assms(2) by (simp add: replay_def m_def started_frame)
  have pos: "0 < hour" "0 < minute" by (simp_all add: hour_def minute_def second_def)
  show ?thesis
  proof (cases "now - lastSweep m < minute")
    case True
    have old: "startTimes m k = Some t \<Longrightarrow> lastSweep m - t \<le> hour"
      using tr every(2) unfolding tracked_def by metis
    from True s every pos show ?thesis
      by (cases "k = keyOf j") (auto simp: sweepStale_def dest: old)
  next
    case False
    with s every pos show ?thesis
      by (auto simp: sweepStale_def split: if_splits option.splits)
  qed
qed

definition demo_started :: job where
  "demo_started = \<lparr>ID = ''j'', Task = ''t'', Payload = [], Attempt = 0, MaxAttempts = 1, TraceParent = [], CreatedAt = 0,
     AvailableAt = 0, IdempotencyKey = [], Lease = no_lease\<rparr>"

theorem start_times_bounded_witness:
  "startTimes (replay [(JobStarted demo_started, 5, 5)] (NewMetrics 0)) (keyOf demo_started) = Some 5 \<and> 5 - 5 < hour + minute"
proof -
  have c: "clock_ok 0 ([] @ [(JobStarted demo_started, 5, 5)])" by simp
  have s: "startTimes (replay ([] @ [(JobStarted demo_started, 5, 5)]) (NewMetrics 0)) (keyOf demo_started) = Some 5"
    by (simp add: replay_def started_frame sweepStale_def NewMetrics_def minute_def second_def)
  from start_times_bounded [OF c s] s show ?thesis by simp
qed

definition demo_redelivery :: "int \<Rightarrow> job" where
  "demo_redelivery n = demo_started\<lparr>Lease := \<lparr>MessageID = ''1-0'', Owner = ''w'', Token = n, Partition = 0\<rparr>\<rparr>"

definition durations :: "prom \<Rightarrow> int list" where
  "durations m = List.map_filter (\<lambda>c. case c of Observe x _ d \<Rightarrow> (if x = duration then Some d else None) | _ \<Rightarrow> None) (calls m)"

text \<open>
  A start time belongs to a message, not to a delivery: when a message is redelivered to the
  process that is still running it, both runs have the same key, so the second start replaces
  the first, and the end of the first run takes the start time of the second away; its
  duration is measured from the second start and the second run's is not measured at all.
\<close>

theorem redelivery_shares_start:
  "keyOf (demo_redelivery 1) = keyOf (demo_redelivery 2) \<and>
   durations (replay [(JobStarted (demo_redelivery 1), 0, 0), (JobStarted (demo_redelivery 2), 10, 10),
     (JobCompleted (demo_redelivery 1), 15, 15), (JobCompleted (demo_redelivery 2), 25, 25)] (NewMetrics 0)) = [5]"
  by code_simp

end
