(* ===== verification/PromRegistry.thy ===== *)
theory PromRegistry
  imports PromMetrics
begin

text \<open>
  The construction of the Prometheus metrics, \<^verbatim>\<open>New\<close> of \<^verbatim>\<open>prommetrics/metrics.go\<close>: the
  collectors it creates, their labels and histogram buckets, and their registration one after
  the other. Registering and labelling are the client library's: a registry is a parameter
  with the documented behaviour (locale \<open>registry\<close>), and a failed registration is a panic,
  \<^term>\<open>None\<close>. The callbacks must then agree with the construction, because
  \<^verbatim>\<open>WithLabelValues\<close> panics on a wrong number of values. Help texts are left out.
\<close>

section \<open>Collectors\<close>

datatype collector_kind = CounterVec | HistogramVec "rat list" | Gauge

record collector =
  cKind :: collector_kind
  cName :: string
  cLabels :: "string list"

definition taskLabel :: string where
  "taskLabel = ''task''"

definition counter :: "string \<Rightarrow> string list \<Rightarrow> collector" where
  "counter name labels = \<lparr>cKind = CounterVec, cName = name, cLabels = labels\<rparr>"

definition histogram :: "string \<Rightarrow> rat list \<Rightarrow> string list \<Rightarrow> collector" where
  "histogram name buckets labels = \<lparr>cKind = HistogramVec buckets, cName = name, cLabels = labels\<rparr>"

definition gauge_of :: "string \<Rightarrow> collector" where
  "gauge_of name = \<lparr>cKind = Gauge, cName = name, cLabels = []\<rparr>"

text \<open>The library's bucket layouts.\<close>

definition DefBuckets :: "rat list" where
  "DefBuckets = [5/1000, 1/100, 25/1000, 5/100, 1/10, 25/100, 5/10, 1, 5/2, 5, 10]"

definition ExponentialBuckets :: "rat \<Rightarrow> rat \<Rightarrow> nat \<Rightarrow> rat list" where
  "ExponentialBuckets start factor n = map (\<lambda>i. start * factor ^ i) [0..<n]"

definition prom_collectors :: "collector list" where
  "prom_collectors =
     [counter ''dtq_jobs_enqueued_total'' [taskLabel],
      counter ''dtq_jobs_started_total'' [taskLabel],
      counter ''dtq_jobs_completed_total'' [taskLabel],
      counter ''dtq_jobs_failed_total'' [taskLabel, ''retryable''],
      counter ''dtq_jobs_retried_total'' [taskLabel],
      counter ''dtq_jobs_dead_lettered_total'' [taskLabel],
      counter ''dtq_job_leases_lost_total'' [taskLabel],
      histogram ''dtq_job_duration_seconds'' DefBuckets [taskLabel],
      histogram ''dtq_job_pickup_seconds'' (ExponentialBuckets (1/1000) 2 14) [taskLabel],
      histogram ''dtq_job_end_to_end_seconds'' (ExponentialBuckets (1/100) 2 14) [taskLabel],
      gauge_of ''dtq_stream_length'',
      gauge_of ''dtq_in_flight_jobs'',
      gauge_of ''dtq_dead_letter_depth'',
      gauge_of ''dtq_retry_scheduled'']"

section \<open>Registration\<close>

text \<open>\<^verbatim>\<open>autoFactory\<close>: create a collector and register it, or panic.\<close>

fun register_all :: "('g \<Rightarrow> collector \<Rightarrow> 'g option) \<Rightarrow> collector list \<Rightarrow> 'g \<Rightarrow> 'g option" where
  "register_all reg [] g = Some g"
| "register_all reg (c # cs) g = (case reg g c of None \<Rightarrow> None | Some g' \<Rightarrow> register_all reg cs g')"

definition NewProm :: "('g \<Rightarrow> collector \<Rightarrow> 'g option) \<Rightarrow> int \<Rightarrow> 'g \<Rightarrow> ('g \<times> prom) option" where
  "NewProm reg now g = map_option (\<lambda>g'. (g', NewMetrics now)) (register_all reg prom_collectors g)"

text \<open>
  What the library documents: a collector registers if its name is new and, for a histogram,
  its buckets are in increasing order; a name that is taken is refused.
\<close>

definition well_formed :: "collector \<Rightarrow> bool" where
  "well_formed c = (case cKind c of HistogramVec bs \<Rightarrow> sorted_wrt (<) bs | _ \<Rightarrow> True)"

locale registry =
  fixes reg :: "'g \<Rightarrow> collector \<Rightarrow> 'g option"
    and names :: "'g \<Rightarrow> string set"
  assumes reg_new: "cName c \<notin> names g \<Longrightarrow> well_formed c \<Longrightarrow> \<exists>g'. reg g c = Some g' \<and> names g' = insert (cName c) (names g)"
    and reg_taken: "cName c \<in> names g \<Longrightarrow> reg g c = None"
begin

lemma register_all_new:
  assumes "distinct (map cName cs)" "cName ` set cs \<inter> names g = {}" "list_all well_formed cs"
  shows "\<exists>g'. register_all reg cs g = Some g' \<and> names g' = cName ` set cs \<union> names g"
  using assms
proof (induction cs arbitrary: g)
  case (Cons c cs)
  then obtain g1 where g1: "reg g c = Some g1" "names g1 = insert (cName c) (names g)"
    using reg_new [of c g] by auto
  with Cons.IH [of g1] Cons.prems show ?case by auto
qed simp

lemma register_all_taken:
  assumes "cs \<noteq> []" "cName (hd cs) \<in> names g"
  shows "register_all reg cs g = None"
  using assms reg_taken by (cases cs) auto

end

text \<open>A registry as the list of what it holds.\<close>

definition list_register :: "collector list \<Rightarrow> collector \<Rightarrow> collector list option" where
  "list_register cs c = (if cName c \<in> cName ` set cs \<or> \<not> well_formed c then None else Some (c # cs))"

interpretation listreg: registry list_register "\<lambda>cs. cName ` set cs"
  by unfold_locales (auto simp: list_register_def)

section \<open>The calls of the callbacks\<close>

text \<open>The collector behind each series and gauge, and the label values a call passes.\<close>

fun series_collector :: "series \<Rightarrow> string" where
  "series_collector enqueued = ''dtq_jobs_enqueued_total''"
| "series_collector started = ''dtq_jobs_started_total''"
| "series_collector completed = ''dtq_jobs_completed_total''"
| "series_collector (failed r) = ''dtq_jobs_failed_total''"
| "series_collector retried = ''dtq_jobs_retried_total''"
| "series_collector deadLettered = ''dtq_jobs_dead_lettered_total''"
| "series_collector leaseLost = ''dtq_job_leases_lost_total''"
| "series_collector duration = ''dtq_job_duration_seconds''"
| "series_collector pickup = ''dtq_job_pickup_seconds''"
| "series_collector endToEnd = ''dtq_job_end_to_end_seconds''"

fun label_values :: "series \<Rightarrow> string \<Rightarrow> string list" where
  "label_values (failed r) t = [t, if r then ''true'' else ''false'']"
| "label_values x t = [t]"

fun gauge_collector :: "gauge \<Rightarrow> string" where
  "gauge_collector streamLength = ''dtq_stream_length''"
| "gauge_collector inFlight = ''dtq_in_flight_jobs''"
| "gauge_collector deadLetterDepth = ''dtq_dead_letter_depth''"
| "gauge_collector retryScheduled = ''dtq_retry_scheduled''"

definition labelled :: "(collector_kind \<Rightarrow> bool) \<Rightarrow> string \<Rightarrow> string list \<Rightarrow> bool" where
  "labelled k name vs \<longleftrightarrow> list_ex (\<lambda>c. cName c = name \<and> k (cKind c) \<and> length (cLabels c) = length vs) prom_collectors"

definition is_histogram :: "collector_kind \<Rightarrow> bool" where
  "is_histogram k = (case k of HistogramVec _ \<Rightarrow> True | _ \<Rightarrow> False)"

text \<open>A call goes to a collector of the right kind, with as many values as it has labels.\<close>

fun call_ok :: "call \<Rightarrow> bool" where
  "call_ok (Touch x t) = labelled (\<lambda>k. k = CounterVec) (series_collector x) (label_values x t)"
| "call_ok (Inc x t) = labelled (\<lambda>k. k = CounterVec) (series_collector x) (label_values x t)"
| "call_ok (Observe x t d) = labelled is_histogram (series_collector x) (label_values x t)"
| "call_ok (SetGauge x d) = labelled (\<lambda>k. k = Gauge) (gauge_collector x) []"

lemmas collector_defs = labelled_def prom_collectors_def counter_def histogram_def gauge_of_def is_histogram_def

lemma names_distinct: "distinct (map cName prom_collectors)"
  by (simp add: collector_defs)

lemma ExponentialBuckets_increasing: "0 < a \<Longrightarrow> 1 < f \<Longrightarrow> sorted_wrt (<) (ExponentialBuckets a f n)"
  by (auto simp: ExponentialBuckets_def sorted_wrt_map sorted_wrt_iff_nth_less intro: power_strict_increasing)

lemma collectors_well_formed: "list_all well_formed prom_collectors"
  by (simp add: collector_defs well_formed_def DefBuckets_def ExponentialBuckets_increasing)

definition calls_ok :: "prom \<Rightarrow> bool" where
  "calls_ok m \<longleftrightarrow> list_all call_ok (calls m)"

lemma calls_ok_frame [simp]:
  "calls_ok (m\<lparr>startTimes := st\<rparr>) = calls_ok m" "calls_ok (m\<lparr>initialized := i\<rparr>) = calls_ok m"
  "calls_ok (m\<lparr>lastSweep := t\<rparr>) = calls_ok m" "calls_ok (sweepStale now m) = calls_ok m"
  "calls_ok (emit_calls cs m) \<longleftrightarrow> calls_ok m \<and> list_all call_ok cs"
  by (auto simp: calls_ok_def sweepStale_def emit_calls_def)

lemma calls_ok_callback: "calls_ok m \<Longrightarrow> calls_ok (callback ev now now' m)"
  by (cases ev) (auto simp: go_defs Let_def collector_defs split: option.split)

lemma calls_ok_replay: "calls_ok m \<Longrightarrow> calls_ok (replay evs m)"
  unfolding replay_def by (induction evs arbitrary: m) (auto simp: calls_ok_callback)



end
