(* ===== verification/ChaosControl.thy ===== *)
theory ChaosControl
  imports ChaosReport
begin

text \<open>
  The controller of \<^verbatim>\<open>cmd/chaos/main.go\<close>: the loop that enqueues the jobs, some of them
  twice, and the processes it starts, kills, pauses and stops. The enqueue loop runs over the
  queue and a backend; the process management is a step relation in which the goroutine that
  waits for each process interleaves with the controller.
\<close>

section \<open>Enqueueing\<close>

definition chaos_payload :: "int \<Rightarrow> int \<Rightarrow> int \<Rightarrow> payload" where
  [go_defs]: "chaos_payload visibility latency i =
     \<lparr>pN = i, pLatencyMs = (if i mod 100 = 1 then wrap64 (2 * Milliseconds visibility) else 10 + latency),
      pPermanent = i mod permanentEvery = 0\<rparr>"

definition job_key :: "int \<Rightarrow> string" where
  "job_key i = ''job-'' @ itoa i"

definition chaos_options :: "int \<Rightarrow> EnqueueOptions" where
  [go_defs]: "chaos_options i = \<lparr>oMaxAttempts = maxAttempts, oDelay = 0, oIdempotencyKey = job_key i\<rparr>"

datatype fatal = EnqueueError err | SecondJob int string string

definition retried :: "int \<Rightarrow> bool" where
  "retried i \<longleftrightarrow> i mod 10 = 3"

text \<open>\<open>passes\<close> is what happens to the backend between two calls: time.\<close>

definition chaos_enqueue ::
  "'b backend \<Rightarrow> (payload \<Rightarrow> err + string) \<Rightarrow> (job \<Rightarrow> (string \<times> string) list) \<Rightarrow> ('b \<Rightarrow> 'b) \<Rightarrow> int \<Rightarrow> (int \<Rightarrow> int) \<Rightarrow> int \<Rightarrow>
   'b queue \<Rightarrow> 'b queue \<times> fatal option" where
  [go_defs]: "chaos_enqueue B marshalPayload inject passes visibility latency i q =
     (let p = chaos_payload visibility (latency i) i; opts = chaos_options i
      in case Queue_Enqueue B marshalPayload inject chaos_task p opts q of
           (q1, Inl e) \<Rightarrow> (q1, Some (EnqueueError e))
         | (q1, Inr jid) \<Rightarrow>
             if retried i then
               (case Queue_Enqueue B marshalPayload inject chaos_task p opts (q1\<lparr>qBackend := passes (qBackend q1)\<rparr>) of
                  (q2, Inl e) \<Rightarrow> (q2, Some (EnqueueError e))
                | (q2, Inr again) \<Rightarrow> (q2, if again \<noteq> jid then Some (SecondJob i jid again) else None))
             else (q1, None))"

fun chaos_enqueue_all ::
  "'b backend \<Rightarrow> (payload \<Rightarrow> err + string) \<Rightarrow> (job \<Rightarrow> (string \<times> string) list) \<Rightarrow> ('b \<Rightarrow> 'b) \<Rightarrow> int \<Rightarrow> (int \<Rightarrow> int) \<Rightarrow> int list \<Rightarrow>
   'b queue \<Rightarrow> 'b queue \<times> fatal option" where
  "chaos_enqueue_all B marshalPayload inject passes visibility latency [] q = (q, None)"
| "chaos_enqueue_all B marshalPayload inject passes visibility latency (i # is) q =
     (case chaos_enqueue B marshalPayload inject passes visibility latency i q of
        (q1, Some e) \<Rightarrow> (q1, Some e)
      | (q1, None) \<Rightarrow>
          chaos_enqueue_all B marshalPayload inject passes visibility latency is (q1\<lparr>qBackend := passes (qBackend q1)\<rparr>))"

context store_queue
begin

lemma once_other:
  assumes "k \<noteq> k'"
  shows "dStr (view (fst (enqueueOnceScript R dec (DedupePrefix c @ k) (Stream c) (RetryKey c) (retryData c) i
      (Milliseconds (DedupeWindow c)) runAt json t s))) (DedupePrefix c @ k') = dStr (view s) (DedupePrefix c @ k')"
  using assms
  by (simp add: enqueueOnceScript_def Let_def xadd_json_def xadd_view zadd_view hset_view set_px_view dedupe_key split: option.split)
    (simp add: ev_set_px_def)

text \<open>What an enqueue with a key does to the deduplication keys.\<close>

lemma keyed_enqueue:
  fixes st
  assumes "IdempotencyKey j \<noteq> []"
  defines "st' \<equiv> fst (Store_Enqueue R C c j st)" and "K \<equiv> DedupePrefix c @ IdempotencyKey j"
  shows "k \<noteq> IdempotencyKey j \<Longrightarrow> dStr (view (srv st')) (DedupePrefix c @ k) = dStr (view (srv st)) (DedupePrefix c @ k)"
    and "dStr (view (srv st)) K = None \<Longrightarrow> snd (Store_Enqueue R C c j st) = Inr i \<Longrightarrow>
      dStr (view (srv st')) K = Some (i, sclk st + Milliseconds (DedupeWindow c))"
    and "dStr (view (srv st)) K = Some (v, e) \<Longrightarrow> sclk st < e \<Longrightarrow> snd (Store_Enqueue R C c j st) = Inr i \<Longrightarrow> i = v"
    and "sclk st' = sclk st"
proof -
  obtain j1 st1 where w: "with_id j st = (j1, st1)" by (cases "with_id j st")
  have fr: "srv st1 = srv st" "sclk st1 = sclk st" "wclk st1 = wclk st" using with_id_frame [of j st] by (simp_all add: w)
  have key: "IdempotencyKey j1 = IdempotencyKey j" using w by (auto simp: with_id_def split: prod.splits if_splits)
  define f where "f = enqueueOnceScript R (cjson_decode C) K (Stream c) (RetryKey c) (retryData c) (ID j1)
     (Milliseconds (DedupeWindow c)) (if AvailableAt j1 > wclk st1 then UnixMilli (AvailableAt j1) else 0)
     (marshal C (jobFields C j1)) (sclk st1)"
  have E: "Store_Enqueue R C c j st = rt f st1"
    using assms(1) key by (simp add: Store_Enqueue_def w enqueueOnce_def f_def K_def Let_def)
  show "sclk st' = sclk st" by (simp add: st'_def E fr)
  show "dStr (view (srv st')) (DedupePrefix c @ k) = dStr (view (srv st)) (DedupePrefix c @ k)" if "k \<noteq> IdempotencyKey j"
    using rt_srv [of f st1] once_other [OF that [symmetric]] unfolding st'_def E f_def K_def by (auto simp: fr)
  show "dStr (view (srv st')) K = Some (i, sclk st + Milliseconds (DedupeWindow c))"
    if "dStr (view (srv st)) K = None" "snd (Store_Enqueue R C c j st) = Inr i"
  proof -
    have none: "get_str R K (sclk st) (srv st) = None" using that(1) by (simp add: get_str_view K_def dedupe_key)
    have "snd (rt f st1) = Inr i" using that(2) by (simp add: E)
    note r = rt_Inr [OF this]
    have "i = ID j1" using r(2) none by (simp add: f_def enqueueOnceScript_def fr Let_def)
    then show ?thesis
      using r(1) once_fresh [OF none [unfolded K_def]] unfolding st'_def E by (simp add: f_def K_def fr)
  qed
  show "i = v" if "dStr (view (srv st)) K = Some (v, e)" "sclk st < e" "snd (Store_Enqueue R C c j st) = Inr i"
  proof -
    have "snd (rt f st1) = Inr i" using that(3) by (simp add: E)
    from rt_Inr(2) [OF this] once_used [OF that(1) [unfolded K_def] that(2)] show ?thesis
      by (simp add: f_def K_def fr)
  qed
qed

text \<open>The same of an enqueue through the queue, which draws an identifier and a trace context for the job.\<close>

lemma keyed_queue_enqueue:
  fixes q m inject task p env cancelled
  assumes "oIdempotencyKey opts \<noteq> []"
  defines "B \<equiv> store_backend R C c env cancelled"
  defines "q' \<equiv> fst (Queue_Enqueue B m inject task p opts q)" and "K \<equiv> DedupePrefix c @ oIdempotencyKey opts"
  shows "k \<noteq> oIdempotencyKey opts \<Longrightarrow> dStr (view (srv (qBackend q'))) (DedupePrefix c @ k) = dStr (view (srv (qBackend q))) (DedupePrefix c @ k)"
    and "dStr (view (srv (qBackend q))) K = None \<Longrightarrow> snd (Queue_Enqueue B m inject task p opts q) = Inr i \<Longrightarrow>
      dStr (view (srv (qBackend q'))) K = Some (i, sclk (qBackend q) + Milliseconds (DedupeWindow c)) \<and> sclk (qBackend q') = sclk (qBackend q)"
    and "dStr (view (srv (qBackend q))) K = Some (v, e) \<Longrightarrow> sclk (qBackend q) < e \<Longrightarrow>
      snd (Queue_Enqueue B m inject task p opts q) = Inr i \<Longrightarrow> i = v"
proof -
  obtain seed now q0 where d: "draw m p q = ((seed, now), q0)" by (metis prod.collapse)
  have q0: "qBackend q0 = qBackend q" using d by (auto simp: draw_def split: sum.splits list.splits)
  consider (bad) e where "newJob m now seed task p opts = Inl e"
    | (good) j where "newJob m now seed task p opts = Inr j" "IdempotencyKey j = oIdempotencyKey opts"
    by (cases "newJob m now seed task p opts") (auto simp: newJob_def Let_def split: sum.splits option.splits)
  then have "(\<exists>e. q' = q0 \<and> snd (Queue_Enqueue B m inject task p opts q) = Inl e) \<or>
    (\<exists>j. IdempotencyKey j = oIdempotencyKey opts \<and> qBackend q' = fst (Store_Enqueue R C c j (qBackend q)) \<and>
       snd (Queue_Enqueue B m inject task p opts q) = snd (Store_Enqueue R C c j (qBackend q)))"
  proof cases
    case (good j)
    let ?j = "startEnqueueSpan inject j"
    obtain b r where s: "Store_Enqueue R C c ?j (qBackend q) = (b, r)" by (cases "Store_Enqueue R C c ?j (qBackend q)")
    have "qBackend q' = b" "snd (Queue_Enqueue B m inject task p opts q) = r"
      unfolding q'_def using s by (auto simp: Queue_Enqueue_def d good(1) q0 B_def store_backend_def Let_def split: sum.split)
    then show ?thesis using s good(2) by (intro disjI2 exI [of _ ?j]) simp
  qed (simp add: q'_def Queue_Enqueue_def d)
  then show "k \<noteq> oIdempotencyKey opts \<Longrightarrow> dStr (view (srv (qBackend q'))) (DedupePrefix c @ k) = dStr (view (srv (qBackend q))) (DedupePrefix c @ k)"
    and "dStr (view (srv (qBackend q))) K = None \<Longrightarrow> snd (Queue_Enqueue B m inject task p opts q) = Inr i \<Longrightarrow>
      dStr (view (srv (qBackend q'))) K = Some (i, sclk (qBackend q) + Milliseconds (DedupeWindow c)) \<and> sclk (qBackend q') = sclk (qBackend q)"
    and "dStr (view (srv (qBackend q))) K = Some (v, e) \<Longrightarrow> sclk (qBackend q) < e \<Longrightarrow>
      snd (Queue_Enqueue B m inject task p opts q) = Inr i \<Longrightarrow> i = v"
    using assms(1) keyed_enqueue by (auto simp: q0 K_def) metis+
qed

text \<open>One job of the loop: its own key is taken, the others stay as they were, and no second job is created.\<close>

lemma chaos_enqueue_once:
  fixes q env cancelled m inject vis lat
  assumes "\<And>st. srv (passes st) = srv st \<and> sclk (passes st) < sclk st + Milliseconds (DedupeWindow c)"
    and "dStr (view (srv (qBackend q))) (DedupePrefix c @ job_key i) = None"
  defines "r \<equiv> chaos_enqueue (store_backend R C c env cancelled) m inject passes vis lat i q"
  shows "snd r \<noteq> Some (SecondJob n a b)"
    and "k \<noteq> i \<Longrightarrow> dStr (view (srv (qBackend (fst r)))) (DedupePrefix c @ job_key k) = dStr (view (srv (qBackend q))) (DedupePrefix c @ job_key k)"
proof -
  let ?B = "store_backend R C c env cancelled" and ?p = "chaos_payload vis (lat i) i"
  have o: "oIdempotencyKey (chaos_options i) = job_key i" "job_key i \<noteq> []" by (simp_all add: chaos_options_def job_key_def)
  have other: "job_key k \<noteq> job_key i" if "k \<noteq> i" for k using that by (simp add: job_key_def itoa_inj)
  note E = keyed_queue_enqueue [where opts = "chaos_options i" and env = env and cancelled = cancelled and m = m and inject = inject
      and task = chaos_task and p = ?p, unfolded o, OF o(2)]
  obtain q1 r1 where e1: "Queue_Enqueue ?B m inject chaos_task ?p (chaos_options i) q = (q1, r1)" by fastforce
  let ?q1 = "q1\<lparr>qBackend := passes (qBackend q1)\<rparr>"
  obtain q2 r2 where e2: "Queue_Enqueue ?B m inject chaos_task ?p (chaos_options i) ?q1 = (q2, r2)" by fastforce
  have same: "r1 = Inr x \<Longrightarrow> r2 = Inr y \<Longrightarrow> y = x" for x y
    using E(2) [where q = q and i = x, OF assms(2)] E(3) [where q = ?q1 and i = y] assms(1) [of "qBackend q1"] e1 e2 by fastforce
  then show "snd r \<noteq> Some (SecondJob n a b)"
    by (auto simp: r_def chaos_enqueue_def e1 e2 Let_def split: sum.split)
  show "dStr (view (srv (qBackend (fst r)))) (DedupePrefix c @ job_key k) = dStr (view (srv (qBackend q))) (DedupePrefix c @ job_key k)" if "k \<noteq> i"
    using E(1) [where q = q, OF other [OF that]] E(1) [where q = ?q1, OF other [OF that]] assms(1) [of "qBackend q1"] e1 e2
    by (auto simp: r_def chaos_enqueue_def Let_def split: sum.split)
qed

lemma chaos_enqueue_all_once:
  fixes q
  assumes "\<And>st. srv (passes st) = srv st \<and> sclk (passes st) < sclk st + Milliseconds (DedupeWindow c)"
  shows "distinct is \<Longrightarrow> \<forall>i \<in> set is. dStr (view (srv (qBackend q))) (DedupePrefix c @ job_key i) = None \<Longrightarrow>
    snd (chaos_enqueue_all (store_backend R C c env cancelled) m inject passes vis lat is q) \<noteq> Some (SecondJob n a b)"
proof (induction "is" arbitrary: q)
  case (Cons i "is")
  let ?r = "chaos_enqueue (store_backend R C c env cancelled) m inject passes vis lat i q"
  have i: "dStr (view (srv (qBackend q))) (DedupePrefix c @ job_key i) = None" using Cons.prems(2) by simp
  note O = chaos_enqueue_once [OF assms i, where env = env and cancelled = cancelled and m = m and inject = inject and vis = vis and lat = lat]
  obtain q1 e where r: "?r = (q1, e)" by fastforce
  have rest: "\<forall>k \<in> set is. dStr (view (srv (qBackend (q1\<lparr>qBackend := passes (qBackend q1)\<rparr>)))) (DedupePrefix c @ job_key k) = None"
  proof
    fix k assume "k \<in> set is"
    with Cons.prems show "dStr (view (srv (qBackend (q1\<lparr>qBackend := passes (qBackend q1)\<rparr>)))) (DedupePrefix c @ job_key k) = None"
      using O(2) [of k] assms [of "qBackend q1"] by (auto simp: r)
  qed
  show ?case
  proof (cases e)
    case None
    with Cons.IH [OF _ rest] Cons.prems(1) show ?thesis by (simp add: r)
  next
    case (Some x)
    with O(1) [of n a b] show ?thesis by (simp add: r)
  qed
qed simp

end

lemma distinct_job_range: "distinct (job_range n)"
  by (simp add: job_range_def distinct_map)

text \<open>
  The controller never finds its retried enqueues duplicated: on the Redis store, with none of
  its keys in use at the start and each call following the one before within the
  deduplication window, the enqueue loop never stops with two identifiers for one job, whatever
  the network does to the calls.
\<close>

theorem chaos_enqueue_no_second_job:
  assumes "store_queue R view kt xle C c"
    and "\<And>st. srv (passes st) = srv st \<and> sclk (passes st) < sclk st + Milliseconds (DedupeWindow c)"
    and "\<And>i. dStr (view (srv (qBackend q))) (DedupePrefix c @ job_key i) = None"
  shows "snd (chaos_enqueue_all (store_backend R C c env cancelled) marshalPayload inject passes visibility latency (job_range jobs) q)
    \<noteq> Some (SecondJob n a b)"
  by (rule store_queue.chaos_enqueue_all_once [OF assms(1,2) distinct_job_range]) (simp add: assms(3))

definition demo_queue :: "refdb store queue" where
  "demo_queue = \<lparr>qBackend = demo_store empty_server, qEvents = [], qDraws = [([1], 0), ([2], 0), ([3], 0), ([4], 0), ([5], 0)]\<rparr>"

theorem chaos_enqueue_no_second_job_witness:
  "snd (chaos_enqueue_all (store_backend ref_redis ref_codec ref_config id False) (\<lambda>p. Inr ''{}'') (\<lambda>_. []) (\<lambda>st. st) 0 (\<lambda>_. 0)
     (job_range 4) demo_queue) \<noteq> Some (SecondJob 3 ''04'' ''05'')"
proof (rule chaos_enqueue_no_second_job [OF refq.store_queue_axioms])
  show "srv st = srv st \<and> sclk st < sclk st + Milliseconds (DedupeWindow ref_config)" for st :: "refdb store"
    using refq.dedupe_key(2) by simp
  show "dStr (ref_view (srv (qBackend demo_queue))) (DedupePrefix ref_config @ job_key i) = None" for i
    by (simp add: demo_queue_def empty_server_def ref_view_def)
qed

lemma div_step: "(x + 7) div 10 = (x + 6) div 10 + (if x mod 10 = 3 then 1 else 0)" for x :: int
proof -
  define q r where "q = x div 10" and "r = x mod 10"
  have x: "x = 10 * q + r" and r: "0 \<le> r" "r < 10" by (simp_all add: q_def r_def)
  have d: "(10 * q + y) div 10 = q + y div 10" for y :: int by simp
  have "(r + 7) div 10 = (r + 6) div 10 + (if r = 3 then 1 else 0)"
  proof (cases r "3 :: int" rule: linorder_cases)
    case less
    with r have "(r + 7) div 10 = 0" "(r + 6) div 10 = 0" by (auto intro: div_pos_pos_trivial)
    with less show ?thesis by simp
  next
    case greater
    with r have "(r + 7) div 10 = 1" "(r + 6) div 10 = 1" by (auto intro!: int_div_pos_eq [of _ _ _ "r - 3"] int_div_pos_eq [of _ _ _ "r - 4"])
    with greater show ?thesis by simp
  qed simp
  moreover have "(10 * q + r) mod 10 = r" using r by simp
  ultimately show ?thesis using d [of "r + 7"] d [of "r + 6"] unfolding x by (simp add: add.assoc)
qed

text \<open>
  The report's figure for the retried enqueues is the number of jobs the loop enqueues twice.
\<close>

theorem retried_count:
  assumes "0 \<le> jobs"
  shows "int (length (filter retried (job_range jobs))) = (jobs + 6) div 10"
proof -
  have "int (length (filter retried (map int [0..<n]))) = (int n + 6) div 10" for n
  proof (induction n)
    case (Suc n)
    with div_step [of "int n"] show ?case by (simp add: retried_def add.commute)
  qed simp
  from this [of "nat jobs"] assms show ?thesis by (simp add: job_range_def)
qed

theorem retried_count_witness: "int (length (filter retried (job_range 10000))) = 1000"
proof -
  have "int (length (filter retried (job_range 10000))) = (10000 + 6) div 10" by (rule retried_count) simp
  also have "\<dots> = 1000" by simp
  finally show ?thesis .
qed

section \<open>Worker processes\<close>

text \<open>
  Workers are numbered in the order they are started. \<open>cRunning\<close> are the processes whose
  waiting goroutine has not seen them exit; \<open>cSpawning\<close> is a process that was started but
  not yet entered into \<open>cProcs\<close>, which its goroutine can overtake.
\<close>

datatype stage = Starting nat | Faulting | Killing nat | Draining | Stopping "nat list" | Reporting

record controller =
  cStage :: stage
  cNext :: nat
  cProcs :: "nat list"
  cSpawning :: "nat option"
  cRunning :: "nat set"
  cKilled :: "nat set"
  cPaused :: "nat set"
  cCrashed :: "nat list"
  cKills :: nat
  cPauses :: nat

definition new_controller :: "nat \<Rightarrow> controller" where
  [go_defs]: "new_controller workers =
     \<lparr>cStage = Starting workers, cNext = 0, cProcs = [], cSpawning = None, cRunning = {}, cKilled = {}, cPaused = {}, cCrashed = [],
      cKills = 0, cPauses = 0\<rparr>"

definition worker_id :: "nat \<Rightarrow> string" where
  "worker_id n = ''chaos-worker-'' @ itoa (int n)"

text \<open>\<^verbatim>\<open>spawn\<close>: number and start a process, then enter it into the list.\<close>

definition spawn_start :: "controller \<Rightarrow> controller" where
  [go_defs]: "spawn_start c = c\<lparr>cNext := cNext c + 1, cSpawning := Some (cNext c + 1), cRunning := insert (cNext c + 1) (cRunning c)\<rparr>"

definition spawn_append :: "nat \<Rightarrow> controller \<Rightarrow> controller" where
  [go_defs]: "spawn_append p c = c\<lparr>cProcs := cProcs c @ [p], cSpawning := None\<rparr>"

definition proc_exits :: "nat \<Rightarrow> bool \<Rightarrow> controller \<Rightarrow> controller" where
  [go_defs]: "proc_exits p failed c =
     c\<lparr>cCrashed := (if p \<notin> cKilled c \<and> failed then cCrashed c @ [p] else cCrashed c),
       cProcs := filter (\<lambda>q. q \<noteq> p) (cProcs c), cRunning := cRunning c - {p}\<rparr>"

definition pick_from :: "controller \<Rightarrow> nat list" where
  [go_defs]: "pick_from c = filter (\<lambda>p. p \<notin> cPaused c \<and> p \<notin> cKilled c) (cProcs c)"

definition resume :: "nat \<Rightarrow> controller \<Rightarrow> controller" where
  [go_defs]: "resume p c = c\<lparr>cPaused := cPaused c - {p}\<rparr>"

definition resumeAll :: "controller \<Rightarrow> controller" where
  [go_defs]: "resumeAll c = fold resume (cProcs c) c"

text \<open>
  The controller's own steps, and the exits and timed resumptions that happen beside them. The
  process picked is any the random number can select.
\<close>

inductive cstep :: "controller \<Rightarrow> controller \<Rightarrow> bool" where
  c_start: "cStage c = Starting (Suc k) \<Longrightarrow> cSpawning c = None \<Longrightarrow> cstep c (spawn_start (c\<lparr>cStage := Starting k\<rparr>))"
| c_append: "cSpawning c = Some p \<Longrightarrow> cstep c (spawn_append p c)"
| c_started: "cStage c = Starting 0 \<Longrightarrow> cSpawning c = None \<Longrightarrow> cstep c (c\<lparr>cStage := Faulting\<rparr>)"
| c_kill: "cStage c = Faulting \<Longrightarrow> cSpawning c = None \<Longrightarrow> p \<in> set (pick_from c) \<Longrightarrow>
    cstep c (c\<lparr>cKilled := insert p (cKilled c), cStage := Killing p\<rparr>)"
| c_replace: "cStage c = Killing p \<Longrightarrow> p \<notin> cRunning c \<Longrightarrow> cstep c (spawn_start (c\<lparr>cKills := cKills c + 1, cStage := Faulting\<rparr>))"
| c_pause: "cStage c = Faulting \<Longrightarrow> cSpawning c = None \<Longrightarrow> p \<in> set (pick_from c) \<Longrightarrow>
    cstep c (c\<lparr>cPaused := insert p (cPaused c), cPauses := cPauses c + 1\<rparr>)"
| c_resume: "p \<in> cPaused c \<Longrightarrow> cstep c (resume p c)"
| c_exit: "p \<in> cRunning c \<Longrightarrow> cstep c (proc_exits p failed c)"
| c_drain: "cStage c = Faulting \<Longrightarrow> cSpawning c = None \<Longrightarrow> cstep c (resumeAll (c\<lparr>cStage := Draining\<rparr>))"
| c_stop: "cStage c = Draining \<Longrightarrow> cstep c (c\<lparr>cStage := Stopping (cProcs c)\<rparr>)"
| c_report: "cStage c = Stopping ps \<Longrightarrow> list_all (\<lambda>p. p \<notin> cRunning c) ps \<Longrightarrow> cstep c (c\<lparr>cStage := Reporting\<rparr>)"

inductive_cases cstep_cases: "cstep c c'"

inductive creach :: "nat \<Rightarrow> controller \<Rightarrow> bool" where
  c_new: "creach workers (new_controller workers)"
| c_next: "creach workers c \<Longrightarrow> cstep c c' \<Longrightarrow> creach workers c'"

text \<open>
  The invariant: the workers still to start, the processes killed and the one being killed are
  accounted for; every running process is in the list or about to be; and once the controller
  drains the queue no running process is paused.
\<close>

definition to_start :: "stage \<Rightarrow> nat" where
  "to_start s = (case s of Starting k \<Rightarrow> k | _ \<Rightarrow> 0)"

definition dying :: "stage \<Rightarrow> nat set" where
  "dying s = (case s of Killing p \<Rightarrow> {p} | _ \<Rightarrow> {})"

definition ending :: "stage \<Rightarrow> bool" where
  "ending s = (case s of Draining \<Rightarrow> True | Stopping ps \<Rightarrow> True | Reporting \<Rightarrow> True | _ \<Rightarrow> False)"

definition kill_counts :: "controller \<Rightarrow> bool" where
  "kill_counts c \<longleftrightarrow> cKilled c \<subseteq> {1..cNext c} \<and> set (cProcs c) \<subseteq> {1..cNext c} \<and> card (cKilled c) = cKills c + card (dying (cStage c)) \<and>
     dying (cStage c) \<subseteq> cKilled c \<and> (cKilled c - dying (cStage c)) \<inter> cRunning c = {} \<and> cRunning c \<subseteq> {1..cNext c}"

definition proc_lists :: "controller \<Rightarrow> bool" where
  "proc_lists c \<longleftrightarrow> cRunning c \<subseteq> set (cProcs c) \<union> set_option (cSpawning c) \<and> set_option (cSpawning c) \<subseteq> {1..cNext c} \<and>
     (ending (cStage c) \<or> dying (cStage c) \<noteq> {} \<longrightarrow> cSpawning c = None) \<and> (ending (cStage c) \<longrightarrow> cRunning c \<inter> cPaused c = {}) \<and>
     (\<forall>ps. cStage c = Stopping ps \<longrightarrow> cRunning c \<subseteq> set ps) \<and> (cStage c = Reporting \<longrightarrow> cRunning c = {})"

lemmas stage_defs = to_start_def dying_def ending_def

lemma resumeAll_frame [simp]:
  "resumeAll c = c\<lparr>cPaused := cPaused c - set (cProcs c)\<rparr>"
proof -
  have "fold resume ps c = c\<lparr>cPaused := cPaused c - set ps\<rparr>" for ps
    by (induction ps arbitrary: c) (simp_all add: resume_def Diff_insert2 [symmetric])
  then show ?thesis by (simp add: resumeAll_def)
qed

lemma cstep_total:
  "cstep c c' \<Longrightarrow> cNext c + to_start (cStage c) + cKills c' = cNext c' + to_start (cStage c') + cKills c"
  by (induction rule: cstep.induct)
    (simp_all add: to_start_def spawn_start_def spawn_append_def proc_exits_def resume_def)

lemma cstep_kill_counts: "cstep c c' \<Longrightarrow> kill_counts c \<Longrightarrow> set_option (cSpawning c) \<subseteq> {1..cNext c} \<Longrightarrow> kill_counts c'"
proof (induction rule: cstep.induct)
  case (c_kill c p)
  then have "p \<in> {1..cNext c}" "p \<notin> cKilled c" "finite (cKilled c)"
    by (auto simp: kill_counts_def pick_from_def intro: finite_subset)
  with c_kill show ?case by (auto simp: kill_counts_def dying_def)
next
  case (c_replace c p)
  then show ?case by (auto simp: kill_counts_def dying_def spawn_start_def)
qed (auto simp: kill_counts_def dying_def spawn_start_def spawn_append_def proc_exits_def resume_def)

lemma cstep_proc_lists: "cstep c c' \<Longrightarrow> proc_lists c \<Longrightarrow> proc_lists c'"
  by (induction rule: cstep.induct)
    (auto simp: proc_lists_def stage_defs spawn_start_def spawn_append_def proc_exits_def resume_def list_all_iff)

lemma creach_inv: "creach workers c \<Longrightarrow> cNext c + to_start (cStage c) = workers + cKills c \<and> kill_counts c \<and> proc_lists c"
proof (induction rule: creach.induct)
  case (c_new workers)
  then show ?case by (simp add: new_controller_def stage_defs kill_counts_def proc_lists_def)
next
  case (c_next workers c c')
  then show ?case
    using cstep_total [of c c'] cstep_kill_counts [of c c'] cstep_proc_lists [of c c'] by (auto simp: proc_lists_def)
qed

text \<open>
  C31. The controller keeps its workers under control, in every state it can reach: it has started
  exactly the workers it was asked for plus one replacement for each kill; never more than
  that number run at the same time, whatever processes exit on their own; from the moment it
  drains the queue no running worker is suspended, so each can act on the signal to stop; it
  waits for every running worker; and when it reports none runs any more.
\<close>

theorem controller_sound:
  assumes "creach workers c"
  shows "cNext c + to_start (cStage c) = workers + cKills c \<and> card (cRunning c) \<le> workers \<and>
    (ending (cStage c) \<longrightarrow> cRunning c \<inter> cPaused c = {}) \<and>
    (\<forall>ps. cStage c = Stopping ps \<longrightarrow> cRunning c \<subseteq> set ps) \<and> (cStage c = Reporting \<longrightarrow> cRunning c = {})"
proof -
  note I = creach_inv [OF assms]
  have k: "cKilled c \<subseteq> {1..cNext c}" "card (cKilled c) = cKills c + card (dying (cStage c))" "dying (cStage c) \<subseteq> cKilled c"
    "(cKilled c - dying (cStage c)) \<inter> cRunning c = {}" "cRunning c \<subseteq> {1..cNext c}"
    using I unfolding kill_counts_def by blast+
  have "card (cKilled c - dying (cStage c)) = cKills c"
    using k(2,3) by (simp add: card_Diff_subset dying_def split: stage.split)
  moreover have "card (cRunning c) + card (cKilled c - dying (cStage c)) = card (cRunning c \<union> (cKilled c - dying (cStage c)))"
    using k by (intro card_Un_disjoint [symmetric]) (auto intro: finite_subset)
  moreover have "card (cRunning c \<union> (cKilled c - dying (cStage c))) \<le> card {1..cNext c}"
    using k by (intro card_mono) auto
  ultimately have "card (cRunning c) + cKills c \<le> cNext c" by simp
  then show ?thesis using I unfolding proc_lists_def by auto
qed

lemma demo_creach: "creach 1 (spawn_append 1 (spawn_start ((new_controller 1)\<lparr>cStage := Starting 0\<rparr>)))"
proof -
  have s: "creach 1 (spawn_start ((new_controller 1)\<lparr>cStage := Starting 0\<rparr>))"
    by (rule c_next [OF c_new], rule c_start) (simp_all add: new_controller_def)
  show ?thesis by (rule c_next [OF s], rule c_append) (simp add: spawn_start_def new_controller_def)
qed

theorem controller_sound_witness:
  "card (cRunning (spawn_append 1 (spawn_start ((new_controller 1)\<lparr>cStage := Starting 0\<rparr>)))) \<le> 1"
  using controller_sound [OF demo_creach] by blast

text \<open>Every process a stopping controller waits for can exit, and then the controller reports.\<close>

lemma exits_all:
  assumes "finite (cRunning c)"
  shows "\<exists>c'. cstep\<^sup>*\<^sup>* c c' \<and> cRunning c' = {} \<and> cStage c' = cStage c \<and> cSpawning c' = cSpawning c"
  using assms
proof (induction "cRunning c" arbitrary: c rule: finite_induct)
  case empty
  then show ?case by auto
next
  case (insert p F)
  let ?c = "proc_exits p False c"
  have "F = cRunning ?c" using insert.hyps(2,4) by (auto simp: proc_exits_def)
  from insert.hyps(3) [OF this] obtain c' where "cstep\<^sup>*\<^sup>* ?c c'" "cRunning c' = {}" "cStage c' = cStage ?c" "cSpawning c' = cSpawning ?c"
    by blast
  moreover have "cstep c ?c" by (rule c_exit) (use insert.hyps(4) in blast)
  ultimately show ?case by (intro exI [of _ c']) (auto simp: proc_exits_def)
qed

lemma finish_stopping:
  assumes "cStage c = Stopping ps" "finite (cRunning c)"
  shows "\<exists>c'. cstep\<^sup>*\<^sup>* c c' \<and> cStage c' = Reporting"
proof -
  obtain c1 where c1: "cstep\<^sup>*\<^sup>* c c1" "cRunning c1 = {}" "cStage c1 = Stopping ps"
    using exits_all [OF assms(2)] assms(1) by auto
  then have "cstep c1 (c1\<lparr>cStage := Reporting\<rparr>)" by (intro c_report) (auto simp: list_all_iff)
  with c1(1) show ?thesis by (intro exI [of _ "c1\<lparr>cStage := Reporting\<rparr>"]) auto
qed

lemma finish_draining:
  assumes "cStage c = Draining" "finite (cRunning c)"
  shows "\<exists>c'. cstep\<^sup>*\<^sup>* c c' \<and> cStage c' = Reporting"
  using finish_stopping [of "c\<lparr>cStage := Stopping (cProcs c)\<rparr>"] c_stop [OF assms(1)] assms(2)
  by (auto intro: converse_rtranclp_into_rtranclp)

lemma finish_faulting:
  assumes "cStage c = Faulting" "finite (cRunning c)"
  shows "\<exists>c'. cstep\<^sup>*\<^sup>* c c' \<and> cStage c' = Reporting"
proof -
  have go: "\<exists>c'. cstep\<^sup>*\<^sup>* d c' \<and> cStage c' = Reporting" if "cStage d = Faulting" "finite (cRunning d)" "cSpawning d = None" for d
    using finish_draining [of "resumeAll (d\<lparr>cStage := Draining\<rparr>)"] c_drain [OF that(1,3)] that(2)
    by (auto intro: converse_rtranclp_into_rtranclp)
  show ?thesis
  proof (cases "cSpawning c")
    case None
    with go assms show ?thesis by blast
  next
    case (Some p)
    have "\<exists>c'. cstep\<^sup>*\<^sup>* (spawn_append p c) c' \<and> cStage c' = Reporting"
      by (rule go) (use assms in \<open>simp_all add: spawn_append_def\<close>)
    with c_append [OF Some] show ?thesis by (meson converse_rtranclp_into_rtranclp)
  qed
qed

lemma finish_starting:
  "cStage c = Starting k \<Longrightarrow> finite (cRunning c) \<Longrightarrow> \<exists>c'. cstep\<^sup>*\<^sup>* c c' \<and> cStage c' = Reporting"
proof (induction k arbitrary: c)
  case 0
  let ?d = "case cSpawning c of None \<Rightarrow> c | Some p \<Rightarrow> spawn_append p c"
  have d: "cstep\<^sup>*\<^sup>* c ?d" "cStage ?d = Starting 0" "cSpawning ?d = None" "finite (cRunning ?d)"
    using 0 c_append by (auto simp: spawn_append_def split: option.split)
  have "\<exists>c'. cstep\<^sup>*\<^sup>* (?d\<lparr>cStage := Faulting\<rparr>) c' \<and> cStage c' = Reporting" by (rule finish_faulting) (use d(4) in simp_all)
  with d(1) c_started [OF d(2,3)] show ?case by (meson converse_rtranclp_into_rtranclp rtranclp_trans)
next
  case (Suc k)
  let ?d = "case cSpawning c of None \<Rightarrow> c | Some p \<Rightarrow> spawn_append p c"
  have d: "cstep\<^sup>*\<^sup>* c ?d" "cStage ?d = Starting (Suc k)" "cSpawning ?d = None" "finite (cRunning ?d)"
    using Suc.prems c_append by (auto simp: spawn_append_def split: option.split)
  have "\<exists>c'. cstep\<^sup>*\<^sup>* (spawn_start (?d\<lparr>cStage := Starting k\<rparr>)) c' \<and> cStage c' = Reporting"
    by (rule Suc.IH) (use d(4) in \<open>simp_all add: spawn_start_def\<close>)
  with d(1) c_start [OF d(2,3)] show ?case by (meson converse_rtranclp_into_rtranclp rtranclp_trans)
qed

text \<open>
  The chaos run can always come to its end: from every state the controller can reach,
  whatever was killed, paused or exited before, it can go on to stop the faults, let every
  worker exit and report.
\<close>

theorem controller_can_finish:
  assumes "creach workers c"
  shows "\<exists>c'. cstep\<^sup>*\<^sup>* c c' \<and> cStage c' = Reporting"
proof -
  have fin: "finite (cRunning c)" using creach_inv [OF assms] by (auto simp: kill_counts_def intro: finite_subset)
  show ?thesis
  proof (cases "cStage c")
    case (Killing p)
    let ?d = "if p \<in> cRunning c then proc_exits p True c else c"
    have d: "cStage ?d = Killing p" "p \<notin> cRunning ?d" "finite (cRunning ?d)"
      using Killing fin by (auto simp: proc_exits_def)
    have "cstep\<^sup>*\<^sup>* c ?d" using c_exit [of p c True] by auto
    have "\<exists>c'. cstep\<^sup>*\<^sup>* (spawn_start (?d\<lparr>cKills := cKills ?d + 1, cStage := Faulting\<rparr>)) c' \<and> cStage c' = Reporting"
      by (rule finish_faulting) (use d(3) in \<open>simp_all add: spawn_start_def\<close>)
    with \<open>cstep\<^sup>*\<^sup>* c ?d\<close> c_replace [OF d(1,2)] show ?thesis by (meson converse_rtranclp_into_rtranclp rtranclp_trans)
  qed (use fin finish_starting finish_faulting finish_draining finish_stopping in auto)
qed

theorem controller_can_finish_witness:
  "\<exists>c'. cstep\<^sup>*\<^sup>* (spawn_append 1 (spawn_start ((new_controller 1)\<lparr>cStage := Starting 0\<rparr>))) c' \<and> cStage c' = Reporting"
  by (rule controller_can_finish [OF demo_creach])

end
