(* ===== verification/Tools.thy ===== *)
theory Tools
  imports Sharding ChaosControl "HOL-Library.Sublist"
begin

text \<open>
  \<^verbatim>\<open>internal/redisutil\<close> and how the tools pass it on: the Redis a tool runs against, the
  queue it opens there, and the flags from which a worker process rebuilds the controller's
  target. Parsing follows \<^verbatim>\<open>flag.FlagSet.Parse\<close>; integers are read in decimal, as the tools
  write them (the base prefixes \<^verbatim>\<open>flag\<close> also accepts are left out).
\<close>

section \<open>The target\<close>

record Target =
  tAddr :: string
  tCluster :: string
  tPartitions :: int

definition normalized :: "Target \<Rightarrow> Target" where
  [go_defs]: "normalized t = (if tCluster t \<noteq> [] \<and> tPartitions t \<le> 0 then t\<lparr>tPartitions := 16\<rparr> else t)"

definition Target_Args :: "Target \<Rightarrow> string list" where
  [go_defs]: "Target_Args t =
     [''-redis'', tAddr t, ''-cluster'', tCluster t, ''-partitions'', itoa (tPartitions (normalized t))]"

text \<open>\<^verbatim>\<open>strings.Split(s, ",")\<close>.\<close>

fun split_comma :: "string \<Rightarrow> string list" where
  "split_comma [] = [[]]"
| "split_comma (ch # cs) =
     (if ch = CHR '','' then [] # split_comma cs
      else case split_comma cs of [] \<Rightarrow> [[ch]] | w # ws \<Rightarrow> (ch # w) # ws)"

definition seeds :: "Target \<Rightarrow> string list" where
  [go_defs]: "seeds t = (if tCluster t \<noteq> [] then split_comma (tCluster t) else [tAddr t])"

definition Target_String :: "Target \<Rightarrow> string" where
  [go_defs]: "Target_String t0 =
     (let t = normalized t0
      in if tCluster t \<noteq> [] then ''Redis Cluster at '' @ tCluster t @ '', '' @ itoa (tPartitions t) @ '' partitions''
         else if tPartitions t > 0 then ''Redis at '' @ tAddr t @ '', '' @ itoa (tPartitions t) @ '' partitions''
         else ''Redis at '' @ tAddr t @ '', unsharded'')"

definition trim_suffix :: "string \<Rightarrow> string \<Rightarrow> string" where
  "trim_suffix s suf = (if suffix suf s then take (length s - length suf) s else s)"

definition store_config :: "Target \<Rightarrow> string \<Rightarrow> int \<Rightarrow> Config" where
  [go_defs]: "store_config t pre idle =
     \<lparr>Addr = tAddr t, Stream = pre @ ''jobs'', Group = pre @ ''workers'', RetryKey = pre @ ''retry'', DeadLetter = pre @ ''dead'',
      DedupePrefix = pre @ ''dedupe:'', DedupeWindow = 0, ConsumerIdleTimeout = idle\<rparr>"

definition sharded_config :: "Target \<Rightarrow> string \<Rightarrow> int \<Rightarrow> ShardedConfig" where
  [go_defs]: "sharded_config t pre idle =
     \<lparr>Addrs = seeds t, Cluster = tCluster t \<noteq> [], Partitions = tPartitions t, Prefix = trim_suffix pre '':'', shDedupeWindow = 0,
      shConsumerIdleTimeout = idle\<rparr>"

text \<open>\<^verbatim>\<open>New\<close> in \<^verbatim>\<open>redisstream/store.go\<close> fills in the address before it builds the store.\<close>

definition addr_default :: "Config \<Rightarrow> Config" where
  [go_defs]: "addr_default c = (if Addr c = [] then c\<lparr>Addr := ''localhost:6379''\<rparr> else c)"

text \<open>
  \<^verbatim>\<open>Open\<close> returns the configurations of the queue's streams. A single store uses the first
  of the stores in \<open>world\<close>, a sharded queue one for each partition.
\<close>

definition Target_Open ::
  "'r redis \<Rightarrow> Target \<Rightarrow> string \<Rightarrow> int \<Rightarrow> (nat \<Rightarrow> 'r store) \<Rightarrow> (nat \<Rightarrow> 'r store) \<times> (err + Config list)" where
  [go_defs]: "Target_Open R t0 pre idle world =
     (let t = normalized t0
      in if tPartitions t = 0 then
           (case NewWithClient R (addr_default (store_config t pre idle)) (world 0) of
              (st, Inl e) \<Rightarrow> (world(0 := st), Inl e)
            | (st, Inr config) \<Rightarrow> (world(0 := st), Inr [config]))
         else
           (case NewSharded R (sharded_config t pre idle) world of
              (world', Inl e) \<Rightarrow> (world', Inl e)
            | (world', Inr s) \<Rightarrow> (world', Inr (sConfigs s))))"

section \<open>Flags\<close>

datatype flag_kind = BoolFlag | ValueFlag

fun parse_flags :: "(string \<Rightarrow> flag_kind option) \<Rightarrow> string list \<Rightarrow> (string \<times> string) list option" where
  "parse_flags F [] = Some []"
| "parse_flags F (s # rest) =
     (if length s < 2 \<or> hd s \<noteq> CHR ''-'' \<or> s = ''--'' then Some []
      else
        let body = (if s ! 1 = CHR ''-'' then drop 2 s else drop 1 s);
            name = takeWhile (\<lambda>ch. ch \<noteq> CHR ''='') body
        in if body = [] \<or> hd body = CHR ''-'' \<or> hd body = CHR ''='' then None
           else case F name of
                  None \<Rightarrow> None
                | Some BoolFlag \<Rightarrow>
                    map_option (Cons (name, if name = body then ''true'' else drop (length name + 1) body)) (parse_flags F rest)
                | Some ValueFlag \<Rightarrow>
                    if name \<noteq> body then map_option (Cons (name, drop (length name + 1) body)) (parse_flags F rest)
                    else (case rest of [] \<Rightarrow> None | v # rest' \<Rightarrow> map_option (Cons (name, v)) (parse_flags F rest')))"

text \<open>The flags of \<^verbatim>\<open>RegisterFlags\<close>, and their effect on the target.\<close>

definition target_flags :: "string \<Rightarrow> flag_kind option" where
  [go_defs]: "target_flags = [''redis'' \<mapsto> ValueFlag, ''cluster'' \<mapsto> ValueFlag, ''partitions'' \<mapsto> ValueFlag]"

definition default_target :: Target where
  [go_defs]: "default_target = \<lparr>tAddr = ''localhost:6379'', tCluster = [], tPartitions = 0\<rparr>"

definition set_target_flag :: "string \<times> string \<Rightarrow> Target \<Rightarrow> Target option" where
  "set_target_flag = (\<lambda>(name, v) t.
     if name = ''redis'' then Some (t\<lparr>tAddr := v\<rparr>)
     else if name = ''cluster'' then Some (t\<lparr>tCluster := v\<rparr>)
     else if name = ''partitions'' then map_option (\<lambda>n. t\<lparr>tPartitions := n\<rparr>) (atoi v)
     else Some t)"

fun set_target_flags :: "(string \<times> string) list \<Rightarrow> Target \<Rightarrow> Target option" where
  "set_target_flags [] t = Some t"
| "set_target_flags (f # fs) t = Option.bind (set_target_flag f t) (set_target_flags fs)"

section \<open>Starting a chaos worker\<close>

text \<open>
  The command line \<^verbatim>\<open>spawn\<close> builds; the duration and the failure rate are passed as the
  strings the standard library formats them to.
\<close>

record chaos_options_record =
  opTarget :: Target
  opPrefix :: string
  opConcurrency :: int
  opVisibility :: string
  opFailRate :: string
  opVerbose :: bool

definition spawn_args :: "chaos_options_record \<Rightarrow> string \<Rightarrow> string list" where
  [go_defs]: "spawn_args opts wid =
     [''-worker'', ''-worker-id'', wid, ''-prefix'', opPrefix opts, ''-concurrency'', itoa (opConcurrency opts),
      ''-visibility'', opVisibility opts, ''-fail-rate'', opFailRate opts, ''-v='' @ format_bool (opVerbose opts)] @
     Target_Args (opTarget opts)"

definition chaos_flags :: "string \<Rightarrow> flag_kind option" where
  [go_defs]: "chaos_flags = target_flags ++
     [''jobs'' \<mapsto> ValueFlag, ''workers'' \<mapsto> ValueFlag, ''concurrency'' \<mapsto> ValueFlag, ''duration'' \<mapsto> ValueFlag,
      ''kill-every'' \<mapsto> ValueFlag, ''pause-every'' \<mapsto> ValueFlag, ''visibility'' \<mapsto> ValueFlag, ''fail-rate'' \<mapsto> ValueFlag,
      ''timeout'' \<mapsto> ValueFlag, ''keep'' \<mapsto> BoolFlag, ''v'' \<mapsto> BoolFlag, ''worker'' \<mapsto> BoolFlag, ''worker-id'' \<mapsto> ValueFlag,
      ''prefix'' \<mapsto> ValueFlag]"

lemma normalized_idem [simp]: "normalized (normalized t) = normalized t"
  by (simp add: normalized_def)

lemma spawn_args_parse:
  "parse_flags chaos_flags (spawn_args opts wid) =
     Some [(''worker'', ''true''), (''worker-id'', wid), (''prefix'', opPrefix opts), (''concurrency'', itoa (opConcurrency opts)),
       (''visibility'', opVisibility opts), (''fail-rate'', opFailRate opts), (''v'', format_bool (opVerbose opts)),
       (''redis'', tAddr (opTarget opts)), (''cluster'', tCluster (opTarget opts)),
       (''partitions'', itoa (tPartitions (normalized (opTarget opts))))]"
  by (simp add: spawn_args_def Target_Args_def chaos_flags_def target_flags_def Let_def format_bool_def)

text \<open>
  A worker process works on the controller's queue: parsing the command line \<^verbatim>\<open>spawn\<close>
  builds succeeds with the worker's identifier, prefix and settings, and the target it yields
  opens the same queue as the controller's, for every prefix, with the same configurations of
  its streams.
\<close>

theorem spawned_worker_same_queue:
  assumes "is_int64 (tPartitions (opTarget opts))"
  shows "\<exists>fs t. parse_flags chaos_flags (spawn_args opts wid) = Some fs \<and> set_target_flags fs default_target = Some t \<and>
    map_of fs ''worker'' = Some ''true'' \<and> map_of fs ''worker-id'' = Some wid \<and> map_of fs ''prefix'' = Some (opPrefix opts) \<and>
    map_of fs ''concurrency'' = Some (itoa (opConcurrency opts)) \<and>
    Target_Open R t pre idle world = Target_Open R (opTarget opts) pre idle world"
proof -
  let ?t = "normalized (opTarget opts)"
  let ?p = "\<lparr>tAddr = tAddr (opTarget opts), tCluster = tCluster (opTarget opts), tPartitions = tPartitions ?t\<rparr>"
  have "is_int64 (tPartitions ?t)" using assms by (auto simp: normalized_def is_int64_def)
  then have at: "atoi (itoa (tPartitions ?t)) = Some (tPartitions ?t)" by simp
  have "?p = ?t" by (simp add: normalized_def)
  then have "Target_Open R ?p pre idle world = Target_Open R (opTarget opts) pre idle world"
    by (simp add: Target_Open_def)
  then show ?thesis
    by (simp add: spawn_args_parse set_target_flag_def default_target_def at)
qed

definition demo_target :: Target where
  "demo_target = \<lparr>tAddr = ''localhost:6379'', tCluster = ''h1:1,h2:2'', tPartitions = 0\<rparr>"

definition demo_options :: chaos_options_record where
  "demo_options = \<lparr>opTarget = demo_target, opPrefix = ''chaos:1:'', opConcurrency = 8, opVisibility = ''2s'', opFailRate = ''0.1'', opVerbose = False\<rparr>"

theorem spawned_worker_same_queue_witness:
  "\<exists>fs t. parse_flags chaos_flags (spawn_args demo_options ''chaos-worker-1'') = Some fs \<and> set_target_flags fs default_target = Some t \<and>
    Target_Open ref_redis t ''chaos:1:'' 0 (\<lambda>_. demo_store empty_server) =
      Target_Open ref_redis (opTarget demo_options) ''chaos:1:'' 0 (\<lambda>_. demo_store empty_server)"
proof -
  have "is_int64 (tPartitions (opTarget demo_options))" by (simp add: demo_options_def demo_target_def is_int64_def)
  from spawned_worker_same_queue [OF this, of "''chaos-worker-1''" ref_redis "''chaos:1:''" 0 "\<lambda>_. demo_store empty_server"]
  show ?thesis by blast
qed

section \<open>Keys\<close>

lemma trim_colon: "trim_suffix (p @ '':'') '':'' = p" "\<not> suffix '':'' q \<Longrightarrow> trim_suffix q '':'' = q"
  by (simp_all add: trim_suffix_def)

lemma store_keys_prefixed:
  assumes "k \<in> part_keys (config_defaults (addr_default (store_config t pre idle)))"
  shows "prefix pre k"
  using assms by (auto simp: part_keys_def config_defaults_fields addr_default_def store_config_def retryData_def split: if_splits)

lemma sharded_keys_prefixed:
  assumes "k \<in> part_keys (config_defaults (partition_config (sharded_defaults (sharded_config t pre idle)) p))" "pre \<noteq> []" "pre \<noteq> '':''"
  shows "prefix pre k"
proof -
  have "trim_suffix pre '':'' \<noteq> []" using assms(2,3) by (auto simp: trim_suffix_def suffix_def)
  then have "Prefix (sharded_defaults (sharded_config t pre idle)) = trim_suffix pre '':''"
    by (simp add: sharded_defaults_def sharded_config_def Let_def)
  with part_keys_tagged [OF assms(1)] obtain x where "k = trim_suffix pre '':'' @ '':{p'' @ itoa (int p) @ ''}:'' @ x"
    by (auto simp: partition_tag_def)
  moreover have "prefix pre (trim_suffix pre '':'' @ '':'' @ y)" for y
    by (cases "suffix '':'' pre") (auto simp: suffix_def trim_suffix_def)
  ultimately show ?thesis by simp
qed

text \<open>
  Cleaning up by prefix is complete: every key of a queue opened under a prefix, of each of its
  streams, schedules, dead-letter streams and deduplication keys, starts with that prefix, on
  a single Redis as well as sharded, so deleting the keys with the prefix leaves nothing of a
  run behind. (A prefix that is empty or a lone colon is replaced by the default when sharded.)
\<close>

theorem opened_keys_prefixed:
  assumes "Target_Open R t pre idle world = (world', Inr cs)" "c \<in> set cs" "k \<in> part_keys c" "pre \<noteq> []" "pre \<noteq> '':''"
  shows "prefix pre k"
proof (cases "tPartitions (normalized t) = 0")
  case True
  then have "c = config_defaults (addr_default (store_config (normalized t) pre idle))"
    using assms(1,2) by (auto simp: Target_Open_def NewWithClient_def Let_def split: prod.splits sum.splits option.splits if_splits)
  with assms(3) show ?thesis using store_keys_prefixed by simp
next
  case False
  let ?cfg = "sharded_defaults (sharded_config (normalized t) pre idle)"
  obtain w where "new_parts R ?cfg [0..<nat (Partitions ?cfg)] world = (w, Inr cs)"
    using assms(1) False by (auto simp: Target_Open_def NewSharded_def Let_def split: prod.splits sum.splits)
  from new_parts_configs [OF this] assms(2) obtain p where "c = config_defaults (partition_config ?cfg p)" by auto
  with assms(3-5) show ?thesis using sharded_keys_prefixed by simp
qed

theorem opened_keys_prefixed_witness:
  "case snd (Target_Open ref_redis demo_target ''chaos:1:'' 0 (\<lambda>_. demo_store empty_server)) of
     Inl e \<Rightarrow> False | Inr cs \<Rightarrow> prefix ''chaos:1:'' (Stream (cs ! 15))"
proof -
  let ?n = "Target_Open ref_redis demo_target ''chaos:1:'' 0 (\<lambda>_. demo_store empty_server)"
  have "case snd ?n of Inl e \<Rightarrow> False | Inr cs \<Rightarrow> length cs = 16" by code_simp
  then obtain w cs where n: "?n = (w, Inr cs)" "length cs = 16" using demo_pair_cases by blast
  have "cs ! 15 \<in> set cs" using n(2) by simp
  moreover have "Stream (cs ! 15) \<in> part_keys (cs ! 15)" by (simp add: part_keys_def)
  ultimately show ?thesis using opened_keys_prefixed [OF n(1)] by (simp add: n(1))
qed

text \<open>
  A negative number of partitions is described and opened differently: without a cluster the
  target is printed as unsharded, but the queue it opens has sixteen partitions.
\<close>

theorem negative_partitions_disagree:
  "Target_String \<lparr>tAddr = ''h:1'', tCluster = [], tPartitions = - 1\<rparr> = ''Redis at h:1, unsharded'' \<and>
   (case snd (Target_Open ref_redis \<lparr>tAddr = ''h:1'', tCluster = [], tPartitions = - 1\<rparr> ''q:'' 0 (\<lambda>_. demo_store empty_server)) of
      Inl e \<Rightarrow> False | Inr cs \<Rightarrow> length cs = 16)"
  by code_simp

text \<open>The identifiers the controller gives its workers can be read back from the ledger.\<close>

lemma worker_id_readable: "readable (worker_id n)"
  by (simp add: worker_id_def readable_def is_blank_def is_newline_def)

end
