(* ===== verification/Bench.thy ===== *)
theory Bench
  imports Tools "HOL-Library.Multiset"
begin

text \<open>
  \<^verbatim>\<open>cmd/bench/main.go\<close>: how the benchmark splits its backlog among producers, picks
  percentiles and prints numbers. Multiplying by a percentile rounds; the rounding is a
  parameter that is monotone and exact on integers up to \<open>2 ^ 53\<close>.
\<close>

section \<open>Splitting the backlog\<close>

text \<open>The jobs producer \<open>p\<close> enqueues one by one: \<open>p\<close>, \<open>p + producers\<close> and so on.\<close>

function stripe :: "nat \<Rightarrow> nat \<Rightarrow> nat \<Rightarrow> nat list" where
  "stripe producers n i = (if i < n \<and> 0 < producers then i # stripe producers n (i + producers) else [])"
  by pat_completeness auto
termination by (relation "measure (\<lambda>(producers, n, i). n - i)") auto

declare stripe.simps [simp del]

text \<open>The first job of each batch, and the requests of a batch.\<close>

definition batch_starts :: "nat \<Rightarrow> nat \<Rightarrow> nat list" where
  "batch_starts sz n = stripe sz n 0"

definition batch_jobs :: "nat \<Rightarrow> nat \<Rightarrow> nat \<Rightarrow> nat list" where
  "batch_jobs sz n first = [first..<min (first + sz) n]"

lemma stripe_filter:
  "0 < k \<Longrightarrow> stripe k n i = filter (\<lambda>j. j mod k = i mod k) [i..<n]"
proof (induction k n i rule: stripe.induct)
  case (1 k n i)
  show ?case
  proof (cases "i < n \<and> 0 < k")
    case True
    have none: "filter (\<lambda>j. j mod k = i mod k) [Suc i..<min (i + k) n] = []"
    proof -
      have "j mod k \<noteq> i mod k" if "i < j" "j < i + k" for j
      proof
        assume "j mod k = i mod k"
        then have "k dvd j - i" using that(1) by (simp add: mod_eq_dvd_iff_nat)
        moreover have "0 < j - i" "j - i < k" using that by auto
        ultimately show False by (auto dest: dvd_imp_le)
      qed
      then show ?thesis by (auto simp: filter_empty_conv)
    qed
    have "[i..<n] = i # [Suc i..<min (i + k) n] @ [min (i + k) n..<n]"
      using True upt_add_eq_append [of "Suc i" "min (i + k) n" "n - min (i + k) n"] by (simp add: upt_conv_Cons)
    then have "filter (\<lambda>j. j mod k = i mod k) [i..<n] = i # filter (\<lambda>j. j mod k = i mod k) [min (i + k) n..<n]"
      using none by simp
    moreover have "filter (\<lambda>j. j mod k = i mod k) [min (i + k) n..<n] = stripe k n (i + k)"
      using "1.IH" [OF True] True by (cases "i + k \<le> n") (simp_all add: stripe.simps [of k n "i + k"] min_def)
    ultimately show ?thesis using True by (simp add: stripe.simps [of k n i])
  next
    case False
    then show ?thesis using "1.prems" by (auto simp: stripe.simps [of k n i])
  qed
qed

lemma mset_buckets:
  "distinct ps \<Longrightarrow> mset (concat (map (\<lambda>p. filter (\<lambda>j. f j = p) xs) ps)) = mset (filter (\<lambda>j. f j \<in> set ps) xs)"
proof (induction ps)
  case (Cons p ps)
  have "filter_mset (\<lambda>j. f j = p) M + filter_mset (\<lambda>j. f j \<in> set ps) M = filter_mset (\<lambda>j. f j = p \<or> f j \<in> set ps) M" for M
    using Cons.prems by (intro multiset_eqI) auto
  with Cons show ?case by simp
qed simp

text \<open>
  The backlog is built completely and without duplicates: the producers together enqueue
  every job number below the size of the backlog exactly once; and when they share batches
  instead, the batches in order are exactly those numbers in order, whoever takes which.
\<close>

theorem backlog_split_exact:
  assumes "0 < producers" "0 < sz"
  shows "mset (concat (map (stripe producers n) [0..<producers])) = mset [0..<n] \<and>
    concat (map (batch_jobs sz n) (batch_starts sz n)) = [0..<n]"
proof
  have "stripe producers n p = filter (\<lambda>j. j mod producers = p) [0..<n]" if p: "p < producers" for p
  proof -
    have "filter (\<lambda>j. j mod producers = p) [0..<min p n] = []" using p by (auto simp: filter_empty_conv)
    moreover have "[0..<n] = [0..<min p n] @ [min p n..<n]" using upt_add_eq_append [of 0 "min p n" "n - min p n"] by simp
    ultimately have "filter (\<lambda>j. j mod producers = p) [0..<n] = filter (\<lambda>j. j mod producers = p) [min p n..<n]" by simp
    then show ?thesis using stripe_filter [OF assms(1), of n p] p by (cases "p \<le> n") (simp_all add: min_def)
  qed
  then have "concat (map (stripe producers n) [0..<producers]) = concat (map (\<lambda>p. filter (\<lambda>j. j mod producers = p) [0..<n]) [0..<producers])"
    by (intro arg_cong [of _ _ concat] map_cong) auto
  then show "mset (concat (map (stripe producers n) [0..<producers])) = mset [0..<n]"
    using mset_buckets [of "[0..<producers]" "\<lambda>j. j mod producers" "[0..<n]"] assms(1) by (simp del: mset_upt)
next
  have "concat (map (batch_jobs k m) (stripe k m i)) = [i..<m]" if "0 < k" for k m i
    using that
  proof (induction k m i rule: stripe.induct)
    case (1 k m i)
    show ?case
    proof (cases "i < m")
      case True
      have "[i..<min (i + k) m] @ [i + k..<m] = [i..<m]"
        using True upt_add_eq_append [of i "min (i + k) m" "m - min (i + k) m"] by (cases "i + k \<le> m") (simp_all add: min_def)
      with "1.IH" True "1.prems" show ?thesis by (simp add: stripe.simps [of k m i] batch_jobs_def)
    qed (simp add: stripe.simps [of k m i])
  qed
  with assms(2) show "concat (map (batch_jobs sz n) (batch_starts sz n)) = [0..<n]" by (simp add: batch_starts_def)
qed

theorem backlog_split_exact_witness:
  "mset (concat (map (stripe 32 100) [0..<32])) = mset [0..<100] \<and> concat (map (batch_jobs 30 100) (batch_starts 30 100)) = [0..<100]"
  by (rule backlog_split_exact) simp_all

section \<open>Percentiles\<close>

definition wait_times :: "string list \<Rightarrow> int list" where
  [go_defs]: "wait_times raw = sort (map (\<lambda>s. wrap64 (Atoi_value s * 1000)) raw)"

text \<open>\<^verbatim>\<open>waits[int(p*float64(len(waits)-1))]\<close>; \<^term>\<open>None\<close> is the panic on an index out of range.\<close>

definition percentile :: "(rat \<Rightarrow> rat) \<Rightarrow> rat \<Rightarrow> int list \<Rightarrow> int option" where
  [go_defs]: "percentile rnd p waits =
     (let x = rnd (p * of_int (int (length waits) - 1)); i = (if x < 0 then - \<lfloor>- x\<rfloor> else \<lfloor>x\<rfloor>)
      in if 0 \<le> i \<and> i < int (length waits) then Some (waits ! nat i) else None)"

text \<open>
  The latency figures are well defined and ordered: if at least one job was measured, each
  percentile indexes inside the sorted waits, and a higher percentile is never smaller; with no
  measurement the index is out of range.
\<close>

theorem percentiles_ordered:
  assumes "mono rnd" "\<And>k. \<bar>k\<bar> \<le> 2 ^ 53 \<Longrightarrow> rnd (of_int k) = of_int k"
    and "waits = wait_times raw" "raw \<noteq> []" "length raw \<le> 2 ^ 53" "0 \<le> p" "p \<le> q" "q \<le> 1"
  shows "\<exists>a b. percentile rnd p waits = Some a \<and> percentile rnd q waits = Some b \<and> a \<le> b \<and> a \<in> set waits \<and> b \<in> set waits \<and>
    percentile rnd p [] = None"
proof -
  define n where "n = int (length waits) - 1"
  have n: "0 \<le> n" "n \<le> 2 ^ 53" using assms(3-5) by (simp_all add: n_def wait_times_def Suc_le_eq)
  have idx: "0 \<le> \<lfloor>rnd (r * of_int n)\<rfloor> \<and> \<lfloor>rnd (r * of_int n)\<rfloor> \<le> n \<and> 0 \<le> rnd (r * of_int n)" if "0 \<le> r" "r \<le> 1" for r
  proof -
    have "rnd (of_int 0) \<le> rnd (r * of_int n)" "rnd (r * of_int n) \<le> rnd (of_int n)"
      using that n by (auto intro!: monoD [OF assms(1)] simp: mult_left_le_one_le)
    then show ?thesis using assms(2) [of 0] assms(2) [of n] n by (simp add: floor_le_iff)
  qed
  have get: "percentile rnd r waits = Some (waits ! nat \<lfloor>rnd (r * of_int n)\<rfloor>)" "nat \<lfloor>rnd (r * of_int n)\<rfloor> < length waits"
    if "0 \<le> r" "r \<le> 1" for r
    using idx [OF that] by (auto simp: percentile_def Let_def n_def nat_less_iff)
  have "\<lfloor>rnd (p * of_int n)\<rfloor> \<le> \<lfloor>rnd (q * of_int n)\<rfloor>"
    using assms(7) n by (intro floor_mono monoD [OF assms(1)] mult_right_mono) simp_all
  moreover have "sorted waits" by (simp add: assms(3) wait_times_def)
  ultimately have "waits ! nat \<lfloor>rnd (p * of_int n)\<rfloor> \<le> waits ! nat \<lfloor>rnd (q * of_int n)\<rfloor>"
    using get(2) [of q] assms(6-8) by (intro sorted_nth_mono) simp_all
  with get [of p] get [of q] assms(6-8) show ?thesis by (auto simp: percentile_def Let_def)
qed

theorem percentiles_ordered_witness:
  "\<exists>a b. percentile (\<lambda>x. x) (1 / 2) (wait_times [''30'', ''10'', ''20'']) = Some a \<and>
     percentile (\<lambda>x. x) (99 / 100) (wait_times [''30'', ''10'', ''20'']) = Some b \<and> a \<le> b"
  using percentiles_ordered [of "\<lambda>x. x" "wait_times [''30'', ''10'', ''20'']" "[''30'', ''10'', ''20'']" "1 / 2" "99 / 100"]
  by (auto simp: mono_def)

section \<open>Printing numbers\<close>

fun commas_loop :: "nat \<Rightarrow> string \<Rightarrow> string" where
  "commas_loop i s = (if i = 0 then s else commas_loop (i - 3) (take i s @ CHR '','' # drop i s))"

declare commas_loop.simps [simp del]

definition commas :: "int \<Rightarrow> string" where
  [go_defs]: "commas n = (let s = itoa n in commas_loop (length s - 3) s)"

text \<open>The reference: a comma before each group of three characters from the right.\<close>

function grouped :: "string \<Rightarrow> string" where
  "grouped s = (if length s \<le> 3 then s else grouped (take (length s - 3) s) @ CHR '','' # drop (length s - 3) s)"
  by pat_completeness auto
termination by (relation "measure length") auto

declare grouped.simps [simp del]

lemma commas_loop_grouped:
  "0 < i \<Longrightarrow> i \<le> length s \<Longrightarrow> commas_loop i s = grouped (take i s) @ CHR '','' # drop i s"
proof (induction i s rule: commas_loop.induct)
  case (1 i s)
  let ?s = "take i s @ CHR '','' # drop i s"
  show ?case
  proof (cases "i \<le> 3")
    case True
    with "1.prems" show ?thesis
      by (simp add: commas_loop.simps [of i] commas_loop.simps [of 0] grouped.simps [of "take i s"])
  next
    case False
    have "commas_loop (i - 3) ?s = grouped (take (i - 3) ?s) @ CHR '','' # drop (i - 3) ?s"
      by (rule "1.IH") (use "1.prems" False in auto)
    with "1.prems" False show ?thesis
      by (simp add: commas_loop.simps [of i] grouped.simps [of "take i s"] min_def take_take)
  qed
qed

lemma grouped_digits: "filter (\<lambda>ch. ch \<noteq> CHR '','') (grouped s) = filter (\<lambda>ch. ch \<noteq> CHR '','') s"
proof (induction s rule: grouped.induct)
  case (1 s)
  then show ?case
  proof (cases "length s \<le> 3")
    case False
    with 1 have "filter (\<lambda>ch. ch \<noteq> CHR '','') (grouped s) =
        filter (\<lambda>ch. ch \<noteq> CHR '','') (take (length s - 3) s @ drop (length s - 3) s)"
      by (simp add: grouped.simps [of s] del: append_take_drop_id)
    then show ?thesis by (simp only: append_take_drop_id)
  qed (simp add: grouped.simps [of s])
qed

text \<open>
  Numbers are printed with a comma before every group of three characters counted from the
  right, and taking the commas out again and parsing gives the number back. (The sign counts
  as a character: \<open>-100\<close> is printed as \<open>-,100\<close>.)
\<close>

theorem commas_exact:
  assumes "is_int64 n"
  shows "commas n = grouped (itoa n) \<and> atoi (filter (\<lambda>ch. ch \<noteq> CHR '','') (commas n)) = Some n"
proof -
  have g: "commas n = grouped (itoa n)"
  proof (cases "length (itoa n) \<le> 3")
    case True
    then show ?thesis by (simp add: commas_def Let_def commas_loop.simps [of 0] grouped.simps [of "itoa n"])
  next
    case False
    then show ?thesis
      using commas_loop_grouped [of "length (itoa n) - 3" "itoa n"] by (simp add: commas_def Let_def grouped.simps [of "itoa n"])
  qed
  have "ch \<noteq> CHR '',''" if "ch \<in> set (itoa n)" for ch
  proof -
    obtain sign ds where "itoa n = sign @ ds" "sign \<in> {[], ''-''}" "list_all is_digit ds" using itoa_shape by blast
    with that show ?thesis by (auto simp: list_all_iff is_digit_def)
  qed
  then have "filter (\<lambda>ch. ch \<noteq> CHR '','') (itoa n) = itoa n" by (simp add: filter_id_conv)
  with g assms show ?thesis by (simp add: grouped_digits)
qed

theorem commas_exact_witness: "commas 1234567 = grouped (itoa 1234567)"
  using commas_exact [of 1234567] by (simp add: is_int64_def)

end
