(* ===== verification/BenchRun.thy ===== *)
theory BenchRun
  imports Bench
begin

text \<open>
  The throughput run of \<^verbatim>\<open>cmd/bench/main.go\<close> as a step relation: the worker processes, which
  report that they are ready and wait for the go key; the producers, which build the backlog
  in goroutines of their own, in batches handed out over a channel or each in a stripe; and
  the controller, which waits for both before it starts the clock. Any call to Redis may fail,
  carried out or not. A failed enqueue ends the controller, a failed report its worker.
\<close>

section \<open>State and steps\<close>

record bench_params =
  pJobs :: int
  pWorkers :: int
  pProducers :: int
  pBatch :: int

datatype worker_phase = Starting | Waiting | Running | Exited

text \<open>A producer waits on the channel, has a batch, is in its own loop, or has returned.\<close>

datatype producer_phase = Pulling | Batch nat | Loop nat | Quit

datatype controller_phase = Building | Releasing | Measuring | Stopping | Dead

text \<open>\<open>bFeed\<close> is the loop variable of the goroutine that feeds the channel, until it is closed.\<close>

record bench =
  bWorkers :: "worker_phase list"
  bReady :: int
  bGo :: bool
  bPhase :: controller_phase
  bFeed :: "nat option"
  bProducers :: "producer_phase list"
  bSent :: "nat list"

definition singly :: "bench_params \<Rightarrow> bool" where
  "singly P \<longleftrightarrow> pBatch P \<le> 1"

definition bench_start :: "bench_params \<Rightarrow> bench" where
  "bench_start P =
     \<lparr>bWorkers = replicate (nat (pWorkers P)) Starting, bReady = 0, bGo = False, bPhase = Building,
      bFeed = (if singly P then None else Some 0),
      bProducers = (if singly P then map Loop [0..<nat (pProducers P)] else replicate (nat (pProducers P)) Pulling),
      bSent = []\<rparr>"

definition set_worker :: "nat \<Rightarrow> worker_phase \<Rightarrow> bench \<Rightarrow> bench" where
  "set_worker i ph b = b\<lparr>bWorkers := (bWorkers b)[i := ph]\<rparr>"

definition set_producer :: "nat \<Rightarrow> producer_phase \<Rightarrow> bench \<Rightarrow> bench" where
  "set_producer k ph b = b\<lparr>bProducers := (bProducers b)[k := ph]\<rparr>"

definition send :: "nat list \<Rightarrow> bench \<Rightarrow> bench" where
  "send js b = b\<lparr>bSent := bSent b @ js\<rparr>"

lemmas bench_moves = set_worker_def set_producer_def send_def

abbreviation worker_in :: "nat \<Rightarrow> worker_phase \<Rightarrow> bench \<Rightarrow> bool" where
  "worker_in i ph b \<equiv> i < length (bWorkers b) \<and> bWorkers b ! i = ph"

abbreviation producing :: "nat \<Rightarrow> producer_phase \<Rightarrow> bench \<Rightarrow> bool" where
  "producing k ph b \<equiv> bPhase b = Building \<and> k < length (bProducers b) \<and> bProducers b ! k = ph"

inductive bench_step :: "bench_params \<Rightarrow> bench \<Rightarrow> bench \<Rightarrow> bool" for P where
  ready: "worker_in i Starting b \<Longrightarrow> bench_step P b (set_worker i Waiting (b\<lparr>bReady := bReady b + 1\<rparr>))"
| ready_fails: "worker_in i Starting b \<Longrightarrow> n \<in> {0, 1} \<Longrightarrow> bench_step P b (set_worker i Exited (b\<lparr>bReady := bReady b + n\<rparr>))"
| sees_go: "worker_in i Waiting b \<Longrightarrow> bGo b \<Longrightarrow> bench_step P b (set_worker i Running b)"
| exits: "worker_in i ph b \<Longrightarrow> bench_step P b (set_worker i Exited b)"
| feed: "producing k Pulling b \<Longrightarrow> bFeed b = Some i \<Longrightarrow> i < nat (pJobs P) \<Longrightarrow>
    bench_step P b (set_producer k (Batch i) (b\<lparr>bFeed := Some (i + nat (pBatch P))\<rparr>))"
| close_feed: "bPhase b = Building \<Longrightarrow> bFeed b = Some i \<Longrightarrow> \<not> i < nat (pJobs P) \<Longrightarrow> bench_step P b (b\<lparr>bFeed := None\<rparr>)"
| feed_closed: "producing k Pulling b \<Longrightarrow> bFeed b = None \<Longrightarrow> bench_step P b (set_producer k Quit b)"
| batch_sent: "producing k (Batch i) b \<Longrightarrow>
    bench_step P b (set_producer k Pulling (send (batch_jobs (nat (pBatch P)) (nat (pJobs P)) i) b))"
| job_sent: "producing k (Loop i) b \<Longrightarrow> i < nat (pJobs P) \<Longrightarrow>
    bench_step P b (set_producer k (Loop (i + nat (pProducers P))) (send [i] b))"
| loop_ends: "producing k (Loop i) b \<Longrightarrow> \<not> i < nat (pJobs P) \<Longrightarrow> bench_step P b (set_producer k Quit b)"
| enqueue_fails: "producing k ph b \<Longrightarrow> ph = Batch i \<or> ph = Loop i \<and> i < nat (pJobs P) \<Longrightarrow>
    bench_step P b (send js b\<lparr>bPhase := Dead\<rparr>)"
| built: "bPhase b = Building \<Longrightarrow> \<forall>ph \<in> set (bProducers b). ph = Quit \<Longrightarrow> bench_step P b (b\<lparr>bPhase := Releasing\<rparr>)"
| release: "bPhase b = Releasing \<Longrightarrow> n = bReady b \<or> n = 0 \<Longrightarrow> n = pWorkers P \<Longrightarrow>
    bench_step P b (b\<lparr>bPhase := Measuring, bGo := stored\<rparr>)"
| measured: "bPhase b = Measuring \<Longrightarrow> StreamLength (st :: Stats) = 0 \<Longrightarrow> InFlight st = 0 \<Longrightarrow> bench_step P b (b\<lparr>bPhase := Stopping\<rparr>)"

inductive bench_reaches :: "bench_params \<Rightarrow> bench \<Rightarrow> bench \<Rightarrow> bool" for P b where
  here: "bench_reaches P b b"
| onwards: "bench_reaches P b b' \<Longrightarrow> bench_step P b' b'' \<Longrightarrow> bench_reaches P b b''"

lemma reaches_trans:
  assumes "bench_reaches P b b'" "bench_reaches P b' b''"
  shows "bench_reaches P b b''"
  using assms(2) by induction (use assms(1) bench_reaches.onwards in blast)+

lemma reaches_step: "bench_step P b b' \<Longrightarrow> bench_reaches P b' b'' \<Longrightarrow> bench_reaches P b b''"
  by (rule reaches_trans [OF bench_reaches.onwards [OF bench_reaches.here]])

section \<open>The backlog\<close>

text \<open>What is still to be sent.\<close>

definition in_hand :: "bench_params \<Rightarrow> producer_phase \<Rightarrow> nat list" where
  "in_hand P ph = (case ph of Batch i \<Rightarrow> batch_jobs (nat (pBatch P)) (nat (pJobs P)) i
     | Loop i \<Rightarrow> stripe (nat (pProducers P)) (nat (pJobs P)) i | _ \<Rightarrow> [])"

definition unfed :: "bench_params \<Rightarrow> bench \<Rightarrow> nat list" where
  "unfed P b = (case bFeed b of None \<Rightarrow> [] | Some i \<Rightarrow> [i..<nat (pJobs P)])"

definition outstanding :: "bench_params \<Rightarrow> bench \<Rightarrow> nat multiset" where
  "outstanding P b = mset (unfed P b) + sum_list (map (\<lambda>ph. mset (in_hand P ph)) (bProducers b))"

text \<open>The invariant of a run whose controller is alive.\<close>

definition backlog_inv :: "bench_params \<Rightarrow> bench \<Rightarrow> bool" where
  "backlog_inv P b \<longleftrightarrow>
     length (bProducers b) = nat (pProducers P) \<and>
     (bPhase b \<noteq> Dead \<longrightarrow> mset (bSent b) + outstanding P b = mset [0..<nat (pJobs P)]) \<and>
     (bFeed b \<noteq> None \<longrightarrow> 1 < pBatch P \<and> set (bProducers b) \<subseteq> insert Pulling (range Batch)) \<and>
     (bPhase b \<noteq> Building \<longrightarrow> bPhase b \<noteq> Dead \<longrightarrow> set (bProducers b) \<subseteq> {Quit})"

definition ready_inv :: "bench_params \<Rightarrow> bench \<Rightarrow> bool" where
  "ready_inv P b \<longleftrightarrow>
     length (bWorkers b) = nat (pWorkers P) \<and>
     bReady b \<le> int (length (filter (\<lambda>ph. ph \<noteq> Starting) (bWorkers b))) \<and>
     int (length (filter (\<lambda>ph. ph = Waiting \<or> ph = Running) (bWorkers b))) \<le> bReady b \<and>
     (bGo b \<longrightarrow> bPhase b \<in> {Measuring, Stopping}) \<and> (Running \<in> set (bWorkers b) \<longrightarrow> bGo b) \<and>
     (bPhase b \<in> {Measuring, Stopping} \<longrightarrow> Starting \<notin> set (bWorkers b))"

lemma sum_list_map_update:
  fixes f :: "'a \<Rightarrow> 'b :: comm_monoid_add"
  shows "k < length xs \<Longrightarrow> sum_list (map f (xs[k := y])) + f (xs ! k) = sum_list (map f xs) + f y"
proof (induction xs arbitrary: k)
  case (Cons x xs)
  then show ?case by (cases k) (auto simp: ac_simps)
qed simp

lemma batch_split: "i < n \<Longrightarrow> [i..<n] = batch_jobs sz n i @ [i + sz..<n]"
  unfolding batch_jobs_def using upt_add_eq_append [of i "min (i + sz) n" "n - min (i + sz) n"]
  by (cases "i + sz \<le> n") (simp_all add: min_def)

lemma outstanding_producer:
  assumes "k < length (bProducers b)" "mset (in_hand P ph) + M = mset (in_hand P (bProducers b ! k))"
  shows "outstanding P b = outstanding P (set_producer k ph b) + M"
  using sum_list_map_update [OF assms(1), of "\<lambda>ph. mset (in_hand P ph)" ph] assms(2) [symmetric]
  by (simp add: outstanding_def set_producer_def unfed_def)

lemma outstanding_same [simp]:
  "outstanding P (set_worker i ph b) = outstanding P b" "outstanding P (send js b) = outstanding P b"
  "outstanding P (b\<lparr>bReady := r\<rparr>) = outstanding P b" "outstanding P (b\<lparr>bPhase := q\<rparr>) = outstanding P b"
  "outstanding P (b\<lparr>bGo := g\<rparr>) = outstanding P b"
  by (simp_all add: outstanding_def bench_moves unfed_def)

lemma empties: "sum_list (replicate n {#}) = {#}"
  by (induction n) simp_all

lemma backlog_inv_start:
  assumes "0 < pProducers P"
  shows "backlog_inv P (bench_start P)"
proof -
  let ?k = "nat (pProducers P)" and ?n = "nat (pJobs P)"
  have "sum_list (map (\<lambda>p. mset (stripe ?k ?n p)) [0..<?k]) = mset (concat (map (stripe ?k ?n) [0..<?k]))"
    by (simp add: mset_concat comp_def)
  then have "sum_list (map (\<lambda>p. mset (stripe ?k ?n p)) [0..<?k]) = mset [0..<?n]"
    using backlog_split_exact [of ?k 1 ?n] assms by simp
  then show ?thesis
    by (auto simp: backlog_inv_def bench_start_def outstanding_def unfed_def in_hand_def comp_def empties singly_def split: if_splits)
qed

lemma stripe_step: "i < n \<Longrightarrow> 0 < k \<Longrightarrow> stripe k n i = i # stripe k n (i + k)"
  by (subst stripe.simps) simp

text \<open>A producer that sends what it has in hand, or hands nothing on, keeps the invariant.\<close>

lemma backlog_inv_send:
  assumes inv: "backlog_inv P b" and k: "producing k ph0 b" and q: "bFeed b = None \<or> ph = Pulling"
    and js: "mset (in_hand P ph) + mset js = mset (in_hand P ph0)"
  shows "backlog_inv P (set_producer k ph (send js b))"
proof -
  have "outstanding P (send js b) = outstanding P (set_producer k ph (send js b)) + mset js"
    by (rule outstanding_producer) (use k js in \<open>simp_all add: send_def\<close>)
  moreover have "mset (bSent b) + outstanding P b = mset [0..<nat (pJobs P)]"
    using inv k by (simp add: backlog_inv_def)
  moreover have "bSent (set_producer k ph (send js b)) = bSent b @ js"
    by (simp add: bench_moves)
  ultimately have "mset (bSent (set_producer k ph (send js b))) + outstanding P (set_producer k ph (send js b)) = mset [0..<nat (pJobs P)]"
    by (simp add: ac_simps)
  then show ?thesis
    using inv k q set_update_subset_insert [of "bProducers b" k ph] by (auto simp: backlog_inv_def bench_moves)
qed

lemma backlog_inv_feed:
  assumes inv: "backlog_inv P b" and k: "producing k Pulling b" and i: "bFeed b = Some i" "i < nat (pJobs P)"
  shows "backlog_inv P (set_producer k (Batch i) (b\<lparr>bFeed := Some (i + nat (pBatch P))\<rparr>))" (is "backlog_inv P ?b2")
proof -
  let ?b1 = "b\<lparr>bFeed := Some (i + nat (pBatch P))\<rparr>" and ?js = "batch_jobs (nat (pBatch P)) (nat (pJobs P)) i"
  have "set_producer k Pulling ?b2 = ?b1"
    using k by (cases b) (simp add: set_producer_def list_update_same_conv)
  moreover have "outstanding P ?b2 = outstanding P (set_producer k Pulling ?b2) + mset ?js"
    by (rule outstanding_producer) (use k in \<open>simp_all add: set_producer_def in_hand_def\<close>)
  moreover have "outstanding P b = outstanding P ?b1 + mset ?js"
    using batch_split [OF i(2), of "nat (pBatch P)"] by (simp add: outstanding_def unfed_def i(1) del: mset_upt)
  ultimately have "outstanding P ?b2 = outstanding P b"
    by simp
  with inv k i show ?thesis
    using set_update_subset_insert [of "bProducers b" k "Batch i"] by (auto simp: backlog_inv_def set_producer_def)
qed

lemma backlog_inv_loop: "backlog_inv P b \<Longrightarrow> producing k (Loop i) b \<Longrightarrow> bFeed b = None"
  unfolding backlog_inv_def by (metis (no_types, opaque_lifting) image_iff insert_iff nth_mem producer_phase.distinct(3,7) subsetD)

lemma send_nothing: "send [] b = b"
  by (simp add: send_def)

lemma backlog_inv_step:
  assumes "bench_step P b b'" "backlog_inv P b" "0 < pProducers P"
  shows "backlog_inv P b'"
  using assms(1)
proof cases
  case (feed k i)
  then show ?thesis using backlog_inv_feed [OF assms(2)] by simp
next
  case (close_feed i)
  then have "outstanding P b' = outstanding P b"
    by (simp add: outstanding_def unfed_def)
  with close_feed assms(2) show ?thesis by (simp add: backlog_inv_def)
next
  case (feed_closed k)
  then show ?thesis
    using backlog_inv_send [OF assms(2), of k Pulling Quit "[]"] by (simp add: send_nothing in_hand_def)
next
  case (batch_sent k i)
  then show ?thesis
    using backlog_inv_send [OF assms(2), of k "Batch i" Pulling "batch_jobs (nat (pBatch P)) (nat (pJobs P)) i"]
    by (simp add: in_hand_def)
next
  case (job_sent k i)
  then have "bFeed b = None"
    using backlog_inv_loop [OF assms(2)] by blast
  with job_sent show ?thesis
    using backlog_inv_send [OF assms(2), of k "Loop i" "Loop (i + nat (pProducers P))" "[i]"] assms(3)
    by (simp add: in_hand_def stripe_step)
next
  case (loop_ends k i)
  then have "bFeed b = None"
    using backlog_inv_loop [OF assms(2)] by blast
  with loop_ends show ?thesis
    using backlog_inv_send [OF assms(2), of k "Loop i" Quit "[]"]
    by (simp add: in_hand_def send_nothing stripe.simps [of _ _ i])
next
  case built
  then show ?thesis using assms(2) by (auto simp: backlog_inv_def)
next
  case (enqueue_fails k ph i js)
  then show ?thesis using assms(2) by (auto simp: backlog_inv_def bench_moves)
qed (use assms(2) in \<open>auto simp: backlog_inv_def bench_moves outstanding_def unfed_def\<close>)

section \<open>The barrier\<close>

abbreviation started :: "worker_phase list \<Rightarrow> nat" where
  "started ws \<equiv> length (filter (\<lambda>ph. ph \<noteq> Starting) ws)"

lemma number_update:
  "i < length ws \<Longrightarrow> length (filter Q (ws[i := ph])) + of_bool (Q (ws ! i)) = length (filter Q ws) + of_bool (Q ph)"
proof (induction ws arbitrary: i)
  case (Cons w ws)
  then show ?case by (cases i) auto
qed simp

lemma ready_inv_worker:
  assumes "ready_inv P b" "i < length (bWorkers b)" "ph \<noteq> Starting" "ph = Running \<Longrightarrow> bGo b"
    and "r \<le> bReady b + of_bool (bWorkers b ! i = Starting)" "bReady b \<le> r"
    and "ph \<noteq> Exited \<Longrightarrow> bWorkers b ! i \<noteq> Exited \<and> (bWorkers b ! i = Starting \<longrightarrow> r = bReady b + 1)"
  shows "ready_inv P (set_worker i ph (b\<lparr>bReady := r\<rparr>))"
proof -
  have "started ((bWorkers b)[i := ph]) = started (bWorkers b) + of_bool (bWorkers b ! i = Starting)"
    using number_update [OF assms(2), of "\<lambda>ph. ph \<noteq> Starting" ph] assms(3) by (cases "bWorkers b ! i = Starting") simp_all
  moreover have "int (length (filter (\<lambda>ph. ph = Waiting \<or> ph = Running) ((bWorkers b)[i := ph]))) \<le> r"
    using number_update [OF assms(2), of "\<lambda>ph. ph = Waiting \<or> ph = Running" ph] assms(1,3,5-7)
    by (cases "bWorkers b ! i"; cases ph) (auto simp: ready_inv_def)
  ultimately show ?thesis
    using assms set_update_subset_insert [of "bWorkers b" i ph] by (auto simp: ready_inv_def set_worker_def)
qed

lemma all_started:
  assumes "ready_inv P b" "n = bReady b \<or> n = 0" "n = pWorkers P"
  shows "Starting \<notin> set (bWorkers b)"
proof -
  have "int (length (bWorkers b)) \<le> int (started (bWorkers b))"
    using assms by (auto simp: ready_inv_def)
  then have "filter (\<lambda>ph. ph \<noteq> Starting) (bWorkers b) = bWorkers b"
    by (metis length_filter_le length_filter_less linorder_not_le filter_id_conv nat_int_comparison(3) order_less_le)
  then show ?thesis
    by (auto simp: filter_id_conv)
qed

lemma ready_inv_step:
  assumes "bench_step P b b'" "ready_inv P b"
  shows "ready_inv P b'"
  using assms(1)
proof cases
  case (ready i)
  then show ?thesis using ready_inv_worker [OF assms(2), of i Waiting] by simp
next
  case (ready_fails i n)
  then show ?thesis using ready_inv_worker [OF assms(2), of i Exited "bReady b + n"] by auto
next
  case (sees_go i)
  then show ?thesis using ready_inv_worker [OF assms(2), of i Running "bReady b"] by simp
next
  case (exits i ph)
  then show ?thesis using ready_inv_worker [OF assms(2), of i Exited "bReady b"] by simp
next
  case (release n stored)
  then show ?thesis using all_started [OF assms(2)] assms(2) by (auto simp: ready_inv_def)
qed (use assms(2) in \<open>auto simp: ready_inv_def bench_moves\<close>)

lemma bench_invariant:
  assumes "bench_reaches P (bench_start P) b" "0 < pProducers P"
  shows "backlog_inv P b \<and> ready_inv P b"
  using assms(1)
proof (induction rule: bench_reaches.induct)
  case here
  have "ready_inv P (bench_start P)"
    by (auto simp: ready_inv_def bench_start_def)
  with backlog_inv_start [OF assms(2)] show ?case by simp
next
  case (onwards b' b'')
  then show ?case using backlog_inv_step [OF _ _ assms(2)] ready_inv_step by blast
qed


definition demo_params :: bench_params where
  "demo_params = \<lparr>pJobs = 1, pWorkers = 1, pProducers = 1, pBatch = 2\<rparr>"

definition demo_bench :: bench where
  "demo_bench = \<lparr>bWorkers = [Running], bReady = 1, bGo = True, bPhase = Measuring, bFeed = None, bProducers = [Quit], bSent = [0]\<rparr>"

text \<open>One worker, one producer, a backlog of one job: the worker reports, the batch is fed and sent, the run starts.\<close>

lemma demo_bench_reached: "bench_reaches demo_params (bench_start demo_params) demo_bench"
proof -
  let ?b = "\<lambda>w r g ph f p s. \<lparr>bWorkers = [w], bReady = r, bGo = g, bPhase = ph, bFeed = f, bProducers = [p], bSent = s\<rparr>"
  have 0: "bench_start demo_params = ?b Starting 0 False Building (Some 0) Pulling []"
    by (simp add: bench_start_def demo_params_def singly_def)
  have s1: "bench_step demo_params (bench_start demo_params) (?b Waiting 1 False Building (Some 0) Pulling [])"
    using bench_step.ready [of 0 "bench_start demo_params" demo_params] by (simp add: 0 set_worker_def)
  have s2: "bench_step demo_params (?b Waiting 1 False Building (Some 0) Pulling []) (?b Waiting 1 False Building (Some 2) (Batch 0) [])"
    using bench_step.feed [of "?b Waiting 1 False Building (Some 0) Pulling []" 0 0 demo_params] by (simp add: demo_params_def set_producer_def numeral_2_eq_2)
  have s3: "bench_step demo_params (?b Waiting 1 False Building (Some 2) (Batch 0) []) (?b Waiting 1 False Building (Some 2) Pulling [0])"
    using bench_step.batch_sent [of "?b Waiting 1 False Building (Some 2) (Batch 0) []" 0 0 demo_params]
    by (simp add: demo_params_def bench_moves batch_jobs_def)
  have s4: "bench_step demo_params (?b Waiting 1 False Building (Some 2) Pulling [0]) (?b Waiting 1 False Building None Pulling [0])"
    using bench_step.close_feed [of "?b Waiting 1 False Building (Some 2) Pulling [0]" 2 demo_params] by (simp add: demo_params_def)
  have s5: "bench_step demo_params (?b Waiting 1 False Building None Pulling [0]) (?b Waiting 1 False Building None Quit [0])"
    using bench_step.feed_closed [of "?b Waiting 1 False Building None Pulling [0]" 0 demo_params] by (simp add: set_producer_def)
  have s6: "bench_step demo_params (?b Waiting 1 False Building None Quit [0]) (?b Waiting 1 False Releasing None Quit [0])"
    using bench_step.built [of "?b Waiting 1 False Building None Quit [0]" demo_params] by simp
  have s7: "bench_step demo_params (?b Waiting 1 False Releasing None Quit [0]) (?b Waiting 1 True Measuring None Quit [0])"
    using bench_step.release [of "?b Waiting 1 False Releasing None Quit [0]" 1 demo_params True] by (simp add: demo_params_def)
  have s8: "bench_step demo_params (?b Waiting 1 True Measuring None Quit [0]) demo_bench"
    using bench_step.sees_go [of 0 "?b Waiting 1 True Measuring None Quit [0]" demo_params] by (simp add: set_worker_def demo_bench_def)
  show ?thesis
    by (rule reaches_step [OF s1 reaches_step [OF s2 reaches_step [OF s3 reaches_step [OF s4
        reaches_step [OF s5 reaches_step [OF s6 reaches_step [OF s7 reaches_step [OF s8 bench_reaches.here]]]]]]]])
qed


section \<open>The run gets to its start\<close>

text \<open>The work left: three units for each job to be fed, one for each in hand, and the loops' ends.\<close>

definition producer_work :: "bench_params \<Rightarrow> producer_phase \<Rightarrow> nat" where
  "producer_work P ph = (case ph of Quit \<Rightarrow> 0 | Batch i \<Rightarrow> 2 + length (in_hand P ph) | _ \<Rightarrow> 1 + length (in_hand P ph))"

definition work_left :: "bench_params \<Rightarrow> bench \<Rightarrow> nat" where
  "work_left P b = (case bFeed b of None \<Rightarrow> 0 | Some i \<Rightarrow> 1 + 3 * (nat (pJobs P) - i)) +
     sum_list (map (producer_work P) (bProducers b))"

lemma work_left_producer:
  assumes "k < length (bProducers b)"
  shows "work_left P (set_producer k ph b) + producer_work P (bProducers b ! k) = work_left P b + producer_work P ph"
  using sum_list_map_update [OF assms, of "producer_work P" ph] by (simp add: work_left_def set_producer_def)

lemma work_left_send [simp]: "work_left P (send js b) = work_left P b"
  by (simp add: work_left_def send_def)

text \<open>Until all producers have returned, one of the goroutines can go on and does some of the work.\<close>

definition advances :: "bench_params \<Rightarrow> bench \<Rightarrow> bench \<Rightarrow> bool" where
  "advances P b b' \<longleftrightarrow> bench_step P b b' \<and> work_left P b' < work_left P b \<and> bPhase b' = Building \<and>
     bWorkers b' = bWorkers b \<and> bReady b' = bReady b \<and> bGo b' = bGo b"

lemma advances_producer:
  assumes "bench_step P b (set_producer k ph (send js b))" "producing k ph0 b" "producer_work P ph < producer_work P ph0"
  shows "advances P b (set_producer k ph (send js b))"
proof -
  have "k < length (bProducers (send js b))" "bProducers (send js b) ! k = ph0"
    using assms(2) by (simp_all add: send_def)
  then have "work_left P (set_producer k ph (send js b)) < work_left P b"
    using work_left_producer [of k "send js b" P ph] assms(3) by simp
  with assms show ?thesis
    by (simp add: advances_def bench_moves)
qed

lemma feed_work:
  fixes a b w i sz n :: nat
  assumes "a + 1 = b + 2 + (min (i + sz) n - i)" "b + 3 * (n - i) = w + 3 * (n - (i + sz))" "i < n" "1 < sz"
  shows "a < w"
  using assms by (cases "i + sz \<le> n") (simp_all add: min_def)

lemma building_goes_on:
  assumes b: "bPhase b = Building" "backlog_inv P b" "0 < pProducers P"
    and k: "k < length (bProducers b)" "bProducers b ! k \<noteq> Quit"
  shows "\<exists>b'. advances P b b'"
proof (cases "bProducers b ! k")
  case (Loop i)
  then have p: "producing k (Loop i) b" using b k by simp
  show ?thesis
  proof (cases "i < nat (pJobs P)")
    case True
    have "advances P b (set_producer k (Loop (i + nat (pProducers P))) (send [i] b))"
      by (rule advances_producer [OF bench_step.job_sent [OF p True] p])
        (use b(3) True in \<open>simp add: producer_work_def in_hand_def stripe_step\<close>)
    then show ?thesis ..
  next
    case False
    have "advances P b (set_producer k Quit (send [] b))"
      by (rule advances_producer [OF _ p]) (use bench_step.loop_ends [OF p False] in \<open>simp_all add: send_nothing producer_work_def\<close>)
    then show ?thesis ..
  qed
next
  case (Batch i)
  then have p: "producing k (Batch i) b" using b k by simp
  have "advances P b (set_producer k Pulling (send (batch_jobs (nat (pBatch P)) (nat (pJobs P)) i) b))"
    by (rule advances_producer [OF bench_step.batch_sent [OF p] p]) (simp add: producer_work_def in_hand_def)
  then show ?thesis ..
next
  case Pulling
  then have p: "producing k Pulling b" using b k by simp
  consider "bFeed b = None" | i where "bFeed b = Some i" "i < nat (pJobs P)" | i where "bFeed b = Some i" "\<not> i < nat (pJobs P)"
    by (cases "bFeed b") blast+
  then show ?thesis
  proof cases
    case 1
    have "advances P b (set_producer k Quit (send [] b))"
      by (rule advances_producer [OF _ p]) (use bench_step.feed_closed [OF p 1] in \<open>simp_all add: send_nothing producer_work_def\<close>)
    then show ?thesis ..
  next
    case (2 i)
    let ?b1 = "b\<lparr>bFeed := Some (i + nat (pBatch P))\<rparr>"
    have sz: "1 < nat (pBatch P)"
      using b(2) 2 by (simp add: backlog_inv_def)
    have "work_left P (set_producer k (Batch i) ?b1) + 1 = work_left P ?b1 + 2 + (min (i + nat (pBatch P)) (nat (pJobs P)) - i)"
      using work_left_producer [of k ?b1 P "Batch i"] p by (simp add: producer_work_def in_hand_def batch_jobs_def)
    moreover have "work_left P ?b1 + 3 * (nat (pJobs P) - i) = work_left P b + 3 * (nat (pJobs P) - (i + nat (pBatch P)))"
      by (simp add: work_left_def 2(1))
    ultimately have "work_left P (set_producer k (Batch i) ?b1) < work_left P b"
      by (rule feed_work) (use 2(2) sz in simp_all)
    with bench_step.feed [OF p 2] b(1) have "advances P b (set_producer k (Batch i) ?b1)"
      by (simp add: advances_def set_producer_def)
    then show ?thesis ..
  next
    case (3 i)
    with bench_step.close_feed [OF b(1) 3] b(1) have "advances P b (b\<lparr>bFeed := None\<rparr>)"
      by (simp add: advances_def work_left_def)
    then show ?thesis ..
  qed
qed (use k in simp)

lemma building_ends:
  assumes "bPhase b = Building" "backlog_inv P b" "0 < pProducers P"
  shows "\<exists>b'. bench_reaches P b b' \<and> bPhase b' = Releasing \<and> bWorkers b' = bWorkers b \<and> bReady b' = bReady b"
  using assms(1,2)
proof (induction "work_left P b" arbitrary: b rule: less_induct)
  case less
  show ?case
  proof (cases "\<forall>ph \<in> set (bProducers b). ph = Quit")
    case True
    let ?b' = "b\<lparr>bPhase := Releasing\<rparr>"
    have "bench_reaches P b ?b'"
      by (rule reaches_step [OF bench_step.built [OF less.prems(1) True] bench_reaches.here])
    then show ?thesis by (intro exI [of _ ?b']) simp
  next
    case False
    then obtain k where "k < length (bProducers b)" "bProducers b ! k \<noteq> Quit"
      by (metis in_set_conv_nth)
    then obtain b' where b': "advances P b b'"
      using building_goes_on [OF less.prems assms(3)] by blast
    then have "backlog_inv P b'"
      using backlog_inv_step [OF _ less.prems(2) assms(3)] by (simp add: advances_def)
    moreover have "work_left P b' < work_left P b" "bPhase b' = Building" "bWorkers b' = bWorkers b" "bReady b' = bReady b" "bench_step P b b'"
      using b' by (simp_all add: advances_def)
    ultimately show ?thesis
      using less.hyps [of b'] reaches_step [of P b b'] by metis
  qed
qed

lemma number_zero: "length (filter (\<lambda>ph. ph = q) ws) = 0 \<longleftrightarrow> q \<notin> set ws"
  by (auto simp: filter_empty_conv)

lemma workers_get_ready:
  assumes "Exited \<notin> set (bWorkers b)"
  shows "\<exists>b'. bench_reaches P b b' \<and> bPhase b' = bPhase b \<and> set (bWorkers b') \<subseteq> {Waiting, Running}"
  using assms
proof (induction "length (filter (\<lambda>ph. ph = Starting) (bWorkers b))" arbitrary: b rule: less_induct)
  case less
  show ?case
  proof (cases "Starting \<in> set (bWorkers b)")
    case False
    have "ph = Waiting \<or> ph = Running" if "ph \<in> set (bWorkers b)" for ph
      using False less.prems that by (cases ph) auto
    then show ?thesis
      using bench_reaches.here by blast
  next
    case True
    then obtain i where i: "worker_in i Starting b"
      by (auto simp: in_set_conv_nth)
    let ?b1 = "set_worker i Waiting (b\<lparr>bReady := bReady b + 1\<rparr>)"
    have "length (filter (\<lambda>ph. ph = Starting) (bWorkers ?b1)) < length (filter (\<lambda>ph. ph = Starting) (bWorkers b))"
      using number_update [of i "bWorkers b" "\<lambda>ph. ph = Starting" Waiting] i by (simp add: set_worker_def)
    moreover have "Exited \<notin> set (bWorkers ?b1)"
      using less.prems set_update_subset_insert [of "bWorkers b" i Waiting] by (auto simp: set_worker_def)
    ultimately obtain b' where "bench_reaches P ?b1 b'" "bPhase b' = bPhase ?b1" "set (bWorkers b') \<subseteq> {Waiting, Running}"
      using less.hyps [of ?b1] by blast
    with reaches_step [OF bench_step.ready [OF i]] show ?thesis
      by (auto simp: set_worker_def)
  qed
qed

lemma workers_go:
  assumes "bGo b" "set (bWorkers b) \<subseteq> {Waiting, Running}"
  shows "\<exists>b'. bench_reaches P b b' \<and> bPhase b' = bPhase b \<and> set (bWorkers b') \<subseteq> {Running}"
  using assms
proof (induction "length (filter (\<lambda>ph. ph = Waiting) (bWorkers b))" arbitrary: b rule: less_induct)
  case less
  show ?case
  proof (cases "Waiting \<in> set (bWorkers b)")
    case False
    with less.prems show ?thesis
      using bench_reaches.here by blast
  next
    case True
    then obtain i where i: "worker_in i Waiting b"
      by (auto simp: in_set_conv_nth)
    let ?b1 = "set_worker i Running b"
    have "length (filter (\<lambda>ph. ph = Waiting) (bWorkers ?b1)) < length (filter (\<lambda>ph. ph = Waiting) (bWorkers b))"
      using number_update [of i "bWorkers b" "\<lambda>ph. ph = Waiting" Running] i by (simp add: set_worker_def)
    moreover have "set (bWorkers ?b1) \<subseteq> {Waiting, Running}" "bGo ?b1"
      using less.prems set_update_subset_insert [of "bWorkers b" i Running] by (auto simp: set_worker_def)
    ultimately obtain b' where "bench_reaches P ?b1 b'" "bPhase b' = bPhase ?b1" "set (bWorkers b') \<subseteq> {Running}"
      using less.hyps [of ?b1] by blast
    with reaches_step [OF bench_step.sees_go [OF i less.prems(1)]] show ?thesis
      by (auto simp: set_worker_def)
  qed
qed

text \<open>
  The start of a benchmark cannot deadlock: from every state in which the controller is
  still building the backlog or waiting and no worker process has exited, the run can reach the
  measurement with every worker process running. In particular the producers always get to
  their end, since the feeding goroutine closes the channel when the batches are used up.
\<close>

theorem bench_gets_started:
  assumes "bench_reaches P (bench_start P) b" "0 < pProducers P" "0 \<le> pWorkers P"
    and "bPhase b \<in> {Building, Releasing}" "Exited \<notin> set (bWorkers b)"
  shows "\<exists>b'. bench_reaches P b b' \<and> bPhase b' = Measuring \<and> bWorkers b' = replicate (nat (pWorkers P)) Running"
proof -
  note inv = bench_invariant [OF assms(1,2)]
  obtain b1 where b1: "bench_reaches P b b1" "bPhase b1 = Releasing" "bWorkers b1 = bWorkers b"
    using assms(4) building_ends [OF _ conjunct1 [OF inv] assms(2)] bench_reaches.here [of P b] by auto
  obtain b2 where b2: "bench_reaches P b1 b2" "bPhase b2 = Releasing" "set (bWorkers b2) \<subseteq> {Waiting, Running}"
    using workers_get_ready [of b1 P] assms(5) b1 by auto
  have r2: "bench_reaches P (bench_start P) b2"
    by (rule reaches_trans [OF assms(1) reaches_trans [OF b1(1) b2(1)]])
  then have i2: "ready_inv P b2"
    using bench_invariant assms(2) by blast
  have "filter (\<lambda>ph. ph = Waiting \<or> ph = Running) (bWorkers b2) = bWorkers b2"
    using b2(3) by (auto simp: filter_id_conv)
  then have "length (filter (\<lambda>ph. ph = Waiting \<or> ph = Running) (bWorkers b2)) = length (bWorkers b2)"
    by simp
  moreover have "started (bWorkers b2) \<le> length (bWorkers b2)"
    by (rule length_filter_le)
  moreover have "int (length (bWorkers b2)) = pWorkers P" "bReady b2 \<le> int (started (bWorkers b2))"
      "int (length (filter (\<lambda>ph. ph = Waiting \<or> ph = Running) (bWorkers b2))) \<le> bReady b2"
    using i2 assms(3) by (simp_all add: ready_inv_def)
  ultimately have "bReady b2 = pWorkers P"
    by linarith
  then have st: "bench_step P b2 (b2\<lparr>bPhase := Measuring, bGo := True\<rparr>)"
    using bench_step.release [OF b2(2), of "bReady b2" P True] by simp
  obtain b3 where b3: "bench_reaches P (b2\<lparr>bPhase := Measuring, bGo := True\<rparr>) b3" "bPhase b3 = Measuring" "set (bWorkers b3) \<subseteq> {Running}"
    using workers_go [of "b2\<lparr>bPhase := Measuring, bGo := True\<rparr>" P] b2(3) by auto
  have r3: "bench_reaches P b2 b3"
    by (rule reaches_step [OF st b3(1)])
  then have "length (bWorkers b3) = nat (pWorkers P)"
    using bench_invariant [OF reaches_trans [OF r2] assms(2)] by (simp add: ready_inv_def)
  with b3(3) have "bWorkers b3 = replicate (nat (pWorkers P)) Running"
    by (metis replicate_length_same singletonD subsetD)
  with b3(2) reaches_trans [OF b1(1) reaches_trans [OF b2(1) r3]] show ?thesis by blast
qed

theorem bench_gets_started_witness:
  "\<exists>b'. bench_reaches demo_params (bench_start demo_params) b' \<and> bPhase b' = Measuring \<and> bWorkers b' = [Running]"
  using bench_gets_started [OF bench_reaches.here, of demo_params] by (simp add: demo_params_def bench_start_def singly_def)

end
