(* ===== verification/BenchCmd.thy ===== *)
theory BenchCmd
  imports Bench
begin

text \<open>
  The command line of \<^verbatim>\<open>cmd/bench/main.go\<close> and its worker processes: the list of worker
  counts, the arguments \<^verbatim>\<open>start\<close> gives a worker and what the worker makes of them, and the
  handler that measures how long a job waited, with the figures the controller reads back.
  Command lines are ASCII; durations are passed as the texts the standard library prints.
\<close>

section \<open>Worker counts\<close>

text \<open>\<^verbatim>\<open>strings.TrimSpace\<close>, on ASCII.\<close>

definition ascii_space :: "char \<Rightarrow> bool" where
  "ascii_space ch \<longleftrightarrow> ch \<in> {CHR '' '', CHR 0x09, CHR 0x0A, CHR 0x0B, CHR 0x0C, CHR 0x0D}"

definition TrimSpace :: "string \<Rightarrow> string" where
  "TrimSpace s = rev (dropWhile ascii_space (rev (dropWhile ascii_space s)))"

text \<open>A bad entry ends the program: \<^term>\<open>None\<close>.\<close>

fun parse_counts :: "string list \<Rightarrow> int list option" where
  "parse_counts [] = Some []"
| "parse_counts (w # ws) =
     (case atoi (TrimSpace w) of None \<Rightarrow> None | Some n \<Rightarrow> map_option (Cons n) (parse_counts ws))"

definition parse_workers :: "string \<Rightarrow> int list option" where
  "parse_workers s = parse_counts (split_comma s)"

text \<open>The runs of the benchmark: every mode with every worker count.\<close>

definition bench_matrix :: "string \<Rightarrow> int list \<Rightarrow> (string \<times> int) list" where
  "bench_matrix modes counts = [(m, w). m \<leftarrow> split_comma modes, w \<leftarrow> counts]"

fun join_comma :: "string list \<Rightarrow> string" where
  "join_comma [] = []"
| "join_comma [w] = w"
| "join_comma (w # ws) = w @ CHR '','' # join_comma ws"

lemma split_comma_plain: "CHR '','' \<notin> set w \<Longrightarrow> split_comma w = [w]"
  by (induction w) auto

lemma split_comma_append: "CHR '','' \<notin> set w \<Longrightarrow> split_comma (w @ CHR '','' # s) = w # split_comma s"
  by (induction w) auto

lemma split_join:
  "ws \<noteq> [] \<Longrightarrow> \<forall>w \<in> set ws. CHR '','' \<notin> set w \<Longrightarrow> split_comma (join_comma ws) = ws"
  by (induction ws rule: join_comma.induct) (simp_all add: split_comma_plain split_comma_append)

lemma trim_padded:
  assumes "list_all ascii_space u" "list_all ascii_space v" "s \<noteq> []" "\<not> ascii_space (hd s)" "\<not> ascii_space (last s)"
  shows "TrimSpace (u @ s @ v) = s"
proof -
  have "dropWhile ascii_space (u @ s @ v) = s @ v"
    using assms by (cases s) (simp_all add: dropWhile_append list_all_iff dropWhile_eq_Nil_conv)
  moreover have "dropWhile ascii_space (rev v @ rev s) = rev s"
    using assms by (cases s rule: rev_cases) (simp_all add: dropWhile_append list_all_iff dropWhile_eq_Nil_conv)
  ultimately show ?thesis
    by (simp add: TrimSpace_def)
qed

lemma itoa_chars: "ch \<in> set (itoa n) \<Longrightarrow> is_digit ch \<or> ch = CHR ''-''"
  using nat_digits_all_digits by (auto simp: itoa_def split: if_splits)

lemma no_space: "is_digit ch \<or> ch = CHR ''-'' \<Longrightarrow> \<not> ascii_space ch"
  unfolding ascii_space_def is_digit_def by fastforce

lemma itoa_trims: "list_all ascii_space u \<Longrightarrow> list_all ascii_space v \<Longrightarrow> TrimSpace (u @ itoa n @ v) = itoa n"
  by (intro trim_padded no_space itoa_chars [of _ n] hd_in_set last_in_set) simp_all

lemma no_comma: "list_all ascii_space u \<Longrightarrow> CHR '','' \<notin> set u" "CHR '','' \<notin> set (itoa n)"
proof -
  show "CHR '','' \<notin> set u" if "list_all ascii_space u"
  proof -
    have "\<not> ascii_space (CHR '','')" by (simp add: ascii_space_def)
    with that show ?thesis unfolding list_all_iff by blast
  qed
  have "\<not> (is_digit (CHR '','') \<or> CHR '','' = CHR ''-'')"
    by (simp add: is_digit_def)
  then show "CHR '','' \<notin> set (itoa n)"
    using itoa_chars by blast
qed

text \<open>
  Worker counts are read as they are written: a comma-separated list of numbers, each with any
  blanks around it, gives exactly those numbers in order, and the benchmark then runs every
  mode with every count once.
\<close>

theorem worker_counts_read:
  assumes "ps \<noteq> []" "list_all (\<lambda>(u, n, v). list_all ascii_space u \<and> is_int64 n \<and> list_all ascii_space v) ps"
  shows "parse_workers (join_comma (map (\<lambda>(u, n, v). u @ itoa n @ v) ps)) = Some (map (\<lambda>(u, n, v). n) ps) \<and>
    length (bench_matrix modes (map (\<lambda>(u, n, v). n) ps)) = length (split_comma modes) * length ps"
proof
  have "CHR '','' \<notin> set (u @ itoa n @ v)" if "(u, n, v) \<in> set ps" for u n v
    using that assms(2) no_comma by (fastforce simp: list_all_iff)
  then have "split_comma (join_comma (map (\<lambda>(u, n, v). u @ itoa n @ v) ps)) = map (\<lambda>(u, n, v). u @ itoa n @ v) ps"
    by (intro split_join) (use assms(1) in auto)
  moreover have "parse_counts (map (\<lambda>(u, n, v). u @ itoa n @ v) ps) = Some (map (\<lambda>(u, n, v). n) ps)"
    using assms(2) by (induction ps) (auto simp: itoa_trims)
  ultimately show "parse_workers (join_comma (map (\<lambda>(u, n, v). u @ itoa n @ v) ps)) = Some (map (\<lambda>(u, n, v). n) ps)"
    by (simp add: parse_workers_def)
  show "length (bench_matrix modes (map (\<lambda>(u, n, v). n) ps)) = length (split_comma modes) * length ps"
    by (simp add: bench_matrix_def length_concat comp_def sum_list_triv)
qed

theorem worker_counts_read_witness: "parse_workers ''1, 2,4'' = Some [1, 2, 4]"
proof -
  have "join_comma (map (\<lambda>(u, n, v). u @ itoa n @ v) [([], 1, []), ('' '', 2, []), ([], 4, [])]) = ''1, 2,4''"
    by code_simp
  then show ?thesis
    using worker_counts_read [of "[([], 1, []), ('' '', 2, []), ([], 4, [])]"] by (simp add: ascii_space_def is_int64_def)
qed

section \<open>Worker processes\<close>

record bench_options =
  boTarget :: Target
  boPrefix :: string
  boMode :: string
  boConcurrency :: int
  boPoll :: string

definition bench_args :: "bench_options \<Rightarrow> bool \<Rightarrow> nat \<Rightarrow> string list" where
  [go_defs]: "bench_args opts lat i =
     [''-worker'', ''-worker-id'', ''bench-'' @ itoa (int i), ''-prefix'', boPrefix opts, ''-mode'', boMode opts,
      ''-concurrency'', itoa (boConcurrency opts), ''-poll'', boPoll opts, ''-latency='' @ format_bool lat] @
     Target_Args (boTarget opts)"

definition bench_flags :: "string \<Rightarrow> flag_kind option" where
  [go_defs]: "bench_flags = target_flags ++
     [''jobs'' \<mapsto> ValueFlag, ''workers'' \<mapsto> ValueFlag, ''concurrency'' \<mapsto> ValueFlag, ''modes'' \<mapsto> ValueFlag,
      ''poll'' \<mapsto> ValueFlag, ''rate'' \<mapsto> ValueFlag, ''latency-jobs'' \<mapsto> ValueFlag, ''producers'' \<mapsto> ValueFlag,
      ''enqueue-batch'' \<mapsto> ValueFlag, ''worker'' \<mapsto> BoolFlag, ''worker-id'' \<mapsto> ValueFlag, ''prefix'' \<mapsto> ValueFlag,
      ''mode'' \<mapsto> ValueFlag, ''latency'' \<mapsto> BoolFlag]"

text \<open>The configuration a worker process runs with; \<open>poll\<close> is the parsed poll interval.\<close>

definition bench_worker_config :: "string \<Rightarrow> int \<Rightarrow> int \<Rightarrow> string \<Rightarrow> WorkerConfig" where
  [go_defs]: "bench_worker_config wid conc poll mode = NewWorker
     \<lparr>wcID = wid, Concurrency = conc, PollInterval = poll, PollOnly = (mode = ''poll''), VisibilityTimeout = 0,
      HeartbeatInterval = 0, ShutdownTimeout = 0, MaxDeliveries = 0, StatsInterval = 0,
      wcRetryPolicy = \<lparr>BaseDelay = 0, MaxDelay = 0, Jitter = 0\<rparr>\<rparr>"

lemma bench_args_parse:
  "parse_flags bench_flags (bench_args opts lat i) =
     Some [(''worker'', ''true''), (''worker-id'', ''bench-'' @ itoa (int i)), (''prefix'', boPrefix opts), (''mode'', boMode opts),
       (''concurrency'', itoa (boConcurrency opts)), (''poll'', boPoll opts), (''latency'', format_bool lat),
       (''redis'', tAddr (boTarget opts)), (''cluster'', tCluster (boTarget opts)),
       (''partitions'', itoa (tPartitions (normalized (boTarget opts))))]"
  by (simp add: bench_args_def Target_Args_def bench_flags_def target_flags_def Let_def format_bool_def)

text \<open>
  A benchmark's worker process works on the controller's queue, in its mode: parsing the command
  line \<^verbatim>\<open>start\<close> builds gives back its number, prefix, mode and concurrency and whether waits
  are recorded, the target opens the same queue as the controller's, and the worker that runs
  polls without blocking exactly in the mode \<^verbatim>\<open>poll\<close>.
\<close>

theorem bench_worker_same_queue:
  assumes "is_int64 (tPartitions (boTarget opts))" "is_int64 (boConcurrency opts)"
  shows "\<exists>fs t n m. parse_flags bench_flags (bench_args opts lat i) = Some fs \<and> set_target_flags fs default_target = Some t \<and>
    map_of fs ''worker-id'' = Some (''bench-'' @ itoa (int i)) \<and> map_of fs ''prefix'' = Some (boPrefix opts) \<and>
    map_of fs ''latency'' = Some (format_bool lat) \<and> map_of fs ''poll'' = Some (boPoll opts) \<and>
    Target_Open R t pre idle world = Target_Open R (boTarget opts) pre idle world \<and>
    map_of fs ''mode'' = Some m \<and> Option.bind (map_of fs ''concurrency'') atoi = Some n \<and>
    PollOnly (bench_worker_config wid n poll m) = (boMode opts = ''poll'') \<and>
    Concurrency (bench_worker_config wid n poll m) = (if boConcurrency opts \<le> 0 then 1 else boConcurrency opts)"
proof -
  let ?t = "normalized (boTarget opts)"
  let ?p = "\<lparr>tAddr = tAddr (boTarget opts), tCluster = tCluster (boTarget opts), tPartitions = tPartitions ?t\<rparr>"
  have "is_int64 (tPartitions ?t)" using assms(1) by (auto simp: normalized_def is_int64_def)
  then have at: "atoi (itoa (tPartitions ?t)) = Some (tPartitions ?t)" by simp
  have "?p = ?t" by (simp add: normalized_def)
  then have "Target_Open R ?p pre idle world = Target_Open R (boTarget opts) pre idle world"
    by (simp add: Target_Open_def)
  then show ?thesis
    using assms(2) by (simp add: bench_args_parse set_target_flag_def default_target_def at bench_worker_config_def NewWorker_def or_default_def Let_def)
qed

theorem bench_worker_same_queue_witness:
  "\<exists>fs t. parse_flags bench_flags (bench_args \<lparr>boTarget = demo_target, boPrefix = ''bench:1:'', boMode = ''poll'', boConcurrency = 16,
      boPoll = ''100ms''\<rparr> True 3) = Some fs \<and> set_target_flags fs default_target = Some t \<and> map_of fs ''prefix'' = Some ''bench:1:''"
proof -
  let ?o = "\<lparr>boTarget = demo_target, boPrefix = ''bench:1:'', boMode = ''poll'', boConcurrency = 16, boPoll = ''100ms''\<rparr>"
  have "is_int64 (tPartitions (boTarget ?o))" "is_int64 (boConcurrency ?o)"
    by (simp_all add: demo_target_def is_int64_def)
  from bench_worker_same_queue [OF this, of True 3 ref_redis "[]" 0 "\<lambda>_. demo_store empty_server" "[]" 0] show ?thesis
    by auto
qed

section \<open>Measured waits\<close>

text \<open>\<^verbatim>\<open>time.Since\<close> saturates at 64 bits; \<^verbatim>\<open>Duration.Microseconds\<close> truncates.\<close>

definition Since :: "int \<Rightarrow> int \<Rightarrow> int" where
  "Since t now = max (- (2 ^ 63)) (min (2 ^ 63 - 1) (now - t))"

definition Microseconds :: "int \<Rightarrow> int" where
  "Microseconds d = (if d < 0 then - (- d div 1000) else d div 1000)"

text \<open>
  The handler of a worker: it pushes the wait of its job, the reply of which it ignores
  (\<open>stored\<close> says whether the push was carried out), and reports success.
\<close>

definition bench_noop :: "bool \<Rightarrow> bool \<Rightarrow> int \<Rightarrow> job \<Rightarrow> string list \<Rightarrow> string list \<times> JobResult" where
  [go_defs]: "bench_noop lat stored now j raw =
     (if lat \<and> stored then raw @ [itoa (Microseconds (Since (CreatedAt j) now))] else raw, \<lparr>Retryable = False, Err = None\<rparr>)"

fun bench_runs :: "(bool \<times> int \<times> job) list \<Rightarrow> string list \<Rightarrow> string list" where
  "bench_runs [] raw = raw"
| "bench_runs ((stored, now, j) # rs) raw = bench_runs rs (fst (bench_noop True stored now j raw))"

lemma bench_runs_list:
  "bench_runs rs raw = raw @ map (\<lambda>(stored, now, j). itoa (Microseconds (Since (CreatedAt j) now))) (filter fst rs)"
  by (induction rs raw rule: bench_runs.induct) (simp_all add: bench_noop_def)

lemma Microseconds_near:
  "\<exists>r. \<bar>r\<bar> < 1000 \<and> d = Microseconds d * 1000 + r \<and> (0 \<le> d \<longrightarrow> 0 \<le> Microseconds d \<and> 0 \<le> r) \<and> (d < 0 \<longrightarrow> Microseconds d \<le> 0 \<and> r \<le> 0)"
proof (cases "d < 0")
  case True
  define q r where "q = (- d) div 1000" and "r = (- d) mod 1000"
  have "- d = q * 1000 + r" "0 \<le> r" "r < 1000" "0 \<le> q"
    using True by (simp_all add: q_def r_def pos_imp_zdiv_nonneg_iff)
  moreover have "Microseconds d = - q"
    using True by (simp add: Microseconds_def q_def)
  ultimately show ?thesis
    using True by (intro exI [of _ "- r"]) auto
next
  case False
  define q r where "q = d div 1000" and "r = d mod 1000"
  have "d = q * 1000 + r" "0 \<le> r" "r < 1000" "0 \<le> q"
    using False by (simp_all add: q_def r_def pos_imp_zdiv_nonneg_iff)
  moreover have "Microseconds d = q"
    using False by (simp add: Microseconds_def q_def)
  ultimately show ?thesis
    using False by (intro exI [of _ r]) auto
qed

lemma Microseconds_bounds:
  assumes "is_int64 d"
  shows "is_int64 (Microseconds d)" "is_int64 (Microseconds d * 1000)" "\<bar>Microseconds d * 1000 - d\<bar> < 1000"
proof -
  obtain r where "\<bar>r\<bar> < 1000" "d = Microseconds d * 1000 + r"
      "0 \<le> d \<longrightarrow> 0 \<le> Microseconds d \<and> 0 \<le> r" "d < 0 \<longrightarrow> Microseconds d \<le> 0 \<and> r \<le> 0"
    using Microseconds_near by blast
  with assms show "is_int64 (Microseconds d)" "is_int64 (Microseconds d * 1000)" "\<bar>Microseconds d * 1000 - d\<bar> < 1000"
    unfolding is_int64_def by linarith+
qed

lemma Since_int64: "is_int64 (Since t now)"
  by (auto simp: Since_def is_int64_def)

text \<open>
  The latency figures come from true waits: whatever jobs are run and pushes are lost, the
  sorted waits the controller reads back are those of the runs that were recorded, each less
  than a microsecond off the time since the job's creation, and none overflows.
\<close>

theorem latency_waits_exact:
  "\<exists>es. wait_times (bench_runs rs []) = sort (map (\<lambda>((stored, now, j), e). Since (CreatedAt j) now + e) (zip (filter fst rs) es)) \<and>
    length es = length (filter fst rs) \<and> list_all (\<lambda>e. \<bar>e\<bar> < 1000) es"
proof -
  let ?d = "\<lambda>(stored :: bool, now, j :: job). Since (CreatedAt j) now"
  let ?e = "\<lambda>r. Microseconds (?d r) * 1000 - ?d r"
  have d: "is_int64 (?d r)" for r
    using Since_int64 by (cases r) simp
  have "wrap64 (Atoi_value (itoa (Microseconds (?d r))) * 1000) = Microseconds (?d r) * 1000" for r
    using Microseconds_bounds [OF d [of r]] by (simp add: Atoi_value_itoa)
  then have "wait_times (bench_runs rs []) = sort (map (\<lambda>r. Microseconds (?d r) * 1000) (filter fst rs))"
    by (simp add: wait_times_def bench_runs_list comp_def case_prod_beta)
  then show ?thesis
    using Microseconds_bounds(3) [OF d]
    by (intro exI [of _ "map ?e (filter fst rs)"]) (simp add: zip_map2 list_all_iff case_prod_beta comp_def zip_same_conv_map)
qed

end
