(* ===== verification/Cleanup.thy ===== *)
theory Cleanup
  imports BenchCmd
begin

text \<open>
  The helpers of \<^verbatim>\<open>internal/redisutil\<close> that visit every Redis node: deleting a run's keys and
  reading the CPU times. The nodes' keys are lists; scanning and pattern matching are Redis',
  parameters with the documented guarantees (locale \<open>scanner\<close>). The run has ended, so no
  other client writes meanwhile. Each \<^verbatim>\<open>DEL\<close> may fail, carried out or not.
\<close>

section \<open>Visiting the nodes\<close>

datatype 'n redis_client = ClusterClient "'n list" | Client 'n

text \<open>\<^verbatim>\<open>ForEachMaster\<close> runs the function on every primary and returns the first error.\<close>

fun first_error :: "err option list \<Rightarrow> err option" where
  "first_error [] = None"
| "first_error (None # es) = first_error es"
| "first_error (Some e # es) = Some e"

fun forEachNode :: "('n \<Rightarrow> 'n \<times> err option) \<Rightarrow> 'n redis_client \<Rightarrow> 'n redis_client \<times> err option" where
  "forEachNode fn (ClusterClient ns) = (ClusterClient (map (\<lambda>n. fst (fn n)) ns), first_error (map (\<lambda>n. snd (fn n)) ns))"
| "forEachNode fn (Client n) = (case fn n of (n', e) \<Rightarrow> (Client n', e))"

fun nodes :: "'n redis_client \<Rightarrow> 'n list" where
  "nodes (ClusterClient ns) = ns"
| "nodes (Client n) = [n]"

lemma first_error_None [simp]: "first_error es = None \<longleftrightarrow> (\<forall>e \<in> set es. e = None)"
  by (induction es rule: first_error.induct) auto

lemma forEachNode_all:
  assumes "forEachNode fn c = (c', e)"
  shows "nodes c' = map (\<lambda>n. fst (fn n)) (nodes c)" "e = None \<longleftrightarrow> (\<forall>n \<in> set (nodes c). snd (fn n) = None)"
  using assms by (cases c; auto split: prod.splits)+

section \<open>Deleting a prefix\<close>

text \<open>
  A node: its keys, what the scan will fail with in the end, if it does, and the fate of the
  next deletions, each carried out or not, answered or not.
\<close>

record node =
  nKeys :: "string list"
  nScanError :: "err option"
  nFates :: "(bool \<times> err option) list"

fun delete_each :: "string list \<Rightarrow> node \<Rightarrow> node \<times> err option" where
  "delete_each [] n = (n, nScanError n)"
| "delete_each (k # ks) n =
     (case (case nFates n of [] \<Rightarrow> ((True, None), []) | f # fs \<Rightarrow> (f, fs)) of
        ((landed, e), fs) \<Rightarrow>
          (let n1 = n\<lparr>nKeys := (if landed \<or> e = None then removeAll k (nKeys n) else nKeys n), nFates := fs\<rparr>
           in case e of Some x \<Rightarrow> (n1, Some x) | None \<Rightarrow> delete_each ks n1))"

text \<open>\<open>scan\<close> gives the keys the iterator returns, duplicates possible, before it ends or fails.\<close>

definition DeletePrefix :: "(string \<Rightarrow> node \<Rightarrow> string list) \<Rightarrow> string \<Rightarrow> node redis_client \<Rightarrow> node redis_client \<times> err option" where
  [go_defs]: "DeletePrefix scan pre c = forEachNode (\<lambda>n. delete_each (scan (pre @ ''*'') n) n) c"

text \<open>Characters with a meaning in a pattern.\<close>

definition plain :: "string \<Rightarrow> bool" where
  "plain s \<longleftrightarrow> list_all (\<lambda>ch. ch \<notin> {CHR ''*'', CHR ''?'', CHR ''['', CHR 0x5C}) s"

locale scanner =
  fixes scan :: "string \<Rightarrow> node \<Rightarrow> string list" and matches :: "string \<Rightarrow> string \<Rightarrow> bool"
  assumes scan_matches: "k \<in> set (scan pat n) \<Longrightarrow> matches pat k"
    and scan_complete: "nScanError n = None \<Longrightarrow> k \<in> set (nKeys n) \<Longrightarrow> matches pat k \<Longrightarrow> k \<in> set (scan pat n)"
    and matches_prefix: "plain p \<Longrightarrow> matches (p @ ''*'') k \<longleftrightarrow> prefix p k"

lemma delete_each_spec:
  "delete_each ks n = (n', e) \<Longrightarrow>
   set (nKeys n') \<subseteq> set (nKeys n) \<and> set (nKeys n) - set ks \<subseteq> set (nKeys n') \<and>
   (e = None \<longrightarrow> set (nKeys n') \<inter> set ks = {} \<and> nScanError n = None)"
proof (induction ks n arbitrary: n' e rule: delete_each.induct)
  case (2 k ks n)
  obtain landed e1 fs where f: "(case nFates n of [] \<Rightarrow> ((True, None), []) | f # fs \<Rightarrow> (f, fs)) = ((landed, e1), fs)"
    by (metis prod.exhaust)
  let ?n1 = "n\<lparr>nKeys := (if landed \<or> e1 = None then removeAll k (nKeys n) else nKeys n), nFates := fs\<rparr>"
  show ?case
  proof (cases e1)
    case (Some x)
    with "2.prems" f show ?thesis by (auto simp: Let_def split: if_splits)
  next
    case None
    with "2.prems" f have r: "delete_each ks ?n1 = (n', e)" by (simp add: Let_def)
    have "set (nKeys n') \<subseteq> set (nKeys ?n1) \<and> set (nKeys ?n1) - set ks \<subseteq> set (nKeys n') \<and>
        (e = None \<longrightarrow> set (nKeys n') \<inter> set ks = {} \<and> nScanError ?n1 = None)"
      by (rule "2.IH" [OF f [symmetric] refl refl None r])
    with None show ?thesis by auto
  qed
qed auto

context scanner
begin

lemma delete_node:
  assumes "plain pre" "delete_each (scan (pre @ ''*'') n) n = (n', e)"
  shows "set (nKeys n') \<subseteq> set (nKeys n)" "k \<in> set (nKeys n) \<Longrightarrow> \<not> prefix pre k \<Longrightarrow> k \<in> set (nKeys n')"
    "e = None \<Longrightarrow> k \<in> set (nKeys n') \<Longrightarrow> \<not> prefix pre k"
  using delete_each_spec [OF assms(2)] scan_matches [of k "pre @ ''*''" n] scan_complete [of n k "pre @ ''*''"] matches_prefix [OF assms(1)]
  by blast+

lemma DeletePrefix_spec:
  assumes "plain pre" "DeletePrefix scan pre c = (c', e)"
  shows "list_all2 (\<lambda>n n'. set (nKeys n') \<subseteq> set (nKeys n) \<and> (\<forall>k \<in> set (nKeys n). prefix pre k \<or> k \<in> set (nKeys n')) \<and>
      (e = None \<longrightarrow> list_all (\<lambda>k. \<not> prefix pre k) (nKeys n'))) (nodes c) (nodes c')"
proof -
  let ?f = "\<lambda>n. delete_each (scan (pre @ ''*'') n) n"
  note all = forEachNode_all [OF assms(2) [unfolded DeletePrefix_def]]
  have "set (nKeys (fst (?f n))) \<subseteq> set (nKeys n) \<and> (\<forall>k \<in> set (nKeys n). prefix pre k \<or> k \<in> set (nKeys (fst (?f n)))) \<and>
      (e = None \<longrightarrow> list_all (\<lambda>k. \<not> prefix pre k) (nKeys (fst (?f n))))" if n: "n \<in> set (nodes c)" for n
  proof -
    have "snd (?f n) = None" if "e = None"
      using all(2) that n by blast
    then show ?thesis
      using delete_node [OF assms(1) prod.collapse [symmetric], where n = n] by (auto simp: list_all_iff)
  qed
  then show ?thesis
    by (simp add: all(1) list_all2_conv_all_nth)
qed

end

text \<open>A scanner: all keys of the node, filtered by a pattern with a trailing star.\<close>

definition star_matches :: "string \<Rightarrow> string \<Rightarrow> bool" where
  "star_matches pat k \<longleftrightarrow> pat \<noteq> [] \<and> last pat = CHR ''*'' \<and> prefix (butlast pat) k"

definition star_scan :: "string \<Rightarrow> node \<Rightarrow> string list" where
  "star_scan pat n = filter (star_matches pat) (nKeys n)"

interpretation stars: scanner star_scan star_matches
  by unfold_locales (auto simp: star_scan_def star_matches_def)

text \<open>
  C32. Cleaning up after a run is complete and touches nothing else: on a single Redis or on
  every primary of a cluster, \<^verbatim>\<open>DeletePrefix\<close> removes only keys with the prefix, however it
  ends; and when it returns no error, no node has any key left of a queue that was opened under
  the prefix: no stream, schedule, dead letter or deduplication key of any partition.
\<close>

theorem cleanup_complete:
  assumes "scanner scan matches" "plain pre" "DeletePrefix scan pre c = (c', e)"
  shows "list_all2 (\<lambda>n n'. set (nKeys n') \<subseteq> set (nKeys n) \<and> (\<forall>k \<in> set (nKeys n). prefix pre k \<or> k \<in> set (nKeys n'))) (nodes c) (nodes c') \<and>
    (e = None \<longrightarrow> pre \<noteq> [] \<longrightarrow> pre \<noteq> '':'' \<longrightarrow> Target_Open R t pre idle world = (world', Inr cs) \<longrightarrow>
       (\<forall>n \<in> set (nodes c'). \<forall>q \<in> set cs. set (nKeys n) \<inter> part_keys q = {}))"
proof (intro conjI impI ballI)
  note spec = scanner.DeletePrefix_spec [OF assms]
  show "list_all2 (\<lambda>n n'. set (nKeys n') \<subseteq> set (nKeys n) \<and> (\<forall>k \<in> set (nKeys n). prefix pre k \<or> k \<in> set (nKeys n'))) (nodes c) (nodes c')"
    by (rule list_all2_mono [OF spec]) simp
  fix n q
  assume "e = None" and pre: "pre \<noteq> []" "pre \<noteq> '':''" and opened: "Target_Open R t pre idle world = (world', Inr cs)"
    and n: "n \<in> set (nodes c')" and q: "q \<in> set cs"
  then have "\<not> prefix pre k" if "k \<in> set (nKeys n)" for k
    using spec that by (fastforce simp: list_all2_conv_all_nth in_set_conv_nth list_all_iff)
  moreover have "prefix pre k" if "k \<in> part_keys q" for k
    using opened_keys_prefixed [OF opened q that pre] .
  ultimately show "set (nKeys n) \<inter> part_keys q = {}"
    by blast
qed

definition demo_nodes :: "node redis_client" where
  "demo_nodes = ClusterClient
     [\<lparr>nKeys = [''chaos:1:{p0}:jobs'', ''other''], nScanError = None, nFates = []\<rparr>,
      \<lparr>nKeys = [''chaos:1:{p1}:jobs'', ''chaos:1:ledger''], nScanError = None, nFates = [(True, None)]\<rparr>]"

theorem cleanup_complete_witness:
  "\<exists>c'. DeletePrefix star_scan ''chaos:1:'' demo_nodes = (c', None) \<and> map nKeys (nodes c') = [[''other''], []] \<and>
     list_all2 (\<lambda>n n'. set (nKeys n') \<subseteq> set (nKeys n)) (nodes demo_nodes) (nodes c')"
proof -
  have d: "snd (DeletePrefix star_scan ''chaos:1:'' demo_nodes) = None"
      "map nKeys (nodes (fst (DeletePrefix star_scan ''chaos:1:'' demo_nodes))) = [[''other''], []]"
    by code_simp+
  have "plain ''chaos:1:''"
    by (simp add: plain_def)
  from cleanup_complete [OF stars.scanner_axioms this prod.collapse [symmetric], of demo_nodes] have
    "list_all2 (\<lambda>n n'. set (nKeys n') \<subseteq> set (nKeys n)) (nodes demo_nodes) (nodes (fst (DeletePrefix star_scan ''chaos:1:'' demo_nodes)))"
    by (rule list_all2_mono [OF conjunct1]) simp
  with d show ?thesis
    by (intro exI [of _ "fst (DeletePrefix star_scan ''chaos:1:'' demo_nodes)"]) (simp add: prod_eq_iff)
qed

section \<open>CPU times\<close>

fun split_on :: "char \<Rightarrow> string \<Rightarrow> string list" where
  "split_on d [] = [[]]"
| "split_on d (ch # cs) =
     (if ch = d then [] # split_on d cs else case split_on d cs of [] \<Rightarrow> [[ch]] | w # ws \<Rightarrow> (ch # w) # ws)"

text \<open>\<^verbatim>\<open>strings.Cut(s, ":")\<close>; \<^term>\<open>None\<close> if there is no colon.\<close>

definition cut_colon :: "string \<Rightarrow> (string \<times> string) option" where
  "cut_colon s = (let k = takeWhile (\<lambda>ch. ch \<noteq> CHR '':'') s in if k = s then None else Some (k, drop (length k + 1) s))"

text \<open>
  The CPU time in the reply of \<^verbatim>\<open>INFO cpu\<close>; \<open>pf\<close> is the value \<^verbatim>\<open>strconv.ParseFloat\<close>
  returns next to its error and \<open>rnd\<close> the rounding of an addition.
\<close>

definition cpu_line :: "(string \<Rightarrow> rat) \<Rightarrow> (rat \<Rightarrow> rat) \<Rightarrow> string \<Rightarrow> rat \<Rightarrow> rat" where
  [go_defs]: "cpu_line pf rnd line acc =
     (case cut_colon (TrimSpace line) of
        Some (k, v) \<Rightarrow> if k = ''used_cpu_user'' \<or> k = ''used_cpu_sys'' then rnd (acc + pf v) else acc
      | None \<Rightarrow> acc)"

definition cpu_total :: "(string \<Rightarrow> rat) \<Rightarrow> (rat \<Rightarrow> rat) \<Rightarrow> string \<Rightarrow> rat" where
  [go_defs]: "cpu_total pf rnd info = fold (cpu_line pf rnd) (split_on (CHR 0x0A) info) 0"

text \<open>A node's address and the reply to \<^verbatim>\<open>INFO\<close>; a node that does not answer has no entry.\<close>

fun CPUSeconds :: "(string \<Rightarrow> rat) \<Rightarrow> (rat \<Rightarrow> rat) \<Rightarrow> (string \<times> (err + string)) list \<Rightarrow> string \<rightharpoonup> rat" where
  "CPUSeconds pf rnd [] = Map.empty"
| "CPUSeconds pf rnd ((addr, Inl e) # ns) = CPUSeconds pf rnd ns"
| "CPUSeconds pf rnd ((addr, Inr info) # ns) = (CPUSeconds pf rnd ns)(addr \<mapsto> cpu_total pf rnd info)"

text \<open>A line of the reply, as Redis writes it.\<close>

definition info_line :: "string \<times> string \<Rightarrow> string" where
  "info_line = (\<lambda>(k, v). k @ '':'' @ v @ [CHR 0x0D, CHR 0x0A])"

definition field_ok :: "string \<times> string \<Rightarrow> bool" where
  "field_ok = (\<lambda>(k, v). k \<noteq> [] \<and> v \<noteq> [] \<and> CHR '':'' \<notin> set k \<and> list_all (\<lambda>ch. \<not> ascii_space ch) (k @ v))"

lemma split_on_plain: "d \<notin> set w \<Longrightarrow> split_on d (w @ d # s) = w # split_on d s"
  by (induction w) auto

lemma cut_field:
  assumes "CHR '':'' \<notin> set k"
  shows "cut_colon (k @ CHR '':'' # v) = Some (k, v)"
proof -
  have "takeWhile (\<lambda>ch. ch \<noteq> CHR '':'') k = k"
    using assms by (auto simp: takeWhile_eq_all_conv)
  then show ?thesis
    by (simp add: cut_colon_def takeWhile_tail Let_def)
qed

lemma field_line:
  assumes "field_ok (k, v)"
  shows "CHR 0x0A \<notin> set (k @ '':'' @ v @ [CHR 0x0D])"
    and "cut_colon (TrimSpace (k @ '':'' @ v @ [CHR 0x0D])) = Some (k, v)"
proof -
  have f: "k \<noteq> []" "v \<noteq> []" "CHR '':'' \<notin> set k" "\<And>ch. ch \<in> set k \<union> set v \<Longrightarrow> \<not> ascii_space ch"
    using assms by (auto simp: field_ok_def list_all_iff)
  have nl: "ascii_space (CHR 0x0A)" "ascii_space (CHR 0x0D)"
    by (simp_all add: ascii_space_def)
  show "CHR 0x0A \<notin> set (k @ '':'' @ v @ [CHR 0x0D])"
    using f(4) nl(1) by auto
  have "TrimSpace ([] @ (k @ '':'' @ v) @ [CHR 0x0D]) = k @ '':'' @ v"
    by (rule trim_padded) (use f nl in auto)
  then show "cut_colon (TrimSpace (k @ '':'' @ v @ [CHR 0x0D])) = Some (k, v)"
    using cut_field [OF f(3), of v] by simp
qed

text \<open>
  The CPU time is read from exactly the two fields that count: for a reply of well-formed lines
  the result is the sum of the user and system times in it, rounded as it is added up,
  whatever other fields there are.
\<close>

theorem cpu_total_exact:
  assumes "list_all field_ok fs"
  shows "cpu_total pf rnd (concat (map info_line fs)) =
    fold (\<lambda>v acc. rnd (acc + pf v)) (map snd (filter (\<lambda>f. fst f \<in> {''used_cpu_user'', ''used_cpu_sys''}) fs)) 0"
proof -
  have "fold (cpu_line pf rnd) (split_on (CHR 0x0A) (concat (map info_line fs))) acc =
      fold (\<lambda>v acc. rnd (acc + pf v)) (map snd (filter (\<lambda>f. fst f \<in> {''used_cpu_user'', ''used_cpu_sys''}) fs)) acc" for acc
    using assms
  proof (induction fs arbitrary: acc)
    case Nil
    then show ?case by (simp add: cpu_line_def cut_colon_def TrimSpace_def)
  next
    case (Cons f fs)
    obtain k v where f: "f = (k, v)" by fastforce
    then have ok: "field_ok (k, v)" using Cons.prems by simp
    have "split_on (CHR 0x0A) (concat (map info_line (f # fs))) =
        (k @ '':'' @ v @ [CHR 0x0D]) # split_on (CHR 0x0A) (concat (map info_line fs))"
      using split_on_plain [OF field_line(1) [OF ok]] by (simp add: f info_line_def)
    with Cons field_line(2) [OF ok] show ?case
      by (simp add: f cpu_line_def)
  qed
  then show ?thesis by (simp add: cpu_total_def)
qed

theorem cpu_total_exact_witness:
  "cpu_total (\<lambda>v. of_nat (length v)) id (concat (map info_line [(''used_cpu_sys'', ''1.5''), (''used_cpu_children'', ''9''), (''used_cpu_user'', ''2.25'')])) = 7"
  by (subst cpu_total_exact) (simp_all add: field_ok_def ascii_space_def)

end
