(* ===== verification/Demos.thy ===== *)
theory Demos
  imports Worker
begin

text \<open>
  \<^verbatim>\<open>examples/tasks\<close>, \<^verbatim>\<open>cmd/worker-demo\<close> and \<^verbatim>\<open>cmd/enqueue-demo\<close>: the example handlers,
  the tasks the demo worker registers and the jobs the demo producer makes up. Logging and
  sleeping have no effect on the result; decoding a payload is a parameter.
\<close>

section \<open>The handlers\<close>

record EmailPayload =
  emTo :: string
  emSubject :: string
  emBody :: string
  emLatencyMs :: int

record ImagePayload =
  imImageID :: string
  imURL :: string
  imLatencyMs :: int

definition no_error :: JobResult where
  "no_error = \<lparr>Retryable = False, Err = None\<rparr>"

definition SendEmail :: "(string \<Rightarrow> err + EmailPayload) \<Rightarrow> job \<Rightarrow> JobResult" where
  [go_defs]: "SendEmail unmarshal j =
     (case unmarshal (Payload j) of
        Inl e \<Rightarrow> NewPermanentError e
      | Inr p \<Rightarrow> if emTo p = [] then NewPermanentError (ErrorString ''email recipient is required'') else no_error)"

definition ProcessImage :: "(string \<Rightarrow> err + ImagePayload) \<Rightarrow> job \<Rightarrow> JobResult" where
  [go_defs]: "ProcessImage unmarshal j =
     (case unmarshal (Payload j) of
        Inl e \<Rightarrow> NewPermanentError e
      | Inr p \<Rightarrow> if imImageID p = [] then NewPermanentError (ErrorString ''image id is required'') else no_error)"

definition PermanentFail :: "job \<Rightarrow> JobResult" where
  [go_defs]: "PermanentFail j = NewPermanentError (ErrorString ''this task always fails'')"

definition FlakyEmail :: "job \<Rightarrow> JobResult" where
  [go_defs]: "FlakyEmail j =
     (let succeedOnAttempt = 2
      in if Attempt j < succeedOnAttempt then NewRetryableError (ErrorString ''transient failure (demo)'') else no_error)"

definition worker_demo_handlers :: "(string \<Rightarrow> err + EmailPayload) \<Rightarrow> (string \<Rightarrow> err + ImagePayload) \<Rightarrow> handlers" where
  [go_defs]: "worker_demo_handlers unmarshalEmail unmarshalImage =
     fst (Register ''flaky_email'' (Some FlakyEmail)
     (fst (Register ''permanent_fail'' (Some PermanentFail)
     (fst (Register ''process_image'' (Some (ProcessImage unmarshalImage))
     (fst (Register ''send_email'' (Some (SendEmail unmarshalEmail)) Map.empty)))))))"

section \<open>The producer\<close>

definition pickTask :: "int \<Rightarrow> string" where
  [go_defs]: "pickTask r =
     (if r < 70 then ''send_email'' else if r < 85 then ''process_image'' else if r < 97 then ''flaky_email'' else ''permanent_fail'')"

datatype demo_payload_value = Email EmailPayload | Image ImagePayload | EmptyObject

definition payloadFor :: "string \<Rightarrow> int \<Rightarrow> demo_payload_value \<times> int" where
  [go_defs]: "payloadFor task latencyMs =
     (if task = ''process_image'' then
        (Image \<lparr>imImageID = ''img-demo'', imURL = ''https://example.com/demo.jpg'', imLatencyMs = latencyMs\<rparr>, 3)
      else if task = ''permanent_fail'' then (EmptyObject, 1)
      else if task = ''flaky_email'' then
        (Email \<lparr>emTo = ''dev@example.com'', emSubject = ''Flaky email demo'', emBody = ''This job fails twice then succeeds.'',
               emLatencyMs = latencyMs\<rparr>, 5)
      else
        (Email \<lparr>emTo = ''dev@example.com'', emSubject = ''Distributed queue demo'',
               emBody = ''This job should eventually be handled by a worker.'', emLatencyMs = latencyMs\<rparr>, 3))"

definition envOr :: "(string \<Rightarrow> string) \<Rightarrow> string \<Rightarrow> string \<Rightarrow> string" where
  [go_defs]: "envOr Getenv key fallback = (let v = Getenv key in if v \<noteq> [] then v else fallback)"

text \<open>The stored payload decodes to the value the producer encoded.\<close>

definition decodes :: "(string \<Rightarrow> err + EmailPayload) \<Rightarrow> (string \<Rightarrow> err + ImagePayload) \<Rightarrow> string \<Rightarrow> demo_payload_value \<Rightarrow> bool" where
  "decodes unmarshalEmail unmarshalImage raw p =
     (case p of Email e \<Rightarrow> unmarshalEmail raw = Inr e | Image i \<Rightarrow> unmarshalImage raw = Inr i | EmptyObject \<Rightarrow> True)"

lemma registered:
  "worker_demo_handlers ue ui = [''send_email'' \<mapsto> SendEmail ue, ''process_image'' \<mapsto> ProcessImage ui,
     ''permanent_fail'' \<mapsto> PermanentFail, ''flaky_email'' \<mapsto> FlakyEmail]"
  by (simp add: worker_demo_handlers_def Register_def)

text \<open>
  The demo's mix ends as advertised: every task the producer can draw is registered by the
  worker, and with the payload and attempts the producer gives it, run with the attempts it has
  left, an email or image job succeeds at its first run, a permanent failure is dead-lettered
  at its first, and a flaky email fails twice with a retry each time and then succeeds.
\<close>

theorem demo_mix_outcomes:
  assumes "0 \<le> r" "r < 100" "Task j = pickTask r" "payloadFor (Task j) ms = (p, n)" "decodes unmarshalEmail unmarshalImage (Payload j) p"
    and "MaxAttempts j = n" "0 \<le> Attempt j"
  shows "\<exists>h. worker_demo_handlers unmarshalEmail unmarshalImage (Task j) = Some h \<and>
    (if r < 85 then Err (h j) = None
     else if r < 97 then (Err (h j) = None \<longleftrightarrow> 2 \<le> Attempt j) \<and> (Attempt j < 2 \<longrightarrow> Retryable (h j) \<and> \<not> ShouldDeadLetter j)
     else Err (h j) \<noteq> None \<and> \<not> Retryable (h j))"
proof -
  consider "r < 70" | "70 \<le> r" "r < 85" | "85 \<le> r" "r < 97" | "97 \<le> r" by linarith
  then show ?thesis
  proof cases
    case 1
    with assms show ?thesis by (auto simp: registered decodes_def pickTask_def payloadFor_def SendEmail_def no_error_def)
  next
    case 2
    with assms show ?thesis by (auto simp: registered decodes_def pickTask_def payloadFor_def ProcessImage_def no_error_def)
  next
    case 3
    with assms show ?thesis
      by (auto simp: registered decodes_def pickTask_def payloadFor_def FlakyEmail_def no_error_def NewRetryableError_def ShouldDeadLetter_def
          Exhausted_def Let_def wrap64_id is_int64_def)
  next
    case 4
    with assms show ?thesis by (auto simp: registered decodes_def pickTask_def payloadFor_def PermanentFail_def NewPermanentError_def)
  qed
qed

theorem demo_mix_outcomes_witness:
  "\<exists>h. worker_demo_handlers (\<lambda>_. Inl ErrInvalidJob) (\<lambda>_. Inr \<lparr>imImageID = ''img-demo'', imURL = ''https://example.com/demo.jpg'', imLatencyMs = 0\<rparr>)
     ''process_image'' = Some h \<and> Err (h (demo_job\<lparr>Task := ''process_image'', MaxAttempts := 3\<rparr>)) = None"
proof -
  let ?ui = "\<lambda>_. Inr \<lparr>imImageID = ''img-demo'', imURL = ''https://example.com/demo.jpg'', imLatencyMs = 0\<rparr>" and ?j = "demo_job\<lparr>Task := ''process_image'', MaxAttempts := 3\<rparr>"
  have "Task ?j = pickTask 80" "payloadFor (Task ?j) 0 =
      (Image \<lparr>imImageID = ''img-demo'', imURL = ''https://example.com/demo.jpg'', imLatencyMs = 0\<rparr>, 3)"
    "decodes (\<lambda>_. Inl ErrInvalidJob) ?ui (Payload ?j) (Image \<lparr>imImageID = ''img-demo'', imURL = ''https://example.com/demo.jpg'', imLatencyMs = 0\<rparr>)"
    "MaxAttempts ?j = 3" "0 \<le> Attempt ?j"
    by (simp_all add: pickTask_def payloadFor_def decodes_def demo_job_def)
  from demo_mix_outcomes [OF _ _ this] show ?thesis by simp
qed

end
