(* ===== verification/DemoRun.thy ===== *)
theory DemoRun
  imports Demos Queue
begin

text \<open>
  The main loop of \<^verbatim>\<open>cmd/enqueue-demo/main.go\<close>. With \<^verbatim>\<open>-n 0\<close> it runs until interrupted, so the
  loop goes over a list of what the surroundings do in each iteration: the two random draws,
  whether the program was interrupted by the time an enqueue failed, and whether the wait
  between two enqueues was. How the program was going when the list ends is part of the result.
\<close>

record tick =
  tkTask :: int
  tkLatency :: int
  tkCancelled :: bool
  tkStopped :: bool

datatype demo_end = AllSent | Interrupted | Panicked | StillRunning

text \<open>\<^verbatim>\<open>ms/2 + rand.IntN(ms+1)\<close>; \<^verbatim>\<open>IntN\<close> panics on a bound that is not positive.\<close>

definition demo_task :: "string \<Rightarrow> int \<Rightarrow> tick \<Rightarrow> (string \<times> int) option" where
  [go_defs]: "demo_task task ms t =
     (if task = ''mix'' then
        (if ms + 1 \<le> 0 then None
         else Some (pickTask (tkTask t), (if ms < 0 then - (- ms div 2) else ms div 2) + tkLatency t))
      else Some (task, ms))"

fun enqueue_demo ::
  "'b backend \<Rightarrow> (demo_payload_value \<Rightarrow> err + string) \<Rightarrow> (job \<Rightarrow> (string \<times> string) list) \<Rightarrow> int \<Rightarrow> string \<Rightarrow> int \<Rightarrow>
   tick list \<Rightarrow> int \<Rightarrow> 'b queue \<Rightarrow> 'b queue \<times> (string \<times> (err + string)) list \<times> demo_end" where
  "enqueue_demo B marshalPayload inject n task ms ticks i q =
     (if \<not> (n = 0 \<or> i < n) then (q, [], AllSent)
      else case ticks of
        [] \<Rightarrow> (q, [], StillRunning)
      | t # ts \<Rightarrow>
          (case demo_task task ms t of
             None \<Rightarrow> (q, [], Panicked)
           | Some (name, ms') \<Rightarrow>
               (case payloadFor name ms' of (payload, maxAttempts) \<Rightarrow>
                case Queue_Enqueue B marshalPayload inject name payload
                       \<lparr>oMaxAttempts = maxAttempts, oDelay = 0, oIdempotencyKey = []\<rparr> q of
                  (q1, r) \<Rightarrow>
                    if (case r of Inl _ \<Rightarrow> tkCancelled t | Inr _ \<Rightarrow> False) \<or> tkStopped t then (q1, [(name, r)], Interrupted)
                    else case enqueue_demo B marshalPayload inject n task ms ts (i + 1) q1 of
                           (q2, rs, en) \<Rightarrow> (q2, (name, r) # rs, en))))"

declare enqueue_demo.simps [simp del]

lemma pickTask_registered: "pickTask r \<in> dom (worker_demo_handlers ue ui)"
  by (simp add: registered pickTask_def)

text \<open>
  The demo producer sends what it was asked for: started with a positive number, a latency that
  is not negative and undisturbed, it makes exactly that many enqueue calls and ends; in the mix
  every one of them is for a task the demo worker has a handler for. Interrupted or not, it never
  makes more.
\<close>

lemma enqueue_demo_bound:
  "enqueue_demo B mp inject n task ms ticks i q = (q', rs, en) \<Longrightarrow> 0 < n \<Longrightarrow> i \<le> n \<Longrightarrow> i + int (length rs) \<le> n"
proof (induction ticks arbitrary: i q q' rs en)
  case Nil
  then show ?case by (simp add: enqueue_demo.simps split: if_splits)
next
  case (Cons t ts)
  show ?case
  proof (cases "i < n")
    case True
    with Cons.prems show ?thesis
      using Cons.IH [where i = "i + 1"]
      by (subst (asm) enqueue_demo.simps) (fastforce split: option.splits prod.splits if_splits)
  next
    case False
    with Cons.prems show ?thesis by (simp add: enqueue_demo.simps)
  qed
qed

theorem demo_sends_all:
  assumes "0 < n" "0 \<le> i" "i \<le> n" "n - i \<le> int (length ticks)" "0 \<le> ms" "list_all (\<lambda>t. \<not> tkCancelled t \<and> \<not> tkStopped t) ticks"
  shows "\<exists>q' rs. enqueue_demo B mp inject n task ms ticks i q = (q', rs, AllSent) \<and> int (length rs) = n - i \<and>
    (task = ''mix'' \<longrightarrow> list_all (\<lambda>(name, r). name \<in> dom (worker_demo_handlers ue ui)) rs)"
  using assms(2-4,6)
proof (induction ticks arbitrary: i q)
  case Nil
  with assms(1) show ?case by (simp add: enqueue_demo.simps)
next
  case (Cons t ts)
  show ?case
  proof (cases "i < n")
    case True
    obtain name ms' where d: "demo_task task ms t = Some (name, ms')" "task = ''mix'' \<longrightarrow> name \<in> dom (worker_demo_handlers ue ui)"
      using assms(5) pickTask_registered [of "tkTask t" ue ui] by (cases "task = ''mix''") (simp_all add: demo_task_def)
    obtain payload ma where p: "payloadFor name ms' = (payload, ma)" by fastforce
    obtain q1 r where e: "Queue_Enqueue B mp inject name payload \<lparr>oMaxAttempts = ma, oDelay = 0, oIdempotencyKey = []\<rparr> q = (q1, r)"
      by fastforce
    obtain q' rs where "enqueue_demo B mp inject n task ms ts (i + 1) q1 = (q', rs, AllSent)" "int (length rs) = n - (i + 1)"
        "task = ''mix'' \<longrightarrow> list_all (\<lambda>(name, r). name \<in> dom (worker_demo_handlers ue ui)) rs"
      using Cons.IH [of "i + 1" q1] Cons.prems True by auto
    with True d p e Cons.prems show ?thesis
      by (subst enqueue_demo.simps) (auto split: sum.splits)
  next
    case False
    with Cons.prems assms(1) show ?thesis by (simp add: enqueue_demo.simps)
  qed
qed

text \<open>With a negative latency the mix panics before it enqueues anything.\<close>

theorem demo_mix_negative_latency:
  "enqueue_demo B mp inject 1 ''mix'' (- 1) [t] 0 q = (q, [], Panicked)"
  by (simp add: enqueue_demo.simps demo_task_def)

end
