(* ===== verification/ConnTracker.thy ===== *)
theory ConnTracker
  imports Prelude
begin

text \<open>
  The connection tracker of \<^verbatim>\<open>redisstream/sharded.go\<close>: it records the sockets of the client
  the long polls use, so that closing the backend can close them while reads are blocked.
  Sockets are numbered; \<open>dialed\<close> are sockets the operating system has opened for a call of
  \<^verbatim>\<open>dial\<close> that has not yet taken the lock. Each section under the lock is one step.
\<close>

record connTracker =
  conns :: "nat set"
  closed :: bool
  open_sockets :: "nat set"
  dialed :: "nat set"
  handed_out :: "nat set"

definition new_tracker :: connTracker where
  "new_tracker = \<lparr>conns = {}, closed = False, open_sockets = {}, dialed = {}, handed_out = {}\<rparr>"

definition dial_connect :: "nat \<Rightarrow> connTracker \<Rightarrow> connTracker" where
  "dial_connect n t = t\<lparr>open_sockets := insert n (open_sockets t), dialed := insert n (dialed t)\<rparr>"

text \<open>The rest of \<^verbatim>\<open>dial\<close>: the caller gets the connection, or an error (\<^term>\<open>None\<close>).\<close>

definition dial_finish :: "nat \<Rightarrow> connTracker \<Rightarrow> connTracker \<times> nat option" where
  [go_defs]: "dial_finish n t =
     (if closed t then (t\<lparr>dialed := dialed t - {n}, open_sockets := open_sockets t - {n}\<rparr>, None)
      else (t\<lparr>dialed := dialed t - {n}, conns := insert n (conns t), handed_out := insert n (handed_out t)\<rparr>, Some n))"

definition untrack :: "nat \<Rightarrow> connTracker \<Rightarrow> connTracker" where
  [go_defs]: "untrack n t = t\<lparr>conns := conns t - {n}\<rparr>"

definition socket_close :: "nat \<Rightarrow> connTracker \<Rightarrow> connTracker" where
  "socket_close n t = t\<lparr>open_sockets := open_sockets t - {n}\<rparr>"

definition closeAll :: "connTracker \<Rightarrow> connTracker" where
  [go_defs]: "closeAll t = t\<lparr>closed := True, open_sockets := open_sockets t - conns t, conns := {}\<rparr>"

text \<open>\<open>closing\<close> are connections between the two halves of their \<^verbatim>\<open>Close\<close>.\<close>

inductive tstep :: "connTracker \<times> nat set \<Rightarrow> connTracker \<times> nat set \<Rightarrow> bool" where
  t_connect: "n \<notin> open_sockets t \<union> handed_out t \<union> dialed t \<Longrightarrow> tstep (t, closing) (dial_connect n t, closing)"
| t_finish: "n \<in> dialed t \<Longrightarrow> tstep (t, closing) (fst (dial_finish n t), closing)"
| t_untrack: "n \<in> handed_out t \<Longrightarrow> tstep (t, closing) (untrack n t, insert n closing)"
| t_close: "n \<in> closing \<Longrightarrow> tstep (t, closing) (socket_close n t, closing - {n})"
| t_closeAll: "tstep (t, closing) (closeAll t, closing)"

inductive treach :: "connTracker \<times> nat set \<Rightarrow> bool" where
  t_new: "treach (new_tracker, {})"
| t_next: "treach s \<Longrightarrow> tstep s s' \<Longrightarrow> treach s'"

definition tracker_ok :: "connTracker \<times> nat set \<Rightarrow> bool" where
  "tracker_ok = (\<lambda>(t, closing). open_sockets t \<subseteq> conns t \<union> closing \<union> dialed t \<and> (closed t \<longrightarrow> conns t = {}))"

lemma tstep_ok: "tstep s s' \<Longrightarrow> tracker_ok s \<Longrightarrow> tracker_ok s'"
  by (induction rule: tstep.induct)
    (auto simp: tracker_ok_def dial_connect_def dial_finish_def untrack_def socket_close_def closeAll_def)

lemma treach_ok: "treach s \<Longrightarrow> tracker_ok s"
proof (induction rule: treach.induct)
  case t_new
  show ?case by (simp add: tracker_ok_def new_tracker_def)
next
  case (t_next s s')
  then show ?case using tstep_ok by blast
qed

text \<open>
  Closing the tracker cuts off every socket: in every state after \<^verbatim>\<open>closeAll\<close>, however dials
  and closes interleave with it, the sockets still open are those of dials that have not taken
  the lock yet and of connections whose own \<^verbatim>\<open>Close\<close> is under way; and a dial that finishes
  afterwards is answered with an error and its socket is closed.
\<close>

theorem closed_tracker_cuts_off:
  assumes "treach (t, closing)" "closed t"
  shows "open_sockets t \<subseteq> dialed t \<union> closing \<and> conns t = {} \<and>
    snd (dial_finish n t) = None \<and> n \<notin> open_sockets (fst (dial_finish n t))"
  using treach_ok [OF assms(1)] assms(2) by (auto simp: tracker_ok_def dial_finish_def)

theorem closed_tracker_cuts_off_witness:
  "snd (dial_finish 2 (closeAll (dial_connect 2 (fst (dial_finish 1 (dial_connect 1 new_tracker)))))) = None"
proof -
  let ?t1 = "dial_connect 1 new_tracker"
  let ?t2 = "fst (dial_finish 1 ?t1)"
  let ?t3 = "dial_connect 2 ?t2"
  have "treach (?t1, {})" by (rule t_next [OF t_new t_connect]) (simp add: new_tracker_def)
  then have "treach (?t2, {})" by (rule t_next) (rule t_finish, simp add: dial_connect_def)
  then have "treach (?t3, {})"
    by (rule t_next) (rule t_connect, simp add: dial_connect_def dial_finish_def new_tracker_def)
  then have "treach (closeAll ?t3, {})" by (rule t_next) (rule t_closeAll)
  from closed_tracker_cuts_off [OF this, of 2] show ?thesis by (simp add: closeAll_def)
qed

end
