(* ===== verification/Lifecycle.thy ===== *)
theory Lifecycle
  imports Tools ConnTracker
begin

text \<open>
  Opening and closing the queue: the Redis clients that \<^verbatim>\<open>New\<close> in \<^verbatim>\<open>redisstream/store.go\<close>,
  \<^verbatim>\<open>NewSharded\<close> and \<^verbatim>\<open>Close\<close> in \<^verbatim>\<open>redisstream/sharded.go\<close> and \<^verbatim>\<open>Open\<close> and \<^verbatim>\<open>Client\<close>
  in \<^verbatim>\<open>internal/redisutil\<close> create and close. A client is an object of the Redis library, of
  which only whether it was closed is kept: clients are numbered in the order they are
  created, and a table says which of them are open. What the client library answers to a
  \<^verbatim>\<open>Close\<close>, given whether the client was open, is the argument \<open>Z\<close>.
\<close>

section \<open>Clients\<close>

type_synonym clients = "bool list"

definition NewClient :: "clients \<Rightarrow> clients \<times> nat" where
  "NewClient cs = (cs @ [True], length cs)"

definition client_Close :: "(bool \<Rightarrow> err option) \<Rightarrow> nat \<Rightarrow> clients \<Rightarrow> clients \<times> err option" where
  "client_Close Z i cs = (cs[i := False], Z (i < length cs \<and> cs ! i))"

definition open_clients :: "clients \<Rightarrow> nat set" where
  "open_clients cs = {i. i < length cs \<and> cs ! i}"

lemma open_clients_new [simp]:
  "open_clients (cs @ [x]) = (if x then insert (length cs) (open_clients cs) else open_clients cs)"
  by (auto simp: open_clients_def nth_append less_Suc_eq)

lemma open_clients_new2 [simp]:
  "open_clients (cs @ [x, y]) = (if y then {Suc (length cs)} else {}) \<union> open_clients (cs @ [x])"
  using open_clients_new [of "cs @ [x]" y] by (simp del: open_clients_new)

lemma open_clients_close [simp]: "open_clients (cs[i := False]) = open_clients cs - {i}"
proof (cases "i < length cs")
  case True
  then show ?thesis by (auto simp: open_clients_def nth_list_update split: if_splits)
next
  case False
  then show ?thesis by (auto simp: open_clients_def)
qed

section \<open>One stream\<close>

record store_handle =
  hConfig :: Config
  rds :: nat
  blockRds :: nat
  ownsClient :: bool

definition Store_New ::
  "'r redis \<Rightarrow> (bool \<Rightarrow> err option) \<Rightarrow> Config \<Rightarrow> clients \<Rightarrow> 'r store \<Rightarrow> clients \<times> 'r store \<times> (err + store_handle)" where
  [go_defs]: "Store_New R Z config cs st =
     (case NewClient cs of (cs1, client) \<Rightarrow>
      case NewWithClient R (addr_default config) st of
        (st', Inl e) \<Rightarrow> (fst (client_Close Z client cs1), st', Inl e)
      | (st', Inr c) \<Rightarrow> (cs1, st', Inr \<lparr>hConfig = c, rds = client, blockRds = client, ownsClient = True\<rparr>))"

definition Store_Close :: "(bool \<Rightarrow> err option) \<Rightarrow> store_handle \<Rightarrow> clients \<Rightarrow> clients \<times> err option" where
  [go_defs]: "Store_Close Z h cs = (if \<not> ownsClient h then (cs, None) else client_Close Z (rds h) cs)"

section \<open>Partitions\<close>

record 'r sharded_handle =
  shQueue :: "'r sharded"
  shParts :: "store_handle list"
  shClient :: nat
  shPollClient :: nat
  shConns :: connTracker
  shOnce :: bool

definition part_handle :: "nat \<Rightarrow> nat \<Rightarrow> Config \<Rightarrow> store_handle" where
  "part_handle client poll c = \<lparr>hConfig = c, rds = client, blockRds = poll, ownsClient = False\<rparr>"

text \<open>
  \<^verbatim>\<open>Close\<close>; \<open>sched\<close> is the order in which the poll goroutines it waits for come to their
  end. The part under \<^verbatim>\<open>closeOnce\<close> runs at the first call only.
\<close>

definition close_once ::
  "'r redis \<Rightarrow> codec \<Rightarrow> nat list \<Rightarrow> (bool \<Rightarrow> err option) \<Rightarrow> 'r sharded_handle \<Rightarrow> clients \<Rightarrow> clients \<times> 'r sharded_handle" where
  [go_defs]: "close_once R C sched Z h cs =
     (if shOnce h then (cs, h)
      else (fst (client_Close Z (shPollClient h) cs),
            h\<lparr>shOnce := True, shConns := closeAll (shConns h), shQueue := finish_polls R C sched (begin_close (shQueue h))\<rparr>))"

definition Sharded_Close ::
  "'r redis \<Rightarrow> codec \<Rightarrow> nat list \<Rightarrow> (bool \<Rightarrow> err option) \<Rightarrow> 'r sharded_handle \<Rightarrow> clients \<Rightarrow>
   clients \<times> 'r sharded_handle \<times> err option" where
  [go_defs]: "Sharded_Close R C sched Z h cs =
     (case close_once R C sched Z h cs of (cs1, h') \<Rightarrow>
      case client_Close Z (shClient h) cs1 of (cs2, e) \<Rightarrow> (cs2, h', e))"

text \<open>
  The constructor makes both clients first. When a partition fails it closes the backend it
  has built so far; no poll goroutine runs yet, so only the clients change.
\<close>

definition NewSharded_clients ::
  "'r redis \<Rightarrow> (bool \<Rightarrow> err option) \<Rightarrow> ShardedConfig \<Rightarrow> clients \<Rightarrow> (nat \<Rightarrow> 'r store) \<Rightarrow>
   clients \<times> (nat \<Rightarrow> 'r store) \<times> (err + 'r sharded_handle)" where
  [go_defs]: "NewSharded_clients R Z config cs world =
     (case NewClient cs of (cs1, client) \<Rightarrow>
      case NewClient cs1 of (cs2, poll) \<Rightarrow>
      case NewSharded R config world of
        (world', Inl e) \<Rightarrow> (fst (client_Close Z client (fst (client_Close Z poll cs2))), world', Inl e)
      | (world', Inr s) \<Rightarrow>
          (cs2, world', Inr \<lparr>shQueue = s, shParts = map (part_handle client poll) (sConfigs s), shClient = client, shPollClient = poll,
                             shConns = new_tracker, shOnce = False\<rparr>))"

section \<open>The target\<close>

datatype 'r opened = OneStream store_handle | Partitioned "'r sharded_handle"

definition Open ::
  "'r redis \<Rightarrow> (bool \<Rightarrow> err option) \<Rightarrow> Target \<Rightarrow> string \<Rightarrow> int \<Rightarrow> clients \<Rightarrow> (nat \<Rightarrow> 'r store) \<Rightarrow>
   clients \<times> (nat \<Rightarrow> 'r store) \<times> (err + 'r opened \<times> Config list)" where
  [go_defs]: "Open R Z t0 pre idle cs world =
     (let t = normalized t0
      in if tPartitions t = 0 then
           (case Store_New R Z (store_config t pre idle) cs (world 0) of
              (cs', st, Inl e) \<Rightarrow> (cs', world(0 := st), Inl e)
            | (cs', st, Inr h) \<Rightarrow> (cs', world(0 := st), Inr (OneStream h, [hConfig h])))
         else
           (case NewSharded_clients R Z (sharded_config t pre idle) cs world of
              (cs', world', Inl e) \<Rightarrow> (cs', world', Inl e)
            | (cs', world', Inr h) \<Rightarrow> (cs', world', Inr (Partitioned h, map hConfig (shParts h)))))"

fun Backend_Close ::
  "'r redis \<Rightarrow> codec \<Rightarrow> nat list \<Rightarrow> (bool \<Rightarrow> err option) \<Rightarrow> 'r opened \<Rightarrow> clients \<Rightarrow> clients \<times> 'r opened \<times> err option" where
  "Backend_Close R C sched Z (OneStream h) cs = (case Store_Close Z h cs of (cs', e) \<Rightarrow> (cs', OneStream h, e))"
| "Backend_Close R C sched Z (Partitioned h) cs =
     (case Sharded_Close R C sched Z h cs of (cs', h', e) \<Rightarrow> (cs', Partitioned h', e))"

text \<open>The clients a backend will close.\<close>

fun own :: "'r opened \<Rightarrow> nat set" where
  "own (OneStream h) = (if ownsClient h then {rds h} else {})"
| "own (Partitioned h) = insert (shClient h) (if shOnce h then {} else {shPollClient h})"

text \<open>Without the clients, opening is what \<open>Target_Open\<close> describes.\<close>

lemma Open_Target:
  "(case Open R Z t pre idle cs world of (cs', world', r) \<Rightarrow> (world', map_sum id snd r)) = Target_Open R t pre idle world"
  by (simp add: Open_def Target_Open_def Store_New_def NewSharded_clients_def NewClient_def part_handle_def Let_def comp_def
      split: prod.split sum.split)

lemma Store_New_clients:
  assumes "Store_New R Z config cs st = (cs', st', r)"
  shows "case r of Inl e \<Rightarrow> open_clients cs' = open_clients cs
    | Inr h \<Rightarrow> open_clients cs' = insert (length cs) (open_clients cs) \<and> own (OneStream h) = {length cs}"
  using assms by (auto simp: Store_New_def NewClient_def client_Close_def split: prod.splits sum.splits)

lemma NewSharded_clients_clients:
  assumes "NewSharded_clients R Z config cs world = (cs', world', r)"
  shows "case r of Inl e \<Rightarrow> open_clients cs' = open_clients cs
    | Inr h \<Rightarrow> open_clients cs' = {length cs, Suc (length cs)} \<union> open_clients cs \<and> own (Partitioned h) = {length cs, Suc (length cs)}"
  using assms by (auto simp: NewSharded_clients_def NewClient_def client_Close_def split: prod.splits sum.splits)

lemma Backend_Close_clients: "open_clients (fst (Backend_Close R C sched Z b cs)) = open_clients cs - own b"
  by (cases b) (auto simp: Store_Close_def Sharded_Close_def close_once_def client_Close_def split: prod.split)

lemma Backend_Close_again:
  "own (fst (snd (Backend_Close R C sched Z b cs))) \<subseteq> own b"
  "fst (snd (Backend_Close R C sched' Z' (fst (snd (Backend_Close R C sched Z b cs))) cs'')) = fst (snd (Backend_Close R C sched Z b cs))"
  by (cases b; auto simp: Store_Close_def Sharded_Close_def close_once_def client_Close_def split: prod.split)+

lemma Open_clients:
  assumes "Open R Z t pre idle cs world = (cs', world', r)"
  shows "case r of
      Inl e \<Rightarrow> open_clients cs' = open_clients cs
    | Inr (b, configs) \<Rightarrow> open_clients cs' = open_clients cs \<union> own b \<and> own b \<noteq> {} \<and> own b \<inter> {..<length cs} = {}"
proof (cases "tPartitions (normalized t) = 0")
  case True
  obtain cs1 st r1 where n: "Store_New R Z (store_config (normalized t) pre idle) cs (world 0) = (cs1, st, r1)" by (metis prod.collapse)
  from Store_New_clients [OF n] assms True show ?thesis
    by (auto simp: Open_def n Let_def simp del: own.simps split: sum.splits)
next
  case False
  obtain cs1 w r1 where n: "NewSharded_clients R Z (sharded_config (normalized t) pre idle) cs world = (cs1, w, r1)" by (metis prod.collapse)
  from NewSharded_clients_clients [OF n] assms False show ?thesis
    by (auto simp: Open_def n Let_def simp del: own.simps split: sum.splits)
qed


definition Z_closed :: "bool \<Rightarrow> err option" where
  "Z_closed was_open = (if was_open then None else Some (ErrExternal ''redis: client is closed''))"

definition demo_open :: "fault list \<Rightarrow> clients \<times> (nat \<Rightarrow> refdb store) \<times> (err + refdb opened \<times> Config list)" where
  "demo_open faults = Open ref_redis Z_closed \<lparr>tAddr = ''h:1'', tCluster = [], tPartitions = 2\<rparr> ''q:'' 0 [True, False]
     (\<lambda>p. (demo_store empty_server)\<lparr>net := if p = 1 then faults else []\<rparr>)"

lemma demo_opens:
  "case snd (snd (demo_open [])) of Inl e \<Rightarrow> False | Inr (b, configs) \<Rightarrow> own b = {2, 3}"
  "case snd (snd (demo_open [Lost ''timeout''])) of Inl e \<Rightarrow> e = Wrapped ''partition 1: '' (ErrExternal ''timeout'') | Inr _ \<Rightarrow> False"
  by code_simp+


section \<open>A chaos worker\<close>

text \<open>
  \<^verbatim>\<open>runWorker\<close> of \<^verbatim>\<open>cmd/chaos/main.go\<close>, around the worker's \<^verbatim>\<open>Run\<close>: \<open>run\<close> takes the
  opened backend and the client for the keys outside the queue, and gives the backend when the
  run is over and what \<^verbatim>\<open>Run\<close> returned.
\<close>

definition openBackend ::
  "'r redis \<Rightarrow> (bool \<Rightarrow> err option) \<Rightarrow> chaos_options_record \<Rightarrow> clients \<Rightarrow> (nat \<Rightarrow> 'r store) \<Rightarrow>
   clients \<times> (nat \<Rightarrow> 'r store) \<times> (err + 'r opened \<times> Config list)" where
  [go_defs]: "openBackend R Z opts = Open R Z (opTarget opts) (opPrefix opts) (10 * second)"

definition run_result :: "err option \<Rightarrow> err option" where
  [go_defs]: "run_result e = (case e of None \<Rightarrow> None | Some x \<Rightarrow> if \<not> errors_Is x ErrCanceled then Some x else None)"

definition runWorker ::
  "'r redis \<Rightarrow> codec \<Rightarrow> nat list \<Rightarrow> (bool \<Rightarrow> err option) \<Rightarrow> ('r opened \<Rightarrow> nat \<Rightarrow> 'r opened \<times> err option) \<Rightarrow>
   chaos_options_record \<Rightarrow> clients \<Rightarrow> (nat \<Rightarrow> 'r store) \<Rightarrow> clients \<times> err option" where
  [go_defs]: "runWorker R C sched Z run opts cs world =
     (case openBackend R Z opts cs world of
        (cs1, _, Inl e) \<Rightarrow> (cs1, Some e)
      | (cs1, _, Inr (b, _)) \<Rightarrow>
          (case NewClient cs1 of (cs2, rdb) \<Rightarrow>
           case run b rdb of (b', e) \<Rightarrow>
             (fst (Backend_Close R C sched Z b' cs2), run_result e)))"

text \<open>
  A chaos worker closes its queue however it ends: when the queue opened, the only client left open is the one
  for the downstream, which lasts as long as the process, and the worker reports what its run
  returned except a cancellation; when the queue did not open, no client is left and the
  worker reports why.
\<close>

theorem runWorker_closes:
  assumes "\<And>b k. own (fst (run b k)) = own b"
    and "Open R Z (opTarget opts) (opPrefix opts) (10 * second) cs world = (cs1, world1, r)"
    and "runWorker R C sched Z run opts cs world = (cs', e)"
  shows "case r of
      Inl x \<Rightarrow> open_clients cs' = open_clients cs \<and> e = Some x
    | Inr (b, configs) \<Rightarrow> open_clients cs' = insert (length cs1) (open_clients cs) \<and>
        (e = None \<longleftrightarrow> (case snd (run b (length cs1)) of None \<Rightarrow> True | Some x \<Rightarrow> errors_Is x ErrCanceled))"
proof -
  show ?thesis
  proof (cases r)
    case (Inl x)
    with assms(2,3) Open_clients [OF assms(2)] show ?thesis by (simp add: runWorker_def openBackend_def)
  next
    case (Inr bc)
    obtain b configs where r: "r = Inr (b, configs)" using Inr by (cases bc) simp
    obtain b' x where run: "run b (length cs1) = (b', x)" by fastforce
    have own: "own b' = own b" using assms(1) [of b "length cs1"] by (simp add: run)
    have "length cs1 \<notin> own b"
      using Open_clients [OF assms(2)] by (auto simp: r open_clients_def)
    then have "open_clients cs' = insert (length cs1) (open_clients cs)"
      using assms(2,3) Open_clients [OF assms(2)] Backend_Close_clients [of R C sched Z b' "cs1 @ [True]"]
      by (auto simp: runWorker_def openBackend_def r run own NewClient_def) (auto simp: open_clients_def)
    moreover have "e = None \<longleftrightarrow> (case snd (run b (length cs1)) of None \<Rightarrow> True | Some x \<Rightarrow> errors_Is x ErrCanceled)"
      using assms(2,3) by (auto simp: runWorker_def openBackend_def run_result_def r run NewClient_def split: option.splits if_splits)
    ultimately show ?thesis by (simp add: r)
  qed
qed

end
