(* ===== verification/Startup.thy ===== *)
theory Startup
  imports Demos
begin

text \<open>
  How the parts are put together before anything runs: the options of \<^verbatim>\<open>queue.New\<close>
  (\<^verbatim>\<open>queue/queue.go\<close>), the worker of \<^verbatim>\<open>cmd/worker-demo\<close>, and \<^verbatim>\<open>Setup\<close> in
  \<^verbatim>\<open>internal/telemetry\<close>. Exporters, resources and tracer providers belong to OpenTelemetry:
  their constructors are arguments.
\<close>

section \<open>Queue options\<close>

record ('b, 'm) queue_fields =
  fBackend :: 'b
  fMetrics :: 'm
  fNow :: "nat \<Rightarrow> int"

type_synonym ('b, 'm) QueueOption = "('b, 'm) queue_fields \<Rightarrow> ('b, 'm) queue_fields"

definition WithMetrics :: "'m option \<Rightarrow> ('b, 'm) QueueOption" where
  [go_defs]: "WithMetrics metrics q = (case metrics of None \<Rightarrow> q | Some m \<Rightarrow> q\<lparr>fMetrics := m\<rparr>)"

definition WithClock :: "(nat \<Rightarrow> int) option \<Rightarrow> ('b, 'm) QueueOption" where
  [go_defs]: "WithClock now q = (case now of None \<Rightarrow> q | Some f \<Rightarrow> q\<lparr>fNow := f\<rparr>)"

text \<open>\<open>noop\<close> is \<^verbatim>\<open>NoopMetrics{}\<close> and \<open>time_Now\<close> the successive readings of the system clock.\<close>

definition Queue_New :: "'m \<Rightarrow> (nat \<Rightarrow> int) \<Rightarrow> 'b \<Rightarrow> ('b, 'm) QueueOption list \<Rightarrow> ('b, 'm) queue_fields" where
  [go_defs]: "Queue_New noop time_Now backend opts =
     fold (\<lambda>opt q. opt q) opts \<lparr>fBackend = backend, fMetrics = noop, fNow = time_Now\<rparr>"

text \<open>The options a caller can write, and the last metrics or clock among them that is not nil.\<close>

datatype 'm queue_option = Metrics "'m option" | Clock "(nat \<Rightarrow> int) option"

fun option_fun :: "'m queue_option \<Rightarrow> ('b, 'm) QueueOption" where
  "option_fun (Metrics m) = WithMetrics m"
| "option_fun (Clock f) = WithClock f"

fun metrics_given :: "'m queue_option \<Rightarrow> 'm list" where
  "metrics_given (Metrics (Some m)) = [m]"
| "metrics_given _ = []"

fun clock_given :: "'m queue_option \<Rightarrow> (nat \<Rightarrow> int) list" where
  "clock_given (Clock (Some f)) = [f]"
| "clock_given _ = []"

lemma option_fun_fields:
  "option_fun opt q = \<lparr>fBackend = fBackend q, fMetrics = last (fMetrics q # metrics_given opt), fNow = last (fNow q # clock_given opt)\<rparr>"
  by (cases opt rule: option_fun.cases) (auto simp: WithMetrics_def WithClock_def split: option.split)

text \<open>
  A queue always has a backend, metrics and a clock: each is the last one given that is not
  nil, whatever other options come between, and the default if there is none.
\<close>

theorem Queue_New_fields:
  "Queue_New noop time_Now backend (map option_fun opts) =
     \<lparr>fBackend = backend, fMetrics = last (noop # concat (map metrics_given opts)), fNow = last (time_Now # concat (map clock_given opts))\<rparr>"
proof -
  have "fold (\<lambda>opt q. opt q) (map option_fun opts) q =
     \<lparr>fBackend = fBackend q, fMetrics = last (fMetrics q # concat (map metrics_given opts)), fNow = last (fNow q # concat (map clock_given opts))\<rparr>"
    for q :: "('a, 'b) queue_fields"
    by (induction opts arbitrary: q) (simp_all add: option_fun_fields last_append)
  then show ?thesis by (simp add: Queue_New_def)
qed

section \<open>The demo worker\<close>

definition worker_demo_config :: "string \<Rightarrow> int \<Rightarrow> int \<Rightarrow> WorkerConfig" where
  [go_defs]: "worker_demo_config wid concurrency visibility =
     \<lparr>wcID = wid, Concurrency = concurrency, PollInterval = 250 * millisecond, PollOnly = False, VisibilityTimeout = visibility,
      HeartbeatInterval = 0, ShutdownTimeout = 0, MaxDeliveries = 0, StatsInterval = 0, wcRetryPolicy = DefaultRetryPolicy\<rparr>"

text \<open>
  The demo worker renews its leases in time: for every visibility timeout of at least 3
  nanoseconds it heartbeats at a positive interval, three of which fit into the timeout, it
  gives running jobs that long to finish, and its delays are those of the default policy; a
  timeout that is not positive is replaced by 30 seconds.
\<close>

theorem worker_demo_heartbeats:
  fixes wid :: string and concurrency visibility :: int
  defines "c \<equiv> NewWorker (worker_demo_config wid concurrency visibility)"
  shows "VisibilityTimeout c = (if visibility \<le> 0 then 30 * second else visibility) \<and>
    3 * HeartbeatInterval c \<le> VisibilityTimeout c \<and> (0 < HeartbeatInterval c \<longleftrightarrow> 3 \<le> VisibilityTimeout c) \<and>
    ShutdownTimeout c = VisibilityTimeout c \<and> 1 \<le> Concurrency c \<and> MaxDeliveries c = 5 \<and> wcRetryPolicy c = DefaultRetryPolicy"
proof -
  have "3 * (v div 3) \<le> v \<and> (0 < v div 3 \<longleftrightarrow> 3 \<le> v)" for v :: int by presburger
  then show ?thesis by (simp add: c_def NewWorker_def worker_demo_config_def Let_def DefaultRetryPolicy_def second_def)
qed

section \<open>Tracing set-up\<close>

record 'tp otel =
  oPropagator :: bool
  oProvider :: "'tp option"

text \<open>
  \<^verbatim>\<open>Setup\<close> returns the shutdown function: that of the provider, or (\<^term>\<open>None\<close>) one that does nothing.
\<close>

definition Setup ::
  "(string \<Rightarrow> string) \<Rightarrow> err + 'e \<Rightarrow> (string \<Rightarrow> err + 'res) \<Rightarrow> ('e \<Rightarrow> 'res \<Rightarrow> 'tp) \<Rightarrow> string \<Rightarrow> 'tp otel \<Rightarrow> 'tp otel \<times> (err + 'tp option)" where
  [go_defs]: "Setup Getenv newExporter mergeResource newProvider service g0 =
     (let g = g0\<lparr>oPropagator := True\<rparr>
      in if Getenv ''OTEL_EXPORTER_OTLP_ENDPOINT'' = [] \<and> Getenv ''OTEL_EXPORTER_OTLP_TRACES_ENDPOINT'' = [] then (g, Inr None)
         else case newExporter of
                Inl e \<Rightarrow> (g, Inl e)
              | Inr exporter \<Rightarrow>
                  (case mergeResource service of
                     Inl e \<Rightarrow> (g, Inl e)
                   | Inr res \<Rightarrow> (let tp = newProvider exporter res in (g\<lparr>oProvider := Some tp\<rparr>, Inr (Some tp)))))"

text \<open>
  Trace contexts are propagated whatever happens; a provider is installed exactly when an
  endpoint is configured and nothing fails, and then it is the one the caller shuts down;
  without an endpoint tracing stays off and the exporter is not consulted, so set-up cannot fail.
\<close>

theorem Setup_exact:
  assumes "Setup Getenv newExporter mergeResource newProvider service g = (g', r)"
  defines "endpoint \<equiv> Getenv ''OTEL_EXPORTER_OTLP_ENDPOINT'' \<noteq> [] \<or> Getenv ''OTEL_EXPORTER_OTLP_TRACES_ENDPOINT'' \<noteq> []"
  shows "oPropagator g' \<and> (endpoint \<or> r = Inr None) \<and>
    (case r of Inr (Some tp) \<Rightarrow> endpoint \<and> oProvider g' = Some tp | _ \<Rightarrow> oProvider g' = oProvider g) \<and>
    (r = Inr None \<longrightarrow> \<not> endpoint)"
  using assms by (auto simp: Setup_def Let_def split: if_splits sum.splits)

end
