(* ===== verification/ChaosPrint.thy ===== *)
theory ChaosPrint
  imports ChaosControl
begin

text \<open>
  The rest of the controller in \<^verbatim>\<open>cmd/chaos/main.go\<close>: the wait for the queue to drain, the
  jitter of the faults, the counter of lost leases, and the texts of the report and of the
  pending deliveries, as lists of lines. Durations are given as the strings they print as.
\<close>

section \<open>Waiting for the queue to drain\<close>

text \<open>
  Each iteration reads the statistics and, unless the queue has drained, the clock and the
  context; the list has what the iterations see. The result is what is left of it when the loop
  ends, and \<^term>\<open>None\<close> if the loop is still going.
\<close>

fun wait_drained :: "int \<Rightarrow> ((err + Stats) \<times> int \<times> bool) list \<Rightarrow> ((err + Stats) \<times> int \<times> bool) list option" where
  "wait_drained deadline [] = None"
| "wait_drained deadline ((stats, now, cancelled) # obs) =
     (if \<not> drained stats \<and> now < deadline \<and> \<not> cancelled then wait_drained deadline obs else Some obs)"

text \<open>
  The wait ends in time: it goes on exactly as long as no reading shows the queue drained, the
  deadline reached or the run interrupted, so it ends with the first reading at or past the
  deadline at the latest.
\<close>

theorem wait_drained_ends:
  "wait_drained deadline obs = None \<longleftrightarrow> (\<forall>(stats, now, cancelled) \<in> set obs. \<not> drained stats \<and> now < deadline \<and> \<not> cancelled)"
  by (induction deadline obs rule: wait_drained.induct) auto

section \<open>Jitter\<close>

text \<open>\<open>fl\<close> rounds to a floating-point number and \<open>r\<close> is the random number.\<close>

definition jitter :: "(rat \<Rightarrow> rat) \<Rightarrow> rat \<Rightarrow> int \<Rightarrow> int" where
  [go_defs]: "jitter fl r mean = trunc_rat (fl (fl (1 / 2 + r) * fl (rat_of_int mean)))"

lemma floor_half: "\<lfloor>rat_of_int m / 2\<rfloor> = m div 2"
  using floor_divide_of_int_eq [of m 2, where ?'a = rat] by simp

text \<open>Without rounding errors the jitter is what its comment says, truncated to nanoseconds.\<close>

theorem jitter_bounds:
  assumes "0 \<le> r" "r < 1" "0 < mean"
  shows "mean div 2 \<le> jitter id r mean \<and> 2 * jitter id r mean < 3 * mean"
proof -
  let ?x = "(1 / 2 + r) * rat_of_int mean"
  have pos: "0 \<le> ?x" using assms by simp
  then have j: "jitter id r mean = \<lfloor>?x\<rfloor>" by (simp add: jitter_def trunc_rat_def)
  have "rat_of_int mean / 2 \<le> ?x" using assms by (simp add: field_simps)
  from floor_mono [OF this] have "mean div 2 \<le> \<lfloor>?x\<rfloor>" by (simp only: floor_half)
  moreover have "?x < 3 / 2 * rat_of_int mean" using assms by (intro mult_strict_right_mono) simp_all
  with of_int_floor_le [of ?x] have "rat_of_int \<lfloor>?x\<rfloor> < 3 / 2 * rat_of_int mean" by (rule le_less_trans)
  then have "rat_of_int (2 * \<lfloor>?x\<rfloor>) < rat_of_int (3 * mean)" by simp
  then have "2 * \<lfloor>?x\<rfloor> < 3 * mean" by (simp only: of_int_less_iff)
  ultimately show ?thesis by (simp add: j)
qed

text \<open>
  With doubles the upper end can be reached: the largest number \<^verbatim>\<open>Float64\<close> returns is
  \<open>1 - 1 / 2 ^ 53\<close>, and adding a half to it rounds to \<open>3 / 2\<close>, the neighbour with the even
  significand.
\<close>

theorem jitter_upper_end:
  assumes "fl (3 / 2 - 1 / 2 ^ 53) = 3 / 2" "fl 2 = 2" "fl 3 = 3"
  shows "2 * jitter fl (1 - 1 / 2 ^ 53) 2 = 3 * 2"
proof -
  have "1 / 2 + (1 - 1 / 2 ^ 53) = (3 / 2 - 1 / 2 ^ 53 :: rat)" by simp
  then show ?thesis by (simp only: jitter_def assms) (simp add: assms trunc_rat_def)
qed

section \<open>Lost leases\<close>

text \<open>The worker's metrics: of the events only a lost lease counts; \<open>incr\<close> is the Redis command.\<close>

fun leaseLostCounter :: "(string \<Rightarrow> 's \<Rightarrow> 's) \<Rightarrow> string \<Rightarrow> event \<Rightarrow> 's \<Rightarrow> 's" where
  "leaseLostCounter incr key (JobLeaseLost j) s = incr key s"
| "leaseLostCounter incr key _ s = s"

definition leaseLostKey :: "string \<Rightarrow> string" where
  [go_defs]: "leaseLostKey prefix = prefix @ ''lease-lost''"

fun is_lease_lost :: "event \<Rightarrow> bool" where
  "is_lease_lost (JobLeaseLost j) \<longleftrightarrow> True"
| "is_lease_lost _ \<longleftrightarrow> False"

theorem leaseLostCounter_counts:
  assumes "\<And>s. get (incr (leaseLostKey prefix) s) = get s + (1 :: int)"
  shows "get (fold (leaseLostCounter incr (leaseLostKey prefix)) evs s) = get s + int (length (filter is_lease_lost evs))"
proof (induction evs arbitrary: s)
  case (Cons e evs)
  then show ?case by (cases e) (simp_all add: assms)
qed simp

section \<open>The printed report\<close>

text \<open>\<^verbatim>\<open>%-34s\<close>, \<^verbatim>\<open>%7d\<close> and \<^verbatim>\<open>%v\<close> of a slice of integers.\<close>

definition padRight :: "nat \<Rightarrow> string \<Rightarrow> string" where
  "padRight w s = s @ replicate (w - length s) CHR '' ''"

definition padLeft :: "nat \<Rightarrow> string \<Rightarrow> string" where
  "padLeft w s = replicate (w - length s) CHR '' '' @ s"

definition row :: "string \<Rightarrow> int \<Rightarrow> string \<Rightarrow> string" where
  "row label n rest = ''  '' @ padRight 34 label @ '' '' @ padLeft 7 (itoa n) @ rest"

fun spaced :: "int list \<Rightarrow> string" where
  "spaced [] = []"
| "spaced [n] = itoa n"
| "spaced (n # ns) = itoa n @ '' '' @ spaced ns"

definition format_ints :: "int list \<Rightarrow> string" where
  "format_ints ns = ''['' @ spaced ns @ '']''"

definition ok :: "bool \<Rightarrow> string" where
  [go_defs]: "ok good = (if good then ''ok'' else ''FAIL'')"

text \<open>A figure that is checked: its label, the number, whether it is good, and what follows the verdict.\<close>

type_synonym check = "string \<times> int \<times> bool \<times> string"

definition check_row :: "check \<Rightarrow> string" where
  "check_row = (\<lambda>(label, n, good, rest). row label n (''  '' @ ok good @ rest))"

definition checks :: "summary \<Rightarrow> Stats \<Rightarrow> int \<Rightarrow> int list \<Rightarrow> int list \<Rightarrow> check list" where
  [go_defs]: "checks s st left dup missing =
     [(''lost'', int (length (sLost s)), length (sLost s) = 0, []),
      (''permanent failures misrouted'', int (length (sMisrouted s)), length (sMisrouted s) = 0, []),
      (''left in queue'', left, left = 0,
        '' (stream '' @ itoa (StreamLength st) @ '', pending '' @ itoa (InFlight st) @ '', scheduled '' @ itoa (RetryScheduled st) @ '')''),
      (''jobs with duplicate side effects'', int (length dup), length dup = 0, []),
      (''jobs missing their effect'', int (length missing), length missing = 0, [])]"

text \<open>
  The consumers of all partitions, each name once; a partition that cannot be read has none.
  \<open>outcomes\<close> are the downstream's counters.
\<close>

definition consumers_left :: "(err + string list) list \<Rightarrow> string list" where
  [go_defs]: "consumers_left infos = remdups (concat (map (\<lambda>r. case r of Inl e \<Rightarrow> [] | Inr names \<Rightarrow> names) infos))"

definition outcome_count :: "(string \<Rightarrow> string option) \<Rightarrow> string \<Rightarrow> int" where
  [go_defs]: "outcome_count outcomes k = Atoi_value (value_or_empty outcomes k)"

text \<open>\<^verbatim>\<open>(jobs+6)/10\<close>, which truncates toward zero.\<close>

definition retried_figure :: "int \<Rightarrow> int" where
  [go_defs]: "retried_figure jobs = (let n = wrap64 (jobs + 6) in if n < 0 then - ((- n) div 10) else n div 10)"

lemma retried_figure_exact:
  assumes "0 \<le> jobs" "jobs + 6 < 2 ^ 63"
  shows "retried_figure jobs = int (length (filter retried (job_range jobs)))"
  using assms by (simp add: retried_figure_def retried_count is_int64_def Let_def)

record figures =
  fgKills :: int
  fgPauses :: int
  fgElapsed :: string
  fgJobs :: int
  fgReasons :: "string list"
  fgStats :: Stats
  fgOutcomes :: "string \<Rightarrow> string option"
  fgLeaseLost :: int
  fgConsumers :: "(err + string list) list"
  fgCrashed :: "string list"

text \<open>\<open>fgReasons\<close> are the reasons of the other dead letters in the order the map is ranged over.\<close>

definition report_lines :: "figures \<Rightarrow> summary \<Rightarrow> int \<Rightarrow> int list \<Rightarrow> int list \<Rightarrow> string list" where
  [go_defs]: "report_lines f s left dup missing =
     [''  faults injected: '' @ itoa (fgKills f) @ '' SIGKILLs, '' @ itoa (fgPauses f) @ '' SIGSTOP pauses, elapsed '' @ fgElapsed f, [],
      row ''jobs enqueued'' (fgJobs f) (''  ('' @ itoa (retried_figure (fgJobs f)) @ '' enqueues retried and deduped)''),
      row ''completed'' (sCompleted s) [],
      row ''dead-lettered (permanent failures)'' (sDeadExpected s) []] @
     map (\<lambda>reason. row ''dead-lettered (poison guard etc.)'' (sOtherDead s reason) (''  '' @ reason)) (fgReasons f) @
     map check_row (checks s (fgStats f) left dup missing) @
     [[], ''  at-least-once delivery, absorbed downstream:'',
      row ''duplicate runs'' (sDuplicates s) ''  crashed or paused between side effect and ack'',
      row ''jobs with overlapping runs'' (sOverlapping s) ''  ran concurrently; only paused zombies should do this'',
      row ''effects deduped by job ID'' (outcome_count (fgOutcomes f) ''deduped'') ''  same job ID applied again'',
      row ''effects rejected by fencing'' (outcome_count (fgOutcomes f) ''fenced'') ''  stale fencing token'',
      row ''zombie queue updates rejected'' (fgLeaseLost f) ''  stale results fenced off by lease checks'',
      row ''consumers left in group'' (int (length (consumers_left (fgConsumers f)))) ''  killed workers not yet pruned''] @
     map (\<lambda>crash. ''  worker exited unexpectedly: '' @ crash) (fgCrashed f) @
     (if length (sLost s) > 0 then [[], ''  first lost jobs (payload n): '' @ format_ints (take 5 (sLost s))] else []) @
     (if length dup > 0 then [''  first jobs with duplicate effects (payload n): '' @ format_ints (take 5 dup)] else []) @
     [[], if report_failed s left (fgCrashed f) dup missing then ''FAIL'' else ''PASS'']"

text \<open>
  The report says why it failed: with a queue length that is not negative, the last line reads
  \<^verbatim>\<open>FAIL\<close>, otherwise \<^verbatim>\<open>PASS\<close>, and it reads \<^verbatim>\<open>FAIL\<close> exactly when one of the checked figures is
  marked so or a line names a worker that exited; every checked figure and every such worker is
  printed, and each dead letter's reason.
\<close>

theorem report_explains_verdict:
  fixes f :: figures and s :: summary and dup missing :: "int list"
  assumes "0 \<le> left"
  defines "ls \<equiv> report_lines f s left dup missing" and "cs \<equiv> checks s (fgStats f) left dup missing"
  shows "(last ls = ''FAIL'' \<longleftrightarrow> (\<exists>(label, n, good, rest) \<in> set cs. \<not> good) \<or> fgCrashed f \<noteq> []) \<and> last ls \<in> {''PASS'', ''FAIL''} \<and>
    check_row ` set cs \<subseteq> set ls \<and> (\<lambda>crash. ''  worker exited unexpectedly: '' @ crash) ` set (fgCrashed f) \<subseteq> set ls \<and>
    (\<lambda>reason. row ''dead-lettered (poison guard etc.)'' (sOtherDead s reason) (''  '' @ reason)) ` set (fgReasons f) \<subseteq> set ls"
proof -
  have "last ls = (if report_failed s left (fgCrashed f) dup missing then ''FAIL'' else ''PASS'')"
    by (simp add: ls_def report_lines_def)
  moreover have "report_failed s left (fgCrashed f) dup missing \<longleftrightarrow> (\<exists>(label, n, good, rest) \<in> set cs. \<not> good) \<or> fgCrashed f \<noteq> []"
    using assms(1) by (auto simp: report_failed_def cs_def checks_def)
  moreover have "check_row ` set cs \<subseteq> set ls" "(\<lambda>crash. ''  worker exited unexpectedly: '' @ crash) ` set (fgCrashed f) \<subseteq> set ls"
    "(\<lambda>reason. row ''dead-lettered (poison guard etc.)'' (sOtherDead s reason) (''  '' @ reason)) ` set (fgReasons f) \<subseteq> set ls"
    unfolding ls_def cs_def report_lines_def by (simp_all only: set_append set_map) blast+
  ultimately show ?thesis by auto
qed

section \<open>Pending deliveries\<close>

record pendingExt =
  peID :: string
  peConsumer :: string
  peIdle :: string
  peRetryCount :: int

fun collect_pending :: "(err + pendingExt list) list \<Rightarrow> err + pendingExt list" where
  "collect_pending [] = Inr []"
| "collect_pending (Inl e # parts) = Inl e"
| "collect_pending (Inr got # parts) = map_sum id ((@) got) (collect_pending parts)"

definition pending_line :: "string set \<Rightarrow> pendingExt \<Rightarrow> string" where
  "pending_line live p =
     ''    '' @ peID p @ '' owner='' @ peConsumer p @ '' (alive: '' @ format_bool (peConsumer p \<in> live) @ '') idle='' @ peIdle p @
     '' deliveries='' @ itoa (peRetryCount p)"

definition printPending :: "(err + pendingExt list) list \<Rightarrow> controller \<Rightarrow> string list" where
  [go_defs]: "printPending parts c =
     (case collect_pending parts of
        Inl e \<Rightarrow> [''  xpending: '' @ Error e]
      | Inr pending \<Rightarrow> [[], ''  unsettled deliveries:''] @ map (pending_line (worker_id ` set (cProcs c))) pending)"

text \<open>All deliveries of all partitions are listed, in order, or just the first error.\<close>

theorem printPending_lists:
  "printPending (map Inr ps) c = [[], ''  unsettled deliveries:''] @ map (pending_line (worker_id ` set (cProcs c))) (concat ps)"
  "printPending (map Inr ps @ Inl e # rest) c = [''  xpending: '' @ Error e]"
proof -
  have "collect_pending (map Inr ps) = Inr (concat ps)" "collect_pending (map Inr ps @ Inl e # rest) = Inl e"
    by (induction ps) simp_all
  then show "printPending (map Inr ps) c = [[], ''  unsettled deliveries:''] @ map (pending_line (worker_id ` set (cProcs c))) (concat ps)"
    "printPending (map Inr ps @ Inl e # rest) c = [''  xpending: '' @ Error e]"
    by (simp_all add: printPending_def)
qed

end
