(* ===== verification/PrettyLog.thy ===== *)
theory PrettyLog
  imports Prelude
begin

text \<open>
  \<^verbatim>\<open>internal/prettylog\<close>: the handler that writes log records and hands its attributes on to
  derived handlers. The attributes are a Go slice, so the model keeps the arrays behind slices
  in an explicit store: \<^verbatim>\<open>append\<close> writes into the array it is given when that has room, and
  allocates a new one otherwise. \<open>grow\<close> is the capacity the runtime chooses for a length.
  Attribute values and the time and level of a record are given as the strings they print as.
\<close>

section \<open>Slices\<close>

type_synonym attr = "string \<times> string"

record slice =
  sArr :: nat
  sLen :: nat
  sCap :: nat

record arrays =
  aCells :: "nat \<Rightarrow> attr list"
  aNext :: nat

definition contents :: "slice \<Rightarrow> arrays \<Rightarrow> attr list" where
  "contents s m = take (sLen s) (aCells m (sArr s))"

definition make_slice :: "attr list \<Rightarrow> arrays \<Rightarrow> slice \<times> arrays" where
  "make_slice xs m =
     (\<lparr>sArr = aNext m, sLen = length xs, sCap = length xs\<rparr>, m\<lparr>aCells := (aCells m)(aNext m := xs), aNext := Suc (aNext m)\<rparr>)"

definition append_slice :: "(nat \<Rightarrow> nat) \<Rightarrow> slice \<Rightarrow> attr \<Rightarrow> arrays \<Rightarrow> slice \<times> arrays" where
  "append_slice grow s a m =
     (if sLen s < sCap s then
        (s\<lparr>sLen := Suc (sLen s)\<rparr>, m\<lparr>aCells := (aCells m)(sArr s := (aCells m (sArr s))[sLen s := a])\<rparr>)
      else
        (let n = max (Suc (sLen s)) (grow (Suc (sLen s)))
         in (\<lparr>sArr = aNext m, sLen = Suc (sLen s), sCap = n\<rparr>,
             m\<lparr>aCells := (aCells m)(aNext m := contents s m @ a # replicate (n - Suc (sLen s)) ([], [])), aNext := Suc (aNext m)\<rparr>)))"

text \<open>A slice that points into an allocated array of its capacity.\<close>

definition slice_ok :: "arrays \<Rightarrow> slice \<Rightarrow> bool" where
  "slice_ok m s \<longleftrightarrow> sArr s < aNext m \<and> length (aCells m (sArr s)) = sCap s \<and> sLen s \<le> sCap s"

section \<open>The handler\<close>

text \<open>A handler is its slice of attributes. A new one has none, and no array that could be shared.\<close>

record log_record =
  lTime :: string
  lLevel :: string
  lMessage :: string
  lAttrs :: "attr list"

definition NewHandler :: "arrays \<Rightarrow> slice \<times> arrays" where
  [go_defs]: "NewHandler m = make_slice [] m"

definition pad5 :: "string \<Rightarrow> string" where
  "pad5 s = s @ replicate (5 - length s) CHR '' ''"

definition format_attr :: "attr \<Rightarrow> string" where
  "format_attr = (\<lambda>(k, v). ''  '' @ k @ ''='' @ v)"

definition Handle :: "slice \<Rightarrow> log_record \<Rightarrow> arrays \<Rightarrow> string" where
  [go_defs]: "Handle h r m =
     lTime r @ '' '' @ pad5 (lLevel r) @ '' '' @ lMessage r @ concat (map format_attr (contents h m)) @ concat (map format_attr (lAttrs r)) @
     [CHR 0x0A]"

definition WithAttrs :: "slice \<Rightarrow> attr list \<Rightarrow> arrays \<Rightarrow> slice \<times> arrays" where
  [go_defs]: "WithAttrs h attrs m = make_slice (contents h m @ attrs) m"

definition WithGroup :: "(nat \<Rightarrow> nat) \<Rightarrow> slice \<Rightarrow> string \<Rightarrow> arrays \<Rightarrow> slice \<times> arrays" where
  [go_defs]: "WithGroup grow h name m = append_slice grow h (''group'', name) m"

section \<open>Derived handlers\<close>

lemma contents_length: "slice_ok m s \<Longrightarrow> length (contents s m) = sLen s"
  by (simp add: slice_ok_def contents_def)

text \<open>
  Deriving a handler gives it the parent's attributes followed by its own, and neither
  \<^verbatim>\<open>WithAttrs\<close> nor, for a parent without spare capacity, \<^verbatim>\<open>WithGroup\<close> changes what any
  existing handler prints.
\<close>

theorem derived_attributes:
  assumes "slice_ok m h" "slice_ok m g"
  shows "(case WithAttrs h attrs m of (h', m') \<Rightarrow> slice_ok m' h' \<and> contents h' m' = contents h m @ attrs \<and> Handle g r m' = Handle g r m) \<and>
    (case WithGroup grow h name m of (h', m') \<Rightarrow> slice_ok m' h' \<and> contents h' m' = contents h m @ [(''group'', name)] \<and>
       (sLen h = sCap h \<longrightarrow> Handle g r m' = Handle g r m))"
proof
  have fresh: "contents g (m\<lparr>aCells := (aCells m)(aNext m := xs), aNext := k\<rparr>) = contents g m" for xs k
    using assms(2) by (simp add: contents_def slice_ok_def)
  show "case WithAttrs h attrs m of (h', m') \<Rightarrow> slice_ok m' h' \<and> contents h' m' = contents h m @ attrs \<and> Handle g r m' = Handle g r m"
    by (simp add: WithAttrs_def make_slice_def slice_ok_def Handle_def fresh) (simp add: contents_def [of "\<lparr>sArr = _, sLen = _, sCap = _\<rparr>"])
  show "case WithGroup grow h name m of (h', m') \<Rightarrow> slice_ok m' h' \<and> contents h' m' = contents h m @ [(''group'', name)] \<and>
       (sLen h = sCap h \<longrightarrow> Handle g r m' = Handle g r m)"
  proof (cases "sLen h < sCap h")
    case True
    with assms(1) show ?thesis
      by (auto simp: WithGroup_def append_slice_def slice_ok_def contents_def take_Suc_conv_app_nth)
  next
    case False
    have len: "length (contents h m) = sLen h" by (rule contents_length [OF assms(1)])
    from False show ?thesis
      by (simp add: WithGroup_def append_slice_def Let_def slice_ok_def Handle_def fresh len)
        (simp add: contents_def [of "\<lparr>sArr = _, sLen = _, sCap = _\<rparr>"] len)
  qed
qed

text \<open>
  Two groups opened under the same handler can overwrite each other: \<^verbatim>\<open>WithGroup\<close> appends to
  the parent's slice in place, so when the runtime has left spare capacity there (four cells
  for three attributes), opening the group \<open>e\<close> under the handler that already has the child
  \<open>d\<close> changes what that child prints from group \<open>d\<close> to group \<open>e\<close>.
\<close>

theorem WithGroup_overwrites_sibling:
  "let grow = (\<lambda>n. if n = 3 then 4 else n);
       (h0, m0) = NewHandler \<lparr>aCells = (\<lambda>_. []), aNext = 0\<rparr>;
       (h1, m1) = WithGroup grow h0 ''a'' m0;
       (h2, m2) = WithGroup grow h1 ''b'' m1;
       (h3, m3) = WithGroup grow h2 ''c'' m2;
       (h4, m4) = WithGroup grow h3 ''d'' m3;
       (h5, m5) = WithGroup grow h3 ''e'' m4
   in contents h4 m4 = contents h3 m4 @ [(''group'', ''d'')] \<and> contents h4 m5 = contents h3 m5 @ [(''group'', ''e'')]"
  by code_simp

definition demo_arrays :: arrays where
  "demo_arrays = snd (NewHandler \<lparr>aCells = (\<lambda>_. []), aNext = 0\<rparr>)"

theorem derived_attributes_witness:
  "case WithAttrs \<lparr>sArr = 0, sLen = 0, sCap = 0\<rparr> [(''k'', ''v'')] demo_arrays of (h', m') \<Rightarrow> contents h' m' = [(''k'', ''v'')]"
proof -
  have "slice_ok demo_arrays \<lparr>sArr = 0, sLen = 0, sCap = 0\<rparr>"
    by (simp add: slice_ok_def demo_arrays_def NewHandler_def make_slice_def)
  from derived_attributes [OF this this, of "[(''k'', ''v'')]" "\<lparr>lTime = [], lLevel = [], lMessage = [], lAttrs = []\<rparr>"]
  show ?thesis by (auto simp: contents_def [of "\<lparr>sArr = 0, sLen = 0, sCap = 0\<rparr>"])
qed

end
