(* ===== verification/LogFormat.thy ===== *)
theory LogFormat
  imports PrettyLog "HOL-Library.Multiset"
begin

text \<open>
  \<^verbatim>\<open>Format\<close> of \<^verbatim>\<open>internal/prettylog\<close>: a line of JSON as a readable line. Decoding the trimmed
  line is a parameter; it gives the fields in the order the map is iterated, which Go leaves
  open. So are the clock time in a timestamp and how a value that is not a string is printed.
\<close>

datatype log_value = LString string | LOther string

record log_decoder =
  unmarshal_line :: "string \<Rightarrow> (string \<times> log_value) list option"
  clock_of :: "string \<Rightarrow> string option"

definition str_at :: "(string \<times> log_value) list \<Rightarrow> string \<Rightarrow> string option" where
  "str_at entry k = (case map_of entry k of Some (LString s) \<Rightarrow> Some s | _ \<Rightarrow> None)"

fun log_text :: "log_value \<Rightarrow> string" where
  "log_text (LString s) = s"
| "log_text (LOther s) = s"

definition skipped :: "string \<Rightarrow> bool" where
  "skipped k \<longleftrightarrow> k \<in> {''time'', ''level'', ''msg''}"

definition Format_head :: "log_decoder \<Rightarrow> (string \<times> log_value) list \<Rightarrow> string" where
  [go_defs]: "Format_head D entry =
     (case str_at entry ''time'' of
        Some ts \<Rightarrow> (case clock_of D ts of Some t \<Rightarrow> t @ '' '' | None \<Rightarrow> [])
      | None \<Rightarrow> []) @
     (case str_at entry ''level'' of Some l \<Rightarrow> pad5 l @ '' '' | None \<Rightarrow> []) @
     (case str_at entry ''msg'' of Some m \<Rightarrow> m | None \<Rightarrow> [])"

definition Format_fields :: "(string \<times> log_value) list \<Rightarrow> string list" where
  [go_defs]: "Format_fields entry = map (\<lambda>(k, v). format_attr (k, log_text v)) (filter (\<lambda>f. \<not> skipped (fst f)) entry)"

definition Format :: "log_decoder \<Rightarrow> string \<Rightarrow> string" where
  [go_defs]: "Format D line =
     (case unmarshal_line D line of
        None \<Rightarrow> line
      | Some entry \<Rightarrow> Format_head D entry @ concat (Format_fields entry))"

text \<open>
  Formatting a line does not depend on the order in which the map is iterated, but for the order
  of the fields: the head is the same, and the fields are printed once each, all but the three
  that are in the head. A line that is not a JSON object is passed on as it is, and a line with
  time, level and message and the attributes of a record is printed as the handler prints the
  record.
\<close>

theorem Format_order:
  assumes "unmarshal_line D line = Some e1" "unmarshal_line D' line = Some e2" "clock_of D' = clock_of D"
    and "mset e1 = mset e2" "distinct (map fst e1)"
  shows "\<exists>h fs gs. Format D line = h @ concat fs \<and> Format D' line = h @ concat gs \<and> mset fs = mset gs \<and>
    length fs = length (filter (\<lambda>f. \<not> skipped (fst f)) e1)"
proof -
  have "distinct (map fst e2)"
    using assms(4,5) by (metis mset_eq_imp_distinct_iff mset_map)
  moreover have "set e1 = set e2"
    using assms(4) by (metis set_mset_mset)
  ultimately have "map_of e1 = map_of e2"
    using assms(5) by (simp add: map_of_inject_set)
  then have "Format_head D e1 = Format_head D' e2"
    unfolding Format_head_def str_at_def assms(3) by simp
  moreover have "mset (Format_fields e1) = mset (Format_fields e2)"
    using assms(4) by (simp add: Format_fields_def mset_filter)
  ultimately show ?thesis
    using assms(1,2) by (intro exI [of _ "Format_head D e1"] exI [of _ "Format_fields e1"] exI [of _ "Format_fields e2"])
      (simp add: Format_def Format_fields_def)
qed

definition record_entry :: "string \<Rightarrow> log_record \<Rightarrow> (string \<times> log_value) list" where
  "record_entry ts r = [(''time'', LString ts), (''level'', LString (lLevel r)), (''msg'', LString (lMessage r))] @
     map (\<lambda>(k, v). (k, LString v)) (lAttrs r)"

lemma Format_like_handler:
  assumes "unmarshal_line D line = Some (record_entry ts r)" "clock_of D ts = Some (lTime r)"
    and "list_all (\<lambda>(k, v). \<not> skipped k) (lAttrs r)" "contents h m = []"
  shows "Format D line @ [CHR 0x0A] = Handle h r m"
proof -
  have "Format_fields (record_entry ts r) = map format_attr (lAttrs r)"
    using assms(3) by (auto simp: Format_fields_def record_entry_def skipped_def filter_map comp_def case_prod_beta list_all_iff
        filter_id_conv intro!: map_cong)
  moreover have "Format_head D (record_entry ts r) = lTime r @ '' '' @ pad5 (lLevel r) @ '' '' @ lMessage r"
    by (simp add: Format_head_def str_at_def record_entry_def assms(2))
  ultimately show ?thesis
    using assms(1,4) by (simp add: Format_def Handle_def)
qed

end
