(* ===== verification/Spec2Isabelle.thy ===== *)
theory Spec2Isabelle
  imports Progress ChaosVerdict GoJSON Tracing Sharding PromRegistry BenchRun Cleanup DemoRun Lifecycle Startup ChaosPrint LogFormat
begin

text \<open>
  A verification development for \<^verbatim>\<open>dist_tasks_go\<close>, a distributed task queue on Redis Streams.

  \<^bold>\<open>The program.\<close> Producers enqueue jobs through a \<^verbatim>\<open>Queue\<close>; workers claim them, run a
  handler and settle each delivery by an ack, a retry or a dead letter. The state is in Redis: a
  stream with a consumer group, a sorted set and a hash for scheduled jobs, a dead-letter
  stream and deduplication keys. Every change of a delivery is a Lua script that first checks
  that the caller still holds the lease (the consumer and the delivery count of the pending
  entry), so a worker whose lease expired and was taken over cannot settle. A sharded backend
  spreads the queue over partitions. Around this are Prometheus metrics, tracing, a
  fault-injection test with a downstream that turns at-least-once delivery into exactly-once
  effects, a benchmark and demos.

  \<^bold>\<open>The theories\<close>, each with the definitions of one part, translated from the file named, and its
  lemmas:

  \<^item> \<open>Prelude\<close>: 64-bit integers and their wrap-around, the parts of \<^verbatim>\<open>strconv\<close> in use,
    the error values of \<^verbatim>\<open>queue/errors.go\<close> with \<^verbatim>\<open>errors.Is\<close>, and lemmas on lists and maps.
  \<^item> \<open>Jobs\<close> (\<^verbatim>\<open>queue/job.go\<close>) and \<open>Retries\<close> (\<^verbatim>\<open>queue/retry.go\<close>): jobs, leases,
    fencing tokens on 64-bit words, and the backoff with its doubling loop.
  \<^item> \<open>Redis\<close>: the Redis commands the scripts use, as a record of functions on an opaque
    server \<open>'r\<close> with an abstraction \<open>view\<close> to streams, groups, sorted sets, hashes and
    strings; the locale \<open>redis_server\<close> states what the commands are documented to do.
    \<open>StreamState\<close> has the invariant of a stream and its group. \<open>RefServer\<close> interprets
    the locale on a concrete server, on which all witnesses are evaluated.
  \<^item> \<open>Scripts\<close> (\<^verbatim>\<open>redisstream/scripts.go\<close>): every Lua script; \<open>ScriptSpecs\<close>: what
    each does to the view. \<open>Delivery\<close>: the scripts as the steps of a state machine over the
    server and a ghost record of accepted and acked jobs and leases ever given, with its
    invariant; \<open>Fencing\<close>: which leases are current; \<open>Protocol\<close>: the guarantees.
  \<^item> \<open>Codec\<close> and \<open>Store\<close> (\<^verbatim>\<open>redisstream/store.go\<close>): fields of a job, parsing and
    quarantine, and every method of the store under an arbitrary network (each round trip is
    carried out, lost, or carried out without an answer). \<open>StoreSpecs\<close> and
    \<open>ClaimSpecs\<close>: the methods refine the protocol.
  \<^item> \<open>GoTime\<close> and \<open>GoJSON\<close>: the texts the store writes, RFC 3339 times and JSON objects,
    as Go's standard library prints and parses them. They meet the laws the store is proved
    against (\<open>codec_laws\<close>), with any server-side decoder that reads JSON.
  \<^item> \<open>Backend\<close> (\<^verbatim>\<open>queue/backend.go\<close>, \<^verbatim>\<open>queue/metrics.go\<close>): the backend interface as a
    record of operations, its contracts as the locales \<open>fenced_backend\<close> and
    \<open>leasing_backend\<close>, interpreted on the store and on the sharded backend.
  \<^item> \<open>Queue\<close> (\<^verbatim>\<open>queue/queue.go\<close>, the carrier of \<^verbatim>\<open>queue/tracing.go\<close>), \<open>Worker\<close> and
    \<open>WorkerRun\<close> (\<^verbatim>\<open>queue/worker.go\<close>): the producer's side, the handling of one job, and
    the run loop with its job, ack and heartbeat goroutines as a step relation.
    \<open>Tracing\<close> (\<^verbatim>\<open>queue/tracing.go\<close>): the same runs with their spans and outcomes.
  \<^item> \<open>System\<close>: any number of producers and workers on one server, as histories of the
    exported operations of \<^verbatim>\<open>redisstream/store.go\<close> and of runs of \<^verbatim>\<open>queue/worker.go\<close>.
    \<open>Progress\<close>: from every state of a history each job can still be completed.
    \<open>Integrity\<close>: what is delivered is what was enqueued.
  \<^item> \<open>Sharded\<close> (\<^verbatim>\<open>redisstream/sharded.go\<close>), with \<open>ShardedSpecs\<close> and \<open>Sharding\<close>:
    routing, batches split by partition, the long polls and their buffer. \<open>ConnTracker\<close>: the
    sockets of the polls, which \<^verbatim>\<open>Close\<close> cuts off.
  \<^item> \<open>PromMetrics\<close> (\<^verbatim>\<open>prommetrics/metrics.go\<close>): the callbacks, as the calls they make to
    the collectors, and the map of start times. \<open>PromRegistry\<close>: the collectors themselves,
    their registration, and that the callbacks use them as they were declared.
  \<^item> \<open>Downstream\<close> (\<^verbatim>\<open>cmd/chaos/downstream.go\<close>): the fence and the idempotent apply,
    refined to a ledger on maps. \<open>Chaos\<close>, \<open>ChaosReport\<close> and \<open>ChaosControl\<close>
    (\<^verbatim>\<open>cmd/chaos/main.go\<close>): the handler, the report's verdict, the enqueue loop and the
    management of worker processes. \<open>ExactlyOnce\<close>: a chaos run as a whole, the histories of
    \<open>System\<close> with the handlers taken apart into round trips to the downstream.
    \<open>ChaosVerdict\<close>: what such a run leaves behind is what the report accepts.
    \<open>ChaosPrint\<close>: the wait for the queue to drain, the jitter, the lease-lost counter and the
    printed report.
  \<^item> \<open>Tools\<close> and \<open>Cleanup\<close> (\<^verbatim>\<open>internal/redisutil\<close> and the command lines): the target, what
    it opens, and the visits to every node. \<open>Bench\<close>, \<open>BenchCmd\<close> and \<open>BenchRun\<close>
    (\<^verbatim>\<open>cmd/bench\<close>): the split of the backlog, the worker processes' settings and measured
    waits, and a throughput run as a step relation. \<open>Demos\<close> and \<open>DemoRun\<close>
    (\<^verbatim>\<open>examples/tasks\<close> and the demo commands). \<open>PrettyLog\<close> and \<open>LogFormat\<close>
    (\<^verbatim>\<open>internal/prettylog\<close>, with the arrays behind slices in a store).

  \<^item> \<open>Lifecycle\<close> (\<^verbatim>\<open>New\<close>, \<^verbatim>\<open>NewSharded\<close>, \<^verbatim>\<open>Open\<close> and their \<^verbatim>\<open>Close\<close>, \<^verbatim>\<open>runWorker\<close>): which
    Redis clients are open. \<open>Startup\<close>: the options of \<^verbatim>\<open>queue.New\<close>, the worker of
    \<^verbatim>\<open>cmd/worker-demo\<close>, and \<^verbatim>\<open>internal/telemetry\<close>.

  \<^bold>\<open>What is shown.\<close> Of the protocol: an accepted job is in exactly one place, the scripts let
  exactly the current holder settle, a superseded lease stays superseded, an acked job never
  comes back, recovery and promotion take what is due and nothing else. Of the code above it:
  store, worker and sharded backend change the server by protocol steps only and under any
  network; batches are equivalent to single calls; a stored job parses back; a run settles
  once and respects its limits; the worker never exceeds its concurrency and can always drain;
  traces report what happened. Of the whole: whatever fails or crashes, no job is lost, stored
  twice or stuck, at most one run of a job can still settle it, a worker is handed the data
  that was enqueued, and with the downstream the effect of every accepted job lands exactly
  once unless the job is still stored.
  Of the fault-injection test: the downstream applies each effect at most once and a
  successful run's exactly once, the verdict is exactly the documented guarantees, the
  controller's processes stay within their number, and every run whose queue drained passes.
  Of construction: opening and closing a queue leaks no client and closes none of another's. The theorems that carry a claim number are
  the main results; the others are library lemmas of the same kind.

  \<^bold>\<open>Bounds.\<close> The recovery script scans at most ten times, as in the source. Fencing tokens are
  exact for attempts below \<open>2 ^ 31\<close> and delivery counts below \<open>2 ^ 32\<close>; the downstream
  compares them as Lua numbers, exact below \<open>2 ^ 53\<close>, so attempts stay below \<open>2 ^ 21\<close>
  there. Counters of the downstream cannot overflow: an effect is counted at most once.

  \<^bold>\<open>Parameters.\<close> Redis itself with its JSON decoder, Go's layout-driven time parser, random numbers,
  clocks, floating-point rounding, trace propagation and the outcome of each round trip are
  arguments of the definitions. The partitions of a sharded queue live in different hash slots
  and are modelled as servers of their own.

  \<^bold>\<open>Not modelled.\<close> Dialling, flag registration, signals, timers, the start of processes, HTTP
  and log output in the commands; the benchmark's floating-point figures (jobs per second, share of a core)
  and its output; the set-up of a Redis for tests. These are calls into libraries whose effect the
  queue's state does not depend on.
\<close>

end
